(* ===== verification/Pw_Prelude.thy ===== *)
theory Pw_Prelude
  imports Main "HOL-Library.Word" "HOL-Library.Signed_Division"
begin

text \<open>
  What every component of the development shares: the machine integers of the program
  (\<^verbatim>\<open>uint32_t\<close>, \<^verbatim>\<open>uint64_t\<close> as words), its return codes and tuning constants
  (\<^verbatim>\<open>src/src/macro.hpp\<close>, \<^verbatim>\<open>src/src/format.hpp\<close>), the exceptions it throws, and the parts of
  the C and C++ standard library the sources use in several places: decimal and hexadecimal
  output, splitting at a separator, little-endian memory images of integers, and
  \<^verbatim>\<open>std::chrono::duration_cast\<close>.  The collections \<open>pw_defs\<close> (definitions a proof unfolds),
  \<open>pw_simps\<close> (rewrite rules) and \<open>pw_inv\<close> (preservation of invariants) carry the proofs of
  the component theories.
\<close>

unbundle bit_operations_syntax

named_theorems pw_defs \<open>definitions unfolded by the component proofs\<close>
named_theorems pw_simps \<open>rewrite rules of the component proofs\<close>
named_theorems pw_inv \<open>operations preserve the invariant of their component\<close>

section \<open>Types\<close>

type_synonym u8 = "8 word"
type_synonym u16 = "16 word"
type_synonym u32 = "32 word"
type_synonym u64 = "64 word"

text \<open>
  A \<^verbatim>\<open>std::chrono::time_point\<close> of either clock is a signed count of nanoseconds since the
  epoch of the clock.  The 64-bit count of a running machine stays far from its ends, so it
  is an integer here; its conversion to \<^verbatim>\<open>uint64_t\<close> is explicit where the code makes it.
\<close>

type_synonym time_point = int

text \<open>Memory images.\<close>

type_synonym bytes = "u8 list"

text \<open>The C++ exceptions the program throws, with the text given to their constructor.\<close>

datatype exn = Runtime_error string | Type_error

section \<open>Return codes\<close>

text \<open>The macros of \<^verbatim>\<open>macro.hpp\<close>: success is the integer one and failure is zero.\<close>

definition PINGWEAVE_SUCCESS :: int where "PINGWEAVE_SUCCESS = 1"
definition PINGWEAVE_FAILURE :: int where "PINGWEAVE_FAILURE = 0"

definition IS_SUCCESS :: "int \<Rightarrow> bool" where
  "IS_SUCCESS retval \<longleftrightarrow> retval = PINGWEAVE_SUCCESS"

definition IS_FAILURE :: "int \<Rightarrow> bool" where
  "IS_FAILURE retval \<longleftrightarrow> retval = PINGWEAVE_FAILURE"

lemma return_codes [simp]:
  "IS_SUCCESS PINGWEAVE_SUCCESS" "\<not> IS_SUCCESS PINGWEAVE_FAILURE"
  "IS_FAILURE PINGWEAVE_FAILURE" "\<not> IS_FAILURE PINGWEAVE_SUCCESS"
  "PINGWEAVE_SUCCESS \<noteq> PINGWEAVE_FAILURE" "PINGWEAVE_FAILURE \<noteq> PINGWEAVE_SUCCESS"
  by (simp_all add: IS_SUCCESS_def IS_FAILURE_def PINGWEAVE_SUCCESS_def PINGWEAVE_FAILURE_def)

section \<open>Constants\<close>

definition TARGET_PROTOCOLS :: "string list" where
  "TARGET_PROTOCOLS = [''ib'', ''roce'', ''tcp'', ''udp'']"

definition MESSAGE_SIZE :: nat where "MESSAGE_SIZE = 64"
definition MAX_NUM_HOSTS_IN_PINGLIST :: nat where "MAX_NUM_HOSTS_IN_PINGLIST = 10000"
definition NUM_BUFFER :: nat where "NUM_BUFFER = 256"
definition TX_DEPTH :: nat where "TX_DEPTH = 1"
definition RX_DEPTH :: nat where "RX_DEPTH = 1"
definition SERVICE_LEVEL :: nat where "SERVICE_LEVEL = 0"
definition BATCH_CQE :: nat where "BATCH_CQE = 16"
definition PINGWEAVE_REMOTE_QKEY :: u32 where "PINGWEAVE_REMOTE_QKEY = 0x72276001"
definition MSG_QUEUE_SIZE :: nat where "MSG_QUEUE_SIZE = 65536"
definition PINGWEAVE_TABLE_EXPIRY_TIME_RDMA_MS :: int where
  "PINGWEAVE_TABLE_EXPIRY_TIME_RDMA_MS = 1000"
definition PINGWEAVE_TABLE_EXPIRY_TIME_TCP_MS :: int where
  "PINGWEAVE_TABLE_EXPIRY_TIME_TCP_MS = 1000"
definition PINGWEAVE_TABLE_EXPIRY_TIME_UDP_MS :: int where
  "PINGWEAVE_TABLE_EXPIRY_TIME_UDP_MS = 1000"
definition PINGWEAVE_TCP_PORT_SERVER :: u16 where "PINGWEAVE_TCP_PORT_SERVER = 33334"
definition PINGWEAVE_UDP_PORT_CLIENT :: u16 where "PINGWEAVE_UDP_PORT_CLIENT = 33335"
definition PINGWEAVE_UDP_PORT_SERVER :: u16 where "PINGWEAVE_UDP_PORT_SERVER = 33336"
definition PINGWEAVE_TIME_CALC_MODULO :: u64 where "PINGWEAVE_TIME_CALC_MODULO = 2 ^ 32"
definition IPC_MESSAGE_SIZE :: nat where "IPC_MESSAGE_SIZE = 2097152"
definition IPC_BUFFER_SIZE :: nat where "IPC_BUFFER_SIZE = 64"

text \<open>The anonymous enumeration of \<^verbatim>\<open>format.hpp\<close>.\<close>

definition PINGWEAVE_RESULT_WEIRD :: int where "PINGWEAVE_RESULT_WEIRD = -2"
definition PINGWEAVE_RESULT_FAILURE :: int where "PINGWEAVE_RESULT_FAILURE = -1"
definition PINGWEAVE_RESULT_SUCCESS :: int where "PINGWEAVE_RESULT_SUCCESS = 0"
definition PINGWEAVE_OPCODE_PONG :: u32 where "PINGWEAVE_OPCODE_PONG = 1"
definition PINGWEAVE_OPCODE_ACK :: u32 where "PINGWEAVE_OPCODE_ACK = 2"
definition PINGWEAVE_WRID_PONG_ACK :: u64 where
  "PINGWEAVE_WRID_PONG_ACK = of_nat (NUM_BUFFER * 4)"

lemmas result_codes =
  PINGWEAVE_RESULT_WEIRD_def PINGWEAVE_RESULT_FAILURE_def PINGWEAVE_RESULT_SUCCESS_def

lemma result_codes_distinct [simp]:
  "PINGWEAVE_RESULT_WEIRD \<noteq> PINGWEAVE_RESULT_FAILURE"
  "PINGWEAVE_RESULT_WEIRD \<noteq> PINGWEAVE_RESULT_SUCCESS"
  "PINGWEAVE_RESULT_FAILURE \<noteq> PINGWEAVE_RESULT_SUCCESS"
  "PINGWEAVE_RESULT_FAILURE \<noteq> PINGWEAVE_RESULT_WEIRD"
  "PINGWEAVE_RESULT_SUCCESS \<noteq> PINGWEAVE_RESULT_WEIRD"
  "PINGWEAVE_RESULT_SUCCESS \<noteq> PINGWEAVE_RESULT_FAILURE"
  by (simp_all add: result_codes)

section \<open>Durations\<close>

text \<open>
  \<^verbatim>\<open>duration_cast\<close> from nanoseconds to a coarser unit of \<open>unit\<close> nanoseconds divides and
  truncates towards zero.
\<close>

definition duration_cast :: "int \<Rightarrow> int \<Rightarrow> int" where
  "duration_cast unit d = d sdiv unit"

definition ns_per_us :: int where "ns_per_us = 1000"
definition ns_per_ms :: int where "ns_per_ms = 1000000"
definition ns_per_s :: int where "ns_per_s = 1000000000"

lemma duration_cast_nonneg [pw_simps]:
  "0 \<le> d \<Longrightarrow> 0 < unit \<Longrightarrow> duration_cast unit d = d div unit"
  by (cases "d = 0") (simp_all add: duration_cast_def signed_divide_int_def)

lemma duration_cast_mono:
  assumes "0 < unit" and "d \<le> e"
  shows "duration_cast unit d \<le> duration_cast unit e"
proof (cases "0 \<le> d")
  case True
  with assms show ?thesis by (simp add: duration_cast_nonneg zdiv_mono1)
next
  case False
  then have d: "duration_cast unit d = - ((- d) div unit)"
    using assms by (simp add: duration_cast_def signed_divide_int_def)
  show ?thesis
  proof (cases "0 \<le> e")
    case True
    then have "0 \<le> duration_cast unit e"
      using assms by (simp add: duration_cast_nonneg pos_imp_zdiv_nonneg_iff)
    moreover have "0 \<le> (- d) div unit"
      using False assms by (simp add: pos_imp_zdiv_nonneg_iff)
    ultimately show ?thesis using d by simp
  next
    case e: False
    then have "duration_cast unit e = - ((- e) div unit)"
      using assms by (simp add: duration_cast_def signed_divide_int_def)
    moreover have "(- e) div unit \<le> (- d) div unit"
      using assms by (simp add: zdiv_mono1)
    ultimately show ?thesis using d by simp
  qed
qed

section \<open>Decimal and hexadecimal text\<close>

text \<open>
  Integers as \<^verbatim>\<open>operator<<\<close>, \<^verbatim>\<open>std::to_string\<close> and \<^verbatim>\<open>printf\<close> write them.  \<open>show_base\<close> gives
  the digits without leading zeros, \<open>pad0\<close> adds zeros up to a minimal width.
\<close>

definition digit_char :: "nat \<Rightarrow> char" where
  "digit_char d = (if d < 10 then char_of (48 + d) else char_of (87 + d))"

fun show_base :: "nat \<Rightarrow> nat \<Rightarrow> string" where
  "show_base b n =
     (if b < 2 \<or> n < b then [digit_char n]
      else show_base b (n div b) @ [digit_char (n mod b)])"

declare show_base.simps [simp del]

definition show_nat :: "nat \<Rightarrow> string" where "show_nat n = show_base 10 n"

definition show_int :: "int \<Rightarrow> string" where
  "show_int i = (if i < 0 then CHR ''-'' # show_nat (nat (- i)) else show_nat (nat i))"

definition pad0 :: "nat \<Rightarrow> string \<Rightarrow> string" where
  "pad0 w s = replicate (w - length s) (CHR ''0'') @ s"

text \<open>The value of a digit, and of a run of digits, in a base of at most sixteen.\<close>

definition digit_val :: "char \<Rightarrow> nat option" where
  "digit_val c =
     (let n = of_char c :: nat in
      if 48 \<le> n \<and> n \<le> 57 then Some (n - 48)
      else if 97 \<le> n \<and> n \<le> 102 then Some (n - 87)
      else if 65 \<le> n \<and> n \<le> 70 then Some (n - 55)
      else None)"

definition is_digit :: "nat \<Rightarrow> char \<Rightarrow> bool" where
  "is_digit b c = (case digit_val c of None \<Rightarrow> False | Some d \<Rightarrow> d < b)"

definition read_base :: "nat \<Rightarrow> string \<Rightarrow> nat" where
  "read_base b s = foldl (\<lambda>acc c. acc * b + (case digit_val c of None \<Rightarrow> 0 | Some d \<Rightarrow> d)) 0 s"

lemma digit_val_digit_char [simp]: "d < 16 \<Longrightarrow> digit_val (digit_char d) = Some d"
  by (auto simp: digit_val_def digit_char_def Let_def)

lemma is_digit_digit_char [simp]: "d < b \<Longrightarrow> b \<le> 16 \<Longrightarrow> is_digit b (digit_char d)"
  by (simp add: is_digit_def)

lemma read_base_Nil [simp]: "read_base b [] = 0"
  by (simp add: read_base_def)

lemma read_base_snoc [simp]:
  "read_base b (s @ [c]) = read_base b s * b + (case digit_val c of None \<Rightarrow> 0 | Some d \<Rightarrow> d)"
  by (simp add: read_base_def)

lemma show_base_nonempty [simp]: "show_base b n \<noteq> []"
  by (subst show_base.simps) simp

lemma read_show_base [simp]: "2 \<le> b \<Longrightarrow> b \<le> 16 \<Longrightarrow> read_base b (show_base b n) = n"
proof (induction b n rule: show_base.induct)
  case (1 b n)
  show ?case
  proof (cases "n < b")
    case True
    with "1.prems" have "read_base b ([] @ [digit_char n]) = n"
      by (simp only: read_base_snoc) simp
    with True show ?thesis by (subst show_base.simps) simp
  next
    case False
    with "1.IH" "1.prems" have IH: "read_base b (show_base b (n div b)) = n div b" by simp
    from "1.prems" have "n mod b < b" by (intro mod_less_divisor) simp
    with "1.prems" have lt: "n mod b < 16" by linarith
    from False "1.prems" have
      "show_base b n = show_base b (n div b) @ [digit_char (n mod b)]"
      by (subst show_base.simps) simp
    with IH lt show ?thesis by (simp add: div_mult_mod_eq)
  qed
qed

lemma show_base_digits: "2 \<le> b \<Longrightarrow> b \<le> 16 \<Longrightarrow> \<forall>c \<in> set (show_base b n). is_digit b c"
proof (induction b n rule: show_base.induct)
  case (1 b n)
  show ?case
  proof (cases "n < b")
    case True
    with "1.prems" show ?thesis by (subst show_base.simps) simp
  next
    case False
    with "1.IH" "1.prems" have "\<forall>c \<in> set (show_base b (n div b)). is_digit b c" by simp
    with False "1.prems" show ?thesis
      by (subst show_base.simps) (auto intro: is_digit_digit_char)
  qed
qed

lemma show_base_inj: "2 \<le> b \<Longrightarrow> b \<le> 16 \<Longrightarrow> show_base b m = show_base b n \<longleftrightarrow> m = n"
  by (metis read_show_base)

lemma length_show_base: "2 \<le> b \<Longrightarrow> 0 < k \<Longrightarrow> n < b ^ k \<Longrightarrow> length (show_base b n) \<le> k"
proof (induction b n arbitrary: k rule: show_base.induct)
  case (1 b n)
  show ?case
  proof (cases "n < b")
    case True
    with "1.prems" show ?thesis by (subst show_base.simps) simp
  next
    case False
    with "1.prems" obtain j where k: "k = Suc j" and j: "0 < j"
      by (cases k; cases "k - 1") auto
    from "1.prems" k have "n div b < b ^ j"
      by (simp add: less_mult_imp_div_less mult.commute)
    with "1.IH" False j "1.prems"(1) have "length (show_base b (n div b)) \<le> j" by simp
    with False "1.prems" k show ?thesis by (subst show_base.simps) simp
  qed
qed

lemma read_base_append:
  "read_base b (s @ t) = read_base b s * b ^ length t + read_base b t"
proof (induction t rule: rev_induct)
  case (snoc c t)
  have "read_base b (s @ t @ [c]) = read_base b ((s @ t) @ [c])" by simp
  also have "\<dots> = read_base b (s @ t) * b + (case digit_val c of None \<Rightarrow> 0 | Some d \<Rightarrow> d)"
    by (rule read_base_snoc)
  finally show ?case using snoc by (simp add: algebra_simps)
qed simp

lemma read_base_zeros [simp]: "read_base b (replicate k (CHR ''0'')) = 0"
proof (induction k)
  case (Suc k)
  have "replicate (Suc k) (CHR ''0'') = replicate k (CHR ''0'') @ [CHR ''0'']"
    by (simp add: replicate_append_same)
  then show ?case using Suc by (simp add: digit_val_def del: replicate_Suc)
qed simp

lemma read_base_pad0 [simp]: "read_base b (pad0 w s) = read_base b s"
  by (simp add: pad0_def read_base_append)

lemma length_pad0 [simp]: "length (pad0 w s) = max w (length s)"
  by (simp add: pad0_def)

section \<open>Splitting at a separator\<close>

text \<open>The pieces between the separators, as the readers of the program's records cut them.\<close>

fun split_on :: "char \<Rightarrow> string \<Rightarrow> string list" where
  "split_on c [] = [[]]"
| "split_on c (x # xs) =
     (if x = c then [] # split_on c xs
      else (case split_on c xs of [] \<Rightarrow> [[x]] | y # ys \<Rightarrow> (x # y) # ys))"

fun join_with :: "char \<Rightarrow> string list \<Rightarrow> string" where
  "join_with c [] = []"
| "join_with c [x] = x"
| "join_with c (x # y # ys) = x @ c # join_with c (y # ys)"

lemma split_on_nonempty [simp]: "split_on c s \<noteq> []"
  by (induction s) (auto split: list.splits)

lemma split_on_append:
  "c \<notin> set x \<Longrightarrow> split_on c (x @ c # s) = x # split_on c s"
  by (induction x) auto

lemma split_on_atom: "c \<notin> set x \<Longrightarrow> split_on c x = [x]"
  by (induction x) auto

lemma split_on_join:
  assumes "\<forall>x \<in> set xs. c \<notin> set x" and "xs \<noteq> []"
  shows "split_on c (join_with c xs) = xs"
  using assms by (induction c xs rule: join_with.induct) (auto simp: split_on_append split_on_atom)

lemma join_split_on [simp]: "join_with c (split_on c s) = s"
proof (induction s)
  case (Cons x s)
  obtain y ys where ys: "split_on c s = y # ys"
    by (meson neq_Nil_conv split_on_nonempty)
  then show ?case using Cons by (cases ys) auto
qed simp

lemma split_on_pieces: "p \<in> set (split_on c s) \<Longrightarrow> c \<notin> set p"
proof (induction s arbitrary: p)
  case (Cons x s)
  obtain y ys where ys: "split_on c s = y # ys"
    by (meson neq_Nil_conv split_on_nonempty)
  with Cons show ?case by (auto split: if_splits)
qed simp

lemma digits_no_sep:
  "2 \<le> b \<Longrightarrow> b \<le> 16 \<Longrightarrow> \<not> is_digit b c \<Longrightarrow> c \<notin> set (show_base b n)"
  using show_base_digits by blast

section \<open>Little-endian memory images\<close>

text \<open>
  The memory image of an integer of \<open>n\<close> bytes on the machines the program is built for
  (x86-64), lowest byte first.
\<close>

fun le_encode :: "nat \<Rightarrow> nat \<Rightarrow> bytes" where
  "le_encode 0 v = []"
| "le_encode (Suc n) v = of_nat (v mod 256) # le_encode n (v div 256)"

fun le_decode :: "bytes \<Rightarrow> nat" where
  "le_decode [] = 0"
| "le_decode (b # bs) = unat b + 256 * le_decode bs"

lemma unat_bound: "unat (w :: 'a::len word) < 2 ^ LENGTH('a)"
  by (rule unsigned_less)

lemma length_le_encode [simp]: "length (le_encode n v) = n"
  by (induction n arbitrary: v) auto

lemma unat_of_nat_byte [simp]: "unat (of_nat (v mod 256) :: u8) = v mod 256"
  by (simp add: unat_of_nat take_bit_eq_mod)

lemma le_decode_encode: "le_decode (le_encode n v) = v mod 256 ^ n"
proof (induction n arbitrary: v)
  case (Suc n)
  have "v mod (256 * 256 ^ n) = 256 * (v div 256 mod 256 ^ n) + v mod 256"
    by (rule mod_mult2_eq)
  then show ?case using Suc by simp
qed simp

lemma le_encode_decode: "length bs = n \<Longrightarrow> le_encode n (le_decode bs) = bs"
proof (induction bs arbitrary: n)
  case (Cons b bs)
  have b: "unat b < 256" using unat_bound [of b] by simp
  then have "(unat b + 256 * le_decode bs) mod 256 = unat b"
    "(unat b + 256 * le_decode bs) div 256 = le_decode bs"
    by (auto simp: mod_less div_less)
  with Cons show ?case by (cases n) auto
qed simp

lemma le_decode_bound: "le_decode bs < 256 ^ length bs"
proof (induction bs)
  case (Cons b bs)
  have b: "unat b < 256" using unat_bound [of b] by simp
  from Cons have "le_decode bs + 1 \<le> 256 ^ length bs" by simp
  then have "256 * (le_decode bs + 1) \<le> 256 * 256 ^ length bs" by (rule mult_le_mono2)
  with b show ?case by simp
qed simp

lemma le_word32 [simp]: "(of_nat (le_decode (le_encode 4 (unat (w :: u32)))) :: u32) = w"
proof -
  have "unat w < 256 ^ 4" using unat_bound [of w] by simp
  then show ?thesis by (simp only: le_decode_encode mod_less) simp
qed

lemma le_word64 [simp]: "(of_nat (le_decode (le_encode 8 (unat (w :: u64)))) :: u64) = w"
proof -
  have "unat w < 256 ^ 8" using unat_bound [of w] by simp
  then show ?thesis by (simp only: le_decode_encode mod_less) simp
qed

section \<open>Lists, maps and words\<close>

lemma map_upd_dom [simp]: "dom (m(k := None)) = dom m - {k}"
  by auto

lemma sorted_wrt_nth_append:
  "sorted_wrt P (xs @ [x]) \<longleftrightarrow> sorted_wrt P xs \<and> (\<forall>y \<in> set xs. P y x)"
  by (auto simp: sorted_wrt_append)

lemma set_remove_key:
  "distinct (map snd xs) \<Longrightarrow> (i, k) \<in> set xs \<Longrightarrow>
     set (map snd (filter (\<lambda>p. snd p \<noteq> k) xs)) = set (map snd xs) - {k}"
  by auto

lemma unat_plus_nowrap:
  "unat a + unat b < 2 ^ LENGTH('a) \<Longrightarrow> unat (a + b) = unat a + unat (b :: 'a::len word)"
  by (simp add: unat_word_ariths)

end
