(* ===== verification/Pw_Common.thy ===== *)
theory Pw_Common
  imports Pw_Prelude
begin

text \<open>
  The pure functions of \<^verbatim>\<open>src/src/common.cpp\<close>: ping identifiers, clock conversions, the
  two wrap-around time differences and the statistics over a window of delays, with
  \<^verbatim>\<open>struct result_stat_t\<close> of \<^verbatim>\<open>src/src/format.hpp\<close>.
\<close>

section \<open>Ping identifiers\<close>

definition make_pingid :: "u32 \<Rightarrow> u32 \<Rightarrow> u64" where
  "make_pingid high low = push_bit 32 (ucast high) OR ucast low"

definition parse_pingid :: "u64 \<Rightarrow> u32 \<times> u32" where
  "parse_pingid value = (ucast (drop_bit 32 value), ucast (value AND 0xFFFFFFFF))"

lemma mask32_eq: "(0xFFFFFFFF :: u64) = mask 32"
  by (simp add: mask_eq_exp_minus_1)

lemma parse_make_pingid [simp]: "parse_pingid (make_pingid h l) = (h, l)"
proof -
  have "ucast (drop_bit 32 (push_bit 32 (ucast h) OR ucast l :: u64)) = h"
    by (rule bit_word_eqI) (auto simp: bit_simps dest: bit_imp_le_length)
  moreover have "ucast ((push_bit 32 (ucast h) OR ucast l :: u64) AND mask 32) = l"
    by (rule bit_word_eqI) (auto simp: bit_simps)
  ultimately show ?thesis by (simp add: make_pingid_def parse_pingid_def mask32_eq)
qed

lemma make_parse_pingid [simp]: "make_pingid (fst (parse_pingid v)) (snd (parse_pingid v)) = v"
  unfolding make_pingid_def parse_pingid_def mask32_eq
  by (rule bit_word_eqI) (auto simp: bit_simps not_le le_imp_diff_is_add)

lemma make_pingid_inject [simp]:
  "make_pingid h l = make_pingid h' l' \<longleftrightarrow> h = h' \<and> l = l'"
  by (metis parse_make_pingid prod.inject)

lemma unat_make_pingid: "unat (make_pingid h l) = unat h * 2 ^ 32 + unat l"
proof -
  have "(push_bit 32 (ucast h) :: u64) AND ucast l = 0"
    by (rule bit_word_eqI) (auto simp: bit_simps dest: bit_imp_le_length)
  then have "make_pingid h l = push_bit 32 (ucast h) + ucast l"
    by (simp add: make_pingid_def disjunctive_add_eq_or)
  moreover have "unat (push_bit 32 (ucast h) :: u64) = unat h * 2 ^ 32"
  proof -
    have "unat h * 2 ^ 32 < 2 ^ 64" using unat_bound [of h] by simp
    then show ?thesis
      by (simp add: push_bit_eq_mult unat_word_ariths unsigned_ucast_eq take_bit_eq_mod
          mult.commute)
  qed
  moreover have "unat (ucast l :: u64) = unat l"
    using unat_bound [of l] by (simp add: unsigned_ucast_eq take_bit_eq_mod)
  ultimately show ?thesis
    using unat_bound [of h] unat_bound [of l]
    by (simp add: unat_word_ariths)
qed


text \<open>The identifier of a ping from a host with a non-zero address never collides with the
  work-request identifier the server reserves for its acknowledgements.\<close>

lemma make_pingid_gt_ack:
  assumes "h \<noteq> 0"
  shows "PINGWEAVE_WRID_PONG_ACK < make_pingid h l"
proof -
  from assms have "1 \<le> unat h" by (simp add: Suc_le_eq unat_gt_0)
  then have "2 ^ 32 \<le> unat (make_pingid h l)"
    unfolding unat_make_pingid by simp
  moreover have "unat PINGWEAVE_WRID_PONG_ACK = 1024"
    by (simp add: PINGWEAVE_WRID_PONG_ACK_def NUM_BUFFER_def)
  ultimately show ?thesis by (simp add: word_less_nat_alt)
qed

section \<open>Clocks\<close>

text \<open>
  The two overloads of \<^verbatim>\<open>convert_clock_to_ns\<close> (one per clock) reinterpret the signed count as
  an unsigned one; \<open>get_current_timestamp_ns\<close> is both \<^verbatim>\<open>get_current_timestamp_system_ns\<close> and
  \<^verbatim>\<open>get_current_timestamp_steady_ns\<close>, applied to the reading of the clock it is for.
\<close>

definition convert_clock_to_ns :: "time_point \<Rightarrow> u64" where
  "convert_clock_to_ns val = word_of_int (duration_cast 1 val)"

definition get_current_timestamp_ns :: "time_point \<Rightarrow> u64" where
  "get_current_timestamp_ns clock_now = convert_clock_to_ns clock_now"

text \<open>
  The date and the time of day of a \<^verbatim>\<open>time_t\<close> depend on the time zone of the host: the result
  of \<^verbatim>\<open>localtime\<close> and \<^verbatim>\<open>strftime\<close> is the parameter \<open>local_time\<close>.  The two buffers of 32 and
  64 bytes bound the text.
\<close>

definition timestamp_ns_to_string :: "(int \<Rightarrow> string) \<Rightarrow> u64 \<Rightarrow> string" where
  "timestamp_ns_to_string local_time timestamp_ns =
     (let seconds = unat timestamp_ns div 1000000000;
          nanoseconds_part = unat timestamp_ns mod 1000000000;
          time_buffer = take 31 (local_time (int seconds))
      in take 63 (time_buffer @ ''.'' @ pad0 9 (show_nat nanoseconds_part)))"

definition get_current_timestamp_system_str :: "(int \<Rightarrow> string) \<Rightarrow> time_point \<Rightarrow> string" where
  "get_current_timestamp_system_str local_time system_now =
     take 31 (local_time (duration_cast ns_per_s system_now))"

lemma timestamp_ns_to_string_eq:
  "timestamp_ns_to_string local_time ts =
     take 31 (local_time (int (unat ts div 1000000000))) @ ''.'' @
     pad0 9 (show_nat (unat ts mod 1000000000))"
proof -
  have "length (show_nat (unat ts mod 1000000000)) \<le> 9"
    unfolding show_nat_def by (rule length_show_base) auto
  then have "length (take 31 (local_time (int (unat ts div 1000000000))) @ ''.'' @
     pad0 9 (show_nat (unat ts mod 1000000000))) \<le> 63"
    by simp
  then show ?thesis by (simp only: timestamp_ns_to_string_def Let_def take_all)
qed

section \<open>Time differences\<close>

definition calc_time_delta_with_bitwrap :: "u64 \<Rightarrow> u64 \<Rightarrow> u64 \<Rightarrow> u64" where
  "calc_time_delta_with_bitwrap t1 t2 wrap_mask =
     (if t1 \<le> t2 then t2 - t1 else (wrap_mask - t1 + 1) + t2)"

text \<open>
  A zero modulus \<open>M\<close> would trap in C++; every call of the program passes
  \<^const>\<open>PINGWEAVE_TIME_CALC_MODULO\<close>.
\<close>

definition calc_time_delta_with_modulo :: "u64 \<Rightarrow> u64 \<Rightarrow> u64 \<Rightarrow> u64" where
  "calc_time_delta_with_modulo t1 t2 M =
     (let t1_modulo = t1 mod M;
          t2_modulo = t2 mod M
      in ((t2_modulo + M) - t1_modulo) mod M)"

definition UINT64_MAX :: u64 where "UINT64_MAX = - 1"

lemma bitwrap_max: "calc_time_delta_with_bitwrap t1 t2 UINT64_MAX = t2 - t1"
  by (simp add: calc_time_delta_with_bitwrap_def UINT64_MAX_def)

lemma delta_modulo_nat:
  assumes "0 < unat M" and "unat M \<le> 2 ^ 63"
  shows "unat (calc_time_delta_with_modulo t1 t2 M) =
     (unat t2 mod unat M + (unat M - unat t1 mod unat M)) mod unat M"
proof -
  have b: "unat t1 mod unat M < unat M" "unat t2 mod unat M < unat M"
    using assms by simp_all
  have s: "unat (t2 mod M + M) = unat t2 mod unat M + unat M"
  proof -
    have "unat t2 mod unat M + unat M < 2 * 2 ^ 63" using b assms by linarith
    then show ?thesis by (simp add: unat_word_ariths unat_mod)
  qed
  have "t1 mod M \<le> t2 mod M + M"
    using b unfolding word_le_nat_alt s unat_mod by linarith
  then have "unat (t2 mod M + M - t1 mod M) = unat t2 mod unat M + unat M - unat t1 mod unat M"
    by (simp add: unat_sub s unat_mod)
  then show ?thesis
    using b by (simp add: calc_time_delta_with_modulo_def Let_def unat_mod)
qed

lemma delta_modulo_lt:
  "0 < unat M \<Longrightarrow> unat M \<le> 2 ^ 63 \<Longrightarrow> unat (calc_time_delta_with_modulo t1 t2 M) < unat M"
  by (simp add: delta_modulo_nat)

lemma unat_time_calc_modulo: "unat PINGWEAVE_TIME_CALC_MODULO = 2 ^ 32"
  by (simp add: PINGWEAVE_TIME_CALC_MODULO_def)

lemma mod_gap:
  fixes a b m :: nat
  assumes "a \<le> b" and "b - a < m"
  shows "(b mod m + (m - a mod m)) mod m = b - a"
proof -
  have am: "a mod m < m" using assms by simp
  have "(b mod m + (m - a mod m)) mod m = (b + (m - a mod m)) mod m"
    by (simp add: mod_add_left_eq)
  also have "b + (m - a mod m) = (b - a) + m * (a div m) + m"
    using assms am mult_div_mod_eq [of m a] by linarith
  also have "((b - a) + m * (a div m) + m) mod m = (b - a) mod m"
    by simp
  finally show ?thesis using assms by simp
qed

lemma delta_modulo_exact:
  assumes "T1 \<le> T2" and "T2 - T1 < 2 ^ 32"
    and "unat t1 mod 2 ^ 32 = T1 mod 2 ^ 32" and "unat t2 mod 2 ^ 32 = T2 mod 2 ^ 32"
  shows "unat (calc_time_delta_with_modulo t1 t2 PINGWEAVE_TIME_CALC_MODULO) = T2 - T1"
  using mod_gap [OF assms(1,2)] assms(3,4)
  by (simp add: delta_modulo_nat unat_time_calc_modulo)

section \<open>Statistics\<close>

record result_stat_t =
  mean :: u64
  max_delay :: u64
  percentile_50 :: u64
  percentile_95 :: u64
  percentile_99 :: u64

text \<open>
  \<^verbatim>\<open>std::accumulate\<close> with a \<^verbatim>\<open>uint64_t\<close> seed, \<^verbatim>\<open>std::max_element\<close> of a non-empty range and
  \<^verbatim>\<open>std::sort\<close>.
\<close>

definition calc_result_stats :: "u64 list \<Rightarrow> result_stat_t" where
  "calc_result_stats delays =
     (if delays = [] then
        \<lparr>mean = 0, max_delay = 0, percentile_50 = 0, percentile_95 = 0, percentile_99 = 0\<rparr>
      else
        let sum = foldl (+) 0 delays;
            m = sum div of_nat (length delays);
            mx = foldl max (hd delays) (tl delays);
            sorted_delays = sort delays;
            p50 = sorted_delays ! (length sorted_delays * 50 div 100);
            p95 = sorted_delays ! (length sorted_delays * 95 div 100);
            p99 = sorted_delays ! (length sorted_delays * 99 div 100)
        in \<lparr>mean = m, max_delay = mx, percentile_50 = p50, percentile_95 = p95,
            percentile_99 = p99\<rparr>)"

lemma percentile_index: "0 < n \<Longrightarrow> q < 100 \<Longrightarrow> n * q div 100 < (n :: nat)"
  by (simp add: less_mult_imp_div_less)

lemma foldl_max: "foldl max (x :: 'a::linorder) xs = Max (set (x # xs))"
  by (simp add: foldl_conv_fold Max.set_eq_fold max.commute del: list.set)

lemma stats_max: "delays \<noteq> [] \<Longrightarrow> max_delay (calc_result_stats delays) = Max (set delays)"
  by (cases delays) (simp_all add: calc_result_stats_def Let_def foldl_max)

lemma unat_foldl_plus:
  "unat a + sum_list (map unat xs) < 2 ^ 64 \<Longrightarrow>
     unat (foldl (+) (a :: u64) xs) = unat a + sum_list (map unat xs)"
proof (induction xs arbitrary: a)
  case (Cons x xs)
  then have "unat a + unat x < 2 ^ 64" by simp
  then have "unat (a + x) = unat a + unat x" by (simp add: unat_word_ariths)
  with Cons show ?case by simp
qed simp

lemma stats_mean:
  assumes "delays \<noteq> []" and "length delays < 2 ^ 64" and "sum_list (map unat delays) < 2 ^ 64"
  shows "unat (mean (calc_result_stats delays)) = sum_list (map unat delays) div length delays"
proof -
  have "unat (foldl (+) (0 :: u64) delays) = sum_list (map unat delays)"
    using unat_foldl_plus [of 0 delays] assms(3) by simp
  moreover have "unat (of_nat (length delays) :: u64) = length delays"
    using assms(2) by (simp add: unat_of_nat take_bit_eq_mod)
  ultimately show ?thesis
    using assms(1) by (simp add: calc_result_stats_def Let_def unat_div)
qed

text \<open>The value at rank \<open>k\<close> of a sorted list splits it at \<open>k\<close>.\<close>

definition at_rank :: "'a::linorder list \<Rightarrow> nat \<Rightarrow> 'a \<Rightarrow> bool" where
  "at_rank xs k v \<longleftrightarrow> v \<in> set xs \<and> k < length (filter (\<lambda>x. x \<le> v) xs)
     \<and> length xs - k \<le> length (filter (\<lambda>x. v \<le> x) xs)"

lemma length_filter_sort: "length (filter P (sort xs)) = length (filter P xs)"
  by (simp add: filter_sort)

lemma at_rank_sort:
  assumes k: "k < length xs"
  shows "at_rank xs k (sort xs ! k)"
proof -
  let ?ys = "sort xs"
  have len: "length ?ys = length xs" by simp
  have "\<forall>i. i < Suc k \<longrightarrow> ?ys ! i \<le> ?ys ! k"
    using k by (auto intro!: sorted_nth_mono)
  then have "filter (\<lambda>x. x \<le> ?ys ! k) (take (Suc k) ?ys) = take (Suc k) ?ys"
    by (intro filter_True) (auto simp: in_set_conv_nth)
  then have "Suc k \<le> length (filter (\<lambda>x. x \<le> ?ys ! k) ?ys)"
    using k by (metis append_take_drop_id filter_append length_append length_take len
        le_add1 min.absorb2 Suc_leI)
  moreover have "\<forall>i. k \<le> i \<and> i < length xs \<longrightarrow> ?ys ! k \<le> ?ys ! i"
    using k by (auto intro!: sorted_nth_mono)
  then have "filter (\<lambda>x. ?ys ! k \<le> x) (drop k ?ys) = drop k ?ys"
    using k by (intro filter_True) (auto simp: in_set_conv_nth)
  then have "length xs - k \<le> length (filter (\<lambda>x. ?ys ! k \<le> x) ?ys)"
    using k by (metis append_take_drop_id filter_append length_append length_drop len le_add2)
  moreover have "?ys ! k \<in> set xs" using k by (metis len nth_mem set_sort)
  ultimately show ?thesis by (simp add: at_rank_def length_filter_sort Suc_le_eq)
qed

text \<open>C17. Over a non-empty window of delays, every index the function reads from the sorted copy
  is inside it; the three percentiles are the values at ranks \<open>50n/100\<close>, \<open>95n/100\<close> and
  \<open>99n/100\<close> of the window, they are ordered, and none exceeds the maximum.\<close>

theorem calc_result_stats_percentiles:
  assumes "delays \<noteq> []"
  shows "at_rank delays (length delays * 50 div 100) (percentile_50 (calc_result_stats delays))
    \<and> at_rank delays (length delays * 95 div 100) (percentile_95 (calc_result_stats delays))
    \<and> at_rank delays (length delays * 99 div 100) (percentile_99 (calc_result_stats delays))
    \<and> percentile_50 (calc_result_stats delays) \<le> percentile_95 (calc_result_stats delays)
    \<and> percentile_95 (calc_result_stats delays) \<le> percentile_99 (calc_result_stats delays)
    \<and> percentile_99 (calc_result_stats delays) \<le> max_delay (calc_result_stats delays)
    \<and> max_delay (calc_result_stats delays) = Max (set delays)"
proof -
  let ?n = "length delays"
  from assms have n: "0 < ?n" by simp
  have i: "?n * q div 100 < ?n" if "q < 100" for q
    using n that by (rule percentile_index)
  have ord: "sort delays ! (?n * q div 100) \<le> sort delays ! (?n * r div 100)"
    if "q \<le> r" "r < 100" for q r
    using that i [of r] by (intro sorted_nth_mono) (auto intro: div_le_mono)
  have "sort delays ! (?n * 99 div 100) \<in> set (sort delays)"
    using i [of 99] by (intro nth_mem) simp
  then have "sort delays ! (?n * 99 div 100) \<le> Max (set delays)" by simp
  then show ?thesis
    using assms i [of 50] i [of 95] i [of 99] ord [of 50 95] ord [of 95 99] stats_max [OF assms]
    by (simp add: calc_result_stats_def Let_def at_rank_sort del: One_nat_def)
qed

theorem calc_result_stats_percentiles_witness:
  "at_rank [30, 10, 20 :: u64] 1 (percentile_50 (calc_result_stats [30, 10, 20]))
   \<and> max_delay (calc_result_stats [30, 10, 20]) = Max (set [30, 10, 20])"
  using calc_result_stats_percentiles [of "[30, 10, 20]"] by simp

end
