(* ===== verification/Pw_Address.thy ===== *)
theory Pw_Address
  imports Pw_Prelude
begin

text \<open>
  Addresses and their texts: the dotted form of an IPv4 address and its 32-bit image
  (\<^verbatim>\<open>ip2uint\<close>, \<^verbatim>\<open>uint2ip\<close>, \<^verbatim>\<open>get_all_local_ips\<close> of \<^verbatim>\<open>src/src/common.cpp\<close>) and the wire and
  printed forms of an RDMA GID (\<^verbatim>\<open>wire_gid_to_gid\<close>, \<^verbatim>\<open>gid_to_wire_gid\<close>, \<^verbatim>\<open>parsed_gid\<close> and
  \<^verbatim>\<open>make_destination_key\<close> of \<^verbatim>\<open>src/src/rdma_common.cpp\<close>).  \<^verbatim>\<open>inet_pton\<close>, \<^verbatim>\<open>inet_ntop\<close> and the
  \<^verbatim>\<open>%x\<close> conversion of \<^verbatim>\<open>sscanf\<close> are modelled as the C library documents them.

  A local variable the code leaves unset on a failing call keeps its indeterminate content;
  that content is the parameter \<open>uninit\<close>.
\<close>

definition nul :: char where "nul = CHR 0x00"

text \<open>What a C function sees of a \<^verbatim>\<open>std::string\<close> passed as \<^verbatim>\<open>c_str()\<close>.\<close>

definition c_str :: "string \<Rightarrow> string" where
  "c_str s = takeWhile (\<lambda>c. c \<noteq> nul) s"

section \<open>IPv4\<close>

definition octet_of :: "string \<Rightarrow> u8 option" where
  "octet_of s =
     (if s \<noteq> [] \<and> list_all (is_digit 10) s \<and> (hd s = CHR ''0'' \<longrightarrow> length s = 1)
         \<and> read_base 10 s \<le> 255
      then Some (of_nat (read_base 10 s)) else None)"

text \<open>\<^verbatim>\<open>inet_pton(AF_INET, ...)\<close>: the four bytes in network order, or nothing.\<close>

definition inet_pton4 :: "string \<Rightarrow> bytes option" where
  "inet_pton4 s =
     (case map octet_of (split_on (CHR ''.'') s) of
        [Some a, Some b, Some c, Some d] \<Rightarrow> Some [a, b, c, d]
      | _ \<Rightarrow> None)"

definition inet_ntop4 :: "bytes \<Rightarrow> string" where
  "inet_ntop4 bs = join_with (CHR ''.'') (map (\<lambda>b. show_nat (unat b)) bs)"

definition ip2uint :: "u32 \<Rightarrow> string \<Rightarrow> u32" where
  "ip2uint uninit ip =
     (case inet_pton4 (c_str ip) of None \<Rightarrow> uninit | Some bs \<Rightarrow> of_nat (le_decode bs))"

definition uint2ip :: "u32 \<Rightarrow> string" where
  "uint2ip ip = inet_ntop4 (le_encode 4 (unat ip))"

text \<open>An element of the list \<^verbatim>\<open>getifaddrs\<close> returns: the name, and the address if there is one.\<close>

datatype ifa_addr = AF_INET bytes | AF_other

record ifaddrs =
  ifa_name :: string
  ifa_addr :: "ifa_addr option"

definition starts_with :: "string \<Rightarrow> string \<Rightarrow> bool" where
  "starts_with p s \<longleftrightarrow> take (length p) s = p"

definition get_all_local_ips :: "ifaddrs list option \<Rightarrow> string set" where
  "get_all_local_ips interfaces =
     (case interfaces of
        None \<Rightarrow> {}
      | Some ifs \<Rightarrow>
          set (List.map_filter (\<lambda>ifa.
             case ifa_addr ifa of
               None \<Rightarrow> None
             | Some addr \<Rightarrow>
                 (if ifa_name ifa = ''lo'' \<or> starts_with ''virbr'' (ifa_name ifa)
                     \<or> starts_with ''docker'' (ifa_name ifa)
                  then None
                  else (case addr of AF_INET bs \<Rightarrow> Some (inet_ntop4 bs) | AF_other \<Rightarrow> None))) ifs))"

section \<open>GIDs\<close>

text \<open>\<^verbatim>\<open>union ibv_gid\<close>: sixteen bytes.\<close>

type_synonym gid = bytes

definition bswap32 :: "u32 \<Rightarrow> u32" where
  "bswap32 w = of_nat (le_decode (rev (le_encode 4 (unat w))))"

text \<open>\<^verbatim>\<open>htobe32\<close> and \<^verbatim>\<open>be32toh\<close> on a little-endian machine.\<close>

definition htobe32 :: "u32 \<Rightarrow> u32" where "htobe32 = bswap32"
definition be32toh :: "u32 \<Rightarrow> u32" where "be32toh = bswap32"

definition gid_to_wire_gid :: "gid \<Rightarrow> string" where
  "gid_to_wire_gid gid =
     (let tmp_gid = map (\<lambda>i. of_nat (le_decode (take 4 (drop (4 * i) gid))) :: u32) [0..<4]
      in concat (map (\<lambda>v. pad0 8 (show_base 16 (unat (htobe32 v)))) tmp_gid))"

definition is_space :: "char \<Rightarrow> bool" where
  "is_space c \<longleftrightarrow> (of_char c :: nat) \<in> {9, 10, 11, 12, 13, 32}"

text \<open>The \<^verbatim>\<open>%x\<close> conversion: white space, a sign, a prefix and a run of hexadecimal digits.\<close>

definition strip_0x :: "string \<Rightarrow> string" where
  "strip_0x s = (case s of
       z # x # r \<Rightarrow> (if z = CHR ''0'' \<and> (x = CHR ''x'' \<or> x = CHR ''X'') then r else s)
     | _ \<Rightarrow> s)"

definition sscanf_x :: "string \<Rightarrow> u32 option" where
  "sscanf_x str =
     (let s = dropWhile is_space (c_str str);
          neg = (s \<noteq> [] \<and> hd s = CHR ''-'');
          t = (if s \<noteq> [] \<and> (hd s = CHR ''-'' \<or> hd s = CHR ''+'') then tl s else s);
          ds = takeWhile (is_digit 16) (strip_0x t)
      in if ds = [] then None
         else Some (if neg then - of_nat (read_base 16 ds) else of_nat (read_base 16 ds)))"

text \<open>
  The four groups are read from \<open>wgid\<close> at fixed offsets: a text of fewer than 32 characters
  is read past its end, which is no defined behaviour (\<open>None\<close>).  A group that is no number
  leaves \<open>v32\<close> as it was.
\<close>

fun wire_groups :: "u32 \<Rightarrow> string list \<Rightarrow> u32 list" where
  "wire_groups v32 [] = []"
| "wire_groups v32 (tmp # rest) =
     (let v = (case sscanf_x tmp of None \<Rightarrow> v32 | Some w \<Rightarrow> w)
      in be32toh v # wire_groups v rest)"

definition wire_gid_to_gid :: "u32 \<Rightarrow> string \<Rightarrow> gid option" where
  "wire_gid_to_gid uninit wgid =
     (if length wgid < 32 then None
      else Some (concat (map (\<lambda>w. le_encode 4 (unat w))
             (wire_groups uninit (map (\<lambda>i. take 8 (drop (i * 8) wgid)) [0..<4])))))"

text \<open>\<^verbatim>\<open>inet_ntop(AF_INET6, ...)\<close>: the longest run of at least two zero groups is elided.\<close>

definition groups16 :: "gid \<Rightarrow> nat list" where
  "groups16 g = map (\<lambda>i. unat (g ! (2 * i)) * 256 + unat (g ! (2 * i + 1))) [0..<8]"

definition better_run :: "(nat \<times> nat) option \<Rightarrow> (nat \<times> nat) option \<Rightarrow> (nat \<times> nat) option" where
  "better_run best cur =
     (case cur of None \<Rightarrow> best
      | Some c \<Rightarrow> (case best of None \<Rightarrow> cur | Some b \<Rightarrow> if snd c > snd b then cur else best))"

fun zero_run :: "nat \<Rightarrow> (nat \<times> nat) option \<Rightarrow> (nat \<times> nat) option \<Rightarrow> nat list
    \<Rightarrow> (nat \<times> nat) option" where
  "zero_run i best cur [] =
     (case better_run best cur of None \<Rightarrow> None
      | Some b \<Rightarrow> if snd b < 2 then None else Some b)"
| "zero_run i best cur (w # ws) =
     (if w = 0 then
        zero_run (Suc i) best (case cur of None \<Rightarrow> Some (i, 1) | Some (b, l) \<Rightarrow> Some (b, Suc l)) ws
      else zero_run (Suc i) (better_run best cur) None ws)"

fun ntop6_groups :: "gid \<Rightarrow> (nat \<times> nat) option \<Rightarrow> nat list \<Rightarrow> nat list \<Rightarrow> string" where
  "ntop6_groups g best ws [] = []"
| "ntop6_groups g best ws (i # is) =
     (case best of
        Some (b, l) \<Rightarrow>
          (if b \<le> i \<and> i < b + l then (if i = b then '':'' else []) @ ntop6_groups g best ws is
           else (if i \<noteq> 0 then '':'' else []) @
             (if i = 6 \<and> b = 0 \<and> (l = 6 \<or> (l = 5 \<and> ws ! 5 = 65535))
              then inet_ntop4 (drop 12 g)
              else show_base 16 (ws ! i) @ ntop6_groups g best ws is))
      | None \<Rightarrow> (if i \<noteq> 0 then '':'' else []) @ show_base 16 (ws ! i) @ ntop6_groups g best ws is)"

definition inet_ntop6 :: "gid \<Rightarrow> string" where
  "inet_ntop6 g =
     (let ws = groups16 g; best = zero_run 0 None None ws
      in ntop6_groups g best ws [0..<8] @
         (case best of Some (b, l) \<Rightarrow> (if b + l = 8 then '':'' else []) | None \<Rightarrow> []))"

text \<open>
  The buffer of \<^verbatim>\<open>parsed_gid\<close> has 33 bytes: a longer text is refused by \<^verbatim>\<open>inet_ntop\<close>, and the
  function returns what the buffer happened to hold.
\<close>

definition parsed_gid :: "string \<Rightarrow> gid \<Rightarrow> string" where
  "parsed_gid uninit g = (let t = inet_ntop6 g in if 33 < length t + 1 then uninit else t)"

definition make_destination_key :: "string \<Rightarrow> u32 \<Rightarrow> gid \<Rightarrow> string" where
  "make_destination_key uninit lid g = show_nat (unat lid) @ ''_'' @ parsed_gid uninit g"

section \<open>Round trips of IPv4 addresses\<close>

lemma digit_char_val: "is_digit 10 c \<Longrightarrow> \<exists>d < 10. digit_val c = Some d \<and> digit_char d = c"
proof -
  assume "is_digit 10 c"
  then have "48 \<le> (of_char c :: nat) \<and> (of_char c :: nat) \<le> 57"
    by (auto simp: is_digit_def digit_val_def Let_def split: if_splits)
  then have "of_char c - 48 < (10 :: nat) \<and> digit_val c = Some (of_char c - 48)
      \<and> digit_char (of_char c - 48) = c"
    by (auto simp: digit_val_def digit_char_def Let_def)
  then show ?thesis by blast
qed

lemma digit_char_0 [simp]: "digit_char 0 = CHR ''0''"
  by code_simp

lemma read_base_pos:
  assumes "list_all (is_digit 10) s" and "s \<noteq> []" and "hd s \<noteq> CHR ''0''"
  shows "0 < read_base 10 s"
  using assms
proof (induction s rule: rev_induct)
  case (snoc c t)
  from snoc.prems obtain d where d: "digit_val c = Some d" "digit_char d = c" "d < 10"
    using digit_char_val [of c] by auto
  show ?case
  proof (cases "t = []")
    case True
    with snoc.prems d have "d \<noteq> 0" by (metis append_Nil digit_char_0 list.sel(1))
    with True d show ?thesis using read_base_snoc [of 10 "[]" c] by simp
  next
    case False
    with snoc show ?thesis by simp
  qed
qed simp

lemma show_read_base:
  assumes "list_all (is_digit 10) s" and "s \<noteq> []" and "hd s = CHR ''0'' \<longrightarrow> length s = 1"
  shows "show_nat (read_base 10 s) = s"
  using assms
proof (induction s rule: rev_induct)
  case (snoc c t)
  from snoc.prems obtain d where d: "digit_val c = Some d" "digit_char d = c" "d < 10"
    using digit_char_val [of c] by auto
  show ?case
  proof (cases "t = []")
    case True
    then have "read_base 10 (t @ [c]) = d" using d by (simp del: append_Nil)
    then show ?thesis using d True by (simp add: show_nat_def show_base.simps [of 10 d])
  next
    case False
    with snoc.prems have "hd t \<noteq> CHR ''0''" by auto
    with snoc False have IH: "show_nat (read_base 10 t) = t" and "0 < read_base 10 t"
      by (auto intro: read_base_pos)
    moreover have "read_base 10 (t @ [c]) = read_base 10 t * 10 + d" using d by simp
    ultimately show ?thesis
      using d by (simp add: show_nat_def show_base.simps [of 10 "read_base 10 t * 10 + d"])
  qed
qed simp

lemma show_nat_zero_lead: "hd (show_nat n) = CHR ''0'' \<Longrightarrow> length (show_nat n) = 1"
proof (induction n rule: less_induct)
  case (less n)
  show ?case
  proof (cases "n < 10")
    case True
    then show ?thesis by (simp add: show_nat_def show_base.simps [of 10 n])
  next
    case False
    then have eq: "show_nat n = show_nat (n div 10) @ [digit_char (n mod 10)]"
      by (simp add: show_nat_def show_base.simps [of 10 n])
    with less.prems have hd0: "hd (show_nat (n div 10)) = CHR ''0''"
      by (simp add: show_nat_def)
    with less.IH [of "n div 10"] False have "length (show_nat (n div 10)) = 1" by simp
    with hd0 have "show_nat (n div 10) = ''0''"
      by (cases "show_nat (n div 10)") auto
    then have "read_base 10 (show_nat (n div 10)) = 0"
      by (simp add: read_base_def digit_val_def)
    then have "n div 10 = 0" by (simp add: show_nat_def)
    with False show ?thesis by simp
  qed
qed

lemma octet_of_show [simp]: "octet_of (show_nat (unat b)) = Some b"
proof -
  have "list_all (is_digit 10) (show_nat (unat b))"
    using show_base_digits [of 10 "unat b"] by (simp add: show_nat_def list_all_iff)
  moreover have "unat b \<le> 255" using unat_bound [of b] by simp
  moreover have "read_base 10 (show_nat (unat b)) = unat b" by (simp add: show_nat_def)
  ultimately show ?thesis
    using show_nat_zero_lead [of "unat b"] by (simp add: octet_of_def show_nat_def)
qed

lemma octet_of_Some: "octet_of s = Some b \<Longrightarrow> show_nat (unat b) = s"
proof -
  assume *: "octet_of s = Some b"
  then have "b = of_nat (read_base 10 s)" and "read_base 10 s \<le> 255"
    by (auto simp: octet_of_def split: if_splits)
  then have "unat b = read_base 10 s" by (simp add: unat_of_nat take_bit_eq_mod)
  with * show ?thesis by (auto simp: octet_of_def intro: show_read_base split: if_splits)
qed

lemma show_nat_no_sep: "\<not> is_digit 10 c \<Longrightarrow> c \<notin> set (show_nat n)"
  unfolding show_nat_def by (rule digits_no_sep) auto

lemma show_nat_seps [simp]:
  "CHR ''.'' \<notin> set (show_nat n)" "CHR '','' \<notin> set (show_nat n)" "nul \<notin> set (show_nat n)"
  "CHR 0x0A \<notin> set (show_nat n)"
  by (rule show_nat_no_sep, simp add: is_digit_def digit_val_def nul_def)+

lemma inet_pton4_ntop4: "length bs = 4 \<Longrightarrow> inet_pton4 (inet_ntop4 bs) = Some bs"
proof -
  assume "length bs = 4"
  then obtain a b c d where bs: "bs = [a, b, c, d]"
    by (auto simp: numeral_eq_Suc length_Suc_conv)
  have "split_on (CHR ''.'') (inet_ntop4 bs) = map (\<lambda>b. show_nat (unat b)) bs"
    unfolding inet_ntop4_def bs
    by (rule split_on_join) auto
  then show ?thesis by (simp add: inet_pton4_def bs)
qed

lemma inet_ntop4_pton4: "inet_pton4 s = Some bs \<Longrightarrow> inet_ntop4 bs = s \<and> length bs = 4"
proof -
  assume *: "inet_pton4 s = Some bs"
  then obtain a b c d where
    m: "map octet_of (split_on (CHR ''.'') s) = [Some a, Some b, Some c, Some d]"
    and bs: "bs = [a, b, c, d]"
    by (auto simp: inet_pton4_def split: list.splits option.splits)
  then have "map (\<lambda>b. show_nat (unat b)) bs = split_on (CHR ''.'') s"
    by (auto simp: map_eq_Cons_conv dest: octet_of_Some)
  then show ?thesis by (simp add: inet_ntop4_def bs)
qed

lemma c_str_no_nul: "nul \<notin> set s \<Longrightarrow> c_str s = s"
  by (auto simp: c_str_def takeWhile_eq_all_conv)

lemma set_join_with: "set (join_with c xs) \<subseteq> insert c (\<Union> (set ` set xs))"
  by (induction c xs rule: join_with.induct) auto

lemma nul_not_in_ntop4: "nul \<notin> set (inet_ntop4 bs)"
proof -
  have "nul \<noteq> CHR ''.''" by (simp add: nul_def)
  then show ?thesis
    using set_join_with [of "CHR ''.''" "map (\<lambda>b. show_nat (unat b)) bs"] by (auto simp: inet_ntop4_def)
qed

lemma ip2uint_printed: "ip2uint uninit (uint2ip w) = w"
proof -
  have "c_str (uint2ip w) = uint2ip w"
    unfolding uint2ip_def by (rule c_str_no_nul) (rule nul_not_in_ntop4)
  then show ?thesis by (simp add: ip2uint_def uint2ip_def inet_pton4_ntop4)
qed

lemma uint2ip_inject: "uint2ip v = uint2ip w \<longleftrightarrow> v = w"
  by (metis ip2uint_printed)

text \<open>Printing and reading IPv4 addresses are inverse to each other: every 32-bit address
  survives \<open>uint2ip\<close> followed by \<open>ip2uint\<close>, and a text that \<^verbatim>\<open>inet_pton\<close> accepts is the text
  \<open>uint2ip\<close> prints for its image.\<close>

theorem ip2uint_uint2ip:
  "ip2uint uninit (uint2ip w) = w \<and>
   (inet_pton4 (c_str s) \<noteq> None \<longrightarrow> uint2ip (ip2uint uninit s) = c_str s)"
proof
  show "ip2uint uninit (uint2ip w) = w" by (rule ip2uint_printed)
  show "inet_pton4 (c_str s) \<noteq> None \<longrightarrow> uint2ip (ip2uint uninit s) = c_str s"
  proof
    assume "inet_pton4 (c_str s) \<noteq> None"
    then obtain bs where bs: "inet_pton4 (c_str s) = Some bs" by auto
    then have len: "length bs = 4" and shown: "inet_ntop4 bs = c_str s"
      by (auto dest: inet_ntop4_pton4)
    have "le_decode bs < 2 ^ 32" using le_decode_bound [of bs] len by simp
    then have "le_encode 4 (unat (of_nat (le_decode bs) :: u32)) = bs"
      using len by (simp add: unat_of_nat take_bit_eq_mod le_encode_decode)
    with bs shown show "uint2ip (ip2uint uninit s) = c_str s"
      by (simp add: ip2uint_def uint2ip_def)
  qed
qed

theorem ip2uint_uint2ip_witness:
  "inet_pton4 (c_str ''10.0.0.1'') \<noteq> None \<and> uint2ip (ip2uint 0 ''10.0.0.1'') = c_str ''10.0.0.1''"
proof -
  have "inet_pton4 (c_str ''10.0.0.1'') \<noteq> None" by code_simp
  then show ?thesis using ip2uint_uint2ip [of 0 0 "''10.0.0.1''"] by simp
qed

section \<open>Round trip of GIDs\<close>

lemma unat_bswap32: "unat (bswap32 w) = le_decode (rev (le_encode 4 (unat w)))"
proof -
  have "le_decode (rev (le_encode 4 (unat w))) < 2 ^ 32"
    using le_decode_bound [of "rev (le_encode 4 (unat w))"] by simp
  then show ?thesis by (simp add: bswap32_def unat_of_nat take_bit_eq_mod)
qed

lemma le_encode_bswap32: "le_encode 4 (unat (bswap32 w)) = rev (le_encode 4 (unat w))"
  by (simp add: unat_bswap32 le_encode_decode)

lemma bswap32_bswap32 [simp]: "bswap32 (bswap32 w) = w"
  by (subst bswap32_def) (simp add: le_encode_bswap32)

lemma takeWhile_all: "list_all P xs \<Longrightarrow> takeWhile P xs = xs"
  by (simp add: list_all_iff takeWhile_eq_all_conv)

lemma sscanf_x_pad0:
  assumes "n < 2 ^ 32"
  shows "sscanf_x (pad0 8 (show_base 16 n)) = Some (of_nat n)"
proof -
  let ?s = "pad0 8 (show_base 16 n)"
  have dig: "\<forall>c \<in> set ?s. is_digit 16 c"
    using show_base_digits [of 16 n] by (auto simp: pad0_def is_digit_def digit_val_def)
  have ndig: "\<not> is_digit 16 nul" "\<not> is_digit 16 (CHR ''x'')" "\<not> is_digit 16 (CHR ''X'')"
    "\<not> is_digit 16 (CHR ''-'')" "\<not> is_digit 16 (CHR ''+'')"
    by (simp_all add: is_digit_def digit_val_def nul_def)
  have sp: "is_digit 16 c \<Longrightarrow> \<not> is_space c" for c
    by (auto simp: is_digit_def digit_val_def is_space_def Let_def split: if_splits)
  have ne: "?s \<noteq> []" by (simp add: pad0_def)
  from dig ndig have "c_str ?s = ?s" by (intro c_str_no_nul) auto
  moreover have "dropWhile is_space ?s = ?s"
    using dig sp ne by (simp add: dropWhile_eq_self_iff)
  moreover have "strip_0x ?s = ?s"
    using dig ndig by (auto simp: strip_0x_def split: list.splits)
  moreover have "is_digit 16 (hd ?s)" using dig ne by simp
  then have "hd ?s \<noteq> CHR ''-''" "hd ?s \<noteq> CHR ''+''" using ndig by auto
  moreover have tw: "takeWhile (is_digit 16) ?s = ?s" using dig by (simp add: takeWhile_eq_all_conv)
  ultimately show ?thesis using ne by (simp add: sscanf_x_def Let_def tw)
qed

lemma length_hex8: "n < 2 ^ 32 \<Longrightarrow> length (pad0 8 (show_base 16 n)) = 8"
  using length_show_base [of 16 8 n] by simp

lemma wire_groups_hex:
  "wire_groups u (map (\<lambda>v. pad0 8 (show_base 16 (unat (htobe32 v)))) vs) = vs"
proof (induction vs arbitrary: u)
  case (Cons v vs)
  have "sscanf_x (pad0 8 (show_base 16 (unat (htobe32 v)))) = Some (htobe32 v)"
    using sscanf_x_pad0 [of "unat (htobe32 v)"] unat_bound [of "htobe32 v"] by simp
  with Cons show ?case by (simp add: htobe32_def be32toh_def)
qed simp

lemma chunks4:
  assumes "length xs = 4 * k"
  shows "concat (map (\<lambda>i. take k (drop (i * k) xs)) [0..<4]) = xs"
proof -
  have "take k xs @ take k (drop k xs) @ take k (drop (2 * k) xs) @ take k (drop (3 * k) xs) = xs"
  proof -
    have d: "take k (drop (3 * k) xs) = drop (3 * k) xs" using assms by simp
    have "take k (drop (2 * k) xs) @ drop (3 * k) xs = drop (2 * k) xs"
      by (metis add_mult_distrib append_take_drop_id drop_drop mult_1 numeral_3_eq_3
          numeral_2_eq_2 plus_1_eq_Suc add.commute)
    moreover have "take k (drop k xs) @ drop (2 * k) xs = drop k xs"
      by (metis append_take_drop_id drop_drop mult_2)
    ultimately show ?thesis using d by simp
  qed
  then show ?thesis by (simp add: upt_rec numeral_eq_Suc)
qed

lemma length_gid_to_wire_gid: "length (gid_to_wire_gid g) = 32"
proof -
  have l: "length (pad0 8 (show_base 16 (unat (w :: u32)))) = 8" for w
    using length_hex8 [of "unat w"] unat_bound [of w] by simp
  show ?thesis by (simp add: gid_to_wire_gid_def upt_rec l del: length_pad0)
qed

lemma chunk_of_concat:
  assumes "\<forall>x \<in> set xss. length x = k" and "i < length xss"
  shows "take k (drop (i * k) (concat xss)) = xss ! i"
  using assms
proof (induction xss arbitrary: i)
  case (Cons x xss)
  then show ?case by (cases i) (simp_all add: add.commute)
qed simp

text \<open>C15. The wire form of a GID has 32 characters, and reading it back gives the GID, whatever
  the unset variable of the reader held.\<close>

theorem wire_gid_roundtrip:
  assumes "length g = 16"
  shows "length (gid_to_wire_gid g) = 32 \<and> wire_gid_to_gid uninit (gid_to_wire_gid g) = Some g"
proof -
  let ?tmp = "map (\<lambda>i. of_nat (le_decode (take 4 (drop (4 * i) g))) :: u32) [0..<4]"
  let ?txt = "map (\<lambda>v. pad0 8 (show_base 16 (unat (htobe32 v)))) ?tmp"
  have w: "gid_to_wire_gid g = concat ?txt" by (simp add: gid_to_wire_gid_def Let_def)
  have "\<forall>x \<in> set ?txt. length x = 8"
    using length_hex8 unat_bound [where 'a = 32] by (auto simp del: length_pad0)
  then have "map (\<lambda>i. take 8 (drop (i * 8) (concat ?txt))) [0..<4] = ?txt"
    by (intro nth_equalityI) (simp_all add: chunk_of_concat del: length_pad0)
  then have "wire_groups uninit (map (\<lambda>i. take 8 (drop (i * 8) (gid_to_wire_gid g))) [0..<4]) = ?tmp"
    by (simp only: w wire_groups_hex)
  moreover have "le_encode 4 (unat (of_nat (le_decode (take 4 (drop (4 * i) g))) :: u32))
      = take 4 (drop (4 * i) g)" if "i < 4" for i
  proof -
    have len: "length (take 4 (drop (4 * i) g)) = 4" using assms that by simp
    then have "le_decode (take 4 (drop (4 * i) g)) < 2 ^ 32"
      using le_decode_bound [of "take 4 (drop (4 * i) g)"] by simp
    with len show ?thesis by (simp add: unat_of_nat take_bit_eq_mod le_encode_decode)
  qed
  then have "map (\<lambda>w. le_encode 4 (unat w)) ?tmp = map (\<lambda>i. take 4 (drop (i * 4) g)) [0..<4]"
    by (auto simp: mult.commute)
  then have "concat (map (\<lambda>w. le_encode 4 (unat w)) ?tmp) = g"
    using chunks4 [of g 4] assms by (simp only:)
  ultimately show ?thesis
    using length_gid_to_wire_gid [of g] by (simp add: wire_gid_to_gid_def)
qed

theorem wire_gid_roundtrip_witness:
  "length (gid_to_wire_gid (replicate 16 7)) = 32 \<and>
   wire_gid_to_gid 0 (gid_to_wire_gid (replicate 16 7)) = Some (replicate 16 7)"
  by (rule wire_gid_roundtrip) simp

section \<open>The printed form of a GID\<close>

definition long_gid :: "u8 \<Rightarrow> gid" where
  "long_gid b = [0x20, 0x01, 0x0d, 0xb8, 0x11, 0x11, 0x22, 0x22,
                 0x33, 0x33, 0x44, 0x44, 0x55, 0x55, 0x66, b]"

lemma length_inet_ntop6_long: "length (inet_ntop6 (long_gid 1)) = 38"
  "length (inet_ntop6 (long_gid 2)) = 38"
  by (simp_all add: inet_ntop6_def long_gid_def groups16_def upt_rec Let_def better_run_def
      show_base.simps)


end
