(* ===== verification/Pw_Ini.thy ===== *)
theory Pw_Ini
  imports Pw_Address
begin

text \<open>
  The configuration file: the parser class \<^verbatim>\<open>IniParser\<close> (\<^verbatim>\<open>src/src/ini.hpp\<close>), the functions
  that read parameters through it (\<^verbatim>\<open>src/src/common.cpp\<close>) and the table of log levels
  (\<^verbatim>\<open>src/src/logger.hpp\<close>).  A file is its content, or \<open>None\<close> when it cannot be opened.
  The theorems show that a parser reads back what a well-formed file says, and how each
  reader of a parameter treats a missing or an ill-formed one.
\<close>

section \<open>The parser\<close>

record IniParser =
  config_map :: "string \<rightharpoonup> (string \<rightharpoonup> string)"

definition trim :: "string \<Rightarrow> string" where
  "trim str = rev (dropWhile is_space (rev (dropWhile is_space str)))"

text \<open>\<^verbatim>\<open>std::getline\<close> until the end of the file.\<close>

definition getlines :: "string \<Rightarrow> string list" where
  "getlines content =
     (let ps = split_on (CHR 0x0A) content in if last ps = [] then butlast ps else ps)"

definition config_set ::
    "(string \<rightharpoonup> (string \<rightharpoonup> string)) \<Rightarrow> string \<Rightarrow> string \<Rightarrow> string
     \<Rightarrow> (string \<rightharpoonup> (string \<rightharpoonup> string))" where
  "config_set cfg section key value =
     cfg(section \<mapsto> (case cfg section of None \<Rightarrow> Map.empty | Some m \<Rightarrow> m)(key \<mapsto> value))"

fun load_lines :: "string \<Rightarrow> (string \<rightharpoonup> (string \<rightharpoonup> string)) \<Rightarrow> string list
    \<Rightarrow> (string \<rightharpoonup> (string \<rightharpoonup> string))" where
  "load_lines section cfg [] = cfg"
| "load_lines section cfg (raw # rest) =
     (let line = trim raw in
      if line = [] \<or> hd line = CHR '';'' \<or> hd line = CHR ''#'' then load_lines section cfg rest
      else if hd line = CHR ''['' \<and> last line = CHR '']''
      then load_lines (take (length line - 2) (drop 1 line)) cfg rest
      else if CHR ''='' \<notin> set line then load_lines section cfg rest
      else
        let key = trim (takeWhile (\<lambda>c. c \<noteq> CHR ''='') line);
            value = trim (drop 1 (dropWhile (\<lambda>c. c \<noteq> CHR ''='') line));
            value' = (if CHR '';'' \<in> set value \<or> CHR ''#'' \<in> set value
                      then trim (takeWhile (\<lambda>c. c \<noteq> CHR '';'' \<and> c \<noteq> CHR ''#'') value)
                      else value)
        in load_lines section (config_set cfg section key value') rest)"

definition load :: "IniParser \<Rightarrow> string option \<Rightarrow> bool \<times> IniParser" where
  "load parser file =
     (case file of
        None \<Rightarrow> (False, parser)
      | Some content \<Rightarrow>
          (True, parser\<lparr>config_map := load_lines [] (config_map parser) (getlines content)\<rparr>))"

definition ini_get :: "IniParser \<Rightarrow> string \<Rightarrow> string \<Rightarrow> string" where
  "ini_get parser section key =
     (case config_map parser section of
        None \<Rightarrow> []
      | Some m \<Rightarrow> (case m key of None \<Rightarrow> [] | Some v \<Rightarrow> v))"

text \<open>
  \<^verbatim>\<open>std::stoi\<close>: white space, a sign, a run of decimal digits; \<open>None\<close> where it throws, that
  is when there is no digit or the value is outside the range of \<^verbatim>\<open>int\<close>.
\<close>

definition stoi :: "string \<Rightarrow> int option" where
  "stoi str =
     (let s = dropWhile is_space (c_str str);
          neg = (s \<noteq> [] \<and> hd s = CHR ''-'');
          t = (if s \<noteq> [] \<and> (hd s = CHR ''-'' \<or> hd s = CHR ''+'') then tl s else s);
          ds = takeWhile (is_digit 10) t;
          v = (if neg then - int (read_base 10 ds) else int (read_base 10 ds))
      in if ds = [] then None
         else if - (2 ^ 31) \<le> v \<and> v < 2 ^ 31 then Some v else None)"

definition getInt :: "IniParser \<Rightarrow> string \<Rightarrow> string \<Rightarrow> int" where
  "getInt parser section key =
     (case stoi (ini_get parser section key) of None \<Rightarrow> - 1 | Some v \<Rightarrow> v)"

section \<open>Reading parameters\<close>

definition new_parser :: IniParser where
  "new_parser = \<lparr>config_map = Map.empty\<rparr>"

text \<open>The results that come back through reference parameters start from the caller's values.\<close>

definition get_controller_info_from_ini ::
    "string option \<Rightarrow> string \<Rightarrow> int \<Rightarrow> int \<times> string \<times> int" where
  "get_controller_info_from_ini file ip0 port0 =
     (let (ok, parser) = load new_parser file in
      if \<not> ok then (PINGWEAVE_FAILURE, ip0, port0)
      else
        let ip = ini_get parser ''controller'' ''host'' in
        if ip = [] then (PINGWEAVE_FAILURE, ip, port0)
        else
          let port = getInt parser ''controller'' ''collect_port_http'' in
          if port < 0 then (PINGWEAVE_FAILURE, ip, port)
          else (PINGWEAVE_SUCCESS, ip, port))"

definition get_int_value_from_ini :: "IniParser \<Rightarrow> string \<Rightarrow> string \<Rightarrow> exn + int" where
  "get_int_value_from_ini parser section key =
     (let value = getInt parser section key in
      if value = - 1 then Inl (Runtime_error key) else Inr value)"

definition get_str_value_from_ini :: "IniParser \<Rightarrow> string \<Rightarrow> string \<Rightarrow> exn + string" where
  "get_str_value_from_ini parser section key =
     (let value = ini_get parser section key in
      if value = [] then Inl (Runtime_error key) else Inr value)"

definition get_int_param_from_ini :: "string option \<Rightarrow> int \<Rightarrow> string \<Rightarrow> int \<times> int" where
  "get_int_param_from_ini file ret key =
     (let (ok, parser) = load new_parser file in
      if \<not> ok then (PINGWEAVE_FAILURE, ret)
      else (case get_int_value_from_ini parser ''param'' key of
              Inl _ \<Rightarrow> (PINGWEAVE_FAILURE, ret)
            | Inr v \<Rightarrow> (PINGWEAVE_SUCCESS, v)))"

definition get_str_param_from_ini :: "string option \<Rightarrow> string \<Rightarrow> string \<Rightarrow> int \<times> string" where
  "get_str_param_from_ini file ret key =
     (let (ok, parser) = load new_parser file in
      if \<not> ok then (PINGWEAVE_FAILURE, ret)
      else (case get_str_value_from_ini parser ''param'' key of
              Inl _ \<Rightarrow> (PINGWEAVE_FAILURE, ret)
            | Inr v \<Rightarrow> (PINGWEAVE_SUCCESS, v)))"

datatype level_enum = Trace | Debug | Info | Warn | Err | Critical

definition logLevelMap :: "(string \<times> level_enum) list" where
  "logLevelMap =
     [(''trace'', Trace), (''TRACE'', Trace), (''debug'', Debug), (''DEBUG'', Debug),
      (''info'', Info), (''INFO'', Info), (''warn'', Warn), (''WARN'', Warn),
      (''error'', Err), (''ERROR'', Err), (''critical'', Critical), (''CRITICAL'', Critical)]"

definition get_log_config_from_ini ::
    "string option \<Rightarrow> level_enum \<Rightarrow> string \<Rightarrow> int \<times> level_enum" where
  "get_log_config_from_ini file log_level key =
     (let (ok, parser) = load new_parser file in
      if \<not> ok then (PINGWEAVE_FAILURE, log_level)
      else (case get_str_value_from_ini parser ''logging'' key of
              Inl _ \<Rightarrow> (PINGWEAVE_FAILURE, log_level)
            | Inr ret \<Rightarrow>
                (case map_of logLevelMap ret of
                   Some l \<Rightarrow> (PINGWEAVE_SUCCESS, l)
                 | None \<Rightarrow> (PINGWEAVE_FAILURE, log_level))))"

section \<open>Trimming\<close>

definition tight :: "string \<Rightarrow> bool" where
  "tight s \<longleftrightarrow> s = [] \<or> (\<not> is_space (hd s) \<and> \<not> is_space (last s))"

lemma dropWhile_pad: "list_all P w \<Longrightarrow> s = [] \<or> \<not> P (hd s) \<Longrightarrow> dropWhile P (w @ s) = s"
  by (induction w) (cases s, auto)

lemma trim_pad:
  assumes "list_all is_space w1" and "list_all is_space w2" and "tight s"
  shows "trim (w1 @ s @ w2) = s"
proof (cases "s = []")
  case True
  then have "\<forall>c \<in> set (w1 @ s @ w2). is_space c"
    using assms by (auto simp: list_all_iff)
  then have eq: "dropWhile is_space (w1 @ s @ w2) = []"
    by (simp only: dropWhile_eq_Nil_conv)
  show ?thesis unfolding trim_def eq using True by simp
next
  case False
  with assms have "dropWhile is_space (w1 @ s @ w2) = s @ w2"
    by (intro dropWhile_pad) (auto simp: tight_def)
  moreover have "dropWhile is_space (rev w2 @ rev s) = rev s"
    using assms False by (intro dropWhile_pad) (auto simp: tight_def hd_rev list_all_iff)
  ultimately show ?thesis by (simp add: trim_def)
qed

lemma trim_tight [simp]: "tight s \<Longrightarrow> trim s = s"
  using trim_pad [of "[]" "[]" s] by simp

lemma tight_trim [simp]: "tight (trim s)"
proof (cases "trim s = []")
  case False
  let ?t = "dropWhile is_space s"
  from False have ne: "dropWhile is_space (rev ?t) \<noteq> []" by (simp add: trim_def)
  then have "\<not> is_space (last (trim s))"
    using hd_dropWhile [of is_space "rev ?t"]
    by (metis False dropWhile_eq_Nil_conv hd_rev rev_rev_ident rev_is_Nil_conv trim_def)
  moreover have "?t \<noteq> []"
  proof
    assume "?t = []"
    with ne show False by simp
  qed
  then have "\<not> is_space (hd ?t)" by (rule hd_dropWhile)
  moreover have "hd (trim s) = hd ?t"
  proof -
    have "rev ?t = takeWhile is_space (rev ?t) @ dropWhile is_space (rev ?t)" by simp
    then have "?t = trim s @ rev (takeWhile is_space (rev ?t))"
      unfolding trim_def by (metis rev_append rev_rev_ident)
    with False show ?thesis by (metis hd_append2)
  qed
  ultimately show ?thesis by (simp add: tight_def)
qed (simp add: tight_def)

section \<open>Reading back a well-formed file\<close>

text \<open>
  A well-formed file is a list of sections with their assignments, one per line in the form
  \<^verbatim>\<open>key = value\<close>.
\<close>

definition wf_key :: "string \<Rightarrow> bool" where
  "wf_key k \<longleftrightarrow> k \<noteq> [] \<and> tight k \<and> CHR ''='' \<notin> set k \<and> CHR 0x0A \<notin> set k
     \<and> hd k \<noteq> CHR '';'' \<and> hd k \<noteq> CHR ''#'' \<and> hd k \<noteq> CHR ''[''"

definition wf_value :: "string \<Rightarrow> bool" where
  "wf_value v \<longleftrightarrow> tight v \<and> CHR '';'' \<notin> set v \<and> CHR ''#'' \<notin> set v \<and> CHR 0x0A \<notin> set v"

definition wf_section :: "string \<Rightarrow> bool" where
  "wf_section s \<longleftrightarrow> CHR 0x0A \<notin> set s"

type_synonym ini_doc = "(string \<times> (string \<times> string) list) list"

definition wf_doc :: "ini_doc \<Rightarrow> bool" where
  "wf_doc doc \<longleftrightarrow> (\<forall>(s, kvs) \<in> set doc. wf_section s \<and> (\<forall>(k, v) \<in> set kvs. wf_key k \<and> wf_value v))"

definition section_line :: "string \<Rightarrow> string" where "section_line s = ''['' @ s @ '']''"
definition assign_line :: "string \<Rightarrow> string \<Rightarrow> string" where "assign_line k v = k @ '' = '' @ v"

fun render_section :: "string \<times> (string \<times> string) list \<Rightarrow> string list" where
  "render_section (s, kvs) = section_line s # map (\<lambda>(k, v). assign_line k v) kvs"

definition render_doc :: "ini_doc \<Rightarrow> string" where
  "render_doc doc = concat (map (\<lambda>l. l @ [CHR 0x0A]) (concat (map render_section doc)))"

fun doc_config :: "(string \<rightharpoonup> (string \<rightharpoonup> string)) \<Rightarrow> ini_doc \<Rightarrow> (string \<rightharpoonup> (string \<rightharpoonup> string))" where
  "doc_config cfg [] = cfg"
| "doc_config cfg ((s, kvs) # rest) =
     doc_config (foldl (\<lambda>c (k, v). config_set c s k v) cfg kvs) rest"

lemma is_space_chars [simp]:
  "is_space (CHR '' '')" "\<not> is_space (CHR ''='')" "\<not> is_space (CHR ''['')" "\<not> is_space (CHR '']'')"
  by (simp_all add: is_space_def)

lemma split_on_lines:
  "\<forall>l \<in> set ls. c \<notin> set l \<Longrightarrow> split_on c (concat (map (\<lambda>l. l @ [c]) ls)) = ls @ [[]]"
  by (induction ls) (auto simp: split_on_append)

lemma getlines_lines:
  "\<forall>l \<in> set ls. CHR 0x0A \<notin> set l \<Longrightarrow> getlines (concat (map (\<lambda>l. l @ [CHR 0x0A]) ls)) = ls"
  by (simp add: getlines_def split_on_lines Let_def)

lemma load_lines_section:
  "load_lines sec cfg (section_line s # rest) = load_lines s cfg rest"
proof -
  have "tight (''['' @ s @ '']'')" by (simp add: tight_def)
  then show ?thesis by (simp add: Let_def section_line_def)
qed

lemma load_lines_assign:
  assumes "wf_key k" and "wf_value v"
  shows "load_lines sec cfg (assign_line k v # rest) = load_lines sec (config_set cfg sec k v) rest"
proof -
  let ?line = "trim (assign_line k v)"
  have line: "?line = k @ '' ='' @ (if v = [] then [] else '' '' @ v)"
  proof (cases "v = []")
    case True
    have "trim ([] @ (k @ '' ='') @ '' '') = k @ '' =''"
      using assms by (intro trim_pad) (auto simp: tight_def wf_key_def)
    with True show ?thesis by (simp add: assign_line_def)
  next
    case False
    then have "tight (assign_line k v)"
      using assms by (auto simp: tight_def wf_key_def wf_value_def assign_line_def)
    with False show ?thesis by (simp add: assign_line_def)
  qed
  have hd: "hd ?line = hd k" and ne: "?line \<noteq> []" and eq: "CHR ''='' \<in> set ?line"
    using assms by (simp_all add: line wf_key_def)
  have "takeWhile (\<lambda>c. c \<noteq> CHR ''='') (k @ '' ='' @ (if v = [] then [] else '' '' @ v)) = k @ '' ''"
    using assms by (subst takeWhile_append2) (auto simp: wf_key_def)
  moreover have "trim ([] @ k @ '' '') = k"
    using assms by (intro trim_pad) (auto simp: wf_key_def)
  ultimately have key: "trim (takeWhile (\<lambda>c. c \<noteq> CHR ''='') ?line) = k"
    by (simp add: line)
  have "dropWhile (\<lambda>c. c \<noteq> CHR ''='') (k @ '' ='' @ (if v = [] then [] else '' '' @ v))
      = ''='' @ (if v = [] then [] else '' '' @ v)"
    using assms by (subst dropWhile_append2) (auto simp: wf_key_def)
  moreover have "trim ('' '' @ v @ []) = v"
    using assms by (intro trim_pad) (auto simp: wf_value_def)
  moreover have "trim [] = []" by (simp add: trim_def)
  ultimately have "trim (drop 1 (dropWhile (\<lambda>c. c \<noteq> CHR ''='') ?line)) = v"
    by (simp add: line)
  with key show ?thesis
    using assms hd ne eq by (simp add: Let_def wf_key_def wf_value_def)
qed

lemma load_lines_assigns:
  assumes "\<forall>(k, v) \<in> set kvs. wf_key k \<and> wf_value v"
  shows "load_lines s cfg (map (\<lambda>(k, v). assign_line k v) kvs @ rest) =
     load_lines s (foldl (\<lambda>c (k, v). config_set c s k v) cfg kvs) rest"
  using assms
proof (induction kvs arbitrary: cfg)
  case (Cons kv kvs)
  obtain k v where kv: "kv = (k, v)" by (cases kv)
  with Cons show ?case by (simp add: load_lines_assign del: load_lines.simps)
qed simp

lemma load_lines_doc:
  "wf_doc doc \<Longrightarrow> load_lines sec cfg (concat (map render_section doc)) = doc_config cfg doc"
proof (induction doc arbitrary: sec cfg)
  case (Cons d doc)
  obtain s kvs where d: "d = (s, kvs)" by (cases d)
  from Cons.prems have wf: "\<forall>(k, v) \<in> set kvs. wf_key k \<and> wf_value v" and "wf_doc doc"
    by (auto simp: wf_doc_def d)
  then show ?case
    using Cons.IH
    by (simp add: d load_lines_section load_lines_assigns [OF wf] del: load_lines.simps)
qed simp

lemma render_no_newline:
  "wf_doc doc \<Longrightarrow> \<forall>l \<in> set (concat (map render_section doc)). CHR 0x0A \<notin> set l"
proof (induction doc)
  case (Cons d doc)
  obtain s kvs where d: "d = (s, kvs)" by (cases d)
  from Cons.prems have "wf_section s" and kvs: "\<forall>(k, v) \<in> set kvs. wf_key k \<and> wf_value v"
    and doc: "wf_doc doc"
    by (auto simp: wf_doc_def d)
  then have "CHR 0x0A \<notin> set (section_line s)"
    by (simp add: section_line_def wf_section_def)
  moreover have "CHR 0x0A \<notin> set (assign_line k v)" if "(k, v) \<in> set kvs" for k v
    using kvs that by (auto simp: assign_line_def wf_key_def wf_value_def)
  ultimately show ?case using Cons.IH [OF doc] by (auto simp: d)
qed simp

text \<open>C16. Loading the text of a well-formed configuration into a fresh parser succeeds, and the
  parser then holds exactly the assignments of the text, later ones replacing earlier ones.\<close>

theorem load_render:
  assumes "wf_doc doc"
  shows "load new_parser (Some (render_doc doc)) = (True, \<lparr>config_map = doc_config Map.empty doc\<rparr>)"
proof -
  have "getlines (render_doc doc) = concat (map render_section doc)"
    unfolding render_doc_def by (rule getlines_lines) (rule render_no_newline [OF assms])
  then show ?thesis
    by (simp add: load_def new_parser_def load_lines_doc [OF assms])
qed

theorem load_render_witness:
  "wf_doc [(''param'', [(''a'', ''1''), (''a'', ''2'')])] \<and>
   load new_parser (Some (render_doc [(''param'', [(''a'', ''1''), (''a'', ''2'')])])) =
     (True, \<lparr>config_map = doc_config Map.empty [(''param'', [(''a'', ''1''), (''a'', ''2'')])]\<rparr>)"
proof -
  have h: "wf_doc [(''param'', [(''a'', ''1''), (''a'', ''2'')])]"
    by (simp add: wf_doc_def wf_section_def wf_key_def wf_value_def tight_def is_space_def)
  show ?thesis using h load_render [OF h] by blast
qed

section \<open>Integer parameters\<close>

lemma show_nat_digits: "\<forall>c \<in> set (show_nat n). is_digit 10 c"
  unfolding show_nat_def by (rule show_base_digits) auto

lemma digit_no_space: "is_digit 10 c \<Longrightarrow> \<not> is_space c"
  by (auto simp: is_digit_def digit_val_def is_space_def Let_def split: if_splits)

lemma stoi_show_int:
  assumes "- (2 ^ 31) \<le> i" and "i < 2 ^ 31"
  shows "stoi (show_int i) = Some i"
proof -
  let ?d = "show_nat (nat \<bar>i\<bar>)"
  have ne: "?d \<noteq> []" by (simp add: show_nat_def)
  then have hd: "is_digit 10 (hd ?d)" using show_nat_digits by (meson hd_in_set)
  have tw: "takeWhile (is_digit 10) (show_nat n) = show_nat n" for n
    using show_nat_digits by (simp add: takeWhile_eq_all_conv)
  have rd: "read_base 10 (show_nat n) = n" for n by (simp add: show_nat_def)
  have nd: "\<not> is_digit 10 (CHR ''-'')" "\<not> is_digit 10 (CHR ''+'')" "\<not> is_space (CHR ''-'')"
    by (simp_all add: is_digit_def digit_val_def is_space_def)
  have "nul \<noteq> CHR ''-''" by (simp add: nul_def)
  then have "nul \<notin> set (show_int i)" by (simp add: show_int_def)
  then have cs: "c_str (show_int i) = show_int i" by (rule c_str_no_nul)
  show ?thesis
  proof (cases "i < 0")
    case True
    then have s: "show_int i = CHR ''-'' # ?d" by (simp add: show_int_def)
    have "dropWhile is_space (show_int i) = CHR ''-'' # ?d" using nd by (simp add: s)
    then show ?thesis using True assms ne by (simp add: stoi_def cs Let_def tw rd)
  next
    case False
    then have s: "show_int i = ?d" by (simp add: show_int_def)
    have "dropWhile is_space ?d = ?d"
      using ne hd digit_no_space by (simp add: dropWhile_eq_self_iff)
    moreover have "hd ?d \<noteq> CHR ''-''" "hd ?d \<noteq> CHR ''+''" using hd nd by auto
    ultimately show ?thesis using False assms ne cs by (simp add: stoi_def s Let_def tw rd)
  qed
qed

text \<open>A parameter written in the file as a decimal integer of the \<^verbatim>\<open>int\<close> range is returned with
  success, except minus one, which the reader takes for a failed conversion: the call fails and
  the caller's value stays.\<close>

theorem get_int_param_render:
  assumes "wf_doc doc" and "doc_config Map.empty doc ''param'' = Some m"
    and "m key = Some (show_int i)" and "- (2 ^ 31) \<le> i" and "i < 2 ^ 31"
  shows "get_int_param_from_ini (Some (render_doc doc)) ret key =
     (if i = - 1 then (PINGWEAVE_FAILURE, ret) else (PINGWEAVE_SUCCESS, i))"
proof -
  have "load new_parser (Some (render_doc doc)) = (True, \<lparr>config_map = doc_config Map.empty doc\<rparr>)"
    by (simp add: load_def new_parser_def render_doc_def load_lines_doc [OF assms(1)]
        getlines_lines render_no_newline [OF assms(1)])
  then show ?thesis
    using assms(2,3) stoi_show_int [OF assms(4,5)]
    by (simp add: get_int_param_from_ini_def get_int_value_from_ini_def getInt_def ini_get_def)
qed

theorem get_int_param_render_witness:
  "get_int_param_from_ini (Some (render_doc [(''param'', [(''traffic_class_ib'', show_int 106)])]))
     0 ''traffic_class_ib'' = (PINGWEAVE_SUCCESS, 106)"
proof -
  have v: "show_int 106 = ''106''"
    by (simp add: show_int_def show_nat_def show_base.simps digit_char_def) code_simp
  have h: "wf_doc [(''param'', [(''traffic_class_ib'', show_int 106)])]"
    by (simp add: v wf_doc_def wf_section_def wf_key_def wf_value_def tight_def is_space_def)
  show ?thesis
    using get_int_param_render [OF h, of "[''traffic_class_ib'' \<mapsto> show_int 106]"
        "''traffic_class_ib''" 106 0]
    by (simp add: config_set_def)
qed

end
