(* ===== verification/Pw_Fifo.thy ===== *)
theory Pw_Fifo
  imports Pw_Prelude
begin

text \<open>
  The contract of a bounded first-in first-out channel, stated once as a locale.  The program
  has two of them: the single-producer single-consumer queue between its threads
  (theory \<open>Pw_Queue\<close>) and the shared-memory ring to the Python agent (theory \<open>Pw_Ipc\<close>).
  Inside the locale the contract gives the order, no-loss and no-duplication law of every
  sequence of operations.  Two arithmetic facts on ring indices serve both channels.
\<close>

section \<open>Distances on a ring\<close>

definition gap :: "nat \<Rightarrow> nat \<Rightarrow> nat \<Rightarrow> nat" where
  "gap S a b = (b + S - a) mod S"

lemma gap_lt [simp]: "0 < S \<Longrightarrow> gap S a b < S"
  by (simp add: gap_def)

lemma gap_add: "a < S \<Longrightarrow> b < S \<Longrightarrow> (a + gap S a b) mod S = b"
proof -
  assume a: "a < S" and b: "b < S"
  have "(a + gap S a b) mod S = (a + (b + S - a)) mod S"
    by (simp add: gap_def mod_add_right_eq)
  also have "a + (b + S - a) = b + S" using a by simp
  finally show ?thesis using b by simp
qed

lemma ring_add_le:
  assumes "(a + i) mod S = (a + j) mod S" and "i \<le> j" and "j < S"
  shows "i = (j :: nat)"
proof -
  from assms have "S dvd (a + j) - (a + i)"
    by (intro iffD1 [OF mod_eq_dvd_iff_nat]) auto
  then have "S dvd j - i" by simp
  with assms show ?thesis by (auto dest: dvd_imp_le)
qed

lemma ring_add_inj:
  assumes "(a + i) mod S = (a + j) mod S" and "i < S" and "j < S"
  shows "i = (j :: nat)"
  using ring_add_le [of a i S j] ring_add_le [of a j S i] assms by (cases "i \<le> j") auto

lemma gap_unique:
  assumes "a < S" and "b < S" and "c < S" and "(a + c) mod S = b"
  shows "gap S a b = c"
proof (rule ring_add_inj)
  show "(a + gap S a b) mod S = (a + c) mod S" using assms gap_add [of a S b] by simp
  show "gap S a b < S" using assms by (intro gap_lt) simp
qed (rule assms(3))

lemma gap_zero_iff: "a < S \<Longrightarrow> b < S \<Longrightarrow> gap S a b = 0 \<longleftrightarrow> a = b"
  using gap_add [of a S b] gap_unique [of a S b 0] by auto

lemma gap_Suc_right:
  assumes "a < S" and "b < S" and "(b + 1) mod S \<noteq> a"
  shows "gap S a ((b + 1) mod S) = gap S a b + 1" and "gap S a b + 1 < S"
proof -
  have eq: "(a + (gap S a b + 1)) mod S = (b + 1) mod S"
    using gap_add [OF assms(1,2)] by (metis add.assoc mod_add_left_eq)
  show lt: "gap S a b + 1 < S"
  proof (rule ccontr)
    assume "\<not> gap S a b + 1 < S"
    then have "gap S a b + 1 = S" using gap_lt [of S a b] assms by linarith
    then have "(b + 1) mod S = (a + S) mod S" using eq by (simp only:)
    then have "(b + 1) mod S = a" using assms by simp
    with assms(3) show False by simp
  qed
  show "gap S a ((b + 1) mod S) = gap S a b + 1"
    using assms lt eq by (intro gap_unique) auto
qed

lemma gap_Suc_left:
  assumes "a < S" and "b < S" and "a \<noteq> b"
  shows "gap S ((a + 1) mod S) b = gap S a b - 1"
proof -
  have pos: "0 < gap S a b" using assms gap_zero_iff by auto
  have "((a + 1) mod S + (gap S a b - 1)) mod S = (a + 1 + (gap S a b - 1)) mod S"
    by (simp add: mod_add_left_eq)
  also have "a + 1 + (gap S a b - 1) = a + gap S a b" using pos by simp
  finally have "((a + 1) mod S + (gap S a b - 1)) mod S = b"
    using gap_add [OF assms(1,2)] by simp
  moreover have "gap S a b - 1 < S" using gap_lt [of S a b] assms by linarith
  ultimately show ?thesis using assms by (intro gap_unique) auto
qed

lemma gap_self [simp]: "a < S \<Longrightarrow> gap S a a = 0"
  by (simp add: gap_zero_iff)

lemma gap_full_iff:
  assumes "a < S" and "b < S"
  shows "(b + 1) mod S = a \<longleftrightarrow> gap S a b = S - 1"
proof
  assume h: "(b + 1) mod S = a"
  have "(a + (S - 1)) mod S = ((b + 1) mod S + (S - 1)) mod S" using h by simp
  also have "\<dots> = (b + 1 + (S - 1)) mod S" by (simp add: mod_add_left_eq)
  also have "b + 1 + (S - 1) = b + S" using assms by simp
  finally have "(a + (S - 1)) mod S = b" using assms by simp
  then show "gap S a b = S - 1" using assms by (intro gap_unique) auto
next
  assume h: "gap S a b = S - 1"
  show "(b + 1) mod S = a"
  proof (rule ccontr)
    assume "(b + 1) mod S \<noteq> a"
    then have "gap S a b + 1 < S" by (rule gap_Suc_right [OF assms])
    with h show False by simp
  qed
qed

text \<open>Masking with a power of two minus one is the remainder.\<close>

lemma and_mask_mod: "Suc m = 2 ^ k \<Longrightarrow> x AND m = x mod Suc m" for x m :: nat
proof -
  assume h: "Suc m = 2 ^ k"
  then have "m = mask k" by (simp add: mask_eq_exp_minus_1)
  then have "x AND m = take_bit k x" by (simp add: take_bit_eq_mask)
  also have "\<dots> = x mod Suc m" by (simp add: take_bit_eq_mod h)
  finally show ?thesis .
qed

section \<open>The contract\<close>

datatype 'm fifo_op = Enq 'm | Deq

text \<open>
  A run of operations: what was accepted, in order, what was delivered, in order, and the
  final state.
\<close>

fun fifo_run :: "('q \<Rightarrow> 'm \<Rightarrow> bool \<times> 'q) \<Rightarrow> ('q \<Rightarrow> 'a option \<times> 'q) \<Rightarrow> 'q \<Rightarrow> 'm fifo_op list
    \<Rightarrow> 'm list \<times> 'a list \<times> 'q" where
  "fifo_run enq deq q [] = ([], [], q)"
| "fifo_run enq deq q (Enq m # ops) =
     (let (ok, q1) = enq q m; (acc, del, q2) = fifo_run enq deq q1 ops
      in ((if ok then m # acc else acc), del, q2))"
| "fifo_run enq deq q (Deq # ops) =
     (let (r, q1) = deq q; (acc, del, q2) = fifo_run enq deq q1 ops
      in (acc, (case r of None \<Rightarrow> del | Some x \<Rightarrow> x # del), q2))"

text \<open>
  \<open>pending\<close> is what has been accepted and not yet delivered; \<open>stored\<close> is what a channel keeps
  of an accepted message; \<open>room\<close> is how many pending messages it always has room for.
\<close>

locale bounded_fifo =
  fixes invar :: "'q \<Rightarrow> bool"
    and pending :: "'q \<Rightarrow> 'a list"
    and accepts :: "'m \<Rightarrow> bool"
    and stored :: "'m \<Rightarrow> 'a"
    and enq :: "'q \<Rightarrow> 'm \<Rightarrow> bool \<times> 'q"
    and deq :: "'q \<Rightarrow> 'a option \<times> 'q"
    and room :: "'q \<Rightarrow> nat"
  assumes enq_invar: "invar q \<Longrightarrow> accepts m \<Longrightarrow> invar (snd (enq q m))"
    and enq_ok: "invar q \<Longrightarrow> accepts m \<Longrightarrow> fst (enq q m) \<Longrightarrow>
      pending (snd (enq q m)) = pending q @ [stored m]"
    and enq_full: "invar q \<Longrightarrow> accepts m \<Longrightarrow> \<not> fst (enq q m) \<Longrightarrow>
      pending (snd (enq q m)) = pending q \<and> room q \<le> length (pending q)"
    and deq_invar: "invar q \<Longrightarrow> invar (snd (deq q))"
    and deq_empty: "invar q \<Longrightarrow> pending q = [] \<Longrightarrow> fst (deq q) = None \<and> pending (snd (deq q)) = []"
    and deq_hd: "invar q \<Longrightarrow> pending q = x # xs \<Longrightarrow>
      fst (deq q) = Some x \<and> pending (snd (deq q)) = xs"
    and enq_room: "invar q \<Longrightarrow> accepts m \<Longrightarrow> room (snd (enq q m)) = room q"
    and deq_room: "invar q \<Longrightarrow> room (snd (deq q)) = room q"
begin

lemma enq_accepted:
  "invar q \<Longrightarrow> accepts m \<Longrightarrow> length (pending q) < room q \<Longrightarrow> fst (enq q m)"
  using enq_full by (meson not_le)

lemma run_fifo:
  assumes "invar q" and "\<forall>m. Enq m \<in> set ops \<longrightarrow> accepts m"
    and "fifo_run enq deq q ops = (acc, del, q')"
  shows "invar q' \<and> room q' = room q \<and> pending q @ map stored acc = del @ pending q'"
  using assms
proof (induction ops arbitrary: q acc del q')
  case (Cons op ops)
  show ?case
  proof (cases op)
    case (Enq m)
    obtain ok q1 where e: "enq q m = (ok, q1)" by (cases "enq q m")
    obtain acc1 del1 q2 where r: "fifo_run enq deq q1 ops = (acc1, del1, q2)"
      by (cases "fifo_run enq deq q1 ops")
    have m: "accepts m" using Cons.prems(2) Enq by simp
    have inv1: "invar q1" using enq_invar [OF Cons.prems(1) m] e by simp
    have IH: "invar q2 \<and> room q2 = room q1 \<and> pending q1 @ map stored acc1 = del1 @ pending q2"
      using Cons.IH [OF inv1 _ r] Cons.prems(2) by simp
    have res: "acc = (if ok then m # acc1 else acc1)" "del = del1" "q' = q2"
      using Cons.prems(3) by (auto simp: Enq e r)
    show ?thesis
      using IH res enq_room [OF Cons.prems(1) m] enq_ok [OF Cons.prems(1) m] enq_full [OF Cons.prems(1) m] e by (cases ok) auto
  next
    case Deq
    obtain x q1 where e: "deq q = (x, q1)" by (cases "deq q")
    obtain acc1 del1 q2 where r: "fifo_run enq deq q1 ops = (acc1, del1, q2)"
      by (cases "fifo_run enq deq q1 ops")
    have inv1: "invar q1" using deq_invar [OF Cons.prems(1)] e by simp
    have IH: "invar q2 \<and> room q2 = room q1 \<and> pending q1 @ map stored acc1 = del1 @ pending q2"
      using Cons.IH [OF inv1 _ r] Cons.prems(2) by simp
    have res: "acc = acc1" "del = (case x of None \<Rightarrow> del1 | Some y \<Rightarrow> y # del1)" "q' = q2"
      using Cons.prems(3) by (auto simp: Deq e r)
    show ?thesis
      using IH res deq_room [OF Cons.prems(1)] deq_empty [OF Cons.prems(1)] deq_hd [OF Cons.prems(1)] e
      by (cases "pending q") auto
  qed
qed simp

end

end
