(* ===== verification/Pw_Queue.thy ===== *)
theory Pw_Queue
  imports Pw_Fifo
begin

text \<open>
  The queue between the threads of one process: \<^verbatim>\<open>ReaderWriterQueue\<close> and
  \<^verbatim>\<open>BlockingReaderWriterQueue\<close> of \<^verbatim>\<open>src/libs/readerwriterqueue/readerwriterqueue.h\<close> with the
  counter of \<^verbatim>\<open>LightweightSemaphore\<close> (\<^verbatim>\<open>atomicops.h\<close>).  The program never calls \<^verbatim>\<open>enqueue\<close>, so
  \<^verbatim>\<open>inner_enqueue\<close> is modelled in its \<^verbatim>\<open>CannotAlloc\<close> instance and the ring of blocks is
  the one the constructor builds.  Each operation is one atomic step (theory \<open>Pw_QueueConc\<close> has
  their single accesses); memory fences and the debugging guard have no counterpart.  The raw memory of a block is a map from slots to
  objects: a slot holds nothing before construction and after destruction.

  The theory proves that a queue is a bounded first-in first-out channel (an interpretation of
  \<open>bounded_fifo\<close>), that no operation reads a slot without an object, and that a queue created
  for \<open>size\<close> elements refuses an element only when \<open>size\<close> elements are pending.
\<close>

section \<open>Blocks\<close>

record 'a Block =
  front :: nat
  localTail :: nat
  tail :: nat
  localFront :: nat
  next_block :: nat
  data :: "nat \<Rightarrow> 'a option"
  sizeMask :: nat

definition MAX_BLOCK_SIZE :: nat where "MAX_BLOCK_SIZE = 512"

definition make_block :: "nat \<Rightarrow> 'a Block" where
  "make_block capacity =
     \<lparr>front = 0, localTail = 0, tail = 0, localFront = 0, next_block = 0,
      data = (\<lambda>_. None), sizeMask = capacity - 1\<rparr>"

definition ceilToPow2 :: "u64 \<Rightarrow> u64" where
  "ceilToPow2 x0 =
     (let x1 = x0 - 1;
          x2 = x1 OR drop_bit 1 x1;
          x3 = x2 OR drop_bit 2 x2;
          x4 = x3 OR drop_bit 4 x3;
          x5 = x4 OR drop_bit (1 * 8) x4;
          x6 = x5 OR drop_bit (2 * 8) x5;
          x7 = x6 OR drop_bit (4 * 8) x6
      in x7 + 1)"

section \<open>The queue of blocks\<close>

record 'a ReaderWriterQueue =
  blocks :: "'a Block list"
  frontBlock :: nat
  tailBlock :: nat
  largestBlockSize :: nat

text \<open>The ring of \<open>n\<close> blocks of one size that the constructor links.\<close>

definition ring_blocks :: "nat \<Rightarrow> nat \<Rightarrow> 'a Block list" where
  "ring_blocks n capacity =
     map (\<lambda>i. (make_block capacity)\<lparr>next_block := (i + 1) mod n\<rparr>) [0..<n]"

definition rwq_new :: "nat \<Rightarrow> 'a ReaderWriterQueue" where
  "rwq_new sz =
     (let largest = unat (ceilToPow2 (of_nat sz + 1)) in
      if largest > MAX_BLOCK_SIZE * 2 then
        let initialBlockCount = (sz + MAX_BLOCK_SIZE * 2 - 3) div (MAX_BLOCK_SIZE - 1)
        in \<lparr>blocks = ring_blocks initialBlockCount MAX_BLOCK_SIZE, frontBlock = 0, tailBlock = 0,
            largestBlockSize = MAX_BLOCK_SIZE\<rparr>
      else \<lparr>blocks = ring_blocks 1 largest, frontBlock = 0, tailBlock = 0,
            largestBlockSize = largest\<rparr>)"

definition block_put :: "'a Block \<Rightarrow> 'a \<Rightarrow> 'a Block" where
  "block_put b x = b\<lparr>data := (data b)(tail b := Some x), tail := (tail b + 1) AND sizeMask b\<rparr>"

definition block_drop :: "'a Block \<Rightarrow> 'a Block" where
  "block_drop b = b\<lparr>data := (data b)(front b := None), front := (front b + 1) AND sizeMask b\<rparr>"

definition set_block :: "'a ReaderWriterQueue \<Rightarrow> nat \<Rightarrow> 'a Block \<Rightarrow> 'a ReaderWriterQueue" where
  "set_block q i b = q\<lparr>blocks := (blocks q)[i := b]\<rparr>"

definition rwq_try_enqueue :: "'a ReaderWriterQueue \<Rightarrow> 'a \<Rightarrow> bool \<times> 'a ReaderWriterQueue" where
  "rwq_try_enqueue q element =
     (let t = tailBlock q; tb = blocks q ! t;
          nextBlockTail = (tail tb + 1) AND sizeMask tb
      in if nextBlockTail \<noteq> localFront tb then (True, set_block q t (block_put tb element))
         else
           let tb' = tb\<lparr>localFront := front tb\<rparr> in
           if nextBlockTail \<noteq> front tb then (True, set_block q t (block_put tb' element))
           else
             let q1 = set_block q t tb' in
             if next_block tb \<noteq> frontBlock q then
               let n = next_block tb; nb = blocks q1 ! n;
                   nb' = nb\<lparr>localFront := front nb\<rparr>
               in (True, (set_block q1 n (block_put nb' element))\<lparr>tailBlock := n\<rparr>)
             else (False, q1))"

text \<open>
  \<open>try_dequeue\<close> returns whether it succeeded and the object it moved out of the slot;
  \<open>Some None\<close> would be a read of a slot that holds no object.
\<close>

definition rwq_try_dequeue ::
    "'a ReaderWriterQueue \<Rightarrow> 'a option option \<times> 'a ReaderWriterQueue" where
  "rwq_try_dequeue q =
     (let f = frontBlock q; fb = blocks q ! f
      in if front fb \<noteq> localTail fb
         then (Some (data fb (front fb)), set_block q f (block_drop fb))
         else
           let fb' = fb\<lparr>localTail := tail fb\<rparr> in
           if front fb \<noteq> tail fb
           then (Some (data fb (front fb)), set_block q f (block_drop fb'))
           else
             let q1 = set_block q f fb' in
             if f \<noteq> tailBlock q then
               let fb2 = blocks q1 ! frontBlock q1 in
               if front fb2 \<noteq> tail fb2
               then (Some (data fb2 (front fb2)), set_block q1 f (block_drop fb2))
               else
                 let n = next_block fb2; nb = blocks q1 ! n;
                     nb' = nb\<lparr>localTail := tail nb\<rparr>
                 in (Some (data nb (front nb)), (set_block q1 n (block_drop nb'))\<lparr>frontBlock := n\<rparr>)
             else (None, q1))"

definition rwq_peek :: "'a ReaderWriterQueue \<Rightarrow> 'a option option" where
  "rwq_peek q =
     (let f = frontBlock q; fb = blocks q ! f
      in if front fb \<noteq> localTail fb \<or> front fb \<noteq> tail fb then Some (data fb (front fb))
         else if f \<noteq> tailBlock q
         then let nb = blocks q ! next_block fb in Some (data nb (front nb))
         else None)"

text \<open>\<^verbatim>\<open>pop\<close> has the body of \<^verbatim>\<open>try_dequeue\<close> without the result.\<close>

definition rwq_pop :: "'a ReaderWriterQueue \<Rightarrow> bool \<times> 'a ReaderWriterQueue" where
  "rwq_pop q = (let (r, q') = rwq_try_dequeue q in (r \<noteq> None, q'))"

fun ring_sum :: "('a Block \<Rightarrow> nat) \<Rightarrow> 'a ReaderWriterQueue \<Rightarrow> nat \<Rightarrow> nat \<Rightarrow> nat" where
  "ring_sum g q 0 i = 0"
| "ring_sum g q (Suc k) i =
     (let b = blocks q ! i in
      g b + (if next_block b = frontBlock q then 0 else ring_sum g q k (next_block b)))"

text \<open>
  The two loops over the ring visit each block once; the number of blocks bounds them.  The
  subtraction of \<^verbatim>\<open>size_t\<close> values wraps before it is masked.
\<close>

definition rwq_size_approx :: "'a ReaderWriterQueue \<Rightarrow> nat" where
  "rwq_size_approx q =
     ring_sum (\<lambda>b. unat ((of_nat (tail b) - of_nat (front b) :: u64) AND of_nat (sizeMask b)))
       q (length (blocks q)) (frontBlock q)"

definition rwq_max_capacity :: "'a ReaderWriterQueue \<Rightarrow> nat" where
  "rwq_max_capacity q = ring_sum sizeMask q (length (blocks q)) (frontBlock q)"

section \<open>The invariant of a block\<close>

definition block_size :: "'a Block \<Rightarrow> nat" where "block_size b = Suc (sizeMask b)"

definition block_count :: "'a Block \<Rightarrow> nat" where
  "block_count b = gap (block_size b) (front b) (tail b)"

definition slot :: "'a Block \<Rightarrow> nat \<Rightarrow> nat" where
  "slot b j = (front b + j) mod block_size b"

definition block_list :: "'a Block \<Rightarrow> 'a list" where
  "block_list b = map (\<lambda>j. the (data b (slot b j))) [0..<block_count b]"

definition block_inv :: "'a Block \<Rightarrow> bool" where
  "block_inv b \<longleftrightarrow> (\<exists>k. block_size b = 2 ^ k)
     \<and> front b < block_size b \<and> tail b < block_size b
     \<and> localTail b < block_size b \<and> localFront b < block_size b
     \<and> gap (block_size b) (front b) (localTail b) \<le> block_count b
     \<and> block_count b \<le> gap (block_size b) (localFront b) (tail b)
     \<and> (\<forall>j < block_count b. data b (slot b j) \<noteq> None)"

lemma block_inv_and: "block_inv b \<Longrightarrow> x AND sizeMask b = x mod block_size b"
  by (auto simp: block_inv_def block_size_def intro: and_mask_mod)

lemma block_size_pos [simp]: "0 < block_size b"
  by (simp add: block_size_def)

lemma block_count_lt [simp]: "block_count b < block_size b"
  by (simp add: block_count_def)

lemma block_size_upd [simp]:
  "block_size (b\<lparr>front := x\<rparr>) = block_size b" "block_size (b\<lparr>tail := x\<rparr>) = block_size b"
  "block_size (b\<lparr>localFront := x\<rparr>) = block_size b" "block_size (b\<lparr>localTail := x\<rparr>) = block_size b"
  "block_size (b\<lparr>data := d\<rparr>) = block_size b"
  "block_size (block_put b x') = block_size b" "block_size (block_drop b) = block_size b"
  by (simp_all add: block_size_def block_put_def block_drop_def)

lemma block_view_upd [simp]:
  "block_count (b\<lparr>localFront := x\<rparr>) = block_count b" "block_count (b\<lparr>localTail := x\<rparr>) = block_count b"
  "block_list (b\<lparr>localFront := x\<rparr>) = block_list b" "block_list (b\<lparr>localTail := x\<rparr>) = block_list b"
  by (simp_all add: block_count_def block_list_def slot_def)

lemma block_next_upd [simp]:
  "next_block (block_put b x) = next_block b" "next_block (block_drop b) = next_block b"
  by (simp_all add: block_put_def block_drop_def)

lemma block_inv_refresh:
  "block_inv b \<Longrightarrow> block_inv (b\<lparr>localFront := front b\<rparr>)"
  "block_inv b \<Longrightarrow> block_inv (b\<lparr>localTail := tail b\<rparr>)"
  by (auto simp: block_inv_def block_count_def slot_def)

lemma length_block_list [simp]: "length (block_list b) = block_count b"
  by (simp add: block_list_def)

lemma slot_count: "block_inv b \<Longrightarrow> slot b (block_count b) = tail b"
  by (simp add: slot_def block_count_def block_inv_def gap_add)

lemma slot_inj: "i < block_size b \<Longrightarrow> j < block_size b \<Longrightarrow> slot b i = slot b j \<Longrightarrow> i = j"
  unfolding slot_def by (rule ring_add_inj)

lemma block_put_spec:
  assumes inv: "block_inv b" and room: "(tail b + 1) AND sizeMask b \<noteq> localFront b"
  shows "block_inv (block_put b x)" and "block_list (block_put b x) = block_list b @ [x]"
    and "block_count (block_put b x) = block_count b + 1"
proof -
  let ?S = "block_size b" and ?b = "block_put b x"
  from inv have lt: "front b < ?S" "tail b < ?S" "localFront b < ?S" "localTail b < ?S"
    by (auto simp: block_inv_def)
  have tl: "tail ?b = (tail b + 1) mod ?S"
    using inv by (simp add: block_put_def block_inv_and)
  have rm: "(tail b + 1) mod ?S \<noteq> localFront b" using room inv by (simp add: block_inv_and)
  note lf = gap_Suc_right [OF lt(3,2) rm]
  have nf: "(tail b + 1) mod ?S \<noteq> front b"
    using inv lf(2) gap_full_iff [OF lt(1,2)] by (auto simp: block_inv_def block_count_def)
  note fr = gap_Suc_right [OF lt(1,2) nf]
  have fb: "front ?b = front b" "localTail ?b = localTail b" "localFront ?b = localFront b"
    by (simp_all add: block_put_def)
  show cnt: "block_count ?b = block_count b + 1"
    using fr by (simp add: block_count_def tl fb)
  have sl: "slot ?b j = slot b j" for j by (simp add: slot_def fb)
  have ne: "slot b j \<noteq> tail b" if "j < block_count b" for j
    using slot_inj [of j b "block_count b"] slot_count [OF inv] that
    by (metis block_count_lt less_irrefl less_trans)
  have dat: "data ?b = (data b)(tail b := Some x)" by (simp add: block_put_def)
  show "block_list ?b = block_list b @ [x]"
    using ne slot_count [OF inv] by (auto simp: block_list_def cnt sl dat)
  show "block_inv ?b"
    unfolding block_inv_def cnt block_size_upd fb sl tl
    using inv lf ne slot_count [OF inv]
    by (auto simp: block_inv_def dat less_Suc_eq)
qed

lemma block_drop_spec:
  assumes inv: "block_inv b" and ne: "front b \<noteq> localTail b"
  shows "block_inv (block_drop b)" and "block_list (block_drop b) = tl (block_list b)"
    and "block_count b = Suc (block_count (block_drop b))"
    and "data b (front b) = Some (hd (block_list b))"
proof -
  let ?S = "block_size b" and ?b = "block_drop b"
  from inv have lt: "front b < ?S" "tail b < ?S" "localFront b < ?S" "localTail b < ?S"
    by (auto simp: block_inv_def)
  have fr: "front ?b = (front b + 1) mod ?S"
    using inv by (simp add: block_drop_def block_inv_and)
  have fb: "tail ?b = tail b" "localTail ?b = localTail b" "localFront ?b = localFront b"
    by (simp_all add: block_drop_def)
  have pos: "0 < gap ?S (front b) (localTail b)" using gap_zero_iff lt ne by auto
  then have pc: "0 < block_count b" using inv by (auto simp: block_inv_def)
  then have nt: "front b \<noteq> tail b" using lt by (auto simp: block_count_def)
  have "block_count ?b = block_count b - 1"
    using gap_Suc_left [OF lt(1,2) nt] by (simp add: block_count_def fr fb)
  with pc show cnt: "block_count b = Suc (block_count ?b)" by simp
  have sl: "slot ?b j = slot b (Suc j)" for j
    by (simp add: slot_def fr mod_add_left_eq)
  have s0: "slot b 0 = front b" using lt by (simp add: slot_def)
  have nf: "slot b (Suc j) \<noteq> front b" if "j < block_count ?b" for j
    using slot_inj [of "Suc j" b 0] s0 that cnt block_count_lt [of b] by auto
  have dat: "data ?b = (data b)(front b := None)" by (simp add: block_drop_def)
  have bl: "block_list b = the (data b (front b)) #
      map (\<lambda>j. the (data b (slot b (Suc j)))) [0..<block_count ?b]"
    by (simp add: block_list_def cnt upt_conv_Cons s0 map_Suc_upt [symmetric] comp_def
        del: upt_Suc)
  show "block_list ?b = tl (block_list b)"
    using nf unfolding bl by (auto simp: block_list_def sl dat)
  show "data b (front b) = Some (hd (block_list b))"
    using inv pc s0 unfolding bl by (auto simp: block_inv_def)
  have "gap ?S (front b) (localTail b) \<le> Suc (block_count ?b)"
    using inv cnt by (simp add: block_inv_def)
  then have "gap ?S (front ?b) (localTail b) \<le> block_count ?b"
    unfolding fr gap_Suc_left [OF lt(1,4) ne] using pos by linarith
  moreover have "block_count ?b \<le> gap ?S (localFront b) (tail b)"
    using inv cnt by (simp add: block_inv_def)
  ultimately show "block_inv ?b"
    unfolding block_inv_def block_size_upd fb sl
    using inv nf cnt by (auto simp: block_inv_def dat fr)
qed

lemma block_list_empty: "block_inv b \<Longrightarrow> block_list b = [] \<longleftrightarrow> front b = tail b"
  by (metis length_0_conv length_block_list block_count_def block_inv_def gap_zero_iff)

lemma block_full:
  assumes "block_inv b" and "(tail b + 1) AND sizeMask b = front b"
  shows "block_count b = sizeMask b"
  using assms gap_full_iff [of "front b" "block_size b" "tail b"]
  by (simp add: block_inv_and block_count_def) (simp add: block_inv_def block_size_def)

lemma block_room:
  assumes "block_inv b" and "block_count b < sizeMask b"
  shows "(tail b + 1) AND sizeMask b \<noteq> front b"
  using block_full [OF assms(1)] assms(2) by auto

section \<open>The invariant of the queue\<close>

text \<open>\<open>blk q j\<close> is the block \<open>j\<close> steps after the front block; \<open>dist q\<close> leads to the tail block.\<close>

definition nblocks :: "'a ReaderWriterQueue \<Rightarrow> nat" where "nblocks q = length (blocks q)"

definition pos :: "'a ReaderWriterQueue \<Rightarrow> nat \<Rightarrow> nat" where
  "pos q j = (frontBlock q + j) mod nblocks q"

definition blk :: "'a ReaderWriterQueue \<Rightarrow> nat \<Rightarrow> 'a Block" where "blk q j = blocks q ! pos q j"

definition dist :: "'a ReaderWriterQueue \<Rightarrow> nat" where
  "dist q = gap (nblocks q) (frontBlock q) (tailBlock q)"

definition rwq_pending :: "'a ReaderWriterQueue \<Rightarrow> 'a list" where
  "rwq_pending q = concat (map (\<lambda>j. block_list (blk q j)) [0..<nblocks q])"

definition rwq_inv :: "nat \<Rightarrow> 'a ReaderWriterQueue \<Rightarrow> bool" where
  "rwq_inv M q \<longleftrightarrow> 0 < M \<and> frontBlock q < nblocks q \<and> tailBlock q < nblocks q
     \<and> (\<forall>i < nblocks q. block_inv (blocks q ! i) \<and> sizeMask (blocks q ! i) = M
          \<and> next_block (blocks q ! i) = (i + 1) mod nblocks q)
     \<and> (\<forall>j < nblocks q. (0 < j \<and> j < dist q \<longrightarrow> block_count (blk q j) = M)
          \<and> (0 < j \<and> j = dist q \<longrightarrow> block_list (blk q j) \<noteq> [])
          \<and> (dist q < j \<longrightarrow> block_list (blk q j) = []))"

text \<open>The number of elements the queue always has room for.\<close>

definition rwq_room :: "nat \<Rightarrow> 'a ReaderWriterQueue \<Rightarrow> nat" where
  "rwq_room M q = max 1 (nblocks q - 1) * M"

lemma set_block_view [simp]:
  "nblocks (set_block q i b) = nblocks q" "frontBlock (set_block q i b) = frontBlock q"
  "tailBlock (set_block q i b) = tailBlock q" "pos (set_block q i b) j = pos q j"
  "dist (set_block q i b) = dist q"
  by (simp_all add: set_block_def nblocks_def pos_def dist_def)

lemma pos_eq: "i < nblocks q \<Longrightarrow> j < nblocks q \<Longrightarrow> pos q i = pos q j \<longleftrightarrow> i = j"
  unfolding pos_def using ring_add_inj by blast

lemma pos_lt: "0 < nblocks q \<Longrightarrow> pos q j < nblocks q"
  by (simp add: pos_def)

lemma blk_set_block:
  "p < nblocks q \<Longrightarrow> j < nblocks q \<Longrightarrow>
   blk (set_block q (pos q p) b) j = (if j = p then b else blk q j)"
  using pos_eq [of p q j] pos_lt [of q p]
  by (auto simp: blk_def) (auto simp: set_block_def nblocks_def)

lemma blocks_set_block:
  "i < nblocks q \<Longrightarrow> k < nblocks q \<Longrightarrow> blocks (set_block q i b) ! k = (if k = i then b else blocks q ! k)"
  by (auto simp: set_block_def nblocks_def)

lemma concat_upt_update:
  assumes "p < n" and "\<And>j. j < n \<Longrightarrow> j \<noteq> p \<Longrightarrow> f j = g j"
  shows "\<exists>xs ys. concat (map f [0..<n]) = xs @ f p @ ys \<and> concat (map g [0..<n]) = xs @ g p @ ys
    \<and> ((\<forall>j<p. g j = []) \<longrightarrow> xs = []) \<and> ((\<forall>j<n. p < j \<longrightarrow> g j = []) \<longrightarrow> ys = [])"
proof -
  have up: "[0..<n] = [0..<p] @ p # [Suc p..<n]"
    using assms(1) by (metis le_add_same_cancel1 less_imp_le upt_add_eq_append upt_conv_Cons
        le_add_diff_inverse zero_le)
  have e: "map f [0..<p] = map g [0..<p]" "map f [Suc p..<n] = map g [Suc p..<n]"
    using assms by (auto intro!: map_cong)
  show ?thesis
    unfolding up map_append list.map e
    by (rule_tac exI [of _ "concat (map g [0..<p])"], rule_tac exI [of _ "concat (map g [Suc p..<n])"])
      auto
qed

lemma rwq_inv_facts:
  assumes "rwq_inv M q"
  shows "0 < nblocks q" "dist q < nblocks q" "pos q 0 = frontBlock q" "pos q (dist q) = tailBlock q"
    "blk q 0 = blocks q ! frontBlock q" "blk q (dist q) = blocks q ! tailBlock q"
    "block_inv (blk q j)" "sizeMask (blk q j) = M" "next_block (blk q j) = pos q (Suc j)"
proof -
  show n: "0 < nblocks q" and d: "dist q < nblocks q" and p0: "pos q 0 = frontBlock q"
    and pd: "pos q (dist q) = tailBlock q"
    using assms by (auto simp: rwq_inv_def dist_def pos_def gap_add)
  show "blk q 0 = blocks q ! frontBlock q" "blk q (dist q) = blocks q ! tailBlock q"
    by (simp_all add: blk_def p0 pd)
  have "pos q j < nblocks q" using n by (rule pos_lt)
  then show "block_inv (blk q j)" "sizeMask (blk q j) = M" "next_block (blk q j) = pos q (Suc j)"
    using assms by (auto simp: rwq_inv_def blk_def) (simp add: pos_def mod_Suc_eq)
qed

lemma pending_update:
  assumes "p < nblocks q" and "p < nblocks q \<Longrightarrow> blk q' p = b" and "nblocks q' = nblocks q"
    and "\<And>j. j < nblocks q \<Longrightarrow> j \<noteq> p \<Longrightarrow> block_list (blk q' j) = block_list (blk q j)"
  shows "\<exists>xs ys. rwq_pending q' = xs @ block_list b @ ys \<and> rwq_pending q = xs @ block_list (blk q p) @ ys
    \<and> ((\<forall>j<p. block_list (blk q j) = []) \<longrightarrow> xs = [])
    \<and> ((\<forall>j<nblocks q. p < j \<longrightarrow> block_list (blk q j) = []) \<longrightarrow> ys = [])"
  using concat_upt_update [of p "nblocks q" "\<lambda>j. block_list (blk q' j)" "\<lambda>j. block_list (blk q j)"]
    assms by (simp add: rwq_pending_def)

lemma pending_put:
  assumes "rwq_inv M q" and "p < nblocks q" and "\<forall>j<nblocks q. p < j \<longrightarrow> block_list (blk q j) = []"
    and "nblocks q' = nblocks q" and "block_list (blk q' p) = block_list (blk q p) @ [x]"
    and "\<And>j. j < nblocks q \<Longrightarrow> j \<noteq> p \<Longrightarrow> block_list (blk q' j) = block_list (blk q j)"
  shows "rwq_pending q' = rwq_pending q @ [x]"
  using pending_update [of p q q' "blk q' p"] assms by auto

lemma rwq_inv_set:
  assumes inv: "rwq_inv M q" and p: "p < nblocks q"
    and b: "block_inv b" "sizeMask b = M" "next_block b = next_block (blk q p)"
    and st: "0 < p \<Longrightarrow> p < dist q \<Longrightarrow> block_count b = M"
      "0 < p \<Longrightarrow> p = dist q \<Longrightarrow> block_list b \<noteq> []"
      "dist q < p \<Longrightarrow> block_list b = []"
  shows "rwq_inv M (set_block q (pos q p) b)"
proof -
  note F = rwq_inv_facts [OF inv]
  have pl: "pos q p < nblocks q" using F(1) by (rule pos_lt)
  have nx: "next_block b = (pos q p + 1) mod nblocks q"
    using b(3) inv pl by (simp add: rwq_inv_def blk_def)
  have "\<forall>i < nblocks q. block_inv (blocks (set_block q (pos q p) b) ! i)
      \<and> sizeMask (blocks (set_block q (pos q p) b) ! i) = M
      \<and> next_block (blocks (set_block q (pos q p) b) ! i) = (i + 1) mod nblocks q"
    using inv b nx by (simp add: rwq_inv_def blocks_set_block [OF pl])
  moreover have "0 < M \<and> frontBlock q < nblocks q \<and> tailBlock q < nblocks q"
    using inv by (simp add: rwq_inv_def)
  moreover have "\<forall>j < nblocks q.
      (0 < j \<and> j < dist q \<longrightarrow> block_count (blk (set_block q (pos q p) b) j) = M)
      \<and> (0 < j \<and> j = dist q \<longrightarrow> block_list (blk (set_block q (pos q p) b) j) \<noteq> [])
      \<and> (dist q < j \<longrightarrow> block_list (blk (set_block q (pos q p) b) j) = [])"
    using inv st by (simp add: rwq_inv_def blk_set_block [OF p])
  ultimately show ?thesis by (simp add: rwq_inv_def)
qed

text \<open>Refreshing a cached index changes nothing that the invariant or the contents depend on.\<close>

lemma rwq_refresh:
  assumes inv: "rwq_inv M q" and p: "p < nblocks q" and b: "block_inv b" "sizeMask b = M"
    "next_block b = next_block (blk q p)" "block_list b = block_list (blk q p)"
  shows "rwq_inv M (set_block q (pos q p) b)"
    and "rwq_pending (set_block q (pos q p) b) = rwq_pending q"
proof -
  have c: "block_count b = block_count (blk q p)" using b(4) by (metis length_block_list)
  show "rwq_inv M (set_block q (pos q p) b)"
    using inv p b c by (intro rwq_inv_set) (auto simp: rwq_inv_def)
  show "rwq_pending (set_block q (pos q p) b) = rwq_pending q"
    unfolding rwq_pending_def set_block_view
    using b(4) by (intro arg_cong [where f = concat] map_cong) (auto simp: blk_set_block [OF p])
qed

lemma rwq_put:
  assumes inv: "rwq_inv M q" and d: "d = dist q"
    and b: "block_inv b" "sizeMask b = M" "next_block b = next_block (blk q d)"
      "block_list b = block_list (blk q d)" "(tail b + 1) AND sizeMask b \<noteq> localFront b"
  shows "rwq_inv M (set_block q (pos q d) (block_put b x))"
    and "rwq_pending (set_block q (pos q d) (block_put b x)) = rwq_pending q @ [x]"
proof -
  note F = rwq_inv_facts [OF inv]
  note P = block_put_spec [OF b(1,5), of x]
  have dn: "d < nblocks q" using F(2) d by simp
  have s: "sizeMask (block_put b x) = M" using b(2) by (simp add: block_put_def)
  show "rwq_inv M (set_block q (pos q d) (block_put b x))"
    using P s b d by (intro rwq_inv_set [OF inv dn]) simp_all
  show "rwq_pending (set_block q (pos q d) (block_put b x)) = rwq_pending q @ [x]"
    using inv P(2) b(4) dn d
    by (intro pending_put [OF inv dn]) (simp_all add: blk_set_block rwq_inv_def)
qed

lemma rwq_advance_tail:
  assumes inv: "rwq_inv M q" and full: "0 < dist q \<Longrightarrow> block_count (blk q (dist q)) = M"
    and d: "d = Suc (dist q)" "d < nblocks q"
    and b: "b = (blk q d)\<lparr>localFront := front (blk q d)\<rparr>"
    and q': "q' = (set_block q (pos q d) (block_put b x))\<lparr>tailBlock := pos q d\<rparr>"
  shows "rwq_inv M q'" and "rwq_pending q' = rwq_pending q @ [x]" and "nblocks q' = nblocks q"
proof -
  note F = rwq_inv_facts [OF inv]
  have emp: "block_list (blk q d) = []" using inv d by (simp add: rwq_inv_def)
  have M: "0 < M" using inv by (simp add: rwq_inv_def)
  have bi: "block_inv b" using F(7) block_inv_refresh(1) b by blast
  have c0: "block_count (blk q d) = 0" using emp by (metis list.size(3) length_block_list)
  have room: "(tail b + 1) AND sizeMask b \<noteq> localFront b"
    using block_room [OF F(7), of d] c0 M F(8) [of d] b by simp
  note P = block_put_spec [OF bi room, of x]
  have bl: "block_list (block_put b x) = [x]" using P(2) emp b by simp
  show nb: "nblocks q' = nblocks q" by (simp add: q' nblocks_def set_block_def)
  have ps: "pos q' j = pos q j" for j by (simp add: pos_def nb) (simp add: q' set_block_def)
  have pl: "pos q d < nblocks q" using F(1) by (rule pos_lt)
  have bk: "blk q' j = (if j = d then block_put b x else blk q j)" if "j < nblocks q" for j
  proof -
    have "blk q' j = blk (set_block q (pos q d) (block_put b x)) j"
      unfolding blk_def ps set_block_view by (simp add: q')
    then show ?thesis using blk_set_block [OF d(2) that] by simp
  qed
  have bs: "blocks q' ! k = (if k = pos q d then block_put b x else blocks q ! k)"
    if "k < nblocks q" for k
    using blocks_set_block [OF pl that] by (simp add: q')
  have fr: "frontBlock q' = frontBlock q" "tailBlock q' = pos q d" by (simp_all add: q')
  have di: "dist q' = d"
    unfolding dist_def nb fr using inv d(2) pl by (intro gap_unique) (auto simp: rwq_inv_def pos_def)
  have mk: "sizeMask (block_put b x) = M" using F(8) [of d] by (simp add: block_put_def b)
  have nx: "next_block (block_put b x) = (pos q d + 1) mod nblocks q"
    using F(9) [of d] by (simp add: b pos_def mod_Suc_eq)
  have cf: "j < nblocks q \<Longrightarrow> 0 < j \<Longrightarrow> j < d \<Longrightarrow> block_count (blk q j) = M" for j
    using inv full d by (cases "j = dist q") (auto simp: rwq_inv_def)
  show "rwq_inv M q'"
    unfolding rwq_inv_def nb fr di
    using inv P(1) mk nx pl bl cf d by (auto simp: bs bk rwq_inv_def)
  show "rwq_pending q' = rwq_pending q @ [x]"
    using inv bl emp d by (intro pending_put [OF inv d(2)]) (auto simp: bk nb rwq_inv_def)
qed

lemma pending_full:
  assumes inv: "rwq_inv M q" and full: "block_count (blk q (dist q)) = M" and d: "Suc (dist q) = nblocks q"
  shows "rwq_room M q \<le> length (rwq_pending q)"
proof -
  let ?n = "nblocks q" and ?c = "\<lambda>j. block_count (blk q j)"
  have len: "length (rwq_pending q) = sum_list (map ?c [0..<?n])"
    by (simp add: rwq_pending_def length_concat comp_def)
  have cf: "?c j = M" if "0 < j" "j < ?n" for j
    using inv full d that by (cases "j = dist q") (auto simp: rwq_inv_def)
  have up: "[0..<?n] = 0 # [1..<?n]" using d upt_conv_Cons [of 0 ?n] by simp
  have "sum_list (map ?c [1..<?n]) = sum_list (map (\<lambda>_. M) [1..<?n])"
    using cf by (intro arg_cong [where f = sum_list] map_cong) auto
  also have "\<dots> = (?n - 1) * M" by (simp add: sum_list_triv)
  finally have l2: "length (rwq_pending q) = ?c 0 + (?n - 1) * M" using len up by simp
  show ?thesis
  proof (cases "?n = 1")
    case True
    then show ?thesis using l2 full d by (simp add: rwq_room_def)
  next
    case False
    then show ?thesis using l2 d by (simp add: rwq_room_def)
  qed
qed

lemma rwq_room_set [simp]: "rwq_room M (set_block q i b) = rwq_room M q"
  by (simp add: rwq_room_def)

lemma rwq_enqueue_spec:
  assumes inv: "rwq_inv M q" and e: "rwq_try_enqueue q x = (ok, q')"
  shows "rwq_inv M q' \<and> rwq_room M q' = rwq_room M q
    \<and> (if ok then rwq_pending q' = rwq_pending q @ [x]
        else rwq_pending q' = rwq_pending q \<and> rwq_room M q \<le> length (rwq_pending q))"
proof -
  note F = rwq_inv_facts [OF inv]
  define d where "d = dist q"
  define tb where "tb = blk q d"
  define b where "b = tb\<lparr>localFront := front tb\<rparr>"
  define q1 where "q1 = set_block q (pos q d) b"
  let ?nt = "(tail tb + 1) AND sizeMask tb"
  have tb: "block_inv tb" "sizeMask tb = M" "next_block tb = pos q (Suc d)" using F by (simp_all add: tb_def)
  have b: "block_inv b" "sizeMask b = M" "next_block b = next_block tb" "block_list b = block_list tb"
    using tb block_inv_refresh(1) [OF tb(1)] by (simp_all add: b_def)
  have dn: "d < nblocks q" using F by (simp add: d_def)
  have q1: "rwq_inv M q1" "rwq_pending q1 = rwq_pending q"
    using rwq_refresh [OF inv dn b(1,2)] b by (simp_all add: q1_def tb_def)
  have t1: "blocks q ! pos q d = tb" and t2: "tailBlock q = pos q d" and t3: "frontBlock q = pos q 0"
    and t4: "\<And>i c j. blk (set_block q i c) j = blocks (set_block q i c) ! pos q j"
    using F by (simp_all add: tb_def blk_def d_def)
  have eq: "rwq_try_enqueue q x =
     (if ?nt \<noteq> localFront tb then (True, set_block q (pos q d) (block_put tb x))
      else if ?nt \<noteq> front tb then (True, set_block q (pos q d) (block_put b x))
      else if pos q (Suc d) \<noteq> pos q 0 then
        (True, (set_block q1 (pos q (Suc d)) (block_put ((blk q1 (Suc d))\<lparr>localFront := front (blk q1 (Suc d))\<rparr>) x))
          \<lparr>tailBlock := pos q (Suc d)\<rparr>)
      else (False, q1))"
    by (simp only: rwq_try_enqueue_def Let_def t1 t2 t3 t4 tb(3) b_def q1_def)
  consider "?nt \<noteq> localFront tb" | "?nt = localFront tb" "?nt \<noteq> front tb"
    | "?nt = localFront tb" "?nt = front tb" by blast
  then show ?thesis
  proof cases
    case 1
    then show ?thesis using e eq rwq_put [OF inv d_def tb(1,2)] by (auto simp: tb_def)
  next
    case 2
    have "(tail b + 1) AND sizeMask b \<noteq> localFront b" using 2 by (simp add: b_def)
    then show ?thesis using 2 e eq rwq_put [OF inv d_def b(1,2)] b(3,4) by (auto simp: tb_def)
  next
    case 3
    have full: "block_count (blk q1 (dist q1)) = M"
      using block_full [OF tb(1)] 3 tb(2) dn
      by (simp add: q1_def d_def [symmetric] blk_set_block) (simp add: b_def)
    have ps: "pos q1 = pos q" "nblocks q1 = nblocks q" "dist q1 = d" by (auto simp: q1_def d_def)
    show ?thesis
    proof (cases "Suc d = nblocks q")
      case True
      then have "pos q (Suc d) = pos q 0" by (simp add: pos_def)
      then show ?thesis using 3 e eq q1 pending_full [OF q1(1) full] True ps
        by (auto simp: rwq_room_def)
    next
      case False
      then have ne: "pos q (Suc d) \<noteq> pos q 0" and lt: "Suc d < nblocks q1"
        using dn pos_eq [of "Suc d" q 0] ps by auto
      note A = rwq_advance_tail [OF q1(1) full _ lt refl refl, of x]
      show ?thesis using 3 e eq ne A q1 ps by (auto simp: rwq_room_def)
    qed
  qed
qed

lemma rwq_take:
  assumes inv: "rwq_inv M q"
    and b: "block_inv b" "sizeMask b = M" "next_block b = next_block (blk q 0)"
      "block_list b = block_list (blk q 0)" "front b \<noteq> localTail b"
  shows "rwq_inv M (set_block q (pos q 0) (block_drop b))"
    and "\<exists>x. data b (front b) = Some x \<and> rwq_pending q = x # rwq_pending (set_block q (pos q 0) (block_drop b))"
proof -
  note F = rwq_inv_facts [OF inv]
  note P = block_drop_spec [OF b(1,5)]
  have s: "sizeMask (block_drop b) = M" using b(2) by (simp add: block_drop_def)
  show "rwq_inv M (set_block q (pos q 0) (block_drop b))"
    using P s b by (intro rwq_inv_set [OF inv F(1)]) simp_all
  have ne: "block_list (blk q 0) \<noteq> []" using P(3) b(4) by (metis length_block_list list.size(3) nat.distinct(1))
  obtain ys where "rwq_pending (set_block q (pos q 0) (block_drop b)) = block_list (block_drop b) @ ys"
    "rwq_pending q = block_list (blk q 0) @ ys"
    using pending_update [OF F(1), of "set_block q (pos q 0) (block_drop b)" "block_drop b"] F(1)
    by (auto simp: blk_set_block)
  then show "\<exists>x. data b (front b) = Some x \<and> rwq_pending q = x # rwq_pending (set_block q (pos q 0) (block_drop b))"
    using P(2,4) b(4) ne by (auto simp: neq_Nil_conv)
qed

lemma concat_map_shift:
  "concat (map f [0..<Suc n]) = f 0 @ concat (map (\<lambda>j. f (Suc j)) [0..<n])"
  by (induction n) (simp_all)

text \<open>Leaving an empty front block for the next one.\<close>

lemma rwq_move_front:
  assumes inv: "rwq_inv M q" and emp: "block_list (blk q 0) = []" and d: "0 < dist q"
    and q': "q' = q\<lparr>frontBlock := pos q 1\<rparr>"
  shows "rwq_inv M q'" and "rwq_pending q' = rwq_pending q" and "nblocks q' = nblocks q" and "blk q' 0 = blk q 1"
    and "block_list (blk q 1) \<noteq> []" and "pos q' 0 = pos q 1"
proof -
  note F = rwq_inv_facts [OF inv]
  have n1: "1 < nblocks q" using F(2) d by simp
  show ne: "block_list (blk q 1) \<noteq> []"
    using inv n1 d by (cases "dist q = 1") (auto simp: rwq_inv_def simp flip: length_greater_0_conv)
  show nb: "nblocks q' = nblocks q" by (simp add: q' nblocks_def)
  have fr: "frontBlock q' = pos q 1" "tailBlock q' = tailBlock q" "blocks q' = blocks q" by (simp_all add: q')
  have ps: "pos q' j = pos q (Suc j)" for j
    by (simp add: pos_def nb fr) (simp add: mod_add_left_eq mod_Suc_eq pos_def)
  have pl: "pos q 1 < nblocks q" using F(1) by (rule pos_lt)
  have bk: "blk q' j = blk q (Suc j)" for j by (simp add: blk_def ps fr)
  then show "blk q' 0 = blk q 1" by simp
  show "pos q' 0 = pos q 1" by (simp add: ps)
  have bl: "blk q' (nblocks q - 1) = blk q 0"
    using n1 inv by (simp add: blk_def ps fr pos_def [of q "nblocks q"] F(3)) (simp add: rwq_inv_def)
  have di: "dist q' = dist q - 1"
  proof -
    have l: "frontBlock q < nblocks q" "tailBlock q < nblocks q" using inv by (simp_all add: rwq_inv_def)
    have "frontBlock q \<noteq> tailBlock q" using d l by (auto simp: dist_def)
    then show ?thesis
      unfolding dist_def nb fr using gap_Suc_left [OF l] by (simp add: pos_def)
  qed
  have st: "(0 < j \<and> j < dist q' \<longrightarrow> block_count (blk q' j) = M)
          \<and> (0 < j \<and> j = dist q' \<longrightarrow> block_list (blk q' j) \<noteq> [])
          \<and> (dist q' < j \<longrightarrow> block_list (blk q' j) = [])" if j: "j < nblocks q" for j
  proof (cases "Suc j < nblocks q")
    case True
    have "(Suc j < dist q \<longrightarrow> block_count (blk q (Suc j)) = M)
        \<and> (Suc j = dist q \<longrightarrow> block_list (blk q (Suc j)) \<noteq> [])
        \<and> (dist q < Suc j \<longrightarrow> block_list (blk q (Suc j)) = [])"
      using inv True by (auto simp: rwq_inv_def)
    then show ?thesis using bk di d by fastforce
  next
    case False
    then have "j = nblocks q - 1" using j by simp
    then show ?thesis using emp bl di F(2) d by auto
  qed
  show "rwq_inv M q'"
    unfolding rwq_inv_def nb fr using inv pl st by (auto simp: rwq_inv_def)
  obtain m where m: "nblocks q = Suc m" using n1 by (cases "nblocks q") auto
  have "rwq_pending q = concat (map (\<lambda>j. block_list (blk q (Suc j))) [0..<m])"
    by (simp only: rwq_pending_def m concat_map_shift emp append_Nil)
  moreover have "rwq_pending q' = concat (map (\<lambda>j. block_list (blk q (Suc j))) [0..<m])"
    using bl emp m by (simp add: rwq_pending_def nb bk)
  ultimately show "rwq_pending q' = rwq_pending q" by simp
qed

lemma rwq_advance_front:
  assumes inv: "rwq_inv M q" and emp: "block_list (blk q 0) = []" and d: "0 < dist q"
    and b: "b = (blk q 1)\<lparr>localTail := tail (blk q 1)\<rparr>"
    and q': "q' = (set_block q (pos q 1) (block_drop b))\<lparr>frontBlock := pos q 1\<rparr>"
  shows "rwq_inv M q'" and "\<exists>x. data b (front b) = Some x \<and> rwq_pending q = x # rwq_pending q'"
    and "nblocks q' = nblocks q"
proof -
  note F = rwq_inv_facts [OF inv]
  let ?q1 = "q\<lparr>frontBlock := pos q 1\<rparr>"
  note V = rwq_move_front [OF inv emp d refl]
  have bi: "block_inv b" using F(7) block_inv_refresh(2) b by blast
  have ft: "front b \<noteq> localTail b" using block_list_empty [OF F(7), of 1] V(5) b by simp
  have e: "q' = set_block ?q1 (pos ?q1 0) (block_drop b)" unfolding V(6) by (simp add: q' set_block_def)
  have sb: "sizeMask b = M" using F(8) [of 1] by (simp add: b)
  have nx: "next_block b = next_block (blk ?q1 0)" "block_list b = block_list (blk ?q1 0)" unfolding V(4) by (simp_all add: b)
  show "rwq_inv M q'" "\<exists>x. data b (front b) = Some x \<and> rwq_pending q = x # rwq_pending q'"
    using rwq_take [OF V(1) bi sb nx ft] V(2) e by simp_all
  show "nblocks q' = nblocks q" by (simp add: q' nblocks_def set_block_def)
qed

lemma rwq_dequeue_spec:
  assumes inv: "rwq_inv M q" and e: "rwq_try_dequeue q = (r, q')"
  shows "rwq_inv M q' \<and> rwq_room M q' = rwq_room M q
    \<and> (case rwq_pending q of
          [] \<Rightarrow> r = None \<and> rwq_pending q' = []
        | x # xs \<Rightarrow> r = Some (Some x) \<and> rwq_pending q' = xs)"
proof -
  note F = rwq_inv_facts [OF inv]
  define fb where "fb = blk q 0"
  define b where "b = fb\<lparr>localTail := tail fb\<rparr>"
  define q1 where "q1 = set_block q (pos q 0) b"
  have fb: "block_inv fb" "sizeMask fb = M" "next_block fb = pos q 1"
    using F(7-9) [of 0] by (simp_all add: fb_def)
  have b: "block_inv b" "sizeMask b = M" "next_block b = next_block fb" "block_list b = block_list fb"
    using fb block_inv_refresh(2) [OF fb(1)] by (simp_all add: b_def)
  have q1: "rwq_inv M q1" "rwq_pending q1 = rwq_pending q"
    using rwq_refresh [OF inv F(1) b(1,2)] b by (simp_all add: q1_def fb_def)
  have ps: "pos q1 = pos q" "nblocks q1 = nblocks q" "dist q1 = dist q" "frontBlock q1 = pos q 0"
    using F(3) by (auto simp: q1_def)
  have t1: "blocks q ! pos q 0 = fb" and t2: "tailBlock q = pos q (dist q)" and t3: "frontBlock q = pos q 0"
    and t4: "blocks q1 ! pos q 0 = b"
    using F blk_set_block [OF F(1,1), of b] by (simp_all add: fb_def blk_def q1_def)
  have t5: "frontBlock (set_block q i c) = pos q 0" for i c using F(3) by simp
  consider "front fb \<noteq> localTail fb" | "front fb = localTail fb" "front fb \<noteq> tail fb"
    | "front fb = localTail fb" "front fb = tail fb" by blast
  then show ?thesis
  proof cases
    case 1
    then have "rwq_try_dequeue q = (Some (data fb (front fb)), set_block q (pos q 0) (block_drop fb))"
      by (simp add: rwq_try_dequeue_def Let_def t1 t3)
    then show ?thesis using 1 e rwq_take [OF inv fb(1,2)]
      by (auto simp: fb_def split: list.split)
  next
    case 2
    then have "rwq_try_dequeue q = (Some (data b (front b)), set_block q (pos q 0) (block_drop b))"
      by (simp add: rwq_try_dequeue_def Let_def t1 t3 b_def)
    moreover have nt: "front b \<noteq> localTail b" using 2 by (simp add: b_def)
    moreover note T = rwq_take [OF inv b(1,2) b(3,4) [unfolded fb_def] nt]
    ultimately show ?thesis using e T by auto
  next
    case 3
    then have emp: "block_list (blk q1 0) = []"
      using block_list_empty [OF fb(1)] b(4) F(1) by (simp add: q1_def blk_set_block)
    show ?thesis
    proof (cases "dist q = 0")
      case True
      then have "rwq_try_dequeue q = (None, q1)"
        using 3 by (simp add: rwq_try_dequeue_def Let_def t1 t2 t3 b_def q1_def)
      moreover have "rwq_pending q1 = []"
        using emp q1(1) True ps F(1) by (fastforce simp: rwq_pending_def rwq_inv_def)
      ultimately show ?thesis using e q1 by (auto simp: q1_def)
    next
      case False
      then have ne: "pos q 0 \<noteq> pos q (dist q)" using pos_eq [OF F(1,2)] by auto
      define nb where "nb = (blk q1 1)\<lparr>localTail := tail (blk q1 1)\<rparr>"
      define q2 where "q2 = (set_block q1 (pos q1 1) (block_drop nb))\<lparr>frontBlock := pos q1 1\<rparr>"
      have bb: "front b = front fb" "tail b = tail fb" "next_block b = pos q 1"
        using fb(3) by (simp_all add: b_def)
      have "rwq_try_dequeue q = (Some (data nb (front nb)), q2)"
        unfolding rwq_try_dequeue_def Let_def t1 t2 t3 b_def [symmetric] q1_def [symmetric] ps t4 bb
        using 3 ne by (simp add: nb_def q2_def blk_def ps)
      moreover note rwq_advance_front [OF q1(1) emp _ nb_def q2_def]
      ultimately show ?thesis using e q1 False ps
        by (auto simp: rwq_room_def split: list.split)
    qed
  qed
qed

section \<open>The blocking queue\<close>

text \<open>
  \<^verbatim>\<open>BlockingReaderWriterQueue\<close> pairs the queue with a semaphore; here the semaphore is its counter
  \<^verbatim>\<open>m_count\<close> between calls, when no thread waits.  \<open>sema_wait\<close> is the outcome of \<^verbatim>\<open>wait\<close> when
  the producer does not act before the time-out; theory \<open>Pw_Semaphore\<close> has every interleaving.
\<close>

record 'a BlockingReaderWriterQueue =
  inner :: "'a ReaderWriterQueue"
  sema :: int

definition sema_signal :: "int \<Rightarrow> int" where "sema_signal m_count = m_count + 1"

definition sema_tryWait :: "int \<Rightarrow> bool \<times> int" where
  "sema_tryWait m_count = (if m_count > 0 then (True, m_count - 1) else (False, m_count))"

definition sema_wait :: "int \<Rightarrow> bool \<times> int" where
  "sema_wait m_count =
     (let (ok, c) = sema_tryWait m_count in
      if ok then (True, c)
      else let oldCount = c; c1 = c - 1 in
        if oldCount > 0 then (True, c1)
        else let c2 = c1 + 1 in (False, c2))"

definition sema_availableApprox :: "int \<Rightarrow> nat" where
  "sema_availableApprox m_count = (if m_count > 0 then nat m_count else 0)"

definition brwq_new :: "nat \<Rightarrow> 'a BlockingReaderWriterQueue" where
  "brwq_new sz = \<lparr>inner = rwq_new sz, sema = 0\<rparr>"

definition brwq_try_enqueue ::
    "'a BlockingReaderWriterQueue \<Rightarrow> 'a \<Rightarrow> bool \<times> 'a BlockingReaderWriterQueue" where
  "brwq_try_enqueue q element =
     (let (ok, i) = rwq_try_enqueue (inner q) element in
      if ok then (True, q\<lparr>inner := i, sema := sema_signal (sema q)\<rparr>)
      else (False, q\<lparr>inner := i\<rparr>))"

text \<open>
  \<open>Some r\<close> is the result \<open>true\<close>: then \<open>r\<close> is what the inner \<^verbatim>\<open>try_dequeue\<close> moved to the caller,
  \<open>None\<close> if it had no element (the \<^verbatim>\<open>assert(success)\<close> of the source) or if the slot was empty.
\<close>

definition brwq_try_dequeue ::
    "'a BlockingReaderWriterQueue \<Rightarrow> 'a option option \<times> 'a BlockingReaderWriterQueue" where
  "brwq_try_dequeue q =
     (let (ok, c) = sema_tryWait (sema q) in
      if ok then let (r, i) = rwq_try_dequeue (inner q)
                 in (Some (Option.bind r id), q\<lparr>inner := i, sema := c\<rparr>)
      else (None, q\<lparr>sema := c\<rparr>))"

definition brwq_wait_dequeue_timed ::
    "'a BlockingReaderWriterQueue \<Rightarrow> 'a option option \<times> 'a BlockingReaderWriterQueue" where
  "brwq_wait_dequeue_timed q =
     (let (ok, c) = sema_wait (sema q) in
      if \<not> ok then (None, q\<lparr>sema := c\<rparr>)
      else let (r, i) = rwq_try_dequeue (inner q)
           in (Some (Option.bind r id), q\<lparr>inner := i, sema := c\<rparr>))"

definition brwq_size_approx :: "'a BlockingReaderWriterQueue \<Rightarrow> nat" where
  "brwq_size_approx q = sema_availableApprox (sema q)"

definition brwq_pending :: "'a BlockingReaderWriterQueue \<Rightarrow> 'a list" where
  "brwq_pending q = rwq_pending (inner q)"

definition brwq_inv :: "'a BlockingReaderWriterQueue \<Rightarrow> bool" where
  "brwq_inv q \<longleftrightarrow> rwq_inv (sizeMask (blocks (inner q) ! 0)) (inner q)
     \<and> sema q = int (length (brwq_pending q))"

definition brwq_room :: "'a BlockingReaderWriterQueue \<Rightarrow> nat" where
  "brwq_room q = rwq_room (sizeMask (blocks (inner q) ! 0)) (inner q)"

lemma rwq_inv_mask: "rwq_inv M q \<Longrightarrow> sizeMask (blocks q ! 0) = M"
  by (auto simp: rwq_inv_def)

lemma brwq_enqueue_spec:
  assumes "brwq_inv q" and "brwq_try_enqueue q x = (ok, q')"
  shows "brwq_inv q' \<and> brwq_room q' = brwq_room q
    \<and> (if ok then brwq_pending q' = brwq_pending q @ [x]
        else brwq_pending q' = brwq_pending q \<and> brwq_room q \<le> length (brwq_pending q))"
proof -
  let ?M = "sizeMask (blocks (inner q) ! 0)"
  obtain ok' i where e: "rwq_try_enqueue (inner q) x = (ok', i)" by (cases "rwq_try_enqueue (inner q) x")
  have S: "rwq_inv ?M i \<and> rwq_room ?M i = rwq_room ?M (inner q)
    \<and> (if ok' then rwq_pending i = rwq_pending (inner q) @ [x]
        else rwq_pending i = rwq_pending (inner q) \<and> rwq_room ?M (inner q) \<le> length (rwq_pending (inner q)))"
    using assms(1) by (intro rwq_enqueue_spec [OF _ e]) (simp add: brwq_inv_def)
  then have "sizeMask (blocks i ! 0) = ?M" by (intro rwq_inv_mask) simp
  then show ?thesis
    using S assms e
    by (auto simp: brwq_try_enqueue_def brwq_inv_def brwq_pending_def brwq_room_def sema_signal_def
        split: if_splits)
qed

lemma brwq_dequeue_eq: "brwq_wait_dequeue_timed q = brwq_try_dequeue q"
  by (simp add: brwq_wait_dequeue_timed_def brwq_try_dequeue_def sema_wait_def sema_tryWait_def)

lemma brwq_dequeue_spec:
  assumes "brwq_inv q" and "brwq_wait_dequeue_timed q = (r, q')"
  shows "brwq_inv q' \<and> brwq_room q' = brwq_room q
    \<and> (case brwq_pending q of
          [] \<Rightarrow> r = None \<and> brwq_pending q' = []
        | x # xs \<Rightarrow> r = Some (Some x) \<and> brwq_pending q' = xs)"
proof -
  let ?M = "sizeMask (blocks (inner q) ! 0)"
  obtain r' i where e: "rwq_try_dequeue (inner q) = (r', i)" by (cases "rwq_try_dequeue (inner q)")
  have S: "rwq_inv ?M i \<and> rwq_room ?M i = rwq_room ?M (inner q)
    \<and> (case rwq_pending (inner q) of
          [] \<Rightarrow> r' = None \<and> rwq_pending i = []
        | x # xs \<Rightarrow> r' = Some (Some x) \<and> rwq_pending i = xs)"
    using assms(1) by (intro rwq_dequeue_spec [OF _ e]) (simp add: brwq_inv_def)
  then have "sizeMask (blocks i ! 0) = ?M" by (intro rwq_inv_mask) simp
  then show ?thesis
    using S assms e unfolding brwq_dequeue_eq
    by (auto simp: brwq_try_dequeue_def brwq_inv_def brwq_pending_def brwq_room_def sema_tryWait_def
        split: if_splits list.splits)
qed

interpretation msg_queue: bounded_fifo brwq_inv "\<lambda>q. map Some (brwq_pending q)" "\<lambda>_. True" Some
  brwq_try_enqueue brwq_wait_dequeue_timed brwq_room
proof unfold_locales
  fix q :: "'a BlockingReaderWriterQueue" and m
  assume inv: "brwq_inv q"
  obtain ok q1 where e: "brwq_try_enqueue q m = (ok, q1)" by (cases "brwq_try_enqueue q m")
  note E = brwq_enqueue_spec [OF inv e]
  show "brwq_inv (snd (brwq_try_enqueue q m))" using E e by simp
  show "fst (brwq_try_enqueue q m) \<Longrightarrow>
    map Some (brwq_pending (snd (brwq_try_enqueue q m))) = map Some (brwq_pending q) @ [Some m]"
    using E e by simp
  show "\<not> fst (brwq_try_enqueue q m) \<Longrightarrow>
    map Some (brwq_pending (snd (brwq_try_enqueue q m))) = map Some (brwq_pending q) \<and>
    brwq_room q \<le> length (map Some (brwq_pending q))"
    using E e by simp
  show "brwq_room (snd (brwq_try_enqueue q m)) = brwq_room q" using E e by simp
next
  fix q :: "'a BlockingReaderWriterQueue" and x xs
  assume inv: "brwq_inv q"
  obtain r q1 where e: "brwq_wait_dequeue_timed q = (r, q1)" by (cases "brwq_wait_dequeue_timed q")
  note D = brwq_dequeue_spec [OF inv e]
  show "brwq_inv (snd (brwq_wait_dequeue_timed q))" using D e by simp
  show "map Some (brwq_pending q) = [] \<Longrightarrow> fst (brwq_wait_dequeue_timed q) = None \<and>
    map Some (brwq_pending (snd (brwq_wait_dequeue_timed q))) = []"
    using D e by simp
  show "map Some (brwq_pending q) = x # xs \<Longrightarrow> fst (brwq_wait_dequeue_timed q) = Some x \<and>
    map Some (brwq_pending (snd (brwq_wait_dequeue_timed q))) = xs"
    using D e by (auto split: list.splits)
  show "brwq_room (snd (brwq_wait_dequeue_timed q)) = brwq_room q" using D e by simp
qed

lemma ring_blocks_inv:
  assumes n: "0 < n" and M: "Suc M = 2 ^ k" "0 < M"
    and q: "q = \<lparr>blocks = ring_blocks n (Suc M), frontBlock = 0, tailBlock = 0, largestBlockSize = l\<rparr>"
  shows "rwq_inv M q" and "rwq_pending q = []"
proof -
  have nb: "nblocks q = n" by (simp add: q nblocks_def ring_blocks_def)
  have bl: "blocks q ! i = (make_block (Suc M))\<lparr>next_block := (i + 1) mod n\<rparr>" if "i < n" for i
    using that by (simp add: q ring_blocks_def)
  have bi: "block_inv (blocks q ! i)" "block_list (blocks q ! i) = []" if "i < n" for i
    using M bl [OF that]
    by (auto simp: block_inv_def make_block_def block_size_def block_count_def block_list_def)
  have pj: "pos q j < n" for j using pos_lt [of q j] n nb by simp
  have bk: "block_list (blk q j) = []" for j
    using bi(2) [OF pj, of j] unfolding blk_def by simp
  have f: "frontBlock q = 0" "tailBlock q = 0" by (simp_all add: q)
  have d: "dist q = 0" using n by (simp add: dist_def nb f)
  show "rwq_inv M q"
    unfolding rwq_inv_def nb d f using n M(2) bi(1) bl bk by (auto simp: make_block_def)
  show "rwq_pending q = []" using bk by (simp add: rwq_pending_def)
qed

lemma rwq_new_msg:
  "rwq_new MSG_QUEUE_SIZE =
   \<lparr>blocks = ring_blocks 130 512, frontBlock = 0, tailBlock = 0, largestBlockSize = 512\<rparr>"
proof -
  have "unat (ceilToPow2 65537) = 131072" by (simp add: ceilToPow2_def Let_def)
  then show ?thesis by (simp add: rwq_new_def MSG_QUEUE_SIZE_def MAX_BLOCK_SIZE_def Let_def)
qed

lemma brwq_new_inv:
  "brwq_inv (brwq_new MSG_QUEUE_SIZE :: 'a BlockingReaderWriterQueue)"
  "brwq_pending (brwq_new MSG_QUEUE_SIZE :: 'a BlockingReaderWriterQueue) = []"
  "MSG_QUEUE_SIZE \<le> brwq_room (brwq_new MSG_QUEUE_SIZE :: 'a BlockingReaderWriterQueue)"
proof -
  let ?q = "\<lparr>blocks = ring_blocks 130 (Suc 511), frontBlock = 0, tailBlock = 0, largestBlockSize = 512\<rparr>
    :: 'a ReaderWriterQueue"
  have q: "rwq_new MSG_QUEUE_SIZE = ?q" by (simp add: rwq_new_msg)
  have R: "rwq_inv 511 ?q" "rwq_pending ?q = []" by (rule ring_blocks_inv [where k = 9 and n = 130 and M = 511]; simp)+
  note m = rwq_inv_mask [OF R(1)]
  show "brwq_inv (brwq_new MSG_QUEUE_SIZE :: 'a BlockingReaderWriterQueue)"
    "brwq_pending (brwq_new MSG_QUEUE_SIZE :: 'a BlockingReaderWriterQueue) = []"
    using R m by (simp_all add: brwq_inv_def brwq_new_def q brwq_pending_def)
  show "MSG_QUEUE_SIZE \<le> brwq_room (brwq_new MSG_QUEUE_SIZE :: 'a BlockingReaderWriterQueue)"
    unfolding brwq_room_def brwq_new_def BlockingReaderWriterQueue.select_convs q m
    by (simp add: rwq_room_def nblocks_def ring_blocks_def MSG_QUEUE_SIZE_def)
qed

section \<open>Properties of the queue\<close>

text \<open>The state of a queue of the program after a sequence of operations of its two threads.\<close>

definition msg_queue_run :: "'a fifo_op list \<Rightarrow> 'a list \<times> 'a option list \<times> 'a BlockingReaderWriterQueue" where
  "msg_queue_run ops = fifo_run brwq_try_enqueue brwq_wait_dequeue_timed (brwq_new MSG_QUEUE_SIZE) ops"

lemma msg_queue_run_spec:
  fixes q :: "'a BlockingReaderWriterQueue"
  assumes "msg_queue_run ops = (acc, del, q)"
  shows "brwq_inv q \<and> MSG_QUEUE_SIZE \<le> brwq_room q \<and> map Some acc = del @ map Some (brwq_pending q)"
  using msg_queue.run_fifo [OF brwq_new_inv(1), of ops acc del q] assms brwq_new_inv(2,3) [where 'a = 'a]
  by (simp add: msg_queue_run_def)

text \<open>
  In every sequence of enqueue and timed-dequeue operations on a new queue of
  \<^verbatim>\<open>MSG_QUEUE_SIZE\<close>, the elements delivered are the elements accepted, in order, without loss or
  duplication; what is not yet delivered is pending, the semaphore counts it, and no dequeue
  reads a slot without an object (every delivered value is \<open>Some\<close>).
\<close>

theorem msg_queue_fifo:
  "case msg_queue_run ops of (acc, del, q) \<Rightarrow>
     map Some acc = del @ map Some (brwq_pending q) \<and> sema q = int (length (brwq_pending q))"
  using msg_queue_run_spec [of ops] by (auto simp: brwq_inv_def split: prod.split)

text \<open>
  The queue refuses an element only when it holds at least \<^verbatim>\<open>MSG_QUEUE_SIZE\<close> elements: with
  fewer pending, \<^verbatim>\<open>try_enqueue\<close> accepts, and appends the element.
\<close>

theorem msg_queue_accepts:
  assumes "msg_queue_run ops = (acc, del, q)" and "length (brwq_pending q) < MSG_QUEUE_SIZE"
  shows "fst (brwq_try_enqueue q x) \<and> brwq_pending (snd (brwq_try_enqueue q x)) = brwq_pending q @ [x]"
proof -
  note R = msg_queue_run_spec [OF assms(1)]
  obtain ok q' where e: "brwq_try_enqueue q x = (ok, q')" by (cases "brwq_try_enqueue q x")
  show ?thesis using brwq_enqueue_spec [OF _ e] R assms(2) e by (auto split: if_splits)
qed

theorem msg_queue_accepts_witness:
  "fst (brwq_try_enqueue (brwq_new MSG_QUEUE_SIZE) (7 :: nat))
   \<and> brwq_pending (snd (brwq_try_enqueue (brwq_new MSG_QUEUE_SIZE) (7 :: nat))) = [7]"
  using msg_queue_accepts [of "[]" "[]" "[]" "brwq_new MSG_QUEUE_SIZE" "7 :: nat"]
    brwq_new_inv(2) [where 'a = nat]
  by (simp add: msg_queue_run_def MSG_QUEUE_SIZE_def)

end
