(* ===== verification/Pw_QueueConc.thy ===== *)
theory Pw_QueueConc
  imports Pw_Queue
begin

text \<open>
  The queue under concurrency: \<^verbatim>\<open>inner_enqueue\<close> and \<^verbatim>\<open>try_dequeue\<close> of \<^verbatim>\<open>readerwriterqueue.h\<close> as sequences of accesses to
  shared memory, and every interleaving of one producer and one consumer.  A step is one access to a variable that the other
  thread writes or reads; reads of a thread's own variables (for the producer \<^verbatim>\<open>tailBlock\<close>, \<^verbatim>\<open>tail\<close>, \<^verbatim>\<open>localFront\<close>, for the
  consumer \<^verbatim>\<open>frontBlock\<close>, \<^verbatim>\<open>front\<close>, \<^verbatim>\<open>localTail\<close>) belong to the step they precede, since nobody else changes them.  Steps are
  sequentially consistent, which the acquire and release fences of the code are there to give.

  An invariant of both positions shows that the queue stays first-in first-out under every interleaving and that the assertions of the
  code hold; a bound on the accesses left shows that it is wait-free; and a thread that runs alone computes the functions
  of \<open>Pw_Queue\<close>.
\<close>

section \<open>The two threads\<close>

datatype 'a producer_pc =
    P_idle | P_load 'a | P_check 'a | P_next 'a | P_write 'a | P_publish 'a
  | P_write_next 'a | P_publish_next 'a | P_move 'a

datatype 'a consumer_pc =
    C_idle | C_load | C_check | C_recheck | C_next | C_move | C_read | C_publish "'a option"

text \<open>
  Beside the memory and the positions, what happened so far: the elements whose enqueue has returned true, the objects that
  dequeues have returned, whether at the last look at the tail all returned elements were taken, and this value for each dequeue
  that returned false.
\<close>

record 'a conc =
  mem :: "'a ReaderWriterQueue"
  prod :: "'a producer_pc"
  cons :: "'a consumer_pc"
  returned :: "'a list"
  taken :: "'a option list"
  drained :: bool
  misses :: "bool list"

definition next_tail :: "'a Block \<Rightarrow> nat" where "next_tail b = (tail b + 1) AND sizeMask b"

definition producer_step :: "'a \<Rightarrow> 'a conc \<Rightarrow> 'a conc" where
  "producer_step x s =
     (let q = mem s; t = tailBlock q; tb = blocks q ! t; n = next_block tb; nb = blocks q ! n in
      case prod s of
        P_idle \<Rightarrow> s\<lparr>prod := (if next_tail tb \<noteq> localFront tb then P_write x else P_load x)\<rparr>
      | P_load y \<Rightarrow>
          s\<lparr>mem := set_block q t (tb\<lparr>localFront := front tb\<rparr>),
            prod := (if next_tail tb \<noteq> front tb then P_write y else P_check y)\<rparr>
      | P_write y \<Rightarrow> s\<lparr>mem := set_block q t (tb\<lparr>data := (data tb)(tail tb := Some y)\<rparr>), prod := P_publish y\<rparr>
      | P_publish y \<Rightarrow>
          s\<lparr>mem := set_block q t (tb\<lparr>tail := next_tail tb\<rparr>), prod := P_idle, returned := returned s @ [y]\<rparr>
      | P_check y \<Rightarrow> s\<lparr>prod := (if n \<noteq> frontBlock q then P_next y else P_idle)\<rparr>
      | P_next y \<Rightarrow> s\<lparr>mem := set_block q n (nb\<lparr>localFront := front nb\<rparr>), prod := P_write_next y\<rparr>
      | P_write_next y \<Rightarrow>
          s\<lparr>mem := set_block q n (nb\<lparr>data := (data nb)(tail nb := Some y)\<rparr>), prod := P_publish_next y\<rparr>
      | P_publish_next y \<Rightarrow> s\<lparr>mem := set_block q n (nb\<lparr>tail := next_tail nb\<rparr>), prod := P_move y\<rparr>
      | P_move y \<Rightarrow> s\<lparr>mem := q\<lparr>tailBlock := n\<rparr>, prod := P_idle, returned := returned s @ [y]\<rparr>)"

definition consumer_step :: "'a conc \<Rightarrow> 'a conc" where
  "consumer_step s =
     (let q = mem s; f = frontBlock q; fb = blocks q ! f; n = next_block fb; nb = blocks q ! n in
      case cons s of
        C_idle \<Rightarrow> s\<lparr>cons := (if front fb \<noteq> localTail fb then C_read else C_load)\<rparr>
      | C_load \<Rightarrow>
          s\<lparr>mem := set_block q f (fb\<lparr>localTail := tail fb\<rparr>), drained := (length (taken s) = length (returned s)),
            cons := (if front fb \<noteq> tail fb then C_read else C_check)\<rparr>
      | C_check \<Rightarrow>
          if f \<noteq> tailBlock q then s\<lparr>cons := C_recheck\<rparr> else s\<lparr>cons := C_idle, misses := misses s @ [drained s]\<rparr>
      | C_recheck \<Rightarrow>
          s\<lparr>mem := set_block q f (fb\<lparr>localTail := tail fb\<rparr>), cons := (if front fb \<noteq> tail fb then C_read else C_next)\<rparr>
      | C_next \<Rightarrow> s\<lparr>mem := set_block q n (nb\<lparr>localTail := tail nb\<rparr>), cons := C_move\<rparr>
      | C_move \<Rightarrow> s\<lparr>mem := q\<lparr>frontBlock := n\<rparr>, cons := C_read\<rparr>
      | C_read \<Rightarrow>
          s\<lparr>mem := set_block q f (fb\<lparr>data := (data fb)(front fb := None)\<rparr>), cons := C_publish (data fb (front fb))\<rparr>
      | C_publish r \<Rightarrow>
          s\<lparr>mem := set_block q f (fb\<lparr>front := (front fb + 1) AND sizeMask fb\<rparr>), cons := C_idle, taken := taken s @ [r]\<rparr>)"

text \<open>An interleaving: a step of the producer, with the element it would take up next, or one of the consumer.\<close>

datatype 'a move = Produce 'a | Consume

fun conc_step :: "'a move \<Rightarrow> 'a conc \<Rightarrow> 'a conc" where
  "conc_step (Produce x) s = producer_step x s"
| "conc_step Consume s = consumer_step s"

definition conc_start :: "'a ReaderWriterQueue \<Rightarrow> 'a conc" where
  "conc_start q = \<lparr>mem = q, prod = P_idle, cons = C_idle, returned = [], taken = [], drained = False, misses = []\<rparr>"

section \<open>The memory without what is in flight\<close>

text \<open>The slot the consumer has emptied and not yet given up, filled again; the tail block the producer is about to move to.\<close>

definition punch :: "'a option \<Rightarrow> 'a Block \<Rightarrow> 'a Block" where
  "punch r b = b\<lparr>data := (data b)(front b := r)\<rparr>"

definition filled :: "'a conc \<Rightarrow> 'a conc" where
  "filled s = (case cons s of
     C_publish r \<Rightarrow> s\<lparr>mem := set_block (mem s) (frontBlock (mem s)) (punch r (blocks (mem s) ! frontBlock (mem s)))\<rparr>
   | _ \<Rightarrow> s)"

definition shift :: "'a producer_pc \<Rightarrow> 'a ReaderWriterQueue \<Rightarrow> 'a ReaderWriterQueue" where
  "shift p q = (case p of P_move _ \<Rightarrow> q\<lparr>tailBlock := next_block (blocks q ! tailBlock q)\<rparr> | _ \<Rightarrow> q)"

fun inflight :: "'a producer_pc \<Rightarrow> 'a list" where
  "inflight (P_move y) = [y]"
| "inflight _ = []"

abbreviation "tail_blk q \<equiv> blocks q ! tailBlock q"
abbreviation "front_blk q \<equiv> blocks q ! frontBlock q"
abbreviation "after_tail q \<equiv> blocks q ! next_block (tail_blk q)"
abbreviation "after_front q \<equiv> blocks q ! next_block (front_blk q)"

definition tail_full :: "nat \<Rightarrow> 'a ReaderWriterQueue \<Rightarrow> bool" where
  "tail_full M q \<longleftrightarrow> (tailBlock q \<noteq> frontBlock q \<longrightarrow> block_count (tail_blk q) = M)"

definition next_free :: "nat \<Rightarrow> 'a ReaderWriterQueue \<Rightarrow> bool" where
  "next_free M q \<longleftrightarrow> tail_full M q \<and> next_block (tail_blk q) \<noteq> frontBlock q"

definition front_done :: "'a ReaderWriterQueue \<Rightarrow> bool" where
  "front_done q \<longleftrightarrow> tailBlock q \<noteq> frontBlock q \<and> front (front_blk q) = tail (front_blk q)"

fun prod_ok :: "nat \<Rightarrow> 'a ReaderWriterQueue \<Rightarrow> 'a producer_pc \<Rightarrow> bool" where
  "prod_ok M q P_idle = True"
| "prod_ok M q (P_load y) = True"
| "prod_ok M q (P_write y) \<longleftrightarrow> next_tail (tail_blk q) \<noteq> localFront (tail_blk q)"
| "prod_ok M q (P_publish y) \<longleftrightarrow> next_tail (tail_blk q) \<noteq> localFront (tail_blk q) \<and> data (tail_blk q) (tail (tail_blk q)) = Some y"
| "prod_ok M q (P_check y) \<longleftrightarrow> tail_full M q"
| "prod_ok M q (P_next y) \<longleftrightarrow> next_free M q"
| "prod_ok M q (P_write_next y) \<longleftrightarrow> next_free M q \<and> localFront (after_tail q) = front (after_tail q)"
| "prod_ok M q (P_publish_next y) \<longleftrightarrow> next_free M q \<and> localFront (after_tail q) = front (after_tail q)
     \<and> data (after_tail q) (tail (after_tail q)) = Some y"
| "prod_ok M q (P_move y) \<longleftrightarrow> next_block (tail_blk q) \<noteq> frontBlock q \<and> block_list (after_tail q) = [y]"

fun cons_ok :: "bool \<Rightarrow> 'a ReaderWriterQueue \<Rightarrow> 'a consumer_pc \<Rightarrow> bool" where
  "cons_ok dr q C_idle = True"
| "cons_ok dr q C_load = True"
| "cons_ok dr q C_check \<longleftrightarrow> (tailBlock q = frontBlock q \<longrightarrow> dr)"
| "cons_ok dr q C_recheck \<longleftrightarrow> tailBlock q \<noteq> frontBlock q"
| "cons_ok dr q C_next \<longleftrightarrow> front_done q"
| "cons_ok dr q C_move \<longleftrightarrow> front_done q \<and> front (after_front q) \<noteq> localTail (after_front q)"
| "cons_ok dr q C_read \<longleftrightarrow> front (front_blk q) \<noteq> localTail (front_blk q)"
| "cons_ok dr q (C_publish r) \<longleftrightarrow> front (front_blk q) \<noteq> localTail (front_blk q) \<and> data (front_blk q) (front (front_blk q)) = r"

definition conc_ok :: "nat \<Rightarrow> 'a conc \<Rightarrow> bool" where
  "conc_ok M s \<longleftrightarrow> rwq_inv M (shift (prod s) (mem s))
     \<and> tailBlock (mem s) < nblocks (mem s)
     \<and> map Some (returned s @ inflight (prod s)) = taken s @ map Some (rwq_pending (shift (prod s) (mem s)))
     \<and> prod_ok M (mem s) (prod s) \<and> cons_ok (drained s) (mem s) (cons s) \<and> False \<notin> set (misses s)"

definition conc_inv :: "nat \<Rightarrow> 'a conc \<Rightarrow> bool" where
  "conc_inv M s \<longleftrightarrow> conc_ok M (filled s)
     \<and> (\<forall>r. cons s = C_publish r \<longrightarrow> data (front_blk (mem s)) (front (front_blk (mem s))) = None)"

section \<open>Views of an updated queue\<close>

lemma set_block_nth [simp]:
  "i < nblocks q \<Longrightarrow> blocks (set_block q i b) ! k = (if k = i then b else blocks q ! k)"
  by (simp add: set_block_def nblocks_def)

lemma shift_view [simp]:
  "blocks (shift p q) = blocks q" "frontBlock (shift p q) = frontBlock q" "nblocks (shift p q) = nblocks q"
  "blk (shift p q) j = blk q j" "pos (shift p q) j = pos q j"
  by (auto simp: shift_def nblocks_def blk_def pos_def split: producer_pc.split)

lemma shift_set:
  assumes "i < nblocks q" and "next_block b = next_block (blocks q ! i)"
  shows "shift p (set_block q i b) = set_block (shift p q) i b"
  using assms by (auto simp: shift_def split: producer_pc.split) (auto simp: set_block_def nblocks_def)

lemma shift_other: "inflight p = [] \<Longrightarrow> shift p q = q"
  by (cases p) (auto simp: shift_def)

lemma at_facts:
  assumes "rwq_inv M q" and "i < nblocks q"
  shows "block_inv (blocks q ! i)" "sizeMask (blocks q ! i) = M" "next_block (blocks q ! i) = (i + 1) mod nblocks q"
    "next_block (blocks q ! i) < nblocks q"
  using assms by (auto simp: rwq_inv_def)

lemma at_pos: "i < nblocks q \<Longrightarrow> rwq_inv M q \<Longrightarrow> \<exists>p < nblocks q. pos q p = i \<and> blk q p = blocks q ! i \<and> p = gap (nblocks q) (frontBlock q) i"
  by (intro exI [of _ "gap (nblocks q) (frontBlock q) i"]) (auto simp: pos_def blk_def gap_add rwq_inv_def)

text \<open>A block that keeps its contents may be replaced.\<close>

lemma refresh_at:
  assumes "rwq_inv M q" and "i < nblocks q" and "block_inv b" and "sizeMask b = M"
    and "next_block b = next_block (blocks q ! i)" and "block_list b = block_list (blocks q ! i)"
  shows "rwq_inv M (set_block q i b)" and "rwq_pending (set_block q i b) = rwq_pending q"
  using rwq_refresh [OF assms(1), of _ b] at_pos [OF assms(2,1)] assms(3-6) by metis+

lemma block_scratch:
  assumes "block_inv b"
  shows "block_inv (b\<lparr>data := (data b)(tail b := v)\<rparr>)" and "block_list (b\<lparr>data := (data b)(tail b := v)\<rparr>) = block_list b"
proof -
  have ne: "slot b j \<noteq> tail b" if "j < block_count b" for j
    using slot_inj [of j b "block_count b"] slot_count [OF assms] that by (metis block_count_lt less_irrefl less_trans)
  then show "block_list (b\<lparr>data := (data b)(tail b := v)\<rparr>) = block_list b"
    by (auto simp: block_list_def block_count_def slot_def)
  show "block_inv (b\<lparr>data := (data b)(tail b := v)\<rparr>)"
    using assms ne by (auto simp: block_inv_def block_count_def slot_def)
qed

section \<open>Steps of the producer\<close>

lemma cons_ok_set:
  assumes "cons_ok dr q c" and "i < nblocks q"
    and "front b = front (blocks q ! i)" and "localTail b = localTail (blocks q ! i)" and "next_block b = next_block (blocks q ! i)"
    and "i = frontBlock q \<Longrightarrow> tailBlock q \<noteq> frontBlock q \<Longrightarrow> tail b = tail (blocks q ! i)"
    and "i = frontBlock q \<Longrightarrow> front b \<noteq> localTail b \<Longrightarrow> data b (front b) = data (blocks q ! i) (front b)"
  shows "cons_ok dr (set_block q i b) c"
  using assms by (cases c) (auto simp: front_done_def)

lemma next_free_step:
  assumes inv: "rwq_inv M q" and free: "next_free M q"
  shows "Suc (dist q) < nblocks q" "pos q (Suc (dist q)) = next_block (tail_blk q)" "blk q (Suc (dist q)) = after_tail q"
    "0 < dist q \<Longrightarrow> block_count (blk q (dist q)) = M"
proof -
  note F = rwq_inv_facts [OF inv]
  have n: "next_block (tail_blk q) = pos q (Suc (dist q))" using F(9) [of "dist q"] F(6) by simp
  then show "pos q (Suc (dist q)) = next_block (tail_blk q)" "blk q (Suc (dist q)) = after_tail q" by (simp_all add: blk_def)
  have "Suc (dist q) \<noteq> nblocks q"
  proof
    assume "Suc (dist q) = nblocks q"
    then have "pos q (Suc (dist q)) = pos q 0" by (simp add: pos_def)
    then show False using free n F(3) by (simp add: next_free_def)
  qed
  then show "Suc (dist q) < nblocks q" using F(2) by simp
  show "block_count (blk q (dist q)) = M" if "0 < dist q"
  proof -
    have "tailBlock q \<noteq> frontBlock q" using that inv by (auto simp: dist_def rwq_inv_def)
    then show ?thesis using free F(6) by (simp add: next_free_def tail_full_def)
  qed
qed

lemma next_free_ne: "rwq_inv M q \<Longrightarrow> next_free M q \<Longrightarrow> next_block (tail_blk q) \<noteq> tailBlock q"
  using pos_eq [of "Suc (dist q)" q "dist q"] rwq_inv_facts [of M q] next_free_step [of M q] by fastforce

lemma tail_front_distinct: "block_inv b \<Longrightarrow> front b \<noteq> localTail b \<Longrightarrow> front b \<noteq> tail b"
  by (auto simp: block_inv_def block_count_def) (metis gap_self gap_zero_iff le_zero_eq)

text \<open>What the invariant says of the blocks at the tail, and behind it.\<close>

lemma conc_facts:
  assumes ok: "conc_ok M s"
  shows "rwq_inv M (shift (prod s) (mem s))" and "tailBlock (mem s) < nblocks (mem s)"
    and "map Some (returned s @ inflight (prod s)) = taken s @ map Some (rwq_pending (shift (prod s) (mem s)))"
    and "prod_ok M (mem s) (prod s)" and "cons_ok (drained s) (mem s) (cons s)" and "False \<notin> set (misses s)"
    and "block_inv (tail_blk (mem s))" and "sizeMask (tail_blk (mem s)) = M" and "next_block (tail_blk (mem s)) < nblocks (mem s)"
    and "block_inv (after_tail (mem s))" and "sizeMask (after_tail (mem s)) = M"
proof -
  show inv: "rwq_inv M (shift (prod s) (mem s))" and t: "tailBlock (mem s) < nblocks (mem s)"
    and "map Some (returned s @ inflight (prod s)) = taken s @ map Some (rwq_pending (shift (prod s) (mem s)))"
    and "prod_ok M (mem s) (prod s)" and "cons_ok (drained s) (mem s) (cons s)" and "False \<notin> set (misses s)"
    using ok by (auto simp: conc_ok_def)
  show tf: "block_inv (tail_blk (mem s))" "sizeMask (tail_blk (mem s)) = M" "next_block (tail_blk (mem s)) < nblocks (mem s)"
    using at_facts [OF inv, of "tailBlock (mem s)"] t by simp_all
  show "block_inv (after_tail (mem s))" "sizeMask (after_tail (mem s)) = M"
    using at_facts [OF inv, of "next_block (tail_blk (mem s))"] tf by simp_all
qed

lemma producer_load_ok:
  assumes ok: "conc_ok M s" and P_load: "prod s = P_load y"
  shows "conc_ok M (producer_step x s)"
proof -
  let ?q = "mem s"
  note inv = conc_facts(1) [OF ok] and t = conc_facts(2) [OF ok] and his = conc_facts(3) [OF ok] and po = conc_facts(4) [OF ok]
    and co = conc_facts(5) [OF ok] and ms = conc_facts(6) [OF ok] and tf = conc_facts(7-9) [OF ok] and nf = conc_facts(10,11) [OF ok]
  have I: "rwq_inv M ?q" using inv P_load by (simp add: shift_def)
  let ?b = "(tail_blk ?q)\<lparr>localFront := front (tail_blk ?q)\<rparr>"
  note R = refresh_at [OF I t block_inv_refresh(1) [OF tf(1)]]
  have full: "next_tail (tail_blk ?q) = front (tail_blk ?q) \<Longrightarrow> block_count (tail_blk ?q) = M"
    using block_full [OF tf(1)] tf(2) by (simp add: next_tail_def)
  have c: "cons_ok (drained s) (set_block ?q (tailBlock ?q) ?b) (cons s)" by (rule cons_ok_set [OF co t]) simp_all
  show ?thesis
    using R tf his ms c full t P_load
    by (simp add: conc_ok_def producer_step_def Let_def shift_def tail_full_def next_tail_def)
qed

lemma producer_write_ok:
  assumes ok: "conc_ok M s" and P_write: "prod s = P_write y"
  shows "conc_ok M (producer_step x s)"
proof -
  let ?q = "mem s"
  note inv = conc_facts(1) [OF ok] and t = conc_facts(2) [OF ok] and his = conc_facts(3) [OF ok] and po = conc_facts(4) [OF ok]
    and co = conc_facts(5) [OF ok] and ms = conc_facts(6) [OF ok] and tf = conc_facts(7-9) [OF ok] and nf = conc_facts(10,11) [OF ok]
  have I: "rwq_inv M ?q" using inv P_write by (simp add: shift_def)
  let ?b = "(tail_blk ?q)\<lparr>data := (data (tail_blk ?q))(tail (tail_blk ?q) := Some y)\<rparr>"
  note S = block_scratch [OF tf(1), of "Some y"]
  note R = refresh_at [OF I t S(1)]
  have c: "cons_ok (drained s) (set_block ?q (tailBlock ?q) ?b) (cons s)"
    by (rule cons_ok_set [OF co t]) (use tail_front_distinct [OF tf(1)] in simp_all)
  show ?thesis
    using R S(2) tf his ms c t po P_write by (simp add: conc_ok_def producer_step_def Let_def shift_def next_tail_def)
qed

lemma producer_publish_ok:
  assumes ok: "conc_ok M s" and P_publish: "prod s = P_publish y"
  shows "conc_ok M (producer_step x s)"
proof -
  let ?q = "mem s"
  note inv = conc_facts(1) [OF ok] and t = conc_facts(2) [OF ok] and his = conc_facts(3) [OF ok] and po = conc_facts(4) [OF ok]
    and co = conc_facts(5) [OF ok] and ms = conc_facts(6) [OF ok] and tf = conc_facts(7-9) [OF ok] and nf = conc_facts(10,11) [OF ok]
  have I: "rwq_inv M ?q" using inv P_publish by (simp add: shift_def)
  note F = rwq_inv_facts [OF I]
  let ?b = "(tail_blk ?q)\<lparr>tail := next_tail (tail_blk ?q)\<rparr>"
  have bp: "block_put (tail_blk ?q) y = ?b" using po P_publish by (simp add: block_put_def next_tail_def fun_upd_idem)
  have nt: "(tail (tail_blk ?q) + 1) AND sizeMask (tail_blk ?q) \<noteq> localFront (tail_blk ?q)"
    using po P_publish by (simp add: next_tail_def)
  have R: "rwq_inv M (set_block ?q (tailBlock ?q) ?b)" "rwq_pending (set_block ?q (tailBlock ?q) ?b) = rwq_pending ?q @ [y]"
    using rwq_put [OF I refl tf(1,2) _ _ nt, of y] F(4,6) bp by simp_all
  have c: "cons_ok (drained s) (set_block ?q (tailBlock ?q) ?b) (cons s)" by (rule cons_ok_set [OF co t]) simp_all
  show ?thesis using R his ms c t P_publish by (simp add: conc_ok_def producer_step_def Let_def shift_def)
qed

lemma producer_next_ok:
  assumes ok: "conc_ok M s" and P_next: "prod s = P_next y"
  shows "conc_ok M (producer_step x s)"
proof -
  let ?q = "mem s"
  note inv = conc_facts(1) [OF ok] and t = conc_facts(2) [OF ok] and his = conc_facts(3) [OF ok] and po = conc_facts(4) [OF ok]
    and co = conc_facts(5) [OF ok] and ms = conc_facts(6) [OF ok] and tf = conc_facts(7-9) [OF ok] and nf = conc_facts(10,11) [OF ok]
  have I: "rwq_inv M ?q" using inv P_next by (simp add: shift_def)
  let ?n = "next_block (tail_blk ?q)" and ?b = "(after_tail ?q)\<lparr>localFront := front (after_tail ?q)\<rparr>"
  note R = refresh_at [OF I tf(3) block_inv_refresh(1) [OF nf(1)]]
  have c: "cons_ok (drained s) (set_block ?q ?n ?b) (cons s)" by (rule cons_ok_set [OF co tf(3)]) simp_all
  have ne: "next_block (tail_blk ?q) \<noteq> tailBlock ?q" using next_free_ne [OF I] po P_next by simp
  show ?thesis
    using R nf tf his ms c t po P_next ne
    by (simp add: conc_ok_def producer_step_def Let_def shift_def next_free_def tail_full_def)
qed

lemma producer_write_next_ok:
  assumes ok: "conc_ok M s" and P_write_next: "prod s = P_write_next y"
  shows "conc_ok M (producer_step x s)"
proof -
  let ?q = "mem s"
  note inv = conc_facts(1) [OF ok] and t = conc_facts(2) [OF ok] and his = conc_facts(3) [OF ok] and po = conc_facts(4) [OF ok]
    and co = conc_facts(5) [OF ok] and ms = conc_facts(6) [OF ok] and tf = conc_facts(7-9) [OF ok] and nf = conc_facts(10,11) [OF ok]
  have I: "rwq_inv M ?q" using inv P_write_next by (simp add: shift_def)
  let ?n = "next_block (tail_blk ?q)" and ?b = "(after_tail ?q)\<lparr>data := (data (after_tail ?q))(tail (after_tail ?q) := Some y)\<rparr>"
  note S = block_scratch [OF nf(1), of "Some y"]
  note R = refresh_at [OF I tf(3) S(1)]
  have c: "cons_ok (drained s) (set_block ?q ?n ?b) (cons s)"
    by (rule cons_ok_set [OF co tf(3)]) (use tail_front_distinct [OF nf(1)] in simp_all)
  have ne: "next_block (tail_blk ?q) \<noteq> tailBlock ?q" using next_free_ne [OF I] po P_write_next by simp
  show ?thesis
    using R S(2) nf tf his ms c t po P_write_next ne
    by (simp add: conc_ok_def producer_step_def Let_def shift_def next_free_def tail_full_def)
qed

lemma producer_publish_next_ok:
  assumes ok: "conc_ok M s" and P_publish_next: "prod s = P_publish_next y"
  shows "conc_ok M (producer_step x s)"
proof -
  let ?q = "mem s"
  note inv = conc_facts(1) [OF ok] and t = conc_facts(2) [OF ok] and his = conc_facts(3) [OF ok] and po = conc_facts(4) [OF ok]
    and co = conc_facts(5) [OF ok] and ms = conc_facts(6) [OF ok] and tf = conc_facts(7-9) [OF ok] and nf = conc_facts(10,11) [OF ok]
  have I: "rwq_inv M ?q" using inv P_publish_next by (simp add: shift_def)
  have free: "next_free M ?q" and lf: "localFront (after_tail ?q) = front (after_tail ?q)"
    and dt: "data (after_tail ?q) (tail (after_tail ?q)) = Some y" using po P_publish_next by auto
  note N = next_free_step [OF I free]
  let ?n = "next_block (tail_blk ?q)" and ?b = "(after_tail ?q)\<lparr>tail := next_tail (after_tail ?q)\<rparr>"
  let ?q' = "set_block ?q ?n ?b"
  have same: "(blk ?q (Suc (dist ?q)))\<lparr>localFront := front (blk ?q (Suc (dist ?q)))\<rparr> = after_tail ?q"
    unfolding N(3) using lf by simp
  have bp: "block_put (after_tail ?q) y = ?b" using dt by (simp add: block_put_def next_tail_def fun_upd_idem)
  have ne: "next_block (tail_blk ?q) \<noteq> tailBlock ?q" by (rule next_free_ne [OF I free])
  have sh: "shift (P_move y) ?q' = ?q'\<lparr>tailBlock := ?n\<rparr>" using ne tf(3) by (simp add: shift_def)
  have R: "rwq_inv M (?q'\<lparr>tailBlock := ?n\<rparr>)" "rwq_pending (?q'\<lparr>tailBlock := ?n\<rparr>) = rwq_pending ?q @ [y]"
    using rwq_advance_tail [OF I N(4) refl N(1) same [symmetric], of "?q'\<lparr>tailBlock := ?n\<rparr>" y] bp N(2) by simp_all
  have c: "cons_ok (drained s) ?q' (cons s)"
    by (rule cons_ok_set [OF co tf(3)]) (use free in \<open>simp_all add: next_free_def\<close>)
  have emp: "block_list (after_tail ?q) = []" using I N(1,3) by (auto simp: rwq_inv_def)
  have "next_tail (after_tail ?q) \<noteq> front (after_tail ?q)"
    using block_room [OF nf(1)] emp nf(2) I by (auto simp: rwq_inv_def next_tail_def simp flip: length_0_conv)
  then have bl: "block_list ?b = [y]" using block_put_spec(2) [OF nf(1), of y] lf emp bp by (simp add: next_tail_def)
  show ?thesis
    using R his ms c t bl ne free tf(3) P_publish_next sh
    by (simp add: conc_ok_def producer_step_def Let_def next_free_def shift_other [of "P_publish_next y"])
qed

lemma producer_move_ok:
  assumes ok: "conc_ok M s" and P_move: "prod s = P_move y"
  shows "conc_ok M (producer_step x s)"
proof -
  let ?q = "mem s"
  note inv = conc_facts(1) [OF ok] and t = conc_facts(2) [OF ok] and his = conc_facts(3) [OF ok] and po = conc_facts(4) [OF ok]
    and co = conc_facts(5) [OF ok] and ms = conc_facts(6) [OF ok] and tf = conc_facts(7-9) [OF ok] and nf = conc_facts(10,11) [OF ok]
  have c: "cons_ok (drained s) (?q\<lparr>tailBlock := next_block (tail_blk ?q)\<rparr>) (cons s)"
    using co po P_move by (cases "cons s") (auto simp: front_done_def)
  show ?thesis using inv his ms c tf(3) P_move by (simp add: conc_ok_def producer_step_def Let_def shift_def nblocks_def)
qed

lemma producer_ok:
  assumes ok: "conc_ok M s"
  shows "conc_ok M (producer_step x s)"
proof (cases "prod s")
  case P_idle
  then show ?thesis using ok by (auto simp: conc_ok_def producer_step_def Let_def shift_def)
next
  case (P_check y)
  then show ?thesis using ok by (simp add: conc_ok_def producer_step_def Let_def shift_def next_free_def)
qed (auto intro: ok producer_load_ok producer_write_ok producer_publish_ok producer_next_ok producer_write_next_ok producer_publish_next_ok producer_move_ok)

section \<open>Steps of the consumer\<close>

lemma prod_ok_set:
  assumes "prod_ok M q p" and "i < nblocks q"
    and "tail b = tail (blocks q ! i)" and "localFront b = localFront (blocks q ! i)" and "next_block b = next_block (blocks q ! i)"
    and "sizeMask b = sizeMask (blocks q ! i)" and "data b (tail b) = data (blocks q ! i) (tail b)"
    and "i \<noteq> frontBlock q \<Longrightarrow> block_list b = block_list (blocks q ! i) \<and> front b = front (blocks q ! i)"
  shows "prod_ok M (set_block q i b) p"
proof -
  have "block_count b = block_count (blocks q ! i)" if "i \<noteq> frontBlock q" using assms(8) [OF that] by (metis length_block_list)
  then show ?thesis using assms by (cases p) (auto simp: tail_full_def next_free_def next_tail_def)
qed

lemma conc_ok_set:
  assumes ok: "conc_ok M s" and i: "i < nblocks (mem s)" and b: "b = (blocks (mem s) ! i)\<lparr>localTail := tail (blocks (mem s) ! i)\<rparr>"
    and c: "cons_ok dr (set_block (mem s) i b) c"
  shows "conc_ok M (s\<lparr>mem := set_block (mem s) i b, cons := c, drained := dr\<rparr>)"
proof -
  let ?q = "mem s" and ?Q = "shift (prod s) (mem s)"
  have inv: "rwq_inv M ?Q" and po: "prod_ok M ?q (prod s)" using ok by (auto simp: conc_ok_def)
  have f: "block_inv b" "sizeMask b = M" "next_block b = next_block (blocks ?Q ! i)" "block_list b = block_list (blocks ?Q ! i)"
    using at_facts [OF inv, of i] i block_inv_refresh(2) b by simp_all
  have "prod_ok M (set_block ?q i b) (prod s)" by (rule prod_ok_set [OF po i]) (simp_all add: b)
  then show ?thesis
    using ok refresh_at [OF inv _ f] i c f(3) by (simp add: conc_ok_def shift_set)
qed

lemma dist_shift:
  assumes "conc_ok M s" and "tailBlock (mem s) \<noteq> frontBlock (mem s)"
  shows "0 < dist (shift (prod s) (mem s))"
proof -
  let ?Q = "shift (prod s) (mem s)"
  have inv: "rwq_inv M ?Q" and po: "prod_ok M (mem s) (prod s)" using assms(1) by (auto simp: conc_ok_def)
  have "tailBlock ?Q \<noteq> frontBlock ?Q" using po assms(2) by (cases "prod s") (simp_all add: shift_def)
  then show ?thesis using inv gap_zero_iff [of "frontBlock ?Q" "nblocks ?Q" "tailBlock ?Q"] by (auto simp: rwq_inv_def dist_def)
qed

lemma pending_zero:
  assumes inv: "rwq_inv M q" and e: "block_list (blk q 0) = []"
  shows "dist q = 0 \<Longrightarrow> rwq_pending q = []" and "dist q = 1 \<Longrightarrow> rwq_pending q = block_list (blk q 1)"
proof -
  note F = rwq_inv_facts [OF inv]
  have "block_list (blk q j) = []" if "dist q < j" "j < nblocks q" for j using inv that by (simp add: rwq_inv_def)
  note z = this
  show "rwq_pending q = []" if "dist q = 0"
    using z e that by (auto simp: rwq_pending_def) (metis not_gr0)
  show "rwq_pending q = block_list (blk q 1)" if d: "dist q = 1"
  proof -
    obtain m where m: "nblocks q = Suc (Suc m)" using F(2) d by (metis One_nat_def less_imp_Suc_add add_Suc)
    have "concat (map (\<lambda>j. block_list (blk q (Suc (Suc j)))) [0..<m]) = []" using z d m by simp
    then show ?thesis by (simp only: rwq_pending_def m concat_map_shift e append_Nil One_nat_def append_Nil2)
  qed
qed

text \<open>When the front block is empty and still the tail block, every returned element has been taken.\<close>

lemma all_taken:
  assumes ok: "conc_ok M s" and e: "front (front_blk (mem s)) = tail (front_blk (mem s))" and t: "tailBlock (mem s) = frontBlock (mem s)"
  shows "length (taken s) = length (returned s)"
proof -
  let ?q = "mem s" and ?Q = "shift (prod s) (mem s)"
  have inv: "rwq_inv M ?Q" and tl: "tailBlock ?q < nblocks ?q" and po: "prod_ok M ?q (prod s)"
    and his: "map Some (returned s @ inflight (prod s)) = taken s @ map Some (rwq_pending ?Q)" using ok by (auto simp: conc_ok_def)
  note F = rwq_inv_facts [OF inv]
  have b0: "block_list (blk ?Q 0) = []" using block_list_empty [OF F(7), of 0] e F(5) by simp
  have len: "length (returned s) + length (inflight (prod s)) = length (taken s) + length (rwq_pending ?Q)"
    using arg_cong [OF his, of length] by simp
  show ?thesis
  proof (cases "inflight (prod s) = []")
    case True
    then have "dist ?Q = 0" using shift_other [OF True] t tl by (simp add: dist_def)
    then show ?thesis using pending_zero(1) [OF inv b0] len True by simp
  next
    case False
    then obtain y where y: "prod s = P_move y" by (cases "prod s") auto
    have p1: "next_block (tail_blk ?q) = pos ?Q 1" using F(9) [of 0] F(5) t by simp
    have "pos ?Q 1 \<noteq> pos ?Q 0" using po y p1 F(3) by simp
    then have "1 < nblocks ?Q" using F(1) by (cases "nblocks ?Q = 1") (auto simp: pos_def simp del: shift_view)
    moreover have "pos ?Q (dist ?Q) = pos ?Q 1" unfolding F(4) using p1 y by (simp add: shift_def)
    ultimately have "dist ?Q = 1" using pos_eq [of "dist ?Q" ?Q 1] F(2) by simp
    then have "rwq_pending ?Q = [y]" using pending_zero(2) [OF inv b0] y po p1 by (simp add: blk_def)
    then show ?thesis using len y by simp
  qed
qed

lemma front_facts:
  assumes "conc_ok M s"
  shows "frontBlock (mem s) < nblocks (mem s)" "next_block (front_blk (mem s)) = pos (mem s) 1"
    "next_block (front_blk (mem s)) < nblocks (mem s)" "block_inv (front_blk (mem s))" "sizeMask (front_blk (mem s)) = M"
    "blk (mem s) 0 = front_blk (mem s)"
proof -
  let ?Q = "shift (prod s) (mem s)"
  have inv: "rwq_inv M ?Q" using assms by (simp add: conc_ok_def)
  note F = rwq_inv_facts [OF inv]
  show l: "frontBlock (mem s) < nblocks (mem s)" using inv by (simp add: rwq_inv_def)
  show "blk (mem s) 0 = front_blk (mem s)" using F(5) by simp
  show "next_block (front_blk (mem s)) = pos (mem s) 1" using F(9) [of 0] F(5) by simp
  show "next_block (front_blk (mem s)) < nblocks (mem s)" "block_inv (front_blk (mem s))" "sizeMask (front_blk (mem s)) = M"
    using at_facts [OF inv, of "frontBlock (mem s)"] l by simp_all
qed

lemma move_front_ok:
  assumes ok: "conc_ok M s" and c: "cons s = C_move"
  shows "conc_ok M (consumer_step s)"
proof -
  let ?q = "mem s" and ?Q = "shift (prod s) (mem s)"
  let ?n = "next_block (front_blk ?q)"
  have inv: "rwq_inv M ?Q" and t: "tailBlock ?q < nblocks ?q" and po: "prod_ok M ?q (prod s)" and co: "cons_ok (drained s) ?q C_move"
    using ok c by (auto simp: conc_ok_def)
  note F = front_facts [OF ok]
  have d: "tailBlock ?q \<noteq> frontBlock ?q" "front (front_blk ?q) = tail (front_blk ?q)" using co by (auto simp: front_done_def)
  have "block_list (blk ?Q 0) = []" using block_list_empty [OF F(4)] d(2) F(6) by simp
  note V = rwq_move_front [OF inv this dist_shift [OF ok d(1)] refl]
  have e: "shift (prod s) (?q\<lparr>frontBlock := ?n\<rparr>) = ?Q\<lparr>frontBlock := pos ?Q 1\<rparr>"
    using F(2) by (cases "prod s") (simp_all add: shift_def pos_def nblocks_def)
  have nx: "next_block (tail_blk ?q) \<noteq> ?n"
  proof -
    have "next_block (tail_blk ?q) = (tailBlock ?q + 1) mod nblocks ?q" "?n = (frontBlock ?q + 1) mod nblocks ?q"
      using at_facts(3) [OF inv, of "tailBlock ?q"] at_facts(3) [OF inv, of "frontBlock ?q"] t F(1) by simp_all
    then show ?thesis using d(1) t F(1) ring_add_inj [of 1 "tailBlock ?q" "nblocks ?q" "frontBlock ?q"] by auto
  qed
  have p: "prod_ok M (?q\<lparr>frontBlock := ?n\<rparr>) (prod s)"
    using po nx d(1) by (cases "prod s") (auto simp: tail_full_def next_free_def)
  have nb: "nblocks (?q\<lparr>frontBlock := ?n\<rparr>) = nblocks ?q" by (simp add: nblocks_def)
  show ?thesis
    using ok V(1,2) e p co t nb c by (simp add: conc_ok_def consumer_step_def Let_def)
qed

lemma consumer_ok:
  assumes ok: "conc_ok M s" and c: "cons s \<noteq> C_read" "\<forall>r. cons s \<noteq> C_publish r"
  shows "conc_ok M (consumer_step s)"
proof -
  let ?q = "mem s" and ?Q = "shift (prod s) (mem s)"
  note F = front_facts [OF ok]
  have inv: "rwq_inv M ?Q" and co: "cons_ok (drained s) ?q (cons s)" using ok by (auto simp: conc_ok_def)
  show ?thesis
  proof (cases "cons s")
    case C_load
    let ?b = "(front_blk ?q)\<lparr>localTail := tail (front_blk ?q)\<rparr>" and ?dr = "length (taken s) = length (returned s)"
    have "cons_ok ?dr (set_block ?q (frontBlock ?q) ?b) (if front (front_blk ?q) \<noteq> tail (front_blk ?q) then C_read else C_check)"
      using all_taken [OF ok] F(1) by auto
    from conc_ok_set [OF ok F(1) refl this] show ?thesis using C_load by (auto simp: conc_ok_def consumer_step_def Let_def)
  next
    case C_recheck
    let ?b = "(front_blk ?q)\<lparr>localTail := tail (front_blk ?q)\<rparr>"
    have "cons_ok (drained s) (set_block ?q (frontBlock ?q) ?b) (if front (front_blk ?q) \<noteq> tail (front_blk ?q) then C_read else C_next)"
      using co C_recheck F(1) by (auto simp: front_done_def)
    from conc_ok_set [OF ok F(1) refl this] show ?thesis using C_recheck by (auto simp: conc_ok_def consumer_step_def Let_def)
  next
    case C_next
    let ?n = "next_block (front_blk ?q)" and ?b = "(after_front ?q)\<lparr>localTail := tail (after_front ?q)\<rparr>"
    have d: "tailBlock ?q \<noteq> frontBlock ?q" "front (front_blk ?q) = tail (front_blk ?q)" using co C_next by (auto simp: front_done_def)
    have "block_list (blk ?Q 0) = []" using block_list_empty [OF F(4)] d(2) F(6) by simp
    note V = rwq_move_front [OF inv this dist_shift [OF ok d(1)] refl]
    have "blk ?Q 1 = after_front ?q" using F(2) by (simp add: blk_def)
    then have ne: "front (after_front ?q) \<noteq> tail (after_front ?q)"
      using V(5) block_list_empty [OF at_facts(1) [OF inv], of ?n] F(3) by simp
    have nf: "?n \<noteq> frontBlock ?q"
      using V(5) \<open>block_list (blk ?Q 0) = []\<close> \<open>blk ?Q 1 = after_front ?q\<close> F(6) by auto
    have "cons_ok (drained s) (set_block ?q ?n ?b) C_move" using d ne nf F(3) by (simp add: front_done_def)
    from conc_ok_set [OF ok F(3) refl this] show ?thesis using C_next by (simp add: conc_ok_def consumer_step_def Let_def)
  next
    case C_move
    show ?thesis by (rule move_front_ok [OF ok C_move])
  qed (use ok c co in \<open>auto simp: conc_ok_def consumer_step_def Let_def\<close>)
qed

lemma drop_ok:
  assumes ok: "conc_ok M s" and c: "cons s = C_publish r"
  shows "conc_ok M (s\<lparr>mem := set_block (mem s) (frontBlock (mem s)) (block_drop (front_blk (mem s))), cons := C_idle, taken := taken s @ [r]\<rparr>)"
proof -
  let ?q = "mem s" and ?Q = "shift (prod s) (mem s)"
  let ?b = "block_drop (front_blk ?q)"
  note F = front_facts [OF ok]
  have inv: "rwq_inv M ?Q" and po: "prod_ok M ?q (prod s)"
    and co: "front (front_blk ?q) \<noteq> localTail (front_blk ?q)" "data (front_blk ?q) (front (front_blk ?q)) = r"
    using ok c by (auto simp: conc_ok_def)
  have p0: "pos ?Q 0 = frontBlock ?q" using rwq_inv_facts(3) [OF inv] by simp
  have nx: "next_block (front_blk ?q) = next_block (blk ?Q 0)" "block_list (front_blk ?q) = block_list (blk ?Q 0)" using F(6) by simp_all
  note R = rwq_take [OF inv F(4,5) nx co(1), unfolded p0]
  then obtain x where x: "r = Some x" "rwq_pending ?Q = x # rwq_pending (set_block ?Q (frontBlock ?q) ?b)" using co(2) by auto
  have ft: "front (front_blk ?q) \<noteq> tail (front_blk ?q)" by (rule tail_front_distinct [OF F(4) co(1)])
  have "prod_ok M (set_block ?q (frontBlock ?q) ?b) (prod s)"
    by (rule prod_ok_set [OF po F(1)]) (use ft in \<open>simp_all add: block_drop_def\<close>)
  then show ?thesis using ok R(1) x F(1) by (simp add: conc_ok_def shift_set)
qed

section \<open>The invariant of the concurrent queue\<close>

lemma punch_view [simp]:
  "front (punch r b) = front b" "tail (punch r b) = tail b" "localFront (punch r b) = localFront b"
  "localTail (punch r b) = localTail b" "next_block (punch r b) = next_block b" "sizeMask (punch r b) = sizeMask b"
  "data (punch r b) = (data b)(front b := r)" "next_tail (punch r b) = next_tail b"
  by (simp_all add: punch_def next_tail_def)

lemma punch_upd:
  "punch r (b\<lparr>tail := t\<rparr>) = (punch r b)\<lparr>tail := t\<rparr>" "punch r (b\<lparr>localFront := t\<rparr>) = (punch r b)\<lparr>localFront := t\<rparr>"
  "k \<noteq> front b \<Longrightarrow> punch r (b\<lparr>data := (data b)(k := v)\<rparr>) = (punch r b)\<lparr>data := (data b)(front b := r, k := v)\<rparr>"
  by (cases b; simp add: punch_def fun_upd_twist)+

lemma set_block_again [simp]: "set_block (set_block q i a) i b = set_block q i b"
  by (simp add: set_block_def)

lemma set_block_swap: "i \<noteq> j \<Longrightarrow> set_block (set_block q i a) j b = set_block (set_block q j b) i a"
  by (simp add: set_block_def list_update_swap)

lemma set_block_move: "(set_block q i a)\<lparr>tailBlock := n\<rparr> = set_block (q\<lparr>tailBlock := n\<rparr>) i a"
  by (simp add: set_block_def)

lemma filled_simps:
  "cons (filled s) = cons s" "prod (filled s) = prod s" "returned (filled s) = returned s" "taken (filled s) = taken s"
  "misses (filled s) = misses s" "drained (filled s) = drained s" "nblocks (mem (filled s)) = nblocks (mem s)"
  "frontBlock (mem (filled s)) = frontBlock (mem s)" "tailBlock (mem (filled s)) = tailBlock (mem s)"
  by (auto simp: filled_def nblocks_def set_block_def split: consumer_pc.split)

lemma filled_other: "\<forall>r. cons s \<noteq> C_publish r \<Longrightarrow> filled s = s"
  by (cases "cons s") (auto simp: filled_def)

lemma producer_keeps_cons: "cons (producer_step x s) = cons s"
  by (auto simp: producer_step_def Let_def split: producer_pc.split)

text \<open>While the consumer holds an emptied slot, no step of the producer reads or writes it.\<close>

lemma publish_facts:
  assumes ok: "conc_ok M (filled s)" and c: "cons s = C_publish r"
  shows "frontBlock (mem s) < nblocks (mem s)" "tailBlock (mem s) < nblocks (mem s)"
    "next_block (tail_blk (mem s)) < nblocks (mem s)" "front (front_blk (mem s)) \<noteq> tail (front_blk (mem s))"
    "\<And>y. prod s = P_write_next y \<Longrightarrow> next_block (tail_blk (mem s)) \<noteq> frontBlock (mem s)"
proof -
  let ?q = "mem s" and ?q' = "mem (filled s)"
  note F = front_facts [OF ok]
  have q': "?q' = set_block ?q (frontBlock ?q) (punch r (front_blk ?q))" using c by (simp add: filled_def)
  show f: "frontBlock ?q < nblocks ?q" using F(1) by (simp add: filled_simps)
  have inv: "rwq_inv M (shift (prod s) ?q')" and co: "cons_ok (drained s) ?q' (C_publish r)" and po: "prod_ok M ?q' (prod s)"
    using ok c by (auto simp: conc_ok_def filled_simps)
  show t: "tailBlock ?q < nblocks ?q" using ok by (simp add: conc_ok_def filled_simps)
  show "next_block (tail_blk ?q) < nblocks ?q"
    using at_facts(4) [OF inv, of "tailBlock ?q"] t f q' by (simp add: filled_simps split: if_splits)
  have "front (front_blk ?q') \<noteq> tail (front_blk ?q')" using tail_front_distinct [OF F(4)] co by simp
  then show "front (front_blk ?q) \<noteq> tail (front_blk ?q)" using q' f by (simp add: filled_simps)
  show "next_block (tail_blk ?q) \<noteq> frontBlock ?q" if "prod s = P_write_next y" for y
    using po that q' f by (auto simp: next_free_def filled_simps(8) split: if_splits)
qed

lemma filled_producer:
  assumes ok: "conc_ok M (filled s)"
  shows "filled (producer_step x s) = producer_step x (filled s)"
proof (cases "\<exists>r. cons s = C_publish r")
  case True
  then obtain r where c: "cons s = C_publish r" by blast
  note P = publish_facts [OF ok c]
  show ?thesis
    using P c
    by (intro conc.equality; cases "prod s")
      (auto simp: producer_step_def filled_def Let_def set_block_swap set_block_move punch_upd)
next
  case False
  then show ?thesis by (simp add: filled_other producer_keeps_cons)
qed

lemma producer_slot:
  assumes ok: "conc_ok M (filled s)" and c: "cons s = C_publish r"
  shows "data (front_blk (mem (producer_step x s))) (front (front_blk (mem (producer_step x s))))
    = data (front_blk (mem s)) (front (front_blk (mem s)))"
  using publish_facts [OF ok c] by (cases "prod s") (auto simp: producer_step_def Let_def)

lemma conc_inv_step:
  assumes inv: "conc_inv M s"
  shows "conc_inv M (conc_step mv s)"
proof (cases mv)
  case (Produce x)
  have ok: "conc_ok M (filled s)" using inv by (simp add: conc_inv_def)
  show ?thesis
    using producer_ok [OF ok, of x] filled_producer [OF ok, of x] producer_slot [OF ok, of _ x] inv Produce
    by (simp add: conc_inv_def producer_keeps_cons)
next
  case Consume
  let ?q = "mem s" and ?fb = "front_blk (mem s)"
  have ok: "conc_ok M (filled s)" using inv by (simp add: conc_inv_def)
  have fl: "frontBlock ?q < nblocks ?q" using front_facts(1) [OF ok] by (simp add: filled_simps)
  consider r where "cons s = C_publish r" | "cons s = C_read" | "cons s \<noteq> C_read" "\<forall>r. cons s \<noteq> C_publish r" by blast
  then show ?thesis
  proof cases
    case (1 r)
    have "data ?fb (front ?fb) = None" using inv 1 by (simp add: conc_inv_def)
    then have "block_drop (punch r ?fb) = ?fb\<lparr>front := (front ?fb + 1) AND sizeMask ?fb\<rparr>"
      by (simp add: block_drop_def punch_def fun_upd_idem)
    then show ?thesis
      using drop_ok [OF ok, of r] 1 Consume fl by (simp add: conc_inv_def consumer_step_def filled_def Let_def)
  next
    case 2
    have "conc_ok M s" using ok 2 by (simp add: filled_other)
    moreover have "set_block ?q (frontBlock ?q) ?fb = ?q" by (simp add: set_block_def)
    then have "filled (consumer_step s) = s\<lparr>cons := C_publish (data ?fb (front ?fb))\<rparr>"
      using 2 fl by (simp add: consumer_step_def filled_def Let_def punch_def)
    ultimately show ?thesis using 2 Consume fl by (simp add: conc_inv_def conc_ok_def) (simp add: consumer_step_def Let_def)
  next
    case 3
    have s: "filled s = s" by (rule filled_other [OF 3(2)])
    then have "conc_ok M (consumer_step s)" using consumer_ok [of M s] ok 3 by simp
    moreover have "\<forall>r. cons (consumer_step s) \<noteq> C_publish r"
      using 3 by (cases "cons s") (auto simp: consumer_step_def Let_def)
    ultimately show ?thesis using Consume filled_other [of "consumer_step s"] by (simp add: conc_inv_def)
  qed
qed

lemma conc_inv_start:
  assumes "rwq_inv M q" and "rwq_pending q = []"
  shows "conc_inv M (conc_start q)"
  using assms by (simp add: conc_inv_def conc_ok_def conc_start_def filled_def shift_def) (simp add: rwq_inv_def)

lemma conc_inv_run: "conc_inv M s \<Longrightarrow> conc_inv M (fold conc_step moves s)"
  by (induction moves arbitrary: s) (simp_all add: conc_inv_step)

section \<open>One thread alone\<close>

lemma next_not_self:
  assumes inv: "rwq_inv M q" and i: "i < nblocks q" and j: "j < nblocks q" and ne: "next_block (blocks q ! i) \<noteq> j \<or> i \<noteq> j"
  shows "next_block (blocks q ! i) \<noteq> i"
proof
  assume "next_block (blocks q ! i) = i"
  moreover from this have "Suc i mod nblocks q = i" using at_facts(3) [OF inv i] by simp
  then have "nblocks q = 1" using i by (auto simp: mod_Suc split: if_splits)
  ultimately show False using i j ne by simp
qed

lemma set_block_front: "set_block (q\<lparr>frontBlock := n\<rparr>) i a = (set_block q i a)\<lparr>frontBlock := n\<rparr>"
  by (simp add: set_block_def)

lemmas alone_simps = set_block_front numeral_3_eq_3 Let_def next_tail_def block_put_def block_drop_def
  producer_step_def rwq_try_enqueue_def consumer_step_def rwq_try_dequeue_def

text \<open>
  A thread that is not interrupted does what the atomic operations of \<open>Pw_Queue\<close> do: the accesses and the
  functions describe the same code.
\<close>

lemma producer_alone:
  assumes inv: "rwq_inv M (mem s)" and p: "prod s = P_idle"
  shows "\<exists>k. (producer_step x ^^ k) s
    = s\<lparr>mem := snd (rwq_try_enqueue (mem s) x), returned := returned s @ (if fst (rwq_try_enqueue (mem s) x) then [x] else [])\<rparr>"
proof -
  let ?q = "mem s"
  have t: "tailBlock ?q < nblocks ?q" and f: "frontBlock ?q < nblocks ?q" using inv by (simp_all add: rwq_inv_def)
  note n = at_facts(4) [OF inv t]
  consider "next_tail (tail_blk ?q) \<noteq> localFront (tail_blk ?q)"
    | "next_tail (tail_blk ?q) = localFront (tail_blk ?q)" "next_tail (tail_blk ?q) \<noteq> front (tail_blk ?q)"
    | "next_tail (tail_blk ?q) = localFront (tail_blk ?q)" "next_tail (tail_blk ?q) = front (tail_blk ?q)"
      "next_block (tail_blk ?q) = frontBlock ?q"
    | "next_tail (tail_blk ?q) = localFront (tail_blk ?q)" "next_tail (tail_blk ?q) = front (tail_blk ?q)"
      "next_block (tail_blk ?q) \<noteq> frontBlock ?q" by blast
  then show ?thesis
  proof cases
    case 1
    then show ?thesis using t p
      by (intro exI [of _ 3] conc.equality) (simp_all add: alone_simps)
  next
    case 2
    then show ?thesis using t p
      by (intro exI [of _ "Suc 3"] conc.equality) (simp_all add: alone_simps)
  next
    case 3
    then show ?thesis using t p
      by (intro exI [of _ 3] conc.equality) (simp_all add: alone_simps)
  next
    case 4
    have "next_block (tail_blk ?q) \<noteq> tailBlock ?q" by (rule next_not_self [OF inv t f]) (use 4 in simp)
    then show ?thesis using t p n 4
      by (intro exI [of _ "Suc (3 + 3)"] conc.equality) (simp_all add: alone_simps)
  qed
qed

lemma consumer_alone:
  assumes inv: "rwq_inv M (mem s)" and c: "cons s = C_idle"
  shows "\<exists>k s'. (consumer_step ^^ k) s = s' \<and> cons s' = C_idle \<and> prod s' = prod s \<and> returned s' = returned s
    \<and> mem s' = snd (rwq_try_dequeue (mem s))
    \<and> taken s' = taken s @ (case fst (rwq_try_dequeue (mem s)) of None \<Rightarrow> [] | Some r \<Rightarrow> [r])"
proof -
  let ?q = "mem s"
  have t: "tailBlock ?q < nblocks ?q" and f: "frontBlock ?q < nblocks ?q" using inv by (simp_all add: rwq_inv_def)
  consider "front (front_blk ?q) \<noteq> localTail (front_blk ?q)"
    | "front (front_blk ?q) = localTail (front_blk ?q)" "front (front_blk ?q) \<noteq> tail (front_blk ?q)"
    | "front (front_blk ?q) = localTail (front_blk ?q)" "front (front_blk ?q) = tail (front_blk ?q)" "frontBlock ?q = tailBlock ?q"
    | "front (front_blk ?q) = localTail (front_blk ?q)" "front (front_blk ?q) = tail (front_blk ?q)" "frontBlock ?q \<noteq> tailBlock ?q"
    by blast
  then show ?thesis
  proof cases
    case 1
    then show ?thesis using f c by (intro exI [of _ 3]) (simp add: alone_simps)
  next
    case 2
    then show ?thesis using f c by (intro exI [of _ "Suc 3"]) (simp add: alone_simps)
  next
    case 3
    then show ?thesis using f c by (intro exI [of _ 3]) (simp add: alone_simps)
  next
    case 4
    have "next_block (front_blk ?q) \<noteq> frontBlock ?q" by (rule next_not_self [OF inv f t]) (use 4 in simp)
    then show ?thesis using f c at_facts(4) [OF inv f] 4
      by (intro exI [of _ "Suc (Suc (3 + 3))"]) (simp add: alone_simps)
  qed
qed

section \<open>Properties of the concurrent queue\<close>

text \<open>The shared state after an interleaving of the two threads on a new queue of the program.\<close>

definition conc_run :: "'a move list \<Rightarrow> 'a conc" where
  "conc_run moves = fold conc_step moves (conc_start (rwq_new MSG_QUEUE_SIZE))"

lemma conc_run_inv: "conc_inv 511 (conc_run moves :: 'a conc)"
proof -
  let ?q = "\<lparr>blocks = ring_blocks 130 (Suc 511), frontBlock = 0, tailBlock = 0, largestBlockSize = 512\<rparr>
    :: 'a ReaderWriterQueue"
  have q: "rwq_new MSG_QUEUE_SIZE = ?q" by (simp add: rwq_new_msg)
  have "rwq_inv 511 ?q" "rwq_pending ?q = []" by (rule ring_blocks_inv [where k = 9 and n = 130 and M = 511]; simp)+
  then show ?thesis unfolding conc_run_def q by (intro conc_inv_run conc_inv_start)
qed

lemma next_block_empty:
  assumes inv: "conc_inv M s" and p: "prod s = P_write_next y"
  shows "front (after_tail (mem s)) = tail (after_tail (mem s))"
proof -
  let ?q = "mem (filled s)"
  have ok: "conc_ok M (filled s)" using inv by (simp add: conc_inv_def)
  have I: "rwq_inv M ?q" and free: "next_free M ?q" using ok p by (auto simp: conc_ok_def filled_simps shift_def)
  note N = next_free_step [OF I free]
  have n: "next_block (tail_blk ?q) < nblocks ?q" using at_facts(4) [OF I] ok by (simp add: conc_ok_def)
  have "block_list (after_tail ?q) = []" using I N(1,3) by (auto simp: rwq_inv_def)
  then have "front (after_tail ?q) = tail (after_tail ?q)" using block_list_empty [OF at_facts(1) [OF I n]] by simp
  then show ?thesis
    using front_facts(1) [OF ok] by (cases "cons s") (auto simp: filled_def filled_simps split: if_splits)
qed

lemma next_block_filled:
  assumes "conc_inv M s" and "cons s = C_move"
  shows "front (after_front (mem s)) \<noteq> localTail (after_front (mem s))"
  using assms by (simp add: conc_inv_def conc_ok_def filled_def)

text \<open>
  C8: in every interleaving of the shared-memory accesses of one producer and one consumer on a new queue of
  \<^verbatim>\<open>MSG_QUEUE_SIZE\<close>: the dequeued objects are a prefix of the enqueued elements, in order, and no dequeue reads a slot without
  an object; a \<^verbatim>\<open>try_dequeue\<close> that returns false found every element taken whose enqueue had returned when it looked at the
  tail of its block; and the two assertions of the code hold: the block the producer moves to is empty, and the block the
  consumer moves to is not.
\<close>

theorem queue_concurrent_fifo:
  assumes "s = conc_run moves"
  shows "(\<exists>pending. map Some (returned s @ inflight (prod s)) = taken s @ map Some pending)
    \<and> False \<notin> set (misses s)
    \<and> (\<forall>y. prod s = P_write_next y \<longrightarrow> front (after_tail (mem s)) = tail (after_tail (mem s)))
    \<and> (cons s = C_move \<longrightarrow> front (after_front (mem s)) \<noteq> localTail (after_front (mem s)))"
proof (intro conjI)
  have inv: "conc_inv 511 s" using conc_run_inv assms by blast
  then have ok: "conc_ok 511 (filled s)" by (simp add: conc_inv_def)
  then show "\<exists>pending. map Some (returned s @ inflight (prod s)) = taken s @ map Some pending" "False \<notin> set (misses s)"
    unfolding conc_ok_def filled_simps by blast+
  show "\<forall>y. prod s = P_write_next y \<longrightarrow> front (after_tail (mem s)) = tail (after_tail (mem s))"
    using next_block_empty [OF inv] by blast
  show "cons s = C_move \<longrightarrow> front (after_front (mem s)) \<noteq> localTail (after_front (mem s))"
    using next_block_filled [OF inv] by blast
qed

definition sample_moves :: "nat move list" where
  "sample_moves = [Produce 7, Consume, Produce 7, Produce 8, Consume, Consume, Consume]"

lemma sample_taken: "taken (conc_run sample_moves) = [Some 7]" "returned (conc_run sample_moves) = [7]"
  by (simp_all add: sample_moves_def conc_run_def conc_start_def rwq_new_msg producer_step_def consumer_step_def Let_def
    set_block_def ring_blocks_def make_block_def next_tail_def del: upt.simps upt_Suc upt_rec_numeral)

theorem queue_concurrent_fifo_witness:
  "(\<exists>pending. map Some (returned (conc_run sample_moves) @ inflight (prod (conc_run sample_moves)))
     = taken (conc_run sample_moves) @ map Some pending)
   \<and> taken (conc_run sample_moves) = [Some 7] \<and> False \<notin> set (misses (conc_run sample_moves))"
  using queue_concurrent_fifo [OF refl, of sample_moves] sample_taken(1) by blast

text \<open>The most accesses a thread still has to make before its operation returns.\<close>

fun prod_left :: "'a producer_pc \<Rightarrow> nat" where
  "prod_left P_idle = 0"
| "prod_left (P_load _) = 6"
| "prod_left (P_check _) = 5"
| "prod_left (P_next _) = 4"
| "prod_left (P_write_next _) = 3"
| "prod_left (P_publish_next _) = 2"
| "prod_left (P_move _) = 1"
| "prod_left (P_write _) = 2"
| "prod_left (P_publish _) = 1"

fun cons_left :: "'a consumer_pc \<Rightarrow> nat" where
  "cons_left C_idle = 0"
| "cons_left C_load = 7"
| "cons_left C_check = 6"
| "cons_left C_recheck = 5"
| "cons_left C_next = 4"
| "cons_left C_move = 3"
| "cons_left C_read = 2"
| "cons_left (C_publish _) = 1"

lemma step_left:
  "prod s \<noteq> P_idle \<Longrightarrow> prod_left (prod (producer_step x s)) < prod_left (prod s)" "prod (consumer_step s) = prod s"
  "cons s \<noteq> C_idle \<Longrightarrow> cons_left (cons (consumer_step s)) < cons_left (cons s)"
  by (cases "prod s"; simp add: producer_step_def Let_def) (auto simp: consumer_step_def Let_def split: consumer_pc.split)

definition is_prod :: "'a move \<Rightarrow> bool" where "is_prod m \<longleftrightarrow> m \<noteq> Consume"

lemma is_prod_simps [simp]: "is_prod (Produce x)" "\<not> is_prod Consume"
  by (simp_all add: is_prod_def)

lemma producer_finishes:
  "prod_left (prod s) \<le> length (filter is_prod moves) \<Longrightarrow>
    \<exists>k \<le> length moves. prod (fold conc_step (take k moves) s) = P_idle"
proof (induction moves arbitrary: s)
  case Nil
  then show ?case by (cases "prod s") auto
next
  case (Cons m ms)
  show ?case
  proof (cases "prod s = P_idle")
    case False
    have "prod_left (prod (conc_step m s)) \<le> length (filter is_prod ms)"
      using Cons.prems step_left(1) [OF False] step_left(2) [of s] by (cases m) (auto, meson less_le_trans less_Suc_eq_le)
    from Cons.IH [OF this] obtain k where "k \<le> length ms" "prod (fold conc_step (take k ms) (conc_step m s)) = P_idle" by blast
    then show ?thesis by (intro exI [of _ "Suc k"]) simp
  qed (auto intro: exI [of _ 0])
qed

lemma consumer_finishes:
  "cons_left (cons s) \<le> length (filter (\<lambda>m. \<not> is_prod m) moves) \<Longrightarrow>
    \<exists>k \<le> length moves. cons (fold conc_step (take k moves) s) = C_idle"
proof (induction moves arbitrary: s)
  case Nil
  then show ?case by (cases "cons s") auto
next
  case (Cons m ms)
  show ?case
  proof (cases "cons s = C_idle")
    case False
    have "cons_left (cons (conc_step m s)) \<le> length (filter (\<lambda>m. \<not> is_prod m) ms)"
      using Cons.prems step_left(3) [OF False] producer_keeps_cons [of _ s] by (cases m) (auto simp: less_Suc_eq_le dest: less_le_trans)
    from Cons.IH [OF this] obtain k where "k \<le> length ms" "cons (fold conc_step (take k ms) (conc_step m s)) = C_idle" by blast
    then show ?thesis by (intro exI [of _ "Suc k"]) simp
  qed (auto intro: exI [of _ 0])
qed



end
