(* ===== verification/Pw_Semaphore.thy ===== *)
theory Pw_Semaphore
  imports Pw_Prelude
begin

text \<open>
  \<^verbatim>\<open>LightweightSemaphore\<close> of \<^verbatim>\<open>src/libs/readerwriterqueue/atomicops.h\<close> as a step relation.  One thread
  (the consumer of a message queue) calls \<^verbatim>\<open>wait(timeout)\<close>, another (the producer) calls
  \<^verbatim>\<open>signal()\<close>; each atomic access to \<^verbatim>\<open>m_count\<close> and each call on the kernel semaphore \<^verbatim>\<open>m_sema\<close> is
  one step, so that the relation has every interleaving of the two.  The ghost counters \<open>posted\<close>
  and \<open>taken\<close> count the signals given and the waits that returned true.

  The theory proves that a wait returns true at most once per signal, so that the dequeue after
  it finds an element, that it returns false only when no signal is left, and that a waiting
  thread never misses its wake-up.
\<close>

section \<open>Threads and state\<close>

text \<open>
  The program points of the waiting thread: the load and the decrement of \<^verbatim>\<open>tryWait\<close>, the spin
  loop with the iterations it has left, the decrement after it, the timed wait on the kernel
  semaphore, and the loop that gives the count back after a time-out.
\<close>

datatype waiter =
    W_idle
  | W_load
  | W_take
  | W_spin nat
  | W_kernel
  | W_restore
  | W_retry
  | W_try_kernel
  | W_done bool

datatype signaller = S_idle | S_kernel

record sema_state =
  m_count :: int
  m_sema :: nat
  waiter :: waiter
  signaller :: signaller
  posted :: nat
  taken :: nat

definition sema_init :: sema_state where
  "sema_init = \<lparr>m_count = 0, m_sema = 0, waiter = W_idle, signaller = S_idle, posted = 0, taken = 0\<rparr>"

section \<open>Steps\<close>

text \<open>The producer: \<^verbatim>\<open>fetch_add_release(1)\<close>, then \<^verbatim>\<open>m_sema.signal(1)\<close> if a thread waits.\<close>

definition signal_add :: "sema_state \<Rightarrow> sema_state" where
  "signal_add s = s\<lparr>m_count := m_count s + 1, posted := posted s + 1,
     signaller := (if m_count s < 0 then S_kernel else S_idle)\<rparr>"

definition signal_kernel :: "sema_state \<Rightarrow> sema_state" where
  "signal_kernel s = s\<lparr>m_sema := m_sema s + 1, signaller := S_idle\<rparr>"

definition return_true :: "sema_state \<Rightarrow> sema_state" where
  "return_true s = s\<lparr>waiter := W_done True, taken := taken s + 1\<rparr>"

text \<open>
  The consumer, one atomic action per program point; \<open>timeout\<close> says whether the timed wait on
  the kernel semaphore gives up.  \<open>None\<close> is a thread that has no step of its own to make.
\<close>

definition wait_step :: "bool \<Rightarrow> sema_state \<Rightarrow> sema_state option" where
  "wait_step timeout s =
     (case waiter s of
        W_idle \<Rightarrow> Some (s\<lparr>waiter := W_load\<rparr>)
      | W_load \<Rightarrow> Some (s\<lparr>waiter := (if m_count s > 0 then W_take else W_spin 1024)\<rparr>)
      | W_take \<Rightarrow> Some (return_true (s\<lparr>m_count := m_count s - 1\<rparr>))
      | W_spin (Suc k) \<Rightarrow> Some (s\<lparr>waiter := (if m_count s > 0 then W_take else W_spin k)\<rparr>)
      | W_spin 0 \<Rightarrow>
          (let s' = s\<lparr>m_count := m_count s - 1\<rparr> in
           if m_count s > 0 then Some (return_true s') else Some (s'\<lparr>waiter := W_kernel\<rparr>))
      | W_kernel \<Rightarrow>
          (if timeout then Some (s\<lparr>waiter := W_restore\<rparr>)
           else if m_sema s > 0 then Some (return_true (s\<lparr>m_sema := m_sema s - 1\<rparr>))
           else None)
      | W_restore \<Rightarrow>
          (let s' = s\<lparr>m_count := m_count s + 1\<rparr> in
           Some (s'\<lparr>waiter := (if m_count s < 0 then W_done False else W_retry)\<rparr>))
      | W_retry \<Rightarrow>
          (let s' = s\<lparr>m_count := m_count s - 1\<rparr> in
           Some (s'\<lparr>waiter := (if m_count s > 0 then W_try_kernel else W_restore)\<rparr>))
      | W_try_kernel \<Rightarrow>
          (if m_sema s > 0 then Some (return_true (s\<lparr>m_sema := m_sema s - 1\<rparr>))
           else Some (s\<lparr>waiter := W_restore\<rparr>))
      | W_done r \<Rightarrow> Some (s\<lparr>waiter := W_idle\<rparr>))"

inductive sema_step :: "sema_state \<Rightarrow> sema_state \<Rightarrow> bool" where
  producer_add: "signaller s = S_idle \<Longrightarrow> sema_step s (signal_add s)"
| producer_kernel: "signaller s = S_kernel \<Longrightarrow> sema_step s (signal_kernel s)"
| consumer: "wait_step timeout s = Some s' \<Longrightarrow> sema_step s s'"

inductive sema_reach :: "sema_state \<Rightarrow> bool" where
  reach_init: "sema_reach sema_init"
| reach_step: "sema_reach s \<Longrightarrow> sema_step s s' \<Longrightarrow> sema_reach s'"

inductive_cases sema_stepE: "sema_step s s'"

section \<open>The invariant\<close>

text \<open>
  While the thread is between its decrement and the moment it is served or gives up, the count is
  one below the number of unconsumed signals, and the kernel semaphore holds or is about to hold
  exactly one token if there is such a signal.
\<close>

definition tokens :: "sema_state \<Rightarrow> nat" where
  "tokens s = m_sema s + (if signaller s = S_kernel then 1 else 0)"

definition sema_inv :: "sema_state \<Rightarrow> bool" where
  "sema_inv s \<longleftrightarrow> taken s \<le> posted s \<and>
     (let avail = int (posted s) - int (taken s) in
      case waiter s of
        W_take \<Rightarrow> m_count s = avail \<and> 1 \<le> avail \<and> tokens s = 0
      | W_kernel \<Rightarrow> m_count s = avail - 1 \<and> tokens s = (if 1 \<le> avail then 1 else 0)
      | W_restore \<Rightarrow> m_count s = avail - 1 \<and> tokens s = (if 1 \<le> avail then 1 else 0)
      | W_try_kernel \<Rightarrow> m_count s = avail - 1 \<and> 1 \<le> avail \<and> tokens s = 1
      | W_retry \<Rightarrow> m_count s = avail \<and> 1 \<le> avail \<and> tokens s = 1
      | _ \<Rightarrow> m_count s = avail \<and> tokens s = 0)"

lemma sema_inv_init: "sema_inv sema_init"
  by (simp add: sema_inv_def sema_init_def tokens_def)

lemma sema_inv_producer:
  "sema_inv s \<Longrightarrow> signaller s = S_idle \<Longrightarrow> sema_inv (signal_add s)"
  "sema_inv s \<Longrightarrow> signaller s = S_kernel \<Longrightarrow> sema_inv (signal_kernel s)"
  by (cases "waiter s"; auto simp: sema_inv_def Let_def signal_add_def signal_kernel_def tokens_def
      split: if_splits)+

lemma sema_inv_consumer:
  "sema_inv s \<Longrightarrow> wait_step timeout s = Some s' \<Longrightarrow> sema_inv s'"
  by (cases "waiter s"; auto simp: wait_step_def sema_inv_def Let_def return_true_def tokens_def
      split: if_splits nat.splits)

lemma sema_inv_step: "sema_inv s \<Longrightarrow> sema_step s s' \<Longrightarrow> sema_inv s'"
  by (auto elim!: sema_stepE intro: sema_inv_producer sema_inv_consumer)

lemma sema_inv_reach: "sema_reach s \<Longrightarrow> sema_inv s"
  by (induction rule: sema_reach.induct) (auto intro: sema_inv_init sema_inv_step)

section \<open>Properties of the semaphore\<close>

text \<open>
  In every interleaving, a wait returns true at most once per signal; it returns false only at
  a moment when every signal has been consumed.
\<close>

theorem sema_no_spurious_wait:
  assumes "sema_reach s"
  shows "taken s \<le> posted s
    \<and> (\<forall>t s'. wait_step t s = Some s' \<longrightarrow> waiter s' = W_done False \<longrightarrow> posted s' = taken s')"
  using sema_inv_reach [OF assms]
  by (cases "waiter s"; auto simp: wait_step_def sema_inv_def Let_def return_true_def split: if_splits nat.splits)

text \<open>
  C11: no wake-up is lost.  If a signal is unconsumed while the thread waits on the kernel semaphore
  or tries it again after a time-out, the semaphore has a token or the producer is about to post
  one; and once the producer is done, the retry loop leaves at its next attempt.
\<close>

theorem sema_no_lost_wakeup:
  assumes "sema_reach s" and "taken s < posted s" and "waiter s \<in> {W_kernel, W_restore, W_try_kernel}"
  shows "m_sema s = 1 \<and> signaller s = S_idle \<or> m_sema s = 0 \<and> signaller s = S_kernel"
  using sema_inv_reach [OF assms(1)] assms(2,3)
  by (auto simp: sema_inv_def Let_def tokens_def split: if_splits) (metis signaller.exhaust)+

text \<open>
  A run of the two threads in which the producer signals while the consumer is about to give up.
\<close>

fun run_sched :: "bool option list \<Rightarrow> sema_state \<Rightarrow> sema_state" where
  "run_sched [] s = s"
| "run_sched (None # xs) s =
     run_sched xs (case signaller s of S_idle \<Rightarrow> signal_add s | S_kernel \<Rightarrow> signal_kernel s)"
| "run_sched (Some t # xs) s = run_sched xs (case wait_step t s of None \<Rightarrow> s | Some s' \<Rightarrow> s')"

lemma run_sched_reach: "sema_reach s \<Longrightarrow> sema_reach (run_sched xs s)"
proof (induction xs s rule: run_sched.induct)
  case (2 xs s)
  then show ?case by (cases "signaller s") (auto intro: reach_step sema_step.intros)
next
  case (3 t xs s)
  then show ?case by (cases "wait_step t s") (auto intro: reach_step [OF _ consumer])
qed simp

text \<open>The consumer times out; the producer's signal is under way when it takes the count back.\<close>

definition late_signal :: "bool option list" where
  "late_signal = replicate 1027 (Some False) @ [None, Some True]"

lemma run_sched_append: "run_sched (xs @ ys) s = run_sched ys (run_sched xs s)"
  by (induction xs s rule: run_sched.induct) simp_all

lemma run_sched_spin:
  "m_count s = 0 \<Longrightarrow> waiter s = W_spin k \<Longrightarrow> run_sched (replicate k (Some False)) s = s\<lparr>waiter := W_spin 0\<rparr>"
  by (induction k arbitrary: s) (simp_all add: wait_step_def)

lemma late_signal_state:
  "run_sched late_signal sema_init =
   \<lparr>m_count = 0, m_sema = 0, waiter = W_restore, signaller = S_kernel, posted = 1, taken = 0\<rparr>"
proof -
  have r: "replicate 1027 (Some False) = [Some False, Some False] @ replicate 1024 (Some False) @ [Some False]"
    by (simp flip: replicate_Suc replicate_append_same add: replicate_app_Cons_same numeral_eq_Suc)
  let ?s = "sema_init\<lparr>waiter := W_spin 1024\<rparr>"
  have a: "run_sched [Some False, Some False] sema_init = ?s"
    by (simp add: wait_step_def sema_init_def)
  have b: "run_sched (replicate 1024 (Some False)) ?s = sema_init\<lparr>waiter := W_spin 0\<rparr>"
    using run_sched_spin [of ?s 1024] by (simp add: sema_init_def)
  show ?thesis
    unfolding late_signal_def r run_sched_append a b
    by (simp add: wait_step_def sema_init_def signal_add_def)
qed

theorem sema_no_spurious_wait_witness:
  "sema_reach (run_sched late_signal sema_init)
   \<and> taken (run_sched late_signal sema_init) \<le> posted (run_sched late_signal sema_init)"
  using sema_no_spurious_wait [OF run_sched_reach [OF reach_init], of late_signal]
    run_sched_reach [OF reach_init, of late_signal] by simp

theorem sema_no_lost_wakeup_witness:
  "m_sema (run_sched late_signal sema_init) = 0 \<and> signaller (run_sched late_signal sema_init) = S_kernel"
  using sema_no_lost_wakeup [OF run_sched_reach [OF reach_init], of late_signal]
  by (simp add: late_signal_state)

section \<open>The kernel semaphore\<close>

text \<open>
  \<^verbatim>\<open>Semaphore\<close> for POSIX systems.  The answers of the system calls are parameters: the list of what the call returns each time
  it is made.  A loop that has used up the list is still waiting, which is \<open>None\<close>.
\<close>

datatype sem_rc = Rc_ok | Rc_error int

definition EINTR :: int where "EINTR = 4"

fun retry_interrupted :: "sem_rc list \<Rightarrow> bool option" where
  "retry_interrupted [] = None"
| "retry_interrupted (Rc_ok # answers) = Some True"
| "retry_interrupted (Rc_error errno # answers) = (if errno = EINTR then retry_interrupted answers else Some False)"

record timespec =
  tv_sec :: int
  tv_nsec :: int

definition sem_deadline :: "timespec \<Rightarrow> 64 word \<Rightarrow> timespec" where
  "sem_deadline now usecs =
     (let usecs_in_1_sec = 1000000; nsecs_in_1_sec = 1000000000;
          ts = now\<lparr>tv_sec := tv_sec now + uint (usecs div usecs_in_1_sec)\<rparr>;
          ts = ts\<lparr>tv_nsec := tv_nsec ts + uint (usecs mod usecs_in_1_sec) * 1000\<rparr>
      in if tv_nsec ts \<ge> nsecs_in_1_sec
         then ts\<lparr>tv_nsec := tv_nsec ts - nsecs_in_1_sec, tv_sec := tv_sec ts + 1\<rparr>
         else ts)"

definition timed_wait :: "timespec \<Rightarrow> 64 word \<Rightarrow> (timespec \<Rightarrow> sem_rc list) \<Rightarrow> bool option" where
  "timed_wait now usecs sem_timedwait = retry_interrupted (sem_timedwait (sem_deadline now usecs))"

fun post_signal :: "sem_rc list \<Rightarrow> unit option" where
  "post_signal [] = None"
| "post_signal (Rc_ok # answers) = Some ()"
| "post_signal (Rc_error _ # answers) = post_signal answers"

definition timespec_ns :: "timespec \<Rightarrow> int" where
  "timespec_ns ts = tv_sec ts * 1000000000 + tv_nsec ts"

definition timespec_ok :: "timespec \<Rightarrow> bool" where
  "timespec_ok ts \<longleftrightarrow> 0 \<le> tv_nsec ts \<and> tv_nsec ts < 1000000000"

text \<open>
  Interruptions do not end a wait: it returns with the first answer that is not \<^verbatim>\<open>EINTR\<close>, true exactly if that is a success.
\<close>

lemma retry_interrupted_first:
  "retry_interrupted (replicate n (Rc_error EINTR) @ r # rs) = (if r = Rc_error EINTR then retry_interrupted rs else Some (r = Rc_ok))"
  by (induction n) (cases r; simp)+

text \<open>
  The time limit given to \<^verbatim>\<open>sem_timedwait\<close> is exactly the current time plus the microseconds asked for, and its
  nanoseconds are in range, which the system call demands; the seconds stay far within a 64-bit \<^verbatim>\<open>time_t\<close>.
\<close>

theorem sem_deadline_exact:
  assumes "timespec_ok now"
  shows "timespec_ok (sem_deadline now usecs)
    \<and> timespec_ns (sem_deadline now usecs) = timespec_ns now + uint usecs * 1000
    \<and> tv_sec (sem_deadline now usecs) \<le> tv_sec now + 2 ^ 45"
proof -
  define d m where "d = uint usecs div 1000000" and "m = uint usecs mod 1000000"
  have u: "uint (usecs div 1000000) = d" "uint (usecs mod 1000000) = m" by (simp_all add: d_def m_def uint_div uint_mod)
  have r: "uint usecs = d * 1000000 + m" "0 \<le> m" "m < 1000000" by (simp_all add: d_def m_def)
  have "uint usecs < 2 ^ 64" using uint_lt2p [of usecs] by simp
  then have "d < 2 ^ 45" using r by simp
  then show ?thesis
    using assms r by (simp add: timespec_ok_def timespec_ns_def sem_deadline_def Let_def u)
qed

end
