(* ===== verification/Pw_QueueBlocking.thy ===== *)
theory Pw_QueueBlocking
  imports Pw_QueueConc Pw_Semaphore
begin

text \<open>
  \<^verbatim>\<open>BlockingReaderWriterQueue\<close> under concurrency: \<^verbatim>\<open>try_enqueue\<close> is the accesses of \<^verbatim>\<open>inner_enqueue\<close> (theory
  \<open>Pw_QueueConc\<close>) followed by those of \<^verbatim>\<open>signal\<close> (theory \<open>Pw_Semaphore\<close>), \<^verbatim>\<open>wait_dequeue_timed\<close> those of \<^verbatim>\<open>wait\<close> followed by
  those of the inner \<^verbatim>\<open>try_dequeue\<close>, and the two threads interleave at every access.

  The theory proves that a wait that returns true is always followed by a dequeue that finds an element, which is
  what the \<^verbatim>\<open>assert(success)\<close> of the code says and the callers rely on, and that a call that returns false found every
  element taken whose enqueue had signalled.
\<close>

section \<open>The two threads\<close>

datatype enqueuer = E_enqueue | E_signal | E_kernel

datatype dequeuer = D_wait | D_dequeue

text \<open>
  \<open>results\<close> has what each completed \<^verbatim>\<open>wait_dequeue_timed\<close> returned: \<open>None\<close> for false, and for true whether the inner
  \<^verbatim>\<open>try_dequeue\<close> returned true.
\<close>

record 'a blocking =
  queue :: "'a conc"
  sem :: sema_state
  enqueuer :: enqueuer
  dequeuer :: dequeuer
  results :: "bool option list"

definition enqueue_step :: "'a \<Rightarrow> 'a blocking \<Rightarrow> 'a blocking" where
  "enqueue_step x b =
     (case enqueuer b of
        E_enqueue \<Rightarrow>
          (let q = producer_step x (queue b) in
           b\<lparr>queue := q, enqueuer := (if length (returned (queue b)) < length (returned q) then E_signal else E_enqueue)\<rparr>)
      | E_signal \<Rightarrow>
          (let s = signal_add (sem b) in
           b\<lparr>sem := s, enqueuer := (if signaller s = S_kernel then E_kernel else E_enqueue)\<rparr>)
      | E_kernel \<Rightarrow> b\<lparr>sem := signal_kernel (sem b), enqueuer := E_enqueue\<rparr>)"

text \<open>\<open>None\<close> is a consumer that sleeps in the kernel.\<close>

definition dequeue_step :: "bool \<Rightarrow> 'a blocking \<Rightarrow> 'a blocking option" where
  "dequeue_step timeout b =
     (case dequeuer b of
        D_wait \<Rightarrow>
          (case wait_step timeout (sem b) of
             None \<Rightarrow> None
           | Some s \<Rightarrow>
               (case waiter s of
                  W_done True \<Rightarrow> Some (b\<lparr>sem := s, dequeuer := D_dequeue\<rparr>)
                | W_done False \<Rightarrow> Some (b\<lparr>sem := s, results := results b @ [None]\<rparr>)
                | _ \<Rightarrow> Some (b\<lparr>sem := s\<rparr>)))
      | D_dequeue \<Rightarrow>
          (let q = consumer_step (queue b) in
           if cons q = C_idle
           then Some (b\<lparr>queue := q, dequeuer := D_wait,
                  results := results b @ [Some (length (conc.taken (queue b)) < length (conc.taken q))]\<rparr>)
           else Some (b\<lparr>queue := q\<rparr>)))"

text \<open>An interleaving: a step of the producer, with the element it would take up next, or one of the consumer.\<close>

datatype 'a act = Enqueue 'a | Dequeue bool

fun blocking_step :: "'a act \<Rightarrow> 'a blocking \<Rightarrow> 'a blocking" where
  "blocking_step (Enqueue x) b = enqueue_step x b"
| "blocking_step (Dequeue timeout) b = (case dequeue_step timeout b of None \<Rightarrow> b | Some b' \<Rightarrow> b')"

definition blocking_start :: "nat \<Rightarrow> 'a blocking" where
  "blocking_start sz = \<lparr>queue = conc_start (rwq_new sz), sem = sema_init, enqueuer = E_enqueue, dequeuer = D_wait, results = []\<rparr>"

section \<open>The invariant\<close>

text \<open>
  The semaphore has one signal for each element whose enqueue has returned, but for one that is about to be signalled; a
  consumer that was let through holds one of them, so that its look at the tail cannot find all of them taken.
\<close>

definition in_step :: "'a blocking \<Rightarrow> bool" where
  "in_step b \<longleftrightarrow>
     posted (sem b) + (if enqueuer b = E_signal then 1 else 0) = length (returned (queue b))
   \<and> sema_state.taken (sem b) = length (conc.taken (queue b)) + (if dequeuer b = D_dequeue then 1 else 0)
   \<and> (signaller (sem b) = S_kernel \<longleftrightarrow> enqueuer b = E_kernel)
   \<and> (dequeuer b = D_wait \<longrightarrow> cons (queue b) = C_idle)
   \<and> (cons (queue b) = C_check \<longrightarrow> \<not> drained (queue b))
   \<and> Some False \<notin> set (results b)"

definition blocking_inv :: "nat \<Rightarrow> 'a blocking \<Rightarrow> bool" where
  "blocking_inv M b \<longleftrightarrow> conc_inv M (queue b) \<and> sema_inv (sem b) \<and> in_step b"

lemma wait_step_taken:
  assumes "wait_step t s = Some s'"
  shows "sema_state.taken s' = sema_state.taken s + (if waiter s' = W_done True then 1 else 0)"
    "posted s' = posted s" "signaller s' = signaller s"
  using assms by (cases "waiter s"; auto simp: wait_step_def Let_def return_true_def split: if_splits nat.splits)+

lemma producer_history:
  "conc.taken (producer_step x q) = conc.taken q" "drained (producer_step x q) = drained q"
  "length (returned (producer_step x q)) = length (returned q) \<or> length (returned (producer_step x q)) = Suc (length (returned q))"
  by (auto simp: producer_step_def Let_def split: producer_pc.split)

lemma consumer_history:
  "returned (consumer_step q) = returned q"
  "length (conc.taken (consumer_step q)) = length (conc.taken q) + (if \<exists>r. cons q = C_publish r then 1 else 0)"
  "cons (consumer_step q) = C_idle \<Longrightarrow>
    (\<exists>r. cons q = C_publish r) \<or> cons q = C_check \<and> misses (consumer_step q) = misses q @ [drained q]"
  "\<exists>r. cons q = C_publish r \<Longrightarrow> cons (consumer_step q) = C_idle"
  "cons (consumer_step q) = C_check \<Longrightarrow> drained (consumer_step q) = (length (conc.taken q) = length (returned q))"
  by (cases "cons q"; auto simp: consumer_step_def Let_def split: if_splits)+

lemma sema_inv_le: "sema_inv s \<Longrightarrow> sema_state.taken s \<le> posted s"
  by (simp add: sema_inv_def)

lemma conc_inv_misses: "conc_inv M q \<Longrightarrow> False \<notin> set (misses q)"
  by (simp add: conc_inv_def conc_ok_def filled_simps)

lemma signal_history [simp]:
  "posted (signal_add s) = Suc (posted s)" "sema_state.taken (signal_add s) = sema_state.taken s"
  "posted (signal_kernel s) = posted s" "sema_state.taken (signal_kernel s) = sema_state.taken s" "signaller (signal_kernel s) = S_idle"
  by (simp_all add: signal_add_def signal_kernel_def)

lemma enqueue_step_inv:
  assumes "blocking_inv M b"
  shows "blocking_inv M (enqueue_step x b)"
proof -
  let ?q = "queue b"
  have c: "conc_inv M ?q" and s: "sema_inv (sem b)" and i: "in_step b" using assms by (auto simp: blocking_inv_def)
  show ?thesis
  proof (cases "enqueuer b")
    case E_enqueue
    have "in_step (enqueue_step x b)"
      using i E_enqueue producer_history [of x ?q] producer_keeps_cons [of x ?q]
      unfolding in_step_def enqueue_step_def by (auto simp: Let_def)
    then show ?thesis using conc_inv_step [OF c, of "Produce x"] s E_enqueue by (simp add: blocking_inv_def enqueue_step_def Let_def)
  next
    case E_signal
    have "signaller (sem b) = S_idle" using i E_signal by (cases "signaller (sem b)") (auto simp: in_step_def)
    then have "sema_inv (signal_add (sem b))" by (rule sema_inv_producer(1) [OF s])
    moreover have "in_step (enqueue_step x b)"
      using i E_signal unfolding in_step_def enqueue_step_def by (simp add: Let_def)
    ultimately show ?thesis using c E_signal by (simp add: blocking_inv_def enqueue_step_def Let_def)
  next
    case E_kernel
    have "signaller (sem b) = S_kernel" using i E_kernel by (simp add: in_step_def)
    then have "sema_inv (signal_kernel (sem b))" by (rule sema_inv_producer(2) [OF s])
    moreover have "in_step (enqueue_step x b)"
      using i E_kernel unfolding in_step_def enqueue_step_def by simp
    ultimately show ?thesis using c E_kernel by (simp add: blocking_inv_def enqueue_step_def)
  qed
qed

lemma dequeue_step_inv:
  assumes inv: "blocking_inv M b" and st: "dequeue_step t b = Some b'"
  shows "blocking_inv M b'"
proof (cases "dequeuer b")
  case D_wait
  then obtain s where s: "wait_step t (sem b) = Some s" using st by (auto simp: dequeue_step_def split: option.splits)
  have si: "sema_inv s" using sema_inv_consumer [OF _ s] inv by (simp add: blocking_inv_def)
  have b': "b' = (if waiter s = W_done True then b\<lparr>sem := s, dequeuer := D_dequeue\<rparr>
      else if waiter s = W_done False then b\<lparr>sem := s, results := results b @ [None]\<rparr> else b\<lparr>sem := s\<rparr>)"
    using st D_wait s by (cases "waiter s") (auto simp: dequeue_step_def split: bool.splits)
  show ?thesis
    using inv D_wait si wait_step_taken [OF s] unfolding b' blocking_inv_def in_step_def by simp
next
  case D_dequeue
  let ?q = "queue b" and ?q' = "consumer_step (queue b)"
  have qi: "conc_inv M ?q'" using conc_inv_step [of M ?q Consume] inv by (simp add: blocking_inv_def)
  have lt: "length (conc.taken ?q) < length (returned ?q)"
    using inv D_dequeue sema_inv_le [of "sem b"] by (auto simp: blocking_inv_def in_step_def split: if_splits)
  have pub: "(cons ?q' = C_idle) = (\<exists>r. cons ?q = C_publish r)"
    using consumer_history(3,4) [of ?q] conc_inv_misses [OF qi] inv by (auto simp: blocking_inv_def in_step_def)
  have i: "in_step b" and s: "sema_inv (sem b)" using inv by (simp_all add: blocking_inv_def)
  have ch: "cons ?q' = C_check \<longrightarrow> \<not> drained ?q'" using consumer_history(5) [of ?q] lt by auto
  show ?thesis
  proof (cases "cons ?q' = C_idle")
    case True
    have "b' = b\<lparr>queue := ?q', dequeuer := D_wait, results := results b @ [Some True]\<rparr>"
      using st D_dequeue True pub consumer_history(2) [of ?q] by (simp add: dequeue_step_def Let_def)
    then show ?thesis
      using i s qi ch D_dequeue True pub consumer_history(1,2) [of ?q] by (simp add: blocking_inv_def in_step_def)
  next
    case False
    have "b' = b\<lparr>queue := ?q'\<rparr>" using st D_dequeue False by (simp add: dequeue_step_def Let_def)
    then show ?thesis
      using i s qi ch D_dequeue False pub consumer_history(1,2) [of ?q] by (simp add: blocking_inv_def in_step_def)
  qed
qed

lemma blocking_step_inv: "blocking_inv M b \<Longrightarrow> blocking_inv M (blocking_step a b)"
  by (cases a) (auto simp: enqueue_step_inv intro: dequeue_step_inv split: option.split)
definition blocking_run :: "'a act list \<Rightarrow> 'a blocking" where
  "blocking_run acts = fold blocking_step acts (blocking_start MSG_QUEUE_SIZE)"

lemma blocking_run_inv: "blocking_inv 511 (blocking_run acts)"
proof -
  have "conc_inv 511 (conc_run [])" by (rule conc_run_inv)
  then have "blocking_inv 511 (blocking_start MSG_QUEUE_SIZE)"
    by (simp add: blocking_inv_def in_step_def blocking_start_def conc_run_def sema_inv_init) (simp add: conc_start_def sema_init_def)
  moreover have "blocking_inv 511 (fold blocking_step acts b)" if "blocking_inv 511 b" for b :: "'a blocking"
    using that by (induction acts arbitrary: b) (simp_all add: blocking_step_inv)
  ultimately show ?thesis by (simp add: blocking_run_def)
qed

section \<open>Properties of the blocking queue\<close>

lemma wait_false_spent:
  assumes "sema_inv s" and "wait_step t s = Some s'" and "waiter s' = W_done False"
  shows "posted s' = sema_state.taken s'"
  using assms by (cases "waiter s"; auto simp: wait_step_def sema_inv_def Let_def return_true_def split: if_splits nat.splits)

lemma asleep_spent:
  assumes "sema_inv s" and "wait_step False s = None" and "signaller s = S_idle"
  shows "posted s = sema_state.taken s"
  using assms by (cases "waiter s") (auto simp: wait_step_def sema_inv_def tokens_def Let_def split: if_splits nat.splits)

text \<open>
  C10: in every interleaving of the accesses of a thread that calls \<^verbatim>\<open>try_enqueue\<close> and one that calls \<^verbatim>\<open>wait_dequeue_timed\<close>:
  the dequeued objects are the enqueued ones, in order; whenever the semaphore lets the consumer through the inner
  \<^verbatim>\<open>try_dequeue\<close> returns true, as the code asserts; when a call returns false, every element that was signalled has been
  taken; and when the consumer sleeps while the producer is outside \<^verbatim>\<open>signal\<close>, no element is left in the queue.
\<close>

theorem blocking_queue_sound:
  assumes "b = blocking_run acts"
  shows "(\<exists>pending. map Some (returned (queue b) @ inflight (prod (queue b))) = conc.taken (queue b) @ map Some pending)
    \<and> Some False \<notin> set (results b)
    \<and> (\<forall>t b'. dequeue_step t b = Some b' \<longrightarrow> results b' = results b @ [None] \<longrightarrow>
         length (conc.taken (queue b)) = posted (sem b))
    \<and> (dequeue_step False b = None \<longrightarrow> enqueuer b = E_enqueue \<longrightarrow>
         length (conc.taken (queue b)) = length (returned (queue b)))"
proof (intro conjI allI impI)
  have inv: "conc_inv 511 (queue b)" "sema_inv (sem b)" "in_step b"
    using blocking_run_inv [of acts] assms by (simp_all add: blocking_inv_def)
  have "conc_ok 511 (filled (queue b))" using inv(1) by (simp add: conc_inv_def)
  then show "\<exists>pending. map Some (returned (queue b) @ inflight (prod (queue b))) = conc.taken (queue b) @ map Some pending"
    unfolding conc_ok_def filled_simps by blast
  show "Some False \<notin> set (results b)" using inv(3) by (simp add: in_step_def)
  show "length (conc.taken (queue b)) = posted (sem b)" if st: "dequeue_step t b = Some b'" "results b' = results b @ [None]" for t b'
  proof -
    have w: "dequeuer b = D_wait" using st by (cases "dequeuer b") (auto simp: dequeue_step_def Let_def split: if_splits)
    then obtain s where s: "wait_step t (sem b) = Some s" using st(1) by (auto simp: dequeue_step_def split: option.splits)
    then have "waiter s = W_done False" using st w by (cases "waiter s") (auto simp: dequeue_step_def split: bool.splits)
    note w s this
    then show ?thesis
      using wait_false_spent [OF inv(2), of t s] wait_step_taken [of t "sem b" s] inv(3) by (simp add: in_step_def)
  qed
  show "length (conc.taken (queue b)) = length (returned (queue b))" if st: "dequeue_step False b = None" "enqueuer b = E_enqueue"
  proof -
    have w: "dequeuer b = D_wait" using st(1) by (cases "dequeuer b") (auto simp: dequeue_step_def Let_def split: if_splits)
    have a: "wait_step False (sem b) = None"
    proof (cases "wait_step False (sem b)")
      case (Some s)
      then show ?thesis using st(1) w by (cases "waiter s") (auto simp: dequeue_step_def split: bool.splits)
    qed
    have "signaller (sem b) = S_idle" using inv(3) st(2) by (cases "signaller (sem b)") (auto simp: in_step_def)
    then show ?thesis using asleep_spent [OF inv(2) a] inv(3) w st(2) by (simp add: in_step_def)
  qed
qed

definition sample_acts :: "nat act list" where
  "sample_acts = [Enqueue 7, Enqueue 7, Dequeue False, Enqueue 7, Enqueue 8,
     Dequeue False, Dequeue False, Dequeue False, Dequeue False, Dequeue False, Dequeue False]"

lemma sample_results: "results (blocking_run sample_acts) = [Some True]" "conc.taken (queue (blocking_run sample_acts)) = [Some 7]"
  by (simp_all add: sample_acts_def blocking_run_def blocking_start_def enqueue_step_def dequeue_step_def wait_step_def signal_add_def
    return_true_def sema_init_def conc_start_def rwq_new_msg producer_step_def consumer_step_def Let_def set_block_def ring_blocks_def
    make_block_def next_tail_def del: upt.simps upt_Suc upt_rec_numeral)

theorem blocking_queue_sound_witness:
  "results (blocking_run sample_acts) = [Some True] \<and> Some False \<notin> set (results (blocking_run sample_acts))
   \<and> (\<exists>pending. map Some (returned (queue (blocking_run sample_acts)) @ inflight (prod (queue (blocking_run sample_acts))))
        = conc.taken (queue (blocking_run sample_acts)) @ map Some pending)"
  using blocking_queue_sound [OF refl, of sample_acts] sample_results(1) by blast

end
