(* ===== verification/Pw_Table.thy ===== *)
theory Pw_Table
  imports Pw_Common "HOL-Library.Multiset"
begin

text \<open>
  The structure that the three ping tables of the program share (\<^verbatim>\<open>PingMsgMap\<close>,
  \<^verbatim>\<open>RdmaPinginfoMap\<close>, \<^verbatim>\<open>TcpUdpPinginfoMap\<close>): a hash map from ping identifiers to entries and a
  linked list of the keys in insertion order; an entry has the iterator of its list node, and
  the loop of \<^verbatim>\<open>expireEntries\<close> pops stale entries from the front of the list.  A list node is a
  number given at its creation, so that \<^verbatim>\<open>keyList.erase(listIter)\<close> removes that node and no other.

  The invariant ties list, map and iterators together and orders the list by timestamp; under it
  the loop removes exactly the stale entries, each once.  The locale \<open>expiring_table\<close> states what
  a table promises; each table interprets it.
\<close>

section \<open>Entries, nodes and tables\<close>

record 'v MapEntry =
  entry_value :: 'v
  timestamp :: time_point
  listIter :: nat

record 'v ping_table =
  entries :: "u64 \<rightharpoonup> 'v MapEntry"
  keyList :: "(nat \<times> u64) list"
  next_node :: nat
  threshold_ms :: int

definition table_new :: "int \<Rightarrow> 'v ping_table" where
  "table_new threshold =
     \<lparr>entries = Map.empty, keyList = [], next_node = 0, threshold_ms = threshold\<rparr>"

definition table_find :: "u64 \<Rightarrow> 'v ping_table \<Rightarrow> 'v option" where
  "table_find key t = map_option entry_value (entries t key)"

definition table_put :: "time_point \<Rightarrow> u64 \<Rightarrow> 'v \<Rightarrow> 'v ping_table \<Rightarrow> 'v ping_table" where
  "table_put now key v t =
     t\<lparr>keyList := keyList t @ [(next_node t, key)],
       entries := (entries t)(key \<mapsto> \<lparr>entry_value = v, timestamp = now, listIter = next_node t\<rparr>),
       next_node := Suc (next_node t)\<rparr>"

definition table_get :: "u64 \<Rightarrow> 'v ping_table \<Rightarrow> int \<times> 'v option" where
  "table_get key t =
     (case entries t key of
        Some e \<Rightarrow> (PINGWEAVE_SUCCESS, Some (entry_value e))
      | None \<Rightarrow> (PINGWEAVE_FAILURE, None))"

definition table_remove :: "u64 \<Rightarrow> 'v ping_table \<Rightarrow> int \<times> 'v ping_table" where
  "table_remove key t =
     (case entries t key of
        Some e \<Rightarrow>
          (PINGWEAVE_SUCCESS,
           t\<lparr>keyList := filter (\<lambda>(n, _). n \<noteq> listIter e) (keyList t),
             entries := (entries t)(key := None)\<rparr>)
      | None \<Rightarrow> (PINGWEAVE_FAILURE, t))"

text \<open>Assignment to members of the value of an entry.\<close>

definition table_update :: "u64 \<Rightarrow> ('v \<Rightarrow> 'v) \<Rightarrow> 'v ping_table \<Rightarrow> 'v ping_table" where
  "table_update key f t =
     (case entries t key of
        Some e \<Rightarrow> t\<lparr>entries := (entries t)(key \<mapsto> e\<lparr>entry_value := f (entry_value e)\<rparr>)\<rparr>
      | None \<Rightarrow> t)"

definition table_size :: "'v ping_table \<Rightarrow> nat" where
  "table_size t = card (dom (entries t))"

definition table_empty :: "'v ping_table \<Rightarrow> bool" where
  "table_empty t \<longleftrightarrow> table_size t = 0"

section \<open>The expiry loop\<close>

definition stale :: "int \<Rightarrow> time_point \<Rightarrow> 'v MapEntry \<Rightarrow> bool" where
  "stale threshold now e \<longleftrightarrow> \<not> duration_cast ns_per_ms (now - timestamp e) < threshold"

text \<open>
  The loop of \<^verbatim>\<open>expireEntries\<close>: \<open>report\<close> is what a table does with the value of a stale entry
  before it removes it.  The result has the list, the map, the state that \<open>report\<close> updates, and
  \<^verbatim>\<open>n_remove\<close>.
\<close>

fun expire_list :: "int \<Rightarrow> time_point \<Rightarrow> ('v \<Rightarrow> 's \<Rightarrow> 's) \<Rightarrow> (nat \<times> u64) list \<Rightarrow> (u64 \<rightharpoonup> 'v MapEntry)
    \<Rightarrow> 's \<Rightarrow> (nat \<times> u64) list \<times> (u64 \<rightharpoonup> 'v MapEntry) \<times> 's \<times> nat" where
  "expire_list threshold now report [] m s = ([], m, s, 0)"
| "expire_list threshold now report ((n, key) # ks) m s =
     (case m key of
        None \<Rightarrow> expire_list threshold now report ks m s
      | Some e \<Rightarrow>
          if duration_cast ns_per_ms (now - timestamp e) < threshold then ((n, key) # ks, m, s, 0)
          else
            let (ks', m', s', n_remove) =
                  expire_list threshold now report ks (m(key := None)) (report (entry_value e) s)
            in (ks', m', s', n_remove + 1))"

definition expire_table ::
    "time_point \<Rightarrow> ('v \<Rightarrow> 's \<Rightarrow> 's) \<Rightarrow> 'v ping_table \<Rightarrow> 's \<Rightarrow> nat \<times> 'v ping_table \<times> 's" where
  "expire_table now report t s =
     (let (ks, m, s', n_remove) =
            expire_list (threshold_ms t) now report (keyList t) (entries t) s
      in (n_remove, t\<lparr>keyList := ks, entries := m\<rparr>, s'))"

section \<open>The invariant\<close>

definition keys :: "'v ping_table \<Rightarrow> u64 list" where
  "keys t = map snd (keyList t)"

definition stamps :: "'v ping_table \<Rightarrow> time_point list" where
  "stamps t = map (\<lambda>k. timestamp (the (entries t k))) (keys t)"

text \<open>List and map have the same keys, once each; every iterator points to the node of its key.\<close>

definition table_inv :: "'v ping_table \<Rightarrow> bool" where
  "table_inv t \<longleftrightarrow> distinct (map fst (keyList t)) \<and> distinct (keys t) \<and> set (keys t) = dom (entries t)
     \<and> (\<forall>p \<in> set (keyList t). fst p < next_node t)
     \<and> (\<forall>k e. entries t k = Some e \<longrightarrow> (listIter e, k) \<in> set (keyList t))"

text \<open>The list is in the order of the timestamps, and none is later than \<open>now\<close>.\<close>

definition table_ordered :: "time_point \<Rightarrow> 'v ping_table \<Rightarrow> bool" where
  "table_ordered now t \<longleftrightarrow> sorted (stamps t) \<and> (\<forall>x \<in> set (stamps t). x \<le> now)"

lemma table_inv_new [simp]: "table_inv (table_new th)"
  and table_ordered_new [simp]: "table_ordered now (table_new th)"
  and table_find_new [simp]: "table_find k (table_new th) = None"
  by (simp_all add: table_inv_def table_ordered_def table_new_def keys_def stamps_def table_find_def)

lemma table_inv_put:
  assumes "table_inv t" and "entries t key = None"
  shows "table_inv (table_put now key v t)"
  using assms by (auto simp: table_inv_def table_put_def keys_def split: if_splits)

lemma table_ordered_put:
  assumes "table_inv t" and "entries t key = None" and "table_ordered t0 t" and "t0 \<le> now"
  shows "table_ordered now (table_put now key v t)"
proof -
  have "key \<notin> set (keys t)" using assms(1,2) by (auto simp: table_inv_def)
  then have "stamps (table_put now key v t) = stamps t @ [now]"
    by (auto simp: stamps_def keys_def table_put_def)
  then show ?thesis using assms(3,4) by (fastforce simp: table_ordered_def sorted_append)
qed

lemma node_unique:
  assumes "table_inv t" and "entries t key = Some e" and "p \<in> set (keyList t)"
  shows "fst p = listIter e \<longleftrightarrow> snd p = key"
proof -
  have d: "distinct (map fst (keyList t))" "distinct (map snd (keyList t))"
    and m: "(listIter e, key) \<in> set (keyList t)"
    using assms by (auto simp: table_inv_def keys_def)
  have "fst p = listIter e \<Longrightarrow> p = (listIter e, key)" "snd p = key \<Longrightarrow> p = (listIter e, key)"
    using d m assms(3) unfolding distinct_map inj_on_def by auto
  then show ?thesis by (metis fst_conv snd_conv)
qed

text \<open>Erasing the node of an iterator is the same as erasing the key.\<close>

lemma remove_keyList:
  assumes "table_inv t" and "entries t key = Some e"
  shows "filter (\<lambda>(n, _). n \<noteq> listIter e) (keyList t) = filter (\<lambda>p. snd p \<noteq> key) (keyList t)"
  using node_unique [OF assms] by (intro filter_cong) (simp_all add: case_prod_beta)

lemma table_remove_Some:
  assumes "table_inv t" and "entries t key = Some e"
  shows "table_remove key t = (PINGWEAVE_SUCCESS,
    t\<lparr>keyList := filter (\<lambda>p. snd p \<noteq> key) (keyList t), entries := (entries t)(key := None)\<rparr>)"
  using remove_keyList [OF assms] assms(2) by (simp add: table_remove_def)

lemma table_inv_remove:
  assumes inv: "table_inv t"
  shows "table_inv (snd (table_remove key t))"
proof (cases "entries t key")
  case (Some e)
  let ?t = "snd (table_remove key t)" and ?P = "\<lambda>p. snd p \<noteq> key"
  have v: "keyList ?t = filter ?P (keyList t)" "entries ?t = (entries t)(key := None)"
    "next_node ?t = next_node t"
    by (simp_all add: table_remove_Some [OF inv Some])
  have ks: "keys ?t = filter (\<lambda>k. k \<noteq> key) (keys t)" by (simp add: keys_def v filter_map comp_def)
  have "distinct (map fst (keyList ?t))"
    using inv by (simp add: v table_inv_def distinct_map_filter)
  moreover have "distinct (keys ?t)" using inv by (simp add: ks table_inv_def)
  moreover have "set (keys ?t) = dom (entries ?t)" using inv by (auto simp: ks v table_inv_def)
  moreover have "\<forall>p \<in> set (keyList ?t). fst p < next_node ?t"
    using inv unfolding v by (simp add: table_inv_def)
  moreover have "\<forall>k e. entries ?t k = Some e \<longrightarrow> (listIter e, k) \<in> set (keyList ?t)"
    using inv unfolding v by (simp add: table_inv_def)
  ultimately show ?thesis unfolding table_inv_def by blast
qed (simp add: table_remove_def inv)

lemma stamps_remove:
  assumes "table_inv t" and "entries t key = Some e"
  shows "stamps (snd (table_remove key t)) =
    map (\<lambda>k. timestamp (the (entries t k))) (filter (\<lambda>k. k \<noteq> key) (keys t))"
  unfolding table_remove_Some [OF assms]
  by (auto simp: stamps_def keys_def filter_map comp_def)

lemma table_ordered_remove:
  assumes "table_inv t" and "table_ordered now t"
  shows "table_ordered now (snd (table_remove key t))"
proof (cases "entries t key")
  case (Some e)
  show ?thesis
    using assms(2) unfolding table_ordered_def stamps_remove [OF assms(1) Some]
    by (auto simp: stamps_def intro: sorted_filter)
qed (simp add: table_remove_def assms)

lemma table_find_remove:
  "table_find k (snd (table_remove key t)) = (if k = key then None else table_find k t)"
  by (auto simp: table_find_def table_remove_def split: option.split)

lemma table_find_put:
  "table_find k (table_put now key v t) = (if k = key then Some v else table_find k t)"
  by (simp add: table_find_def table_put_def)

lemma table_update_view:
  "keyList (table_update key f t) = keyList t" "next_node (table_update key f t) = next_node t"
  "keys (table_update key f t) = keys t" "dom (entries (table_update key f t)) = dom (entries t)"
  "threshold_ms (table_update key f t) = threshold_ms t"
  by (auto simp: table_update_def keys_def split: option.split)

lemma stamps_update [simp]: "stamps (table_update key f t) = stamps t"
  unfolding stamps_def table_update_view
  by (auto simp: table_update_def split: option.split)

lemma table_inv_update [simp]: "table_inv (table_update key f t) = table_inv t"
proof -
  have "(\<forall>k e. entries (table_update key f t) k = Some e \<longrightarrow> (listIter e, k) \<in> set (keyList t)) \<longleftrightarrow>
    (\<forall>k e. entries t k = Some e \<longrightarrow> (listIter e, k) \<in> set (keyList t))"
    by (cases "entries t key") (auto simp: table_update_def)
  then show ?thesis by (simp add: table_inv_def table_update_view)
qed

lemma table_ordered_update [simp]: "table_ordered now (table_update key f t) = table_ordered now t"
  by (simp add: table_ordered_def)

lemma table_find_update:
  "table_find k (table_update key f t) = (if k = key then map_option f (table_find k t) else table_find k t)"
  by (auto simp: table_find_def table_update_def split: option.split)

lemma table_ordered_mono: "table_ordered t0 t \<Longrightarrow> t0 \<le> t1 \<Longrightarrow> table_ordered t1 t"
  by (fastforce simp: table_ordered_def)

lemma table_put_view [simp]:
  "threshold_ms (table_put now key v t) = threshold_ms t"
  "entries (table_put now key v t) key = Some \<lparr>entry_value = v, timestamp = now, listIter = next_node t\<rparr>"
  "k \<noteq> key \<Longrightarrow> entries (table_put now key v t) k = entries t k"
  by (simp_all add: table_put_def)

section \<open>What the expiry loop does\<close>

definition dead_keys :: "time_point \<Rightarrow> 'v ping_table \<Rightarrow> u64 list" where
  "dead_keys now t =
     takeWhile (\<lambda>k. stale (threshold_ms t) now (the (entries t k))) (keys t)"

lemma expire_list_spec:
  assumes "distinct (map snd ks)" and "snd ` set ks \<subseteq> dom m"
  shows "expire_list th now report ks m s =
    (dropWhile (\<lambda>p. stale th now (the (m (snd p)))) ks,
     m |` (- set (takeWhile (\<lambda>k. stale th now (the (m k))) (map snd ks))),
     fold (\<lambda>k. report (entry_value (the (m k)))) (takeWhile (\<lambda>k. stale th now (the (m k))) (map snd ks)) s,
     length (takeWhile (\<lambda>k. stale th now (the (m k))) (map snd ks)))"
  using assms
proof (induction ks arbitrary: m s)
  case Nil
  then show ?case by (simp add: restrict_map_def)
next
  case (Cons p ks)
  obtain n key where p: "p = (n, key)" by (cases p)
  obtain e where e: "m key = Some e" using Cons.prems(2) p by auto
  show ?case
  proof (cases "stale th now e")
    case False
    then show ?thesis by (auto simp: p e stale_def restrict_map_def)
  next
    case True
    let ?m = "m(key := None)"
    have nk: "key \<notin> snd ` set ks" using Cons.prems(1) p by simp
    have sub: "snd ` set ks \<subseteq> dom ?m" using Cons.prems(2) nk by auto
    have cong: "takeWhile (\<lambda>k. stale th now (the (?m k))) (map snd ks) =
        takeWhile (\<lambda>k. stale th now (the (m k))) (map snd ks)"
      "dropWhile (\<lambda>p. stale th now (the (?m (snd p)))) ks = dropWhile (\<lambda>p. stale th now (the (m (snd p)))) ks"
      using nk by (auto intro!: takeWhile_cong dropWhile_cong)
    have fc: "fold (\<lambda>k. report (entry_value (the (?m k)))) xs s' =
        fold (\<lambda>k. report (entry_value (the (m k)))) xs s'" if "key \<notin> set xs" for xs s'
      using that by (induction xs arbitrary: s') auto
    have nt: "key \<notin> set (takeWhile (\<lambda>k. stale th now (the (m k))) (map snd ks))"
      using nk by (auto dest: set_takeWhileD)
    have rm: "?m |` (- set xs) = m |` (- set (key # xs))" for xs
      by (auto simp: restrict_map_def)
    have dk: "distinct (map snd ks)" using Cons.prems(1) by simp
    note IH = Cons.IH [OF dk sub, of "report (entry_value e) s", unfolded cong fc [OF nt] rm]
    have "expire_list th now report (p # ks) m s =
        (let (ks', m', s', n) = expire_list th now report ks ?m (report (entry_value e) s)
         in (ks', m', s', n + 1))"
      using True by (simp add: p e stale_def)
    then show ?thesis unfolding IH using True by (simp add: p e)
  qed
qed

lemma map_snd_dropWhile: "map snd (dropWhile (\<lambda>p. P (snd p)) ks) = dropWhile P (map snd ks)"
  by (induction ks) auto

lemma stale_antimono:
  "timestamp e \<le> timestamp e' \<Longrightarrow> stale th now e' \<Longrightarrow> stale th now e"
  using duration_cast_mono [of ns_per_ms "now - timestamp e'" "now - timestamp e"]
  by (auto simp: stale_def ns_per_ms_def)

lemma sorted_takeWhile_filter:
  assumes "sorted (map f xs)" and "\<And>x y. f x \<le> f y \<Longrightarrow> P y \<Longrightarrow> P x"
  shows "takeWhile P xs = filter P xs \<and> dropWhile P xs = filter (\<lambda>x. \<not> P x) xs"
  using assms(1)
proof (induction xs)
  case (Cons a xs)
  show ?case
  proof (cases "P a")
    case True
    then show ?thesis using Cons by simp
  next
    case False
    then have "\<forall>y \<in> set xs. \<not> P y" using Cons.prems assms(2) by auto
    with False show ?thesis by (simp add: filter_empty_conv filter_id_conv)
  qed
qed simp

lemma stale_split:
  assumes "table_ordered t0 t"
  shows "takeWhile (\<lambda>k. stale (threshold_ms t) now (the (entries t k))) (keys t) =
      filter (\<lambda>k. stale (threshold_ms t) now (the (entries t k))) (keys t)
    \<and> dropWhile (\<lambda>k. stale (threshold_ms t) now (the (entries t k))) (keys t) =
      filter (\<lambda>k. \<not> stale (threshold_ms t) now (the (entries t k))) (keys t)"
  using assms by (intro sorted_takeWhile_filter [where f = "\<lambda>k. timestamp (the (entries t k))"])
    (auto simp: table_ordered_def stamps_def intro: stale_antimono)

lemma dead_keys_eq:
  assumes "table_ordered t0 t"
  shows "dead_keys now t = filter (\<lambda>k. stale (threshold_ms t) now (the (entries t k))) (keys t)"
  using stale_split [OF assms] by (simp add: dead_keys_def)

text \<open>
  Under the invariant the loop removes exactly the stale entries, in the order of the list, and
  hands each of them once to \<open>report\<close>.
\<close>

lemma expire_table_spec:
  assumes inv: "table_inv t" and ord: "table_ordered t0 t" and r: "expire_table now report t s = (n, t', s')"
  shows "table_inv t'" and "table_ordered t0 t'"
    and "entries t' = (\<lambda>k. case entries t k of None \<Rightarrow> None
           | Some e \<Rightarrow> if stale (threshold_ms t) now e then None else Some e)"
    and "s' = fold (\<lambda>k. report (entry_value (the (entries t k)))) (dead_keys now t) s"
    and "n = length (dead_keys now t)" and "threshold_ms t' = threshold_ms t"
    and "next_node t' = next_node t"
proof -
  let ?P = "\<lambda>k. stale (threshold_ms t) now (the (entries t k))"
  have d: "distinct (map snd (keyList t))" and sub: "snd ` set (keyList t) \<subseteq> dom (entries t)"
    and dm: "set (keys t) = dom (entries t)"
    using inv by (auto simp: table_inv_def keys_def)
  have t': "t' = t\<lparr>keyList := dropWhile (\<lambda>p. ?P (snd p)) (keyList t),
      entries := entries t |` (- set (dead_keys now t))\<rparr>"
    and s': "s' = fold (\<lambda>k. report (entry_value (the (entries t k)))) (dead_keys now t) s"
    and n: "n = length (dead_keys now t)"
    using r by (auto simp: expire_table_def expire_list_spec [OF d sub] dead_keys_def keys_def)
  show "s' = fold (\<lambda>k. report (entry_value (the (entries t k)))) (dead_keys now t) s"
    "n = length (dead_keys now t)" "threshold_ms t' = threshold_ms t" "next_node t' = next_node t"
    using s' n t' by simp_all
  have kf: "keys t' = filter (\<lambda>k. \<not> ?P k) (keys t)"
    using stale_split [OF ord, of now] map_snd_dropWhile [of ?P "keyList t"]
    unfolding t' keys_def by simp
  show en: "entries t' = (\<lambda>k. case entries t k of None \<Rightarrow> None
      | Some e \<Rightarrow> if stale (threshold_ms t) now e then None else Some e)"
    using dm by (auto simp: t' dead_keys_eq [OF ord] restrict_map_def fun_eq_iff split: option.split)
  have kl: "set (keyList t') \<subseteq> set (keyList t)" by (auto simp: t' dest: set_dropWhileD)
  have it: "(listIter e, k) \<in> set (keyList t')" if "entries t' k = Some e" for k e
  proof -
    have e: "entries t k = Some e" and ns: "\<not> ?P k" using that by (auto simp: en split: option.splits if_splits)
    then have "k \<in> set (keys t')" using dm by (auto simp: kf)
    then obtain m where m: "(m, k) \<in> set (keyList t')" by (auto simp: keys_def)
    then have "m = listIter e" using kl node_unique [OF inv e, of "(m, k)"] by auto
    with m show ?thesis by simp
  qed
  have "distinct (map fst (keyList t'))"
    using inv by (simp add: t' table_inv_def distinct_map inj_on_def) (meson set_dropWhileD distinct_dropWhile)
  moreover have "set (keys t') = dom (entries t')" using dm by (auto simp: kf en split: option.splits if_splits)
  ultimately show "table_inv t'"
    using inv kl it kf by (auto simp: table_inv_def t' dest: set_dropWhileD)
  have "stamps t' = map (\<lambda>k. timestamp (the (entries t k))) (filter (\<lambda>k. \<not> ?P k) (keys t))"
    using dm by (auto simp: stamps_def kf en split: option.split)
  then show "table_ordered t0 t'"
    using ord by (auto simp: table_ordered_def stamps_def intro: sorted_filter)
qed

lemma mset_filter_split: "mset (filter P xs) + mset (filter (\<lambda>x. \<not> P x) xs) = mset xs"
  by (simp add: multiset_partition [symmetric])

lemma mset_filter_key:
  "distinct ks \<Longrightarrow> key \<in> set ks \<Longrightarrow> mset ks = add_mset key (mset (filter (\<lambda>k. k \<noteq> key) ks))"
proof (induction ks)
  case (Cons k ks)
  have "key \<notin> set ks \<Longrightarrow> filter (\<lambda>k. k \<noteq> key) ks = ks" by (auto intro: filter_True)
  then show ?case using Cons by (cases "k = key") (auto simp del: mset_filter)
qed simp

lemma keys_put: "keys (table_put now key v t) = keys t @ [key]"
  by (simp add: keys_def table_put_def)

lemma keys_remove:
  assumes "table_inv t" and "entries t key = Some e"
  shows "mset (keys t) = add_mset key (mset (keys (snd (table_remove key t))))"
proof -
  have "keys (snd (table_remove key t)) = filter (\<lambda>k. k \<noteq> key) (keys t)"
    by (simp add: table_remove_Some [OF assms] keys_def filter_map comp_def)
  then show ?thesis using assms mset_filter_key [of "keys t" key] by (auto simp: table_inv_def)
qed

lemma expire_keys:
  assumes inv: "table_inv t" and ord: "table_ordered t0 t" and r: "expire_table now report t s = (n, t', s')"
  shows "mset (keys t') = mset (filter (\<lambda>k. \<not> stale (threshold_ms t) now (the (entries t k))) (keys t))"
proof (rule set_eq_iff_mset_eq_distinct [THEN iffD1])
  let ?P = "\<lambda>k. stale (threshold_ms t) now (the (entries t k))"
  note S = expire_table_spec [OF assms]
  show "distinct (keys t')" "distinct (filter (\<lambda>k. \<not> ?P k) (keys t))"
    using inv S(1) by (simp_all add: table_inv_def)
  have "set (keys t) = dom (entries t)" "set (keys t') = dom (entries t')"
    using inv S(1) by (simp_all add: table_inv_def)
  then show "set (keys t') = set (filter (\<lambda>k. \<not> ?P k) (keys t))"
    unfolding S(3) by (auto split: option.splits if_splits)
qed

section \<open>The contract of a table\<close>

text \<open>What is left of an entry when the loop has run at \<open>now\<close>.\<close>

definition live :: "int \<Rightarrow> time_point \<Rightarrow> 'v MapEntry option \<Rightarrow> 'v MapEntry option" where
  "live th now x = (case x of None \<Rightarrow> None | Some e \<Rightarrow> if stale th now e then None else Some e)"

lemma live_simps [simp]:
  "live th now None = None"
  "live th now (Some e) = (if stale th now e then None else Some e)"
  by (simp_all add: live_def)

text \<open>
  \<open>insert x now now' key\<close> expires at the clock reading \<open>now\<close> and stamps a new entry with the later
  reading \<open>now'\<close>; \<open>x\<close> has its other arguments, and \<open>fits\<close> says which of them the callers pass.
  \<open>invar t0\<close> is the invariant of a table whose entries were stamped no later than \<open>t0\<close>.
\<close>

locale expiring_table =
  fixes invar :: "time_point \<Rightarrow> 's \<Rightarrow> bool"
    and entry :: "'s \<Rightarrow> u64 \<Rightarrow> 'v MapEntry option"
    and threshold :: "'s \<Rightarrow> int"
    and fits :: "'x \<Rightarrow> u64 \<Rightarrow> bool"
    and insert :: "'x \<Rightarrow> time_point \<Rightarrow> time_point \<Rightarrow> u64 \<Rightarrow> 's \<Rightarrow> int \<times> 's"
    and made :: "'x \<Rightarrow> time_point \<Rightarrow> u64 \<Rightarrow> 'v"
  assumes insert_invar: "invar t0 s \<Longrightarrow> fits x key \<Longrightarrow> t0 \<le> now' \<Longrightarrow>
      invar now' (snd (insert x now now' key s))"
    and insert_threshold: "invar t0 s \<Longrightarrow> fits x key \<Longrightarrow>
      threshold (snd (insert x now now' key s)) = threshold s"
    and insert_dup: "invar t0 s \<Longrightarrow> fits x key \<Longrightarrow> live (threshold s) now (entry s key) = Some e \<Longrightarrow>
      fst (insert x now now' key s) = PINGWEAVE_FAILURE
      \<and> entry (snd (insert x now now' key s)) key = Some e"
    and insert_new: "invar t0 s \<Longrightarrow> fits x key \<Longrightarrow> live (threshold s) now (entry s key) = None \<Longrightarrow>
      fst (insert x now now' key s) = PINGWEAVE_SUCCESS
      \<and> (\<exists>e. entry (snd (insert x now now' key s)) key = Some e \<and> entry_value e = made x now' key
            \<and> timestamp e = now')"
    and insert_other: "invar t0 s \<Longrightarrow> fits x key \<Longrightarrow> k \<noteq> key \<Longrightarrow>
      entry (snd (insert x now now' key s)) k = live (threshold s) now (entry s k)"
begin

text \<open>After an insert, no entry is stale at the reading the insert expired at.\<close>

lemma insert_fresh:
  assumes "invar t0 s" and "fits x key" and "now \<le> now'" and "0 < threshold s"
    and "entry (snd (insert x now now' key s)) k = Some e"
  shows "\<not> stale (threshold s) now e"
proof (cases "k = key")
  case True
  show ?thesis
  proof (cases "live (threshold s) now (entry s key)")
    case None
    then have "timestamp e = now'" using insert_new [OF assms(1,2) None, of now'] assms(5) True by auto
    moreover have "duration_cast ns_per_ms (now - now') \<le> duration_cast ns_per_ms 0"
      using assms(3) by (intro duration_cast_mono) (simp_all add: ns_per_ms_def)
    ultimately show ?thesis using assms(4) by (simp add: stale_def duration_cast_def)
  next
    case (Some e')
    then have "e' = e" using insert_dup [OF assms(1,2) Some] assms(5) True by simp
    then show ?thesis using Some by (simp add: live_def split: option.splits if_splits)
  qed
next
  case False
  then show ?thesis
    using insert_other [OF assms(1,2)] assms(5) by (auto simp: live_def split: option.splits if_splits)
qed

text \<open>An identifier is accepted again exactly when its entry has expired.\<close>

lemma insert_again:
  assumes inv: "invar t0 s" and x: "fits x key" "fits x' key" and t: "t0 \<le> now'"
    and first: "fst (insert x now now' key s) = PINGWEAVE_SUCCESS"
  shows "fst (insert x' n1 n2 key (snd (insert x now now' key s))) =
    (if duration_cast ns_per_ms (n1 - now') < threshold s then PINGWEAVE_FAILURE else PINGWEAVE_SUCCESS)"
proof -
  let ?s = "snd (insert x now now' key s)"
  have "live (threshold s) now (entry s key) = None"
    using insert_dup [OF inv x(1)] first by (cases "live (threshold s) now (entry s key)") auto
  then obtain e where e: "entry ?s key = Some e" "timestamp e = now'"
    using insert_new [OF inv x(1)] by blast
  note inv' = insert_invar [OF inv x(1) t, of now]
  have th: "threshold ?s = threshold s" by (rule insert_threshold [OF inv x(1)])
  show ?thesis
    using insert_dup [OF inv' x(2), of n1 e n2] insert_new [OF inv' x(2), of n1 n2] e
    by (auto simp: th stale_def)
qed

end

end
