(* ===== verification/Pw_Format.thy ===== *)
theory Pw_Format
  imports Pw_Address Pw_Queue
begin

text \<open>
  The message and result structures of \<^verbatim>\<open>src/src/format.hpp\<close> and the entries of the ping tables
  (\<^verbatim>\<open>rdma_ping_info.hpp\<close>, \<^verbatim>\<open>tcpudp_ping_info.hpp\<close>).  A field has the name of the source with the
  initials of its structure.  The queues between the threads of a process carry the result
  structures.
\<close>

section \<open>TCP and UDP\<close>

record tcpudp_result_msg_t =
  tr_pingid :: u64
  tr_dstip :: u32
  tr_time_ping_send :: u64
  tr_network_delay :: u64
  tr_result :: int

record tcpudp_pinginfo_t =
  ti_pingid :: u64
  ti_dstip :: string
  ti_time_ping_send :: u64
  ti_network_delay :: u64

type_synonym TcpUdpClientQueue = "tcpudp_result_msg_t BlockingReaderWriterQueue"

section \<open>RDMA\<close>

record rdma_pingmsg_t =
  pm_pingid :: u64
  pm_qpn :: u32
  pm_gid :: gid
  pm_lid :: u32
  pm_time :: u64

record rdma_pongmsg_t =
  po_opcode :: u32
  po_pingid :: u64
  po_server_delay :: u64

record rdma_result_msg_t =
  rr_pingid :: u64
  rr_dstip :: u32
  rr_time_ping_send :: u64
  rr_client_delay :: u64
  rr_network_delay :: u64
  rr_server_delay :: u64
  rr_result :: int

record rdma_pinginfo_t =
  ri_pingid :: u64
  ri_qpn :: u32
  ri_gid :: gid
  ri_lid :: u32
  ri_dstip :: string
  ri_time_ping_send :: u64
  ri_client_delay :: u64
  ri_network_delay :: u64
  ri_server_delay :: u64
  ri_recv_cnt :: u32
  ri_recv_bitmap :: "32 word"

type_synonym RdmaClientQueue = "rdma_result_msg_t BlockingReaderWriterQueue"
type_synonym RdmaServerQueue = "rdma_pingmsg_t BlockingReaderWriterQueue"

section \<open>Handing a message to a queue\<close>

text \<open>The producers ignore a refusal (they only log it): the message is then lost.\<close>

definition offer :: "'a \<Rightarrow> 'a BlockingReaderWriterQueue \<Rightarrow> 'a BlockingReaderWriterQueue" where
  "offer m q = snd (brwq_try_enqueue q m)"

lemma offer_inv [simp]: "brwq_inv q \<Longrightarrow> brwq_inv (offer m q)"
  using brwq_enqueue_spec [of q m] by (cases "brwq_try_enqueue q m") (simp add: offer_def)

lemma offer_room [simp]: "brwq_inv q \<Longrightarrow> brwq_room (offer m q) = brwq_room q"
  using brwq_enqueue_spec [of q m] by (cases "brwq_try_enqueue q m") (simp add: offer_def)

lemma offer_pending_cases:
  "brwq_inv q \<Longrightarrow> brwq_pending (offer m q) \<in> {brwq_pending q, brwq_pending q @ [m]}"
  using brwq_enqueue_spec [of q m] by (cases "brwq_try_enqueue q m") (auto simp: offer_def split: if_splits)

lemma offer_pending:
  "brwq_inv q \<Longrightarrow> length (brwq_pending q) < brwq_room q \<Longrightarrow>
   brwq_pending (offer m q) = brwq_pending q @ [m]"
  using brwq_enqueue_spec [of q m] by (cases "brwq_try_enqueue q m") (auto simp: offer_def split: if_splits)

lemma fold_offer:
  assumes "brwq_inv q"
  shows "brwq_inv (fold (\<lambda>x. offer (f x)) xs q)" and "brwq_room (fold (\<lambda>x. offer (f x)) xs q) = brwq_room q"
    and "length (brwq_pending q) + length xs \<le> brwq_room q \<Longrightarrow>
      brwq_pending (fold (\<lambda>x. offer (f x)) xs q) = brwq_pending q @ map f xs"
  using assms by (induction xs arbitrary: q) (auto simp: offer_pending)

end
