(* ===== verification/Pw_MsgTable.thy ===== *)
theory Pw_MsgTable
  imports Pw_Table Pw_Format
begin

text \<open>
  \<^verbatim>\<open>PingMsgMap\<close> of \<^verbatim>\<open>src/src/rdma_ping_msg.hpp\<close>: the ping messages a server holds between the
  completion of a ping and the completion of the pong it answers with.  Each method is one
  atomic step (the class locks its mutex in each); the clock readings a method makes are its
  first arguments, in the order it makes them.
\<close>

section \<open>The methods\<close>

type_synonym PingMsgMap = "rdma_pingmsg_t ping_table"

definition PingMsgMap_new :: "int \<Rightarrow> PingMsgMap" where
  "PingMsgMap_new threshold = table_new threshold"

definition PingMsgMap_expireEntries :: "time_point \<Rightarrow> PingMsgMap \<Rightarrow> nat \<times> PingMsgMap" where
  "PingMsgMap_expireEntries now t =
     (let (n_remove, t', _) = expire_table now (\<lambda>_ s. s) t () in (n_remove, t'))"

definition PingMsgMap_insert ::
    "time_point \<Rightarrow> time_point \<Rightarrow> u64 \<Rightarrow> rdma_pingmsg_t \<Rightarrow> PingMsgMap \<Rightarrow> int \<times> PingMsgMap" where
  "PingMsgMap_insert now now' key v t =
     (let (_, t1) = PingMsgMap_expireEntries now t in
      if entries t1 key \<noteq> None then (PINGWEAVE_FAILURE, t1)
      else (PINGWEAVE_SUCCESS, table_put now' key v t1))"

definition PingMsgMap_get :: "u64 \<Rightarrow> PingMsgMap \<Rightarrow> int \<times> rdma_pingmsg_t option" where
  "PingMsgMap_get key t = table_get key t"

definition PingMsgMap_remove :: "u64 \<Rightarrow> PingMsgMap \<Rightarrow> int \<times> PingMsgMap" where
  "PingMsgMap_remove key t = table_remove key t"

definition PingMsgMap_empty :: "PingMsgMap \<Rightarrow> bool" where
  "PingMsgMap_empty t = table_empty t"

definition PingMsgMap_size :: "PingMsgMap \<Rightarrow> nat" where
  "PingMsgMap_size t = table_size t"

section \<open>The invariant and the contract\<close>

definition msg_table_inv :: "time_point \<Rightarrow> PingMsgMap \<Rightarrow> bool" where
  "msg_table_inv t0 t \<longleftrightarrow> table_inv t \<and> table_ordered t0 t"

lemma msg_expire_spec:
  assumes "msg_table_inv t0 t" and "PingMsgMap_expireEntries now t = (n, t')"
  shows "msg_table_inv t0 t'" and "entries t' = (\<lambda>k. live (threshold_ms t) now (entries t k))"
    and "threshold_ms t' = threshold_ms t"
proof -
  obtain u where e: "expire_table now (\<lambda>_ s. s) t () = (n, t', u)"
    using assms(2) by (auto simp: PingMsgMap_expireEntries_def split: prod.splits)
  note S = expire_table_spec [OF _ _ e]
  show "msg_table_inv t0 t'" and "entries t' = (\<lambda>k. live (threshold_ms t) now (entries t k))"
    and "threshold_ms t' = threshold_ms t"
    using S assms(1) by (auto simp: msg_table_inv_def live_def)
qed

interpretation msg_table: expiring_table msg_table_inv entries threshold_ms "\<lambda>_ _. True"
  "\<lambda>v now now' key. PingMsgMap_insert now now' key v" "\<lambda>v _ _. v"
proof unfold_locales
  fix t0 now now' :: time_point and t :: PingMsgMap and v key k e
  assume inv: "msg_table_inv t0 t"
  obtain n t1 where x: "PingMsgMap_expireEntries now t = (n, t1)"
    by (cases "PingMsgMap_expireEntries now t")
  note S = msg_expire_spec [OF inv x]
  have i: "PingMsgMap_insert now now' key v t =
      (if entries t1 key \<noteq> None then (PINGWEAVE_FAILURE, t1)
       else (PINGWEAVE_SUCCESS, table_put now' key v t1))"
    by (simp add: PingMsgMap_insert_def x)
  show "t0 \<le> now' \<Longrightarrow> msg_table_inv now' (snd (PingMsgMap_insert now now' key v t))"
    using S(1) by (auto simp: i msg_table_inv_def intro: table_inv_put table_ordered_put table_ordered_mono)
  show "threshold_ms (snd (PingMsgMap_insert now now' key v t)) = threshold_ms t"
    using S(3) by (simp add: i)
  show "live (threshold_ms t) now (entries t key) = Some e \<Longrightarrow>
      fst (PingMsgMap_insert now now' key v t) = PINGWEAVE_FAILURE \<and>
      entries (snd (PingMsgMap_insert now now' key v t)) key = Some e"
    using S(2) by (simp add: i)
  show "live (threshold_ms t) now (entries t key) = None \<Longrightarrow>
      fst (PingMsgMap_insert now now' key v t) = PINGWEAVE_SUCCESS \<and>
      (\<exists>e. entries (snd (PingMsgMap_insert now now' key v t)) key = Some e \<and> entry_value e = v \<and>
           timestamp e = now')"
    using S(2) by (simp add: i)
  show "k \<noteq> key \<Longrightarrow> entries (snd (PingMsgMap_insert now now' key v t)) k =
      live (threshold_ms t) now (entries t k)"
    using S(2) by (simp add: i)
qed

section \<open>Refinement of a specification without list, nodes or iterators\<close>

type_synonym msg_spec = "u64 \<rightharpoonup> rdma_pingmsg_t \<times> time_point"

datatype msg_op =
    M_insert time_point time_point u64 rdma_pingmsg_t
  | M_get u64
  | M_remove u64

fun msg_step :: "msg_op \<Rightarrow> PingMsgMap \<Rightarrow> (int \<times> rdma_pingmsg_t option) \<times> PingMsgMap" where
  "msg_step (M_insert now now' key v) t = (let (r, t') = PingMsgMap_insert now now' key v t in ((r, None), t'))"
| "msg_step (M_get key) t = (PingMsgMap_get key t, t)"
| "msg_step (M_remove key) t = (let (r, t') = PingMsgMap_remove key t in ((r, None), t'))"

fun spec_step :: "int \<Rightarrow> msg_op \<Rightarrow> msg_spec \<Rightarrow> (int \<times> rdma_pingmsg_t option) \<times> msg_spec" where
  "spec_step th (M_insert now now' key v) m =
     (let m' = (\<lambda>k. case m k of None \<Rightarrow> None
                   | Some (w, ts) \<Rightarrow> if duration_cast ns_per_ms (now - ts) < th then Some (w, ts) else None)
      in if m' key \<noteq> None then ((PINGWEAVE_FAILURE, None), m')
         else ((PINGWEAVE_SUCCESS, None), m'(key \<mapsto> (v, now'))))"
| "spec_step th (M_get key) m =
     (case m key of None \<Rightarrow> (PINGWEAVE_FAILURE, None) | Some (w, _) \<Rightarrow> (PINGWEAVE_SUCCESS, Some w), m)"
| "spec_step th (M_remove key) m =
     ((if m key = None then PINGWEAVE_FAILURE else PINGWEAVE_SUCCESS, None), m(key := None))"

fun run_steps :: "('op \<Rightarrow> 's \<Rightarrow> 'r \<times> 's) \<Rightarrow> 'op list \<Rightarrow> 's \<Rightarrow> 'r list \<times> 's" where
  "run_steps step [] s = ([], s)"
| "run_steps step (op # ops) s =
     (let (r, s1) = step op s; (rs, s2) = run_steps step ops s1 in (r # rs, s2))"

text \<open>The clock is steady: the readings of a sequence of operations never decrease.\<close>

fun clock_mono :: "time_point \<Rightarrow> msg_op list \<Rightarrow> bool" where
  "clock_mono t0 [] \<longleftrightarrow> True"
| "clock_mono t0 (M_insert now now' key v # ops) \<longleftrightarrow> t0 \<le> now \<and> now \<le> now' \<and> clock_mono now' ops"
| "clock_mono t0 (_ # ops) \<longleftrightarrow> clock_mono t0 ops"

definition msg_abs :: "PingMsgMap \<Rightarrow> msg_spec" where
  "msg_abs t = (\<lambda>k. map_option (\<lambda>e. (entry_value e, timestamp e)) (entries t k))"

lemma msg_abs_put:
  "msg_abs (table_put now key v t) = (msg_abs t)(key \<mapsto> (v, now))"
  by (auto simp: msg_abs_def table_put_def)

lemma msg_insert_refines:
  assumes "msg_table_inv t0 t" and "t0 \<le> now" and "now \<le> now'"
  shows "msg_table_inv now' (snd (msg_step (M_insert now now' key v) t))
    \<and> threshold_ms (snd (msg_step (M_insert now now' key v) t)) = threshold_ms t
    \<and> spec_step (threshold_ms t) (M_insert now now' key v) (msg_abs t) =
        (fst (msg_step (M_insert now now' key v) t), msg_abs (snd (msg_step (M_insert now now' key v) t)))"
proof -
  obtain n t1 where x: "PingMsgMap_expireEntries now t = (n, t1)"
    by (cases "PingMsgMap_expireEntries now t")
  note S = msg_expire_spec [OF assms(1) x]
  have ab: "(\<lambda>k. case msg_abs t k of None \<Rightarrow> None
      | Some (w, ts) \<Rightarrow> if duration_cast ns_per_ms (now - ts) < threshold_ms t then Some (w, ts) else None)
      = msg_abs t1"
    unfolding msg_abs_def S(2) by (auto simp: fun_eq_iff stale_def live_def split: option.split)
  have nn: "msg_abs t1 key = None \<longleftrightarrow> entries t1 key = None" by (simp add: msg_abs_def)
  have "msg_table_inv now' (snd (PingMsgMap_insert now now' key v t))"
    "threshold_ms (snd (PingMsgMap_insert now now' key v t)) = threshold_ms t"
    using msg_table.insert_invar [OF assms(1)] msg_table.insert_threshold [OF assms(1)] assms(2,3) by simp_all
  then show ?thesis
    unfolding spec_step.simps ab
    using nn by (cases "entries t1 key") (simp_all add: Let_def PingMsgMap_insert_def x msg_abs_put)
qed

lemma msg_remove_refines:
  assumes "msg_table_inv t0 t"
  shows "msg_table_inv t0 (snd (msg_step (M_remove key) t))
    \<and> threshold_ms (snd (msg_step (M_remove key) t)) = threshold_ms t
    \<and> spec_step (threshold_ms t) (M_remove key) (msg_abs t) =
        (fst (msg_step (M_remove key) t), msg_abs (snd (msg_step (M_remove key) t)))"
  using assms table_inv_remove [of t key] table_ordered_remove [of t t0 key]
  by (auto simp: msg_table_inv_def PingMsgMap_remove_def table_remove_def msg_abs_def fun_eq_iff
      split: option.splits)

lemma run_refines:
  assumes "msg_table_inv t0 t" and "clock_mono t0 ops"
  shows "fst (run_steps msg_step ops t) = fst (run_steps (spec_step (threshold_ms t)) ops (msg_abs t))"
  using assms
proof (induction ops arbitrary: t0 t)
  case (Cons op ops)
  obtain t1 where inv: "msg_table_inv t1 (snd (msg_step op t))" and mono: "clock_mono t1 ops"
    and th: "threshold_ms (snd (msg_step op t)) = threshold_ms t"
    and sp: "spec_step (threshold_ms t) op (msg_abs t) = (fst (msg_step op t), msg_abs (snd (msg_step op t)))"
  proof (cases op)
    case (M_insert now now' key v)
    then show thesis using that [of now'] msg_insert_refines [OF Cons.prems(1), of now now' key v] Cons.prems(2)
      by simp
  next
    case (M_get key)
    then show thesis using that [of t0] Cons.prems
      by (auto simp: PingMsgMap_get_def table_get_def msg_abs_def split: option.split)
  next
    case (M_remove key)
    then show thesis using that [of t0] msg_remove_refines [OF Cons.prems(1), of key] Cons.prems(2) by simp
  qed
  then show ?case using Cons.IH [OF inv mono] by (simp add: case_prod_beta)
qed simp

section \<open>Properties of the message table\<close>

text \<open>
  C7: refinement.  For every sequence of operations with clock readings that never decrease, a
  new table returns what the specification returns: a map from identifiers to messages with
  their insertion time, in which an insert first drops every entry of at least the threshold's
  age.  List, nodes and iterators are invisible, and the early exit of the loop misses nothing.
\<close>

theorem PingMsgMap_refines:
  assumes "clock_mono t0 ops"
  shows "fst (run_steps msg_step ops (PingMsgMap_new th)) = fst (run_steps (spec_step th) ops Map.empty)"
proof -
  have "msg_table_inv t0 (PingMsgMap_new th)" "msg_abs (PingMsgMap_new th) = Map.empty"
    "threshold_ms (PingMsgMap_new th) = th"
    by (simp_all add: msg_table_inv_def PingMsgMap_new_def msg_abs_def table_new_def
        table_inv_def table_ordered_def keys_def stamps_def)
  then show ?thesis using run_refines [OF _ assms, of "PingMsgMap_new th"] by simp
qed

definition sample_msg :: rdma_pingmsg_t where
  "sample_msg = \<lparr>pm_pingid = 7, pm_qpn = 1, pm_gid = replicate 16 0, pm_lid = 2, pm_time = 0\<rparr>"

theorem PingMsgMap_refines_witness:
  "fst (run_steps msg_step
      [M_insert 0 0 7 sample_msg, M_insert 1 2 7 sample_msg, M_get 7,
       M_insert 2000000000 2000000000 8 sample_msg, M_get 7, M_remove 8] (PingMsgMap_new 1000)) =
   [(1, None), (0, None), (1, Some sample_msg), (1, None), (0, None), (1, None)]"
  by (subst PingMsgMap_refines [of 0], simp)
    (simp add: Let_def duration_cast_def ns_per_ms_def PINGWEAVE_SUCCESS_def PINGWEAVE_FAILURE_def
      signed_divide_int_def)

end
