(* ===== verification/Pw_TableQueue.thy ===== *)
theory Pw_TableQueue
  imports Pw_Table Pw_Format
begin

text \<open>
  A ping table that reports to a result queue, as \<^verbatim>\<open>RdmaPinginfoMap\<close> and \<^verbatim>\<open>TcpUdpPinginfoMap\<close> do: what the loop of
  \<^verbatim>\<open>expireEntries\<close> leaves in table and queue when it hands a message to the queue for the stale entries, or for some of them.
\<close>

lemma fold_filter_offer:
  "fold (\<lambda>k q. if P k then q else offer (f k) q) ks q = fold (\<lambda>k. offer (f k)) (filter (\<lambda>k. \<not> P k) ks) q"
  by (induction ks arbitrary: q) auto

lemma fold_offer_subset:
  "brwq_inv q \<Longrightarrow> mset (map g (brwq_pending (fold (\<lambda>k. offer (f k)) ks q)))
     \<subseteq># mset (map g (brwq_pending q)) + mset (map (\<lambda>k. g (f k)) ks)"
proof (induction ks arbitrary: q)
  case (Cons k ks)
  have "mset (map g (brwq_pending (offer (f k) q))) \<subseteq># mset (map g (brwq_pending q)) + {#g (f k)#}"
    using offer_pending_cases [OF Cons.prems, of "f k"] by auto
  from subset_mset.order_trans [OF Cons.IH [OF offer_inv [OF Cons.prems, of "f k"]]
      subset_mset.add_right_mono [OF this]]
  show ?case by simp
qed simp

text \<open>The table is again well formed, the queue has a message for each stale entry that is not passed over, as far as it has room.\<close>

lemma expire_reports:
  assumes ti: "table_inv t" and to: "table_ordered t0 t" and bq: "brwq_inv q"
    and e: "expire_table now (\<lambda>p q. if skip p then q else offer (msg p) q) t q = (n, t', q')"
  defines "failed \<equiv> filter (\<lambda>k. \<not> skip (entry_value (the (entries t k)))) (dead_keys now t)"
  shows "table_inv t'" and "table_ordered t0 t'" and "entries t' = (\<lambda>k. live (threshold_ms t) now (entries t k))"
    and "threshold_ms t' = threshold_ms t" and "brwq_inv q'" and "brwq_room q' = brwq_room q"
    and "length (brwq_pending q) + length failed \<le> brwq_room q \<Longrightarrow>
      brwq_pending q' = brwq_pending q @ map (\<lambda>k. msg (entry_value (the (entries t k)))) failed"
    and "mset (map ident (brwq_pending q')) \<subseteq>#
      mset (map ident (brwq_pending q)) + mset (map (\<lambda>k. ident (msg (entry_value (the (entries t k))))) failed)"
proof -
  note S = expire_table_spec [OF ti to e]
  have q': "q' = fold (\<lambda>k. offer (msg (entry_value (the (entries t k))))) failed q"
    using S(4) unfolding failed_def fold_filter_offer [symmetric] by simp
  show "table_inv t'" "table_ordered t0 t'" "threshold_ms t' = threshold_ms t" by (fact S)+
  show "entries t' = (\<lambda>k. live (threshold_ms t) now (entries t k))" using S(3) by (simp add: live_def)
  show "brwq_inv q'" "brwq_room q' = brwq_room q" unfolding q' by (rule fold_offer [OF bq])+
  show "length (brwq_pending q) + length failed \<le> brwq_room q \<Longrightarrow>
      brwq_pending q' = brwq_pending q @ map (\<lambda>k. msg (entry_value (the (entries t k)))) failed"
    unfolding q' by (rule fold_offer(3) [OF bq])
  show "mset (map ident (brwq_pending q')) \<subseteq>#
      mset (map ident (brwq_pending q)) + mset (map (\<lambda>k. ident (msg (entry_value (the (entries t k))))) failed)"
    unfolding q' by (rule fold_offer_subset [OF bq])
qed

text \<open>The keys of the stale entries and those that stay are the keys of the table.\<close>

lemma expire_keys_split:
  assumes "table_inv t" and "table_ordered t0 t" and "expire_table now report t q = (n, t', q')"
  shows "mset (dead_keys now t) + mset (keys t') = mset (keys t)"
  unfolding expire_keys [OF assms] dead_keys_eq [OF assms(2)] by (rule mset_filter_split)

lemma dead_keys_in_table:
  assumes "table_inv t" and "table_ordered t0 t" and "k \<in> set (dead_keys now t)"
  shows "\<exists>e. entries t k = Some e"
  using assms(1,3) unfolding dead_keys_eq [OF assms(2)] by (auto simp: table_inv_def)

end
