(* ===== verification/Pw_TcpUdpTable.thy ===== *)
theory Pw_TcpUdpTable
  imports Pw_TableQueue
begin

text \<open>
  \<^verbatim>\<open>TcpUdpPinginfoMap\<close> of \<^verbatim>\<open>src/src/tcpudp_ping_info.hpp\<close>: the pings a TCP or UDP client has sent
  and not yet accounted for.  The state is the table and the queue the table reports to, which the
  result thread empties.  The clock readings of a method are arguments; \<open>uninit\<close> is the value
  that \<^verbatim>\<open>ip2uint\<close> reads when its text is no address.  Methods hold the mutex, so each is one
  step (\<^verbatim>\<open>empty\<close> and \<^verbatim>\<open>size\<close> hold it only shared although they expire entries).
\<close>

section \<open>The methods\<close>

record TcpUdpPinginfoMap =
  tu_table :: "tcpudp_pinginfo_t ping_table"
  tu_queue :: TcpUdpClientQueue

definition TcpUdpPinginfoMap_new :: "TcpUdpClientQueue \<Rightarrow> int \<Rightarrow> TcpUdpPinginfoMap" where
  "TcpUdpPinginfoMap_new queue threshold = \<lparr>tu_table = table_new threshold, tu_queue = queue\<rparr>"

definition tu_failure :: "u32 \<Rightarrow> tcpudp_pinginfo_t \<Rightarrow> tcpudp_result_msg_t" where
  "tu_failure uninit ping_info =
     \<lparr>tr_pingid = ti_pingid ping_info, tr_dstip = ip2uint uninit (ti_dstip ping_info),
      tr_time_ping_send = ti_time_ping_send ping_info, tr_network_delay = 0,
      tr_result = PINGWEAVE_RESULT_FAILURE\<rparr>"

definition TcpUdpPinginfoMap_expireEntries ::
    "u32 \<Rightarrow> time_point \<Rightarrow> TcpUdpPinginfoMap \<Rightarrow> nat \<times> TcpUdpPinginfoMap" where
  "TcpUdpPinginfoMap_expireEntries uninit now s =
     (let (n_remove, t, q) =
            expire_table now (\<lambda>ping_info. offer (tu_failure uninit ping_info)) (tu_table s) (tu_queue s)
      in (n_remove, \<lparr>tu_table = t, tu_queue = q\<rparr>))"

definition TcpUdpPinginfoMap_insert ::
    "u32 \<Rightarrow> time_point \<Rightarrow> time_point \<Rightarrow> time_point \<Rightarrow> u64 \<Rightarrow> u64 \<Rightarrow> string \<Rightarrow> TcpUdpPinginfoMap
     \<Rightarrow> int \<times> TcpUdpPinginfoMap" where
  "TcpUdpPinginfoMap_insert uninit now steady_now system_now key pingid dstip s =
     (let (_, s1) = TcpUdpPinginfoMap_expireEntries uninit now s in
      if entries (tu_table s1) key \<noteq> None then (PINGWEAVE_FAILURE, s1)
      else
        (PINGWEAVE_SUCCESS,
         s1\<lparr>tu_table := table_put steady_now key
              \<lparr>ti_pingid = pingid, ti_dstip = dstip,
               ti_time_ping_send = get_current_timestamp_ns system_now,
               ti_network_delay = convert_clock_to_ns steady_now\<rparr> (tu_table s1)\<rparr>))"

definition TcpUdpPinginfoMap_get :: "u64 \<Rightarrow> TcpUdpPinginfoMap \<Rightarrow> int \<times> tcpudp_pinginfo_t option" where
  "TcpUdpPinginfoMap_get key s = table_get key (tu_table s)"

definition TcpUdpPinginfoMap_remove :: "u64 \<Rightarrow> TcpUdpPinginfoMap \<Rightarrow> int \<times> TcpUdpPinginfoMap" where
  "TcpUdpPinginfoMap_remove key s =
     (let (r, t) = table_remove key (tu_table s) in (r, s\<lparr>tu_table := t\<rparr>))"

definition TcpUdpPinginfoMap_update_pong_info ::
    "u32 \<Rightarrow> u64 \<Rightarrow> u64 \<Rightarrow> TcpUdpPinginfoMap \<Rightarrow> int \<times> TcpUdpPinginfoMap" where
  "TcpUdpPinginfoMap_update_pong_info uninit key recv_time s =
     (case entries (tu_table s) key of
        None \<Rightarrow> (PINGWEAVE_FAILURE, s)
      | Some e \<Rightarrow>
          let ping_info = (entry_value e)\<lparr>ti_network_delay :=
                calc_time_delta_with_bitwrap (ti_network_delay (entry_value e)) recv_time UINT64_MAX\<rparr>;
              s1 = s\<lparr>tu_queue := offer
                      \<lparr>tr_pingid = ti_pingid ping_info, tr_dstip = ip2uint uninit (ti_dstip ping_info),
                       tr_time_ping_send = ti_time_ping_send ping_info,
                       tr_network_delay = ti_network_delay ping_info,
                       tr_result = PINGWEAVE_RESULT_SUCCESS\<rparr> (tu_queue s)\<rparr>;
              (_, s2) = TcpUdpPinginfoMap_remove (ti_pingid ping_info) s1
          in (PINGWEAVE_SUCCESS, s2))"

definition TcpUdpPinginfoMap_empty :: "u32 \<Rightarrow> time_point \<Rightarrow> TcpUdpPinginfoMap \<Rightarrow> bool \<times> TcpUdpPinginfoMap" where
  "TcpUdpPinginfoMap_empty uninit now s =
     (let (_, s1) = TcpUdpPinginfoMap_expireEntries uninit now s in (table_empty (tu_table s1), s1))"

definition TcpUdpPinginfoMap_size :: "u32 \<Rightarrow> time_point \<Rightarrow> TcpUdpPinginfoMap \<Rightarrow> nat \<times> TcpUdpPinginfoMap" where
  "TcpUdpPinginfoMap_size uninit now s =
     (let (_, s1) = TcpUdpPinginfoMap_expireEntries uninit now s in (table_size (tu_table s1), s1))"

section \<open>The invariant and the contract\<close>

definition tu_inv :: "time_point \<Rightarrow> TcpUdpPinginfoMap \<Rightarrow> bool" where
  "tu_inv t0 s \<longleftrightarrow> table_inv (tu_table s) \<and> table_ordered t0 (tu_table s) \<and> brwq_inv (tu_queue s)
     \<and> (\<forall>k e. entries (tu_table s) k = Some e \<longrightarrow> ti_pingid (entry_value e) = k)"

text \<open>The pings a state still accounts for: reported and not yet taken, or in the table.\<close>

definition tu_accounts :: "TcpUdpPinginfoMap \<Rightarrow> u64 multiset" where
  "tu_accounts s = mset (map tr_pingid (brwq_pending (tu_queue s))) + mset (keys (tu_table s))"

lemma tu_expire_spec:
  assumes inv: "tu_inv t0 s" and x: "TcpUdpPinginfoMap_expireEntries uninit now s = (n, s')"
  shows "tu_inv t0 s'"
    and "entries (tu_table s') = (\<lambda>k. live (threshold_ms (tu_table s)) now (entries (tu_table s) k))"
    and "threshold_ms (tu_table s') = threshold_ms (tu_table s)"
    and "brwq_room (tu_queue s') = brwq_room (tu_queue s)"
    and "length (brwq_pending (tu_queue s)) + length (keys (tu_table s)) \<le> brwq_room (tu_queue s) \<Longrightarrow>
      brwq_pending (tu_queue s') = brwq_pending (tu_queue s) @
        map (\<lambda>k. tu_failure uninit (entry_value (the (entries (tu_table s) k))))
          (dead_keys now (tu_table s)) \<and> tu_accounts s' = tu_accounts s"
proof -
  let ?t = "tu_table s" and ?q = "tu_queue s" and ?t' = "tu_table s'" and ?q' = "tu_queue s'"
  let ?f = "\<lambda>k. tu_failure uninit (entry_value (the (entries ?t k)))"
  have ti: "table_inv ?t" and to: "table_ordered t0 ?t" and bq: "brwq_inv ?q"
    and pk: "\<And>k e. entries ?t k = Some e \<Longrightarrow> ti_pingid (entry_value e) = k"
    using inv by (auto simp: tu_inv_def)
  have e: "expire_table now (\<lambda>p q. if False then q else offer (tu_failure uninit p) q) ?t ?q = (n, ?t', ?q')"
    using x by (auto simp: TcpUdpPinginfoMap_expireEntries_def split: prod.splits)
  note R = expire_reports [OF ti to bq e]
  show en: "entries ?t' = (\<lambda>k. live (threshold_ms ?t) now (entries ?t k))"
    and "threshold_ms ?t' = threshold_ms ?t" and "brwq_room ?q' = brwq_room ?q" by (fact R)+
  show "tu_inv t0 s'"
    using R(1,2,5) pk unfolding tu_inv_def en by (auto simp: live_def split: option.splits if_splits)
  note split = expire_keys_split [OF ti to e]
  assume "length (brwq_pending ?q) + length (keys ?t) \<le> brwq_room ?q"
  then have p: "brwq_pending ?q' = brwq_pending ?q @ map ?f (dead_keys now ?t)"
    using R(7) arg_cong [OF split, of size] by simp
  have "map (\<lambda>k. tr_pingid (?f k)) (dead_keys now ?t) = dead_keys now ?t"
    using pk dead_keys_in_table [OF ti to] by (intro map_idI) (fastforce simp: tu_failure_def)
  then have "tu_accounts s' = tu_accounts s"
    using split by (simp add: tu_accounts_def p comp_def add.assoc)
  with p show "brwq_pending ?q' = brwq_pending ?q @ map ?f (dead_keys now ?t) \<and> tu_accounts s' = tu_accounts s" ..
qed

text \<open>The remaining arguments of an insert: \<open>uninit\<close>, the system clock, the ping identifier, the address.\<close>

interpretation tu_table: expiring_table tu_inv "\<lambda>s. entries (tu_table s)" "\<lambda>s. threshold_ms (tu_table s)"
  "\<lambda>(_, _, pingid, _) key. pingid = key"
  "\<lambda>(uninit, sys, pingid, dstip) now now' key. TcpUdpPinginfoMap_insert uninit now now' sys key pingid dstip"
  "\<lambda>(_, sys, pingid, dstip) now' _. \<lparr>ti_pingid = pingid, ti_dstip = dstip,
      ti_time_ping_send = get_current_timestamp_ns sys, ti_network_delay = convert_clock_to_ns now'\<rparr>"
proof (unfold_locales, goal_cases)
  case (1 t0 s x key now' now)
  obtain uninit sys pid dst where xx: "x = (uninit, sys, pid, dst)" by (cases x)
  obtain n s1 where e: "TcpUdpPinginfoMap_expireEntries uninit now s = (n, s1)"
    by (cases "TcpUdpPinginfoMap_expireEntries uninit now s")
  note S = tu_expire_spec [OF 1(1) e]
  show ?case using S(1) 1(2,3)
    by (auto simp: xx TcpUdpPinginfoMap_insert_def e tu_inv_def table_put_def [of _ _ _ "tu_table s1"]
        intro: table_inv_put [unfolded table_put_def] table_ordered_put [unfolded table_put_def]
          table_ordered_mono)
next
  case (2 t0 s x key now now')
  obtain uninit sys pid dst where xx: "x = (uninit, sys, pid, dst)" by (cases x)
  obtain n s1 where e: "TcpUdpPinginfoMap_expireEntries uninit now s = (n, s1)"
    by (cases "TcpUdpPinginfoMap_expireEntries uninit now s")
  show ?case using tu_expire_spec [OF 2(1) e] by (simp add: xx TcpUdpPinginfoMap_insert_def e)
next
  case (3 t0 s x key now e' now')
  obtain uninit sys pid dst where xx: "x = (uninit, sys, pid, dst)" by (cases x)
  obtain n s1 where e: "TcpUdpPinginfoMap_expireEntries uninit now s = (n, s1)"
    by (cases "TcpUdpPinginfoMap_expireEntries uninit now s")
  show ?case using tu_expire_spec [OF 3(1) e] 3(3) by (simp add: xx TcpUdpPinginfoMap_insert_def e)
next
  case (4 t0 s x key now now')
  obtain uninit sys pid dst where xx: "x = (uninit, sys, pid, dst)" by (cases x)
  obtain n s1 where e: "TcpUdpPinginfoMap_expireEntries uninit now s = (n, s1)"
    by (cases "TcpUdpPinginfoMap_expireEntries uninit now s")
  show ?case using tu_expire_spec [OF 4(1) e] 4(3) by (simp add: xx TcpUdpPinginfoMap_insert_def e)
next
  case (5 t0 s x key k now now')
  obtain uninit sys pid dst where xx: "x = (uninit, sys, pid, dst)" by (cases x)
  obtain n s1 where e: "TcpUdpPinginfoMap_expireEntries uninit now s = (n, s1)"
    by (cases "TcpUdpPinginfoMap_expireEntries uninit now s")
  show ?case using tu_expire_spec [OF 5(1) e] 5(3) by (simp add: xx TcpUdpPinginfoMap_insert_def e)
qed

section \<open>Pongs\<close>

text \<open>The report of a pong: the delay is the distance from the steady clock at the insert.\<close>

definition tu_success :: "u32 \<Rightarrow> u64 \<Rightarrow> tcpudp_pinginfo_t \<Rightarrow> tcpudp_result_msg_t" where
  "tu_success uninit recv_time p =
     \<lparr>tr_pingid = ti_pingid p, tr_dstip = ip2uint uninit (ti_dstip p), tr_time_ping_send = ti_time_ping_send p,
      tr_network_delay = recv_time - ti_network_delay p, tr_result = PINGWEAVE_RESULT_SUCCESS\<rparr>"

lemma update_pong_Some:
  assumes inv: "tu_inv t0 s" and e: "entries (tu_table s) key = Some e"
  shows "TcpUdpPinginfoMap_update_pong_info uninit key recv_time s =
    (PINGWEAVE_SUCCESS,
     \<lparr>tu_table = snd (table_remove key (tu_table s)),
      tu_queue = offer (tu_success uninit recv_time (entry_value e)) (tu_queue s)\<rparr>)"
proof -
  have "ti_pingid (entry_value e) = key" using inv e by (simp add: tu_inv_def)
  then show ?thesis
    using e by (simp add: TcpUdpPinginfoMap_update_pong_info_def TcpUdpPinginfoMap_remove_def
        tu_success_def bitwrap_max Let_def case_prod_beta)
qed

lemma update_pong_None:
  "entries (tu_table s) key = None \<Longrightarrow>
   TcpUdpPinginfoMap_update_pong_info uninit key recv_time s = (PINGWEAVE_FAILURE, s)"
  by (simp add: TcpUdpPinginfoMap_update_pong_info_def)

lemma update_pong_inv:
  assumes "tu_inv t0 s"
  shows "tu_inv t0 (snd (TcpUdpPinginfoMap_update_pong_info uninit key recv_time s))"
proof (cases "entries (tu_table s) key")
  case (Some e)
  then show ?thesis
    using assms table_inv_remove [of "tu_table s" key] table_ordered_remove [of "tu_table s" t0 key]
    unfolding update_pong_Some [OF assms Some]
    by (auto simp: tu_inv_def table_remove_Some split: if_splits)
qed (simp add: update_pong_None assms)

section \<open>Every ping is accounted for once\<close>

datatype tu_op =
    U_insert u32 time_point time_point time_point u64 string
  | U_pong u32 u64 u64
  | U_size u32 time_point
  | U_take

text \<open>
  One operation of the sending thread, of the receiving thread or of the result thread; the
  result has the identifiers accepted by the table and those handed to the result thread.
\<close>

fun tu_step :: "tu_op \<Rightarrow> TcpUdpPinginfoMap \<Rightarrow> u64 list \<times> u64 list \<times> TcpUdpPinginfoMap" where
  "tu_step (U_insert uninit now now' sys pingid dstip) s =
     (let (r, s') = TcpUdpPinginfoMap_insert uninit now now' sys pingid pingid dstip s
      in (if IS_SUCCESS r then [pingid] else [], [], s'))"
| "tu_step (U_pong uninit pingid recv_time) s =
     (let (_, s') = TcpUdpPinginfoMap_update_pong_info uninit pingid recv_time s in ([], [], s'))"
| "tu_step (U_size uninit now) s = (let (_, s') = TcpUdpPinginfoMap_size uninit now s in ([], [], s'))"
| "tu_step U_take s =
     (let (r, q) = brwq_wait_dequeue_timed (tu_queue s)
      in ([], case r of Some (Some m) \<Rightarrow> [tr_pingid m] | _ \<Rightarrow> [], s\<lparr>tu_queue := q\<rparr>))"

fun tu_run :: "tu_op list \<Rightarrow> TcpUdpPinginfoMap \<Rightarrow> u64 list \<times> u64 list \<times> TcpUdpPinginfoMap" where
  "tu_run [] s = ([], [], s)"
| "tu_run (op # ops) s =
     (let (i, d, s1) = tu_step op s; (is, ds, s2) = tu_run ops s1 in (i @ is, d @ ds, s2))"

fun tu_clock :: "time_point \<Rightarrow> tu_op list \<Rightarrow> bool" where
  "tu_clock t0 [] \<longleftrightarrow> True"
| "tu_clock t0 (U_insert _ now now' _ _ _ # ops) \<longleftrightarrow> t0 \<le> now \<and> now \<le> now' \<and> tu_clock now' ops"
| "tu_clock t0 (_ # ops) \<longleftrightarrow> tu_clock t0 ops"

definition tu_step_ok :: "time_point \<Rightarrow> TcpUdpPinginfoMap \<Rightarrow> u64 list \<times> u64 list \<times> TcpUdpPinginfoMap \<Rightarrow> bool" where
  "tu_step_ok t1 s r \<longleftrightarrow> (case r of (i, d, s') \<Rightarrow>
     tu_inv t1 s' \<and> brwq_room (tu_queue s') = brwq_room (tu_queue s)
     \<and> tu_accounts s + mset i = mset d + tu_accounts s'
     \<and> length i \<le> 1)"

lemma size_tu_accounts:
  "size (tu_accounts s) = length (brwq_pending (tu_queue s)) + length (keys (tu_table s))"
  by (simp add: tu_accounts_def)

lemma tu_insert_ok:
  assumes inv: "tu_inv t0 s" and room: "size (tu_accounts s) < brwq_room (tu_queue s)"
    and t: "t0 \<le> now" "now \<le> now'"
  shows "tu_step_ok now' s (tu_step (U_insert uninit now now' sys pingid dstip) s)"
proof -
  obtain n s1 where e: "TcpUdpPinginfoMap_expireEntries uninit now s = (n, s1)"
    by (cases "TcpUdpPinginfoMap_expireEntries uninit now s")
  note S = tu_expire_spec [OF inv e]
  have a: "tu_accounts s1 = tu_accounts s" using S(5) room by (simp add: size_tu_accounts)
  have i: "tu_inv now' (snd (TcpUdpPinginfoMap_insert uninit now now' sys pingid pingid dstip s))"
    using tu_table.insert_invar [OF inv, of "(uninit, sys, pingid, dstip)" pingid now' now] t by simp
  then show ?thesis
    using a S(4)
    by (auto simp: tu_step_ok_def TcpUdpPinginfoMap_insert_def e Let_def tu_accounts_def keys_put
        split: if_splits)
qed

lemma tu_pong_ok:
  assumes inv: "tu_inv t0 s" and room: "size (tu_accounts s) < brwq_room (tu_queue s)"
  shows "tu_step_ok t0 s (tu_step (U_pong uninit pingid recv_time) s)"
proof (cases "entries (tu_table s) pingid")
  case (Some e)
  have bq: "brwq_inv (tu_queue s)" and ti: "table_inv (tu_table s)"
    and pk: "ti_pingid (entry_value e) = pingid" using inv Some by (auto simp: tu_inv_def)
  have "brwq_pending (offer m (tu_queue s)) = brwq_pending (tu_queue s) @ [m]" for m
    using offer_pending [OF bq] room by (simp add: size_tu_accounts)
  then show ?thesis
    using update_pong_inv [OF inv, of uninit pingid recv_time] keys_remove [OF ti Some] pk bq
    unfolding tu_step.simps update_pong_Some [OF inv Some]
    by (simp add: tu_step_ok_def tu_accounts_def tu_success_def)
qed (simp add: tu_step_ok_def update_pong_None inv)

lemma tu_size_ok:
  assumes inv: "tu_inv t0 s" and room: "size (tu_accounts s) < brwq_room (tu_queue s)"
  shows "tu_step_ok t0 s (tu_step (U_size uninit now) s)"
proof -
  obtain n s1 where e: "TcpUdpPinginfoMap_expireEntries uninit now s = (n, s1)"
    by (cases "TcpUdpPinginfoMap_expireEntries uninit now s")
  show ?thesis using tu_expire_spec [OF inv e] room
    by (simp add: tu_step_ok_def TcpUdpPinginfoMap_size_def e size_tu_accounts)
qed

lemma tu_take_ok:
  assumes inv: "tu_inv t0 s"
  shows "tu_step_ok t0 s (tu_step U_take s)"
proof -
  obtain r q where d: "brwq_wait_dequeue_timed (tu_queue s) = (r, q)"
    by (cases "brwq_wait_dequeue_timed (tu_queue s)")
  have "brwq_inv (tu_queue s)" using inv by (simp add: tu_inv_def)
  note D = brwq_dequeue_spec [OF this d]
  show ?thesis using D inv d
    by (cases "brwq_pending (tu_queue s)") (simp_all add: tu_step_ok_def tu_inv_def tu_accounts_def)
qed

lemma tu_run_accounts:
  assumes "tu_inv t0 s" and "size (tu_accounts s) + length ops \<le> brwq_room (tu_queue s)"
    and "tu_clock t0 ops" and "tu_run ops s = (i, d, s')"
  shows "tu_accounts s + mset i = mset d + tu_accounts s'"
  using assms
proof (induction ops arbitrary: t0 s i d s')
  case (Cons op ops)
  have room: "size (tu_accounts s) < brwq_room (tu_queue s)" using Cons.prems(2) by simp
  obtain t1 where ok: "tu_step_ok t1 s (tu_step op s)" and cl: "tu_clock t1 ops"
  proof (cases op)
    case (U_insert uninit now now' sys pingid dstip)
    then show thesis using that [of now'] tu_insert_ok [OF Cons.prems(1) room] Cons.prems(3) by simp
  qed (use that [of t0] tu_pong_ok tu_size_ok tu_take_ok Cons.prems room in \<open>simp_all del: tu_step.simps\<close>)
  obtain i1 d1 s1 where s1: "tu_step op s = (i1, d1, s1)" by (cases "tu_step op s")
  obtain i2 d2 s2 where s2: "tu_run ops s1 = (i2, d2, s2)" by (cases "tu_run ops s1")
  have r: "i = i1 @ i2" "d = d1 @ d2" "s' = s2" using Cons.prems(4) by (auto simp: s1 s2)
  have acc: "tu_accounts s + mset i1 = mset d1 + tu_accounts s1" and inv: "tu_inv t1 s1"
    and rm: "brwq_room (tu_queue s1) = brwq_room (tu_queue s)" and len: "length i1 \<le> 1"
    using ok by (auto simp: tu_step_ok_def s1)
  have "size (tu_accounts s) + length i1 = length d1 + size (tu_accounts s1)"
    using arg_cong [OF acc, of size] by simp
  then have "size (tu_accounts s1) + length ops \<le> brwq_room (tu_queue s1)"
    using Cons.prems(2) len rm by simp
  from Cons.IH [OF inv this cl s2] acc show ?case
    unfolding r by (simp add: ac_simps) (metis (no_types) add.assoc add.commute)
qed simp

section \<open>Properties of the TCP and UDP table\<close>

lemma tu_inv_new: "tu_inv t0 (TcpUdpPinginfoMap_new (brwq_new MSG_QUEUE_SIZE) th)"
  using brwq_new_inv(1) [where 'a = tcpudp_result_msg_t]
  by (simp add: tu_inv_def TcpUdpPinginfoMap_new_def) (simp add: table_new_def)

lemma tu_new_view:
  "tu_accounts (TcpUdpPinginfoMap_new (brwq_new MSG_QUEUE_SIZE) th) = {#}"
  "MSG_QUEUE_SIZE \<le> brwq_room (tu_queue (TcpUdpPinginfoMap_new (brwq_new MSG_QUEUE_SIZE) th))"
  "entries (tu_table (TcpUdpPinginfoMap_new q th)) = Map.empty"
  "threshold_ms (tu_table (TcpUdpPinginfoMap_new q th)) = th"
  "tu_queue (TcpUdpPinginfoMap_new q th) = q" "keys (tu_table (TcpUdpPinginfoMap_new q th)) = []"
  using brwq_new_inv(2,3) [where 'a = tcpudp_result_msg_t]
  by (simp_all add: tu_accounts_def TcpUdpPinginfoMap_new_def table_new_def keys_def)



text \<open>
  A pong is answered once.  For a ping in the table, \<^verbatim>\<open>update_pong_info\<close> queues one success with
  the time from the insert to the pong (modulo the clock's width) and removes the entry; the
  same pong again is refused and changes nothing.
\<close>

theorem tu_pong_reports_once:
  assumes "tu_inv t0 s" and "entries (tu_table s) key = Some e"
    and "length (brwq_pending (tu_queue s)) < brwq_room (tu_queue s)"
    and "TcpUdpPinginfoMap_update_pong_info uninit key recv_time s = (r, s')"
  shows "r = PINGWEAVE_SUCCESS
    \<and> brwq_pending (tu_queue s') = brwq_pending (tu_queue s) @ [tu_success uninit recv_time (entry_value e)]
    \<and> entries (tu_table s') = (entries (tu_table s))(key := None)
    \<and> TcpUdpPinginfoMap_update_pong_info uninit key recv_time' s' = (PINGWEAVE_FAILURE, s')"
proof -
  have bq: "brwq_inv (tu_queue s)" and ti: "table_inv (tu_table s)" using assms(1) by (auto simp: tu_inv_def)
  have s': "r = PINGWEAVE_SUCCESS" "tu_table s' = snd (table_remove key (tu_table s))"
    "tu_queue s' = offer (tu_success uninit recv_time (entry_value e)) (tu_queue s)"
    using assms(4) unfolding update_pong_Some [OF assms(1,2)] by auto
  have en: "entries (tu_table s') = (entries (tu_table s))(key := None)"
    by (simp add: s' table_remove_Some [OF ti assms(2)])
  then show ?thesis
    using s' offer_pending [OF bq assms(3)] update_pong_None [of s' key] by simp
qed

definition sample_tu :: TcpUdpPinginfoMap where
  "sample_tu = snd (TcpUdpPinginfoMap_insert 0 0 10 5 7 7 ''10.0.0.1''
     (TcpUdpPinginfoMap_new (brwq_new MSG_QUEUE_SIZE) 1000))"

lemma sample_tu_facts:
  "tu_inv 10 sample_tu" "brwq_pending (tu_queue sample_tu) = []"
  "0 < brwq_room (tu_queue sample_tu)"
  "\<exists>e. entries (tu_table sample_tu) 7 = Some e \<and> entry_value e =
     \<lparr>ti_pingid = 7, ti_dstip = ''10.0.0.1'', ti_time_ping_send = 5, ti_network_delay = 10\<rparr>"
proof -
  let ?n = "TcpUdpPinginfoMap_new (brwq_new MSG_QUEUE_SIZE) 1000"
  have x: "TcpUdpPinginfoMap_expireEntries 0 0 ?n = (0, ?n)"
    by (simp add: TcpUdpPinginfoMap_expireEntries_def TcpUdpPinginfoMap_new_def expire_table_def table_new_def)
  have s: "sample_tu = ?n\<lparr>tu_table := table_put 10 7 \<lparr>ti_pingid = 7, ti_dstip = ''10.0.0.1'',
      ti_time_ping_send = 5, ti_network_delay = 10\<rparr> (tu_table ?n)\<rparr>"
    by (simp add: sample_tu_def TcpUdpPinginfoMap_insert_def x tu_new_view get_current_timestamp_ns_def
        convert_clock_to_ns_def duration_cast_def signed_divide_int_def)
  show "tu_inv 10 sample_tu"
    using tu_table.insert_invar [OF tu_inv_new [of 0 1000], of "(0, 5, 7, ''10.0.0.1'')" 7 10 0]
    by (simp add: sample_tu_def)
  show "brwq_pending (tu_queue sample_tu) = []" "0 < brwq_room (tu_queue sample_tu)"
    using tu_new_view(2) [of 1000] brwq_new_inv(2) [where 'a = tcpudp_result_msg_t]
    by (simp_all add: s tu_new_view(5) MSG_QUEUE_SIZE_def)
  show "\<exists>e. entries (tu_table sample_tu) 7 = Some e \<and> entry_value e =
     \<lparr>ti_pingid = 7, ti_dstip = ''10.0.0.1'', ti_time_ping_send = 5, ti_network_delay = 10\<rparr>"
    by (simp add: s)
qed

theorem tu_pong_reports_once_witness:
  "\<exists>r s'. TcpUdpPinginfoMap_update_pong_info 0 7 110 sample_tu = (r, s') \<and> r = PINGWEAVE_SUCCESS
     \<and> map tr_network_delay (brwq_pending (tu_queue s')) = [100]
     \<and> TcpUdpPinginfoMap_update_pong_info 0 7 120 s' = (PINGWEAVE_FAILURE, s')"
proof -
  obtain e where e: "entries (tu_table sample_tu) 7 = Some e"
    "entry_value e = \<lparr>ti_pingid = 7, ti_dstip = ''10.0.0.1'', ti_time_ping_send = 5, ti_network_delay = 10\<rparr>"
    using sample_tu_facts(4) by blast
  obtain r s' where r: "TcpUdpPinginfoMap_update_pong_info 0 7 110 sample_tu = (r, s')"
    by (cases "TcpUdpPinginfoMap_update_pong_info 0 7 110 sample_tu")
  show ?thesis
    using tu_pong_reports_once [OF sample_tu_facts(1) e(1) _ r, of 120] r e(2) sample_tu_facts(2,3)
    by (simp add: tu_success_def)
qed

text \<open>
  A ping without a pong is reported as a failure.  When the table expires entries with room in
  the queue, it queues one failure for each entry of at least the threshold's age, in the order of
  insertion, removes exactly those entries, and keeps all others.
\<close>

theorem tu_expiry_reports_failures:
  assumes "tu_inv t0 s" and "TcpUdpPinginfoMap_expireEntries uninit now s = (n, s')"
    and "length (brwq_pending (tu_queue s)) + length (keys (tu_table s)) \<le> brwq_room (tu_queue s)"
  shows "brwq_pending (tu_queue s') = brwq_pending (tu_queue s) @
      map (\<lambda>k. tu_failure uninit (entry_value (the (entries (tu_table s) k))))
        (filter (\<lambda>k. stale (threshold_ms (tu_table s)) now (the (entries (tu_table s) k)))
          (keys (tu_table s)))
    \<and> (\<forall>k. entries (tu_table s') k =
          (case entries (tu_table s) k of
             Some e \<Rightarrow> if stale (threshold_ms (tu_table s)) now e then None else Some e
           | None \<Rightarrow> None))"
proof -
  note S = tu_expire_spec [OF assms(1,2)]
  have "dead_keys now (tu_table s) =
      filter (\<lambda>k. stale (threshold_ms (tu_table s)) now (the (entries (tu_table s) k))) (keys (tu_table s))"
    using assms(1) by (intro dead_keys_eq [of t0]) (simp add: tu_inv_def)
  then show ?thesis using S(5) [OF assms(3)] S(2) by (simp add: live_def split: option.split)
qed

theorem tu_expiry_reports_failures_witness:
  "\<exists>n s'. TcpUdpPinginfoMap_expireEntries 0 1000000010 sample_tu = (n, s')
     \<and> map tr_result (brwq_pending (tu_queue s')) = [PINGWEAVE_RESULT_FAILURE]
     \<and> entries (tu_table s') 7 = None"
proof -
  let ?n = "TcpUdpPinginfoMap_new (brwq_new MSG_QUEUE_SIZE) 1000"
  obtain n s' where r: "TcpUdpPinginfoMap_expireEntries 0 1000000010 sample_tu = (n, s')"
    by (cases "TcpUdpPinginfoMap_expireEntries 0 1000000010 sample_tu")
  have x: "TcpUdpPinginfoMap_expireEntries 0 0 ?n = (0, ?n)"
    by (simp add: TcpUdpPinginfoMap_expireEntries_def TcpUdpPinginfoMap_new_def expire_table_def table_new_def)
  have k: "keys (tu_table sample_tu) = [7]" "threshold_ms (tu_table sample_tu) = 1000"
    "timestamp (the (entries (tu_table sample_tu) 7)) = 10"
    by (simp_all add: sample_tu_def TcpUdpPinginfoMap_insert_def x tu_new_view keys_put)
  then have st: "stale 1000 1000000010 (the (entries (tu_table sample_tu) 7))"
    by (simp add: stale_def duration_cast_def ns_per_ms_def signed_divide_int_def)
  obtain e where e: "entries (tu_table sample_tu) 7 = Some e" using sample_tu_facts(4) by blast
  have room: "length (brwq_pending (tu_queue sample_tu)) + length (keys (tu_table sample_tu))
      \<le> brwq_room (tu_queue sample_tu)"
    using sample_tu_facts(2,3) k(1) by simp
  show ?thesis
    using tu_expiry_reports_failures [OF sample_tu_facts(1) r room] r k(1,2) st e sample_tu_facts(2)
    by (simp add: tu_failure_def)
qed

end
