(* ===== verification/Pw_RdmaTable.thy ===== *)
theory Pw_RdmaTable
  imports Pw_TableQueue
begin

text \<open>
  \<^verbatim>\<open>RdmaPinginfoMap\<close> of \<^verbatim>\<open>src/src/rdma_ping_info.hpp\<close>: the pings an RDMA client has posted.  Three
  events complete a ping, in any order: the send completion of the ping (CQE), the arrival of
  the pong, and the arrival of the acknowledgement with the delay of the server.  The third of them makes \<^verbatim>\<open>logging\<close> report
  the ping to the result queue and remove it; a ping that stays incomplete is reported as a
  failure when it expires.  State, clocks and \<open>uninit\<close> are as in \<open>Pw_TcpUdpTable\<close>.
\<close>

section \<open>The methods\<close>

definition PINGWEAVE_MASK_INIT :: "32 word" where "PINGWEAVE_MASK_INIT = 0"
definition PINGWEAVE_MASK_RECV_PING_CQE :: "32 word" where "PINGWEAVE_MASK_RECV_PING_CQE = 1"
definition PINGWEAVE_MASK_RECV_PONG :: "32 word" where "PINGWEAVE_MASK_RECV_PONG = 2"
definition PINGWEAVE_MASK_RECV_ACK :: "32 word" where "PINGWEAVE_MASK_RECV_ACK = 4"

definition PINGWEAVE_MASK_RECV :: "32 word" where
  "PINGWEAVE_MASK_RECV =
     PINGWEAVE_MASK_RECV_PING_CQE OR PINGWEAVE_MASK_RECV_PONG OR PINGWEAVE_MASK_RECV_ACK"

lemmas mask_defs = PINGWEAVE_MASK_INIT_def PINGWEAVE_MASK_RECV_PING_CQE_def
  PINGWEAVE_MASK_RECV_PONG_def PINGWEAVE_MASK_RECV_ACK_def PINGWEAVE_MASK_RECV_def

record RdmaPinginfoMap =
  rd_table :: "rdma_pinginfo_t ping_table"
  rd_queue :: RdmaClientQueue

definition RdmaPinginfoMap_new :: "RdmaClientQueue \<Rightarrow> int \<Rightarrow> RdmaPinginfoMap" where
  "RdmaPinginfoMap_new queue threshold = \<lparr>rd_table = table_new threshold, rd_queue = queue\<rparr>"

definition rd_failure :: "u32 \<Rightarrow> rdma_pinginfo_t \<Rightarrow> rdma_result_msg_t" where
  "rd_failure uninit p =
     \<lparr>rr_pingid = ri_pingid p, rr_dstip = ip2uint uninit (ri_dstip p),
      rr_time_ping_send = ri_time_ping_send p, rr_client_delay = 0, rr_network_delay = 0,
      rr_server_delay = 0, rr_result = PINGWEAVE_RESULT_FAILURE\<rparr>"

definition RdmaPinginfoMap_expireEntries ::
    "u32 \<Rightarrow> time_point \<Rightarrow> RdmaPinginfoMap \<Rightarrow> nat \<times> RdmaPinginfoMap" where
  "RdmaPinginfoMap_expireEntries uninit now s =
     (let (n_remove, t, q) =
            expire_table now
              (\<lambda>ping_info q. if ri_recv_cnt ping_info \<ge> 3 then q else offer (rd_failure uninit ping_info) q)
              (rd_table s) (rd_queue s)
      in (n_remove, \<lparr>rd_table = t, rd_queue = q\<rparr>))"

definition RdmaPinginfoMap_remove :: "u64 \<Rightarrow> RdmaPinginfoMap \<Rightarrow> int \<times> RdmaPinginfoMap" where
  "RdmaPinginfoMap_remove key s =
     (let (r, t) = table_remove key (rd_table s) in (r, s\<lparr>rd_table := t\<rparr>))"

definition rd_entry :: "rdma_pingmsg_t \<Rightarrow> string \<Rightarrow> time_point \<Rightarrow> time_point \<Rightarrow> rdma_pinginfo_t" where
  "rd_entry msg dstip system_now steady_now =
     \<lparr>ri_pingid = pm_pingid msg, ri_qpn = pm_qpn msg, ri_gid = pm_gid msg, ri_lid = pm_lid msg,
      ri_dstip = dstip, ri_time_ping_send = get_current_timestamp_ns system_now,
      ri_client_delay = convert_clock_to_ns steady_now, ri_network_delay = 0, ri_server_delay = 0,
      ri_recv_cnt = 0, ri_recv_bitmap = PINGWEAVE_MASK_INIT\<rparr>"

definition RdmaPinginfoMap_insert ::
    "u32 \<Rightarrow> time_point \<Rightarrow> time_point \<Rightarrow> time_point \<Rightarrow> u64 \<Rightarrow> rdma_pingmsg_t \<Rightarrow> string
     \<Rightarrow> RdmaPinginfoMap \<Rightarrow> int \<times> RdmaPinginfoMap" where
  "RdmaPinginfoMap_insert uninit now steady_now system_now key msg dstip s =
     (let (_, s1) = RdmaPinginfoMap_expireEntries uninit now s in
      if entries (rd_table s1) key \<noteq> None then (PINGWEAVE_FAILURE, s1)
      else
        (PINGWEAVE_SUCCESS,
         s1\<lparr>rd_table := table_put steady_now key (rd_entry msg dstip system_now steady_now) (rd_table s1)\<rparr>))"

definition RdmaPinginfoMap_get :: "u64 \<Rightarrow> RdmaPinginfoMap \<Rightarrow> int \<times> rdma_pinginfo_t option" where
  "RdmaPinginfoMap_get key s = table_get key (rd_table s)"

text \<open>The result of a complete ping.\<close>

definition rd_result :: "u32 \<Rightarrow> rdma_pinginfo_t \<Rightarrow> int \<Rightarrow> rdma_result_msg_t" where
  "rd_result uninit ping_info result =
     \<lparr>rr_pingid = ri_pingid ping_info, rr_dstip = ip2uint uninit (ri_dstip ping_info),
      rr_time_ping_send = ri_time_ping_send ping_info,
      rr_client_delay = ri_client_delay ping_info - ri_network_delay ping_info,
      rr_network_delay =
        (if ri_network_delay ping_info > ri_server_delay ping_info
         then ri_network_delay ping_info - ri_server_delay ping_info
         else ri_network_delay ping_info),
      rr_server_delay = ri_server_delay ping_info,
      rr_result = result\<rparr>"

definition RdmaPinginfoMap_logging :: "u32 \<Rightarrow> rdma_pinginfo_t \<Rightarrow> RdmaPinginfoMap \<Rightarrow> RdmaPinginfoMap" where
  "RdmaPinginfoMap_logging uninit ping_info s =
     (if ri_recv_bitmap ping_info = PINGWEAVE_MASK_RECV then
        if ri_recv_cnt ping_info \<noteq> 3 then snd (RdmaPinginfoMap_remove (ri_pingid ping_info) s)
        else if ri_network_delay ping_info \<le> ri_server_delay ping_info then
          let s1 = s\<lparr>rd_queue := offer (rd_result uninit ping_info PINGWEAVE_RESULT_WEIRD) (rd_queue s)\<rparr>
          in snd (RdmaPinginfoMap_remove (ri_pingid ping_info) s1)
        else
          let s1 = s\<lparr>rd_queue := offer (rd_result uninit ping_info PINGWEAVE_RESULT_SUCCESS) (rd_queue s)\<rparr>
          in snd (RdmaPinginfoMap_remove (ri_pingid ping_info) s1)
      else s)"

definition on_ping_cqe :: "u64 \<Rightarrow> rdma_pinginfo_t \<Rightarrow> rdma_pinginfo_t" where
  "on_ping_cqe x p =
     p\<lparr>ri_network_delay :=
         (if ri_network_delay p = 0 then x
          else calc_time_delta_with_modulo x (ri_network_delay p) PINGWEAVE_TIME_CALC_MODULO),
       ri_recv_bitmap := ri_recv_bitmap p OR PINGWEAVE_MASK_RECV_PING_CQE,
       ri_recv_cnt := ri_recv_cnt p + 1\<rparr>"

definition on_pong :: "u64 \<Rightarrow> u64 \<Rightarrow> rdma_pinginfo_t \<Rightarrow> rdma_pinginfo_t" where
  "on_pong recv_time cqe_time p =
     p\<lparr>ri_client_delay :=
         calc_time_delta_with_modulo (ri_client_delay p) recv_time PINGWEAVE_TIME_CALC_MODULO,
       ri_network_delay :=
         (if ri_network_delay p \<noteq> 0
          then calc_time_delta_with_modulo (ri_network_delay p) cqe_time PINGWEAVE_TIME_CALC_MODULO
          else cqe_time),
       ri_recv_bitmap := ri_recv_bitmap p OR PINGWEAVE_MASK_RECV_PONG,
       ri_recv_cnt := ri_recv_cnt p + 1\<rparr>"

definition on_ack :: "u64 \<Rightarrow> rdma_pinginfo_t \<Rightarrow> rdma_pinginfo_t" where
  "on_ack server_delay p =
     p\<lparr>ri_server_delay := server_delay,
       ri_recv_bitmap := ri_recv_bitmap p OR PINGWEAVE_MASK_RECV_ACK,
       ri_recv_cnt := ri_recv_cnt p + 1\<rparr>"

text \<open>Find the entry, assign to its members, and log it: the frame of the three update methods.\<close>

definition rd_update ::
    "u32 \<Rightarrow> (rdma_pinginfo_t \<Rightarrow> rdma_pinginfo_t) \<Rightarrow> u64 \<Rightarrow> RdmaPinginfoMap \<Rightarrow> int \<times> RdmaPinginfoMap" where
  "rd_update uninit f key s =
     (case entries (rd_table s) key of
        None \<Rightarrow> (PINGWEAVE_FAILURE, s)
      | Some e \<Rightarrow>
          (PINGWEAVE_SUCCESS,
           RdmaPinginfoMap_logging uninit (f (entry_value e)) (s\<lparr>rd_table := table_update key f (rd_table s)\<rparr>)))"

definition RdmaPinginfoMap_update_ping_cqe_time ::
    "u32 \<Rightarrow> u64 \<Rightarrow> u64 \<Rightarrow> RdmaPinginfoMap \<Rightarrow> int \<times> RdmaPinginfoMap" where
  "RdmaPinginfoMap_update_ping_cqe_time uninit key x s = rd_update uninit (on_ping_cqe x) key s"

definition RdmaPinginfoMap_update_pong_info ::
    "u32 \<Rightarrow> u64 \<Rightarrow> u64 \<Rightarrow> u64 \<Rightarrow> RdmaPinginfoMap \<Rightarrow> int \<times> RdmaPinginfoMap" where
  "RdmaPinginfoMap_update_pong_info uninit key recv_time cqe_time s =
     rd_update uninit (on_pong recv_time cqe_time) key s"

definition RdmaPinginfoMap_update_ack_info ::
    "u32 \<Rightarrow> u64 \<Rightarrow> u64 \<Rightarrow> RdmaPinginfoMap \<Rightarrow> int \<times> RdmaPinginfoMap" where
  "RdmaPinginfoMap_update_ack_info uninit key server_delay s = rd_update uninit (on_ack server_delay) key s"

definition RdmaPinginfoMap_empty :: "u32 \<Rightarrow> time_point \<Rightarrow> RdmaPinginfoMap \<Rightarrow> bool \<times> RdmaPinginfoMap" where
  "RdmaPinginfoMap_empty uninit now s =
     (let (_, s1) = RdmaPinginfoMap_expireEntries uninit now s in (table_empty (rd_table s1), s1))"

definition RdmaPinginfoMap_size :: "u32 \<Rightarrow> time_point \<Rightarrow> RdmaPinginfoMap \<Rightarrow> nat \<times> RdmaPinginfoMap" where
  "RdmaPinginfoMap_size uninit now s =
     (let (_, s1) = RdmaPinginfoMap_expireEntries uninit now s in (table_size (rd_table s1), s1))"

section \<open>The invariant and the contract\<close>

definition rd_inv :: "time_point \<Rightarrow> RdmaPinginfoMap \<Rightarrow> bool" where
  "rd_inv t0 s \<longleftrightarrow> table_inv (rd_table s) \<and> table_ordered t0 (rd_table s) \<and> brwq_inv (rd_queue s)
     \<and> (\<forall>k e. entries (rd_table s) k = Some e \<longrightarrow> ri_pingid (entry_value e) = k)"

definition rd_accounts :: "RdmaPinginfoMap \<Rightarrow> u64 multiset" where
  "rd_accounts s = mset (map rr_pingid (brwq_pending (rd_queue s))) + mset (keys (rd_table s))"

text \<open>The entries whose expiry is a failure of the ping: fewer than three events arrived.\<close>

definition incomplete :: "rdma_pinginfo_t \<Rightarrow> bool" where
  "incomplete p \<longleftrightarrow> \<not> ri_recv_cnt p \<ge> 3"

lemma rd_expire_spec:
  assumes inv: "rd_inv t0 s" and x: "RdmaPinginfoMap_expireEntries uninit now s = (n, s')"
  defines "failed \<equiv> filter (\<lambda>k. incomplete (entry_value (the (entries (rd_table s) k))))
    (dead_keys now (rd_table s))"
  shows "rd_inv t0 s'"
    and "entries (rd_table s') = (\<lambda>k. live (threshold_ms (rd_table s)) now (entries (rd_table s) k))"
    and "threshold_ms (rd_table s') = threshold_ms (rd_table s)"
    and "rd_accounts s' \<subseteq># rd_accounts s"
    and "length (brwq_pending (rd_queue s)) + length failed \<le> brwq_room (rd_queue s) \<Longrightarrow>
      brwq_pending (rd_queue s') = brwq_pending (rd_queue s) @
        map (\<lambda>k. rd_failure uninit (entry_value (the (entries (rd_table s) k)))) failed"
    and "brwq_room (rd_queue s') = brwq_room (rd_queue s)"
proof -
  let ?t = "rd_table s" and ?q = "rd_queue s" and ?t' = "rd_table s'" and ?q' = "rd_queue s'"
  let ?f = "\<lambda>k. rd_failure uninit (entry_value (the (entries ?t k)))"
  have ti: "table_inv ?t" and to: "table_ordered t0 ?t" and bq: "brwq_inv ?q"
    and pk: "\<And>k e. entries ?t k = Some e \<Longrightarrow> ri_pingid (entry_value e) = k"
    using inv by (auto simp: rd_inv_def)
  have e: "expire_table now (\<lambda>p q. if ri_recv_cnt p \<ge> 3 then q else offer (rd_failure uninit p) q) ?t ?q = (n, ?t', ?q')"
    using x by (auto simp: RdmaPinginfoMap_expireEntries_def split: prod.splits)
  note R = expire_reports [OF ti to bq e, folded incomplete_def, folded failed_def]
  show en: "entries ?t' = (\<lambda>k. live (threshold_ms ?t) now (entries ?t k))"
    and "threshold_ms ?t' = threshold_ms ?t" and "brwq_room ?q' = brwq_room ?q" by (fact R)+
  show "length (brwq_pending ?q) + length failed \<le> brwq_room ?q \<Longrightarrow> brwq_pending ?q' = brwq_pending ?q @ map ?f failed"
    by (rule R(7))
  show "rd_inv t0 s'"
    using R(1,2,5) pk unfolding rd_inv_def en by (auto simp: live_def split: option.splits if_splits)
  have idk: "map (\<lambda>k. rr_pingid (?f k)) failed = failed"
    using pk dead_keys_in_table [OF ti to] unfolding failed_def by (intro map_idI) (fastforce simp: rd_failure_def)
  have "mset failed \<subseteq># mset (dead_keys now ?t)"
    unfolding failed_def by (simp only: mset_filter multiset_filter_subset)
  then have "mset (map rr_pingid (brwq_pending ?q')) \<subseteq># mset (map rr_pingid (brwq_pending ?q)) + mset (dead_keys now ?t)"
    using R(8) [of rr_pingid] unfolding idk by (meson subset_mset.add_left_mono subset_mset.order_trans)
  then show "rd_accounts s' \<subseteq># rd_accounts s"
    unfolding rd_accounts_def expire_keys_split [OF ti to e, symmetric] add.assoc [symmetric]
    by (rule subset_mset.add_right_mono)
qed

text \<open>The remaining arguments of an insert: \<open>uninit\<close>, the system clock, the message, the address.\<close>

interpretation rd_table: expiring_table rd_inv "\<lambda>s. entries (rd_table s)" "\<lambda>s. threshold_ms (rd_table s)"
  "\<lambda>(_, _, msg, _) key. pm_pingid msg = key"
  "\<lambda>(uninit, sys, msg, dstip) now now' key. RdmaPinginfoMap_insert uninit now now' sys key msg dstip"
  "\<lambda>(_, sys, msg, dstip) now' _. rd_entry msg dstip sys now'"
proof (unfold_locales, goal_cases)
  case (1 t0 s x key now' now)
  obtain uninit sys msg dst where xx: "x = (uninit, sys, msg, dst)" by (cases x)
  obtain n s1 where e: "RdmaPinginfoMap_expireEntries uninit now s = (n, s1)"
    by (cases "RdmaPinginfoMap_expireEntries uninit now s")
  note S = rd_expire_spec [OF 1(1) e]
  show ?case using S(1) 1(2,3)
    by (auto simp: xx RdmaPinginfoMap_insert_def e rd_inv_def table_put_def [of _ _ _ "rd_table s1"]
        rd_entry_def intro: table_inv_put [unfolded table_put_def]
          table_ordered_put [unfolded table_put_def] table_ordered_mono)
next
  case (2 t0 s x key now now')
  obtain uninit sys msg dst where xx: "x = (uninit, sys, msg, dst)" by (cases x)
  obtain n s1 where e: "RdmaPinginfoMap_expireEntries uninit now s = (n, s1)"
    by (cases "RdmaPinginfoMap_expireEntries uninit now s")
  show ?case using rd_expire_spec [OF 2(1) e] by (simp add: xx RdmaPinginfoMap_insert_def e)
next
  case (3 t0 s x key now e' now')
  obtain uninit sys msg dst where xx: "x = (uninit, sys, msg, dst)" by (cases x)
  obtain n s1 where e: "RdmaPinginfoMap_expireEntries uninit now s = (n, s1)"
    by (cases "RdmaPinginfoMap_expireEntries uninit now s")
  show ?case using rd_expire_spec [OF 3(1) e] 3(3) by (simp add: xx RdmaPinginfoMap_insert_def e)
next
  case (4 t0 s x key now now')
  obtain uninit sys msg dst where xx: "x = (uninit, sys, msg, dst)" by (cases x)
  obtain n s1 where e: "RdmaPinginfoMap_expireEntries uninit now s = (n, s1)"
    by (cases "RdmaPinginfoMap_expireEntries uninit now s")
  show ?case using rd_expire_spec [OF 4(1) e] 4(3) by (simp add: xx RdmaPinginfoMap_insert_def e)
next
  case (5 t0 s x key k now now')
  obtain uninit sys msg dst where xx: "x = (uninit, sys, msg, dst)" by (cases x)
  obtain n s1 where e: "RdmaPinginfoMap_expireEntries uninit now s = (n, s1)"
    by (cases "RdmaPinginfoMap_expireEntries uninit now s")
  show ?case using rd_expire_spec [OF 5(1) e] 5(3) by (simp add: xx RdmaPinginfoMap_insert_def e)
qed

section \<open>Events\<close>

datatype rd_event = CQE u64 | PONG u64 u64 | ACK u64

fun rd_on :: "rd_event \<Rightarrow> rdma_pinginfo_t \<Rightarrow> rdma_pinginfo_t" where
  "rd_on (CQE x) = on_ping_cqe x"
| "rd_on (PONG recv_time cqe_time) = on_pong recv_time cqe_time"
| "rd_on (ACK server_delay) = on_ack server_delay"

text \<open>The call an event leads to.\<close>

fun rd_handle :: "u32 \<Rightarrow> u64 \<Rightarrow> rd_event \<Rightarrow> RdmaPinginfoMap \<Rightarrow> int \<times> RdmaPinginfoMap" where
  "rd_handle uninit key (CQE x) s = RdmaPinginfoMap_update_ping_cqe_time uninit key x s"
| "rd_handle uninit key (PONG recv_time cqe_time) s =
     RdmaPinginfoMap_update_pong_info uninit key recv_time cqe_time s"
| "rd_handle uninit key (ACK server_delay) s = RdmaPinginfoMap_update_ack_info uninit key server_delay s"

lemma rd_handle_eq: "rd_handle uninit key ev s = rd_update uninit (rd_on ev) key s"
  by (cases ev) (simp_all add: RdmaPinginfoMap_update_ping_cqe_time_def
      RdmaPinginfoMap_update_pong_info_def RdmaPinginfoMap_update_ack_info_def)

lemma rd_on_pingid [simp]: "ri_pingid (rd_on ev p) = ri_pingid p"
  by (cases ev) (simp_all add: on_ping_cqe_def on_pong_def on_ack_def)

definition verdict :: "rdma_pinginfo_t \<Rightarrow> int" where
  "verdict p = (if ri_network_delay p \<le> ri_server_delay p then PINGWEAVE_RESULT_WEIRD
     else PINGWEAVE_RESULT_SUCCESS)"

lemma remove_update: "snd (table_remove key (table_update key f t)) = snd (table_remove key t)"
  by (auto simp: table_remove_def table_update_def split: option.split)

lemma table_update_update: "table_update key g (table_update key f t) = table_update key (\<lambda>v. g (f v)) t"
  by (auto simp: table_update_def split: option.split)

text \<open>What one event does, by how far the ping has got.\<close>

lemma rd_handle_spec:
  assumes inv: "rd_inv t0 s" and e: "entries (rd_table s) key = Some e"
  shows "rd_handle uninit key ev s = (PINGWEAVE_SUCCESS,
    (let p = rd_on ev (entry_value e) in
     if ri_recv_bitmap p \<noteq> PINGWEAVE_MASK_RECV then s\<lparr>rd_table := table_update key (rd_on ev) (rd_table s)\<rparr>
     else if ri_recv_cnt p \<noteq> 3 then s\<lparr>rd_table := snd (table_remove key (rd_table s))\<rparr>
     else \<lparr>rd_table = snd (table_remove key (rd_table s)),
           rd_queue = offer (rd_result uninit p (verdict p)) (rd_queue s)\<rparr>))"
proof -
  have pk: "ri_pingid (entry_value e) = key" using inv e by (simp add: rd_inv_def)
  have rm: "RdmaPinginfoMap_remove key s' = (fst (table_remove key (rd_table s')),
      s'\<lparr>rd_table := snd (table_remove key (rd_table s'))\<rparr>)" for s'
    by (simp add: RdmaPinginfoMap_remove_def case_prod_beta)
  show ?thesis
    unfolding rd_handle_eq rd_update_def e option.case RdmaPinginfoMap_logging_def Let_def
    by (simp add: pk rm remove_update verdict_def)
qed

lemma rd_handle_None:
  "entries (rd_table s) key = None \<Longrightarrow> rd_handle uninit key ev s = (PINGWEAVE_FAILURE, s)"
  by (simp add: rd_handle_eq rd_update_def)

lemma rd_inv_remove:
  assumes "rd_inv t0 s" and "brwq_inv q"
  shows "rd_inv t0 \<lparr>rd_table = snd (table_remove key (rd_table s)), rd_queue = q\<rparr>"
  using assms table_inv_remove [of "rd_table s" key] table_ordered_remove [of "rd_table s" t0 key]
  by (auto simp: rd_inv_def table_remove_def split: option.split)

lemma rd_inv_update:
  assumes "rd_inv t0 s"
  shows "rd_inv t0 (s\<lparr>rd_table := table_update key (rd_on ev) (rd_table s)\<rparr>)"
proof -
  have "\<forall>k e. entries (table_update key (rd_on ev) (rd_table s)) k = Some e \<longrightarrow> ri_pingid (entry_value e) = k"
    using assms by (cases "entries (rd_table s) key") (auto simp: rd_inv_def table_update_def)
  then show ?thesis using assms by (simp add: rd_inv_def)
qed

lemma rd_handle_inv: "rd_inv t0 s \<Longrightarrow> rd_inv t0 (snd (rd_handle uninit key ev s))"
proof (cases "entries (rd_table s) key")
  case (Some e)
  assume inv: "rd_inv t0 s"
  then have q: "brwq_inv (rd_queue s)" by (simp add: rd_inv_def)
  have "rd_inv t0 (s\<lparr>rd_table := snd (table_remove key (rd_table s))\<rparr>)"
    using rd_inv_remove [OF inv q, of key] by (cases s) simp
  then show ?thesis
    using rd_inv_update [OF inv] rd_inv_remove [OF inv] q
    by (simp add: rd_handle_spec [OF inv Some] Let_def)
qed (simp add: rd_handle_None)

section \<open>The three events in any order\<close>

fun rd_handle_all :: "u32 \<Rightarrow> u64 \<Rightarrow> rd_event list \<Rightarrow> RdmaPinginfoMap \<Rightarrow> RdmaPinginfoMap" where
  "rd_handle_all uninit key [] s = s"
| "rd_handle_all uninit key (ev # evs) s = rd_handle_all uninit key evs (snd (rd_handle uninit key ev s))"

definition fresh_entry :: "rdma_pinginfo_t \<Rightarrow> bool" where
  "fresh_entry p \<longleftrightarrow> ri_network_delay p = 0 \<and> ri_server_delay p = 0 \<and> ri_recv_cnt p = 0
     \<and> ri_recv_bitmap p = PINGWEAVE_MASK_INIT"

definition completed :: "u64 \<Rightarrow> u64 \<Rightarrow> u64 \<Rightarrow> u64 \<Rightarrow> rdma_pinginfo_t \<Rightarrow> rdma_pinginfo_t" where
  "completed ping_cqe recv_time pong_cqe server_delay p =
     p\<lparr>ri_client_delay := calc_time_delta_with_modulo (ri_client_delay p) recv_time PINGWEAVE_TIME_CALC_MODULO,
       ri_network_delay := calc_time_delta_with_modulo ping_cqe pong_cqe PINGWEAVE_TIME_CALC_MODULO,
       ri_server_delay := server_delay, ri_recv_cnt := 3, ri_recv_bitmap := PINGWEAVE_MASK_RECV\<rparr>"

lemma entries_update_Some:
  "entries t key = Some e \<Longrightarrow> entries (table_update key f t) key = Some (e\<lparr>entry_value := f (entry_value e)\<rparr>)"
  by (simp add: table_update_def)

lemma three_events:
  assumes inv: "rd_inv t0 s" and e: "entries (rd_table s) key = Some e"
    and b1: "ri_recv_bitmap (rd_on a (entry_value e)) \<noteq> PINGWEAVE_MASK_RECV"
    and b2: "ri_recv_bitmap (rd_on b (rd_on a (entry_value e))) \<noteq> PINGWEAVE_MASK_RECV"
    and p: "rd_on c (rd_on b (rd_on a (entry_value e))) = p" "ri_recv_bitmap p = PINGWEAVE_MASK_RECV" "ri_recv_cnt p = 3"
  shows "rd_handle_all uninit key [a, b, c] s =
    \<lparr>rd_table = snd (table_remove key (rd_table s)), rd_queue = offer (rd_result uninit p (verdict p)) (rd_queue s)\<rparr>"
proof -
  let ?s1 = "s\<lparr>rd_table := table_update key (rd_on a) (rd_table s)\<rparr>"
  let ?s2 = "?s1\<lparr>rd_table := table_update key (rd_on b) (rd_table ?s1)\<rparr>"
  have inv1: "rd_inv t0 ?s1" and inv2: "rd_inv t0 ?s2"
    using rd_inv_update [OF inv] rd_inv_update [OF rd_inv_update [OF inv]] by blast+
  have e1: "entries (rd_table ?s1) key = Some (e\<lparr>entry_value := rd_on a (entry_value e)\<rparr>)"
    using e by (simp add: entries_update_Some)
  have e2: "entries (rd_table ?s2) key = Some (e\<lparr>entry_value := rd_on b (rd_on a (entry_value e))\<rparr>)"
    using e1 by (simp add: entries_update_Some)
  have h1: "snd (rd_handle uninit key a s) = ?s1" using rd_handle_spec [OF inv e] b1 by simp
  have h2: "snd (rd_handle uninit key b ?s1) = ?s2" using rd_handle_spec [OF inv1 e1] b2 by simp
  show ?thesis
    using rd_handle_spec [OF inv2 e2, of uninit c] p
    by (simp add: h1 h2 remove_update)
qed

lemma mset_three:
  assumes "mset evs = {#a, b, c#}"
  shows "evs \<in> {[a, b, c], [a, c, b], [b, a, c], [b, c, a], [c, a, b], [c, b, a]}"
proof -
  have len: "length evs = 3" using arg_cong [OF assms, of size] by simp
  then obtain x y z where xyz: "evs = [x, y, z]"
    by (metis length_Suc_conv length_0_conv numeral_3_eq_3)
  with assms have "{#x, y, z#} = {#a, b, c#}" by simp
  then show ?thesis unfolding xyz by (auto simp: add_eq_conv_ex)
qed

lemma completed_orders:
  assumes "fresh_entry p" and "x \<noteq> 0" and "ct \<noteq> 0"
    and "evs \<in> {[CQE x, PONG rt ct, ACK sd], [CQE x, ACK sd, PONG rt ct], [PONG rt ct, CQE x, ACK sd],
      [PONG rt ct, ACK sd, CQE x], [ACK sd, CQE x, PONG rt ct], [ACK sd, PONG rt ct, CQE x]}"
  shows "\<exists>a b c. evs = [a, b, c] \<and> ri_recv_bitmap (rd_on a p) \<noteq> PINGWEAVE_MASK_RECV
    \<and> ri_recv_bitmap (rd_on b (rd_on a p)) \<noteq> PINGWEAVE_MASK_RECV
    \<and> rd_on c (rd_on b (rd_on a p)) = completed x rt ct sd p"
  using assms
  by (auto simp: fresh_entry_def mask_defs completed_def on_ping_cqe_def on_pong_def on_ack_def)

section \<open>Properties of the RDMA table\<close>

lemma events_any_order:
  assumes "rd_inv t0 s" and "entries (rd_table s) key = Some e" and "fresh_entry (entry_value e)"
    and "x \<noteq> 0" and "ct \<noteq> 0" and "mset evs = {#CQE x, PONG rt ct, ACK sd#}"
  shows "rd_handle_all uninit key evs s =
    \<lparr>rd_table = snd (table_remove key (rd_table s)),
     rd_queue = offer (let p = completed x rt ct sd (entry_value e) in rd_result uninit p (verdict p)) (rd_queue s)\<rparr>"
proof -
  obtain a b c where abc: "evs = [a, b, c]" "ri_recv_bitmap (rd_on a (entry_value e)) \<noteq> PINGWEAVE_MASK_RECV"
    "ri_recv_bitmap (rd_on b (rd_on a (entry_value e))) \<noteq> PINGWEAVE_MASK_RECV"
    "rd_on c (rd_on b (rd_on a (entry_value e))) = completed x rt ct sd (entry_value e)"
    using completed_orders [OF assms(3-5) mset_three [OF assms(6)]] by blast
  show ?thesis
    unfolding abc(1) Let_def
    by (rule three_events [OF assms(1,2) abc(2-4)]) (simp_all add: completed_def)
qed

text \<open>
  C2: the three events of a ping may arrive in any of the six orders.  If the two hardware times are
  not zero, every order reports the same single result, computed from the completed entry, and
  removes the ping: the clock arithmetic does not depend on whether the pong or the send
  completion comes first.
\<close>

theorem rd_events_any_order:
  assumes "rd_inv t0 s" and "entries (rd_table s) key = Some e" and "fresh_entry (entry_value e)"
    and "x \<noteq> 0" and "ct \<noteq> 0" and "mset evs = {#CQE x, PONG rt ct, ACK sd#}"
  shows "rd_handle_all uninit key evs s =
    \<lparr>rd_table = snd (table_remove key (rd_table s)),
     rd_queue = offer (let p = completed x rt ct sd (entry_value e) in rd_result uninit p (verdict p)) (rd_queue s)\<rparr>"
  by (rule events_any_order [OF assms])

lemma unat_of_nat_mod: "unat (of_nat T :: u64) mod 2 ^ 32 = T mod 2 ^ 32"
proof -
  have "(2 :: nat) ^ 32 dvd 2 ^ 64" by (simp add: le_imp_power_dvd)
  then show ?thesis by (simp add: unat_of_nat mod_mod_cancel)
qed

lemma delays_exact:
  assumes "ri_client_delay p = of_nat t_send" and "t_send \<le> t_recv" and "t_recv - t_send < 2 ^ 32"
    and "h_send \<le> h_recv" and "unat sd < h_recv - h_send" and "h_recv - h_send \<le> t_recv - t_send"
    and "q = completed (of_nat h_send) (of_nat t_recv) (of_nat h_recv) sd p"
    and "r = rd_result uninit q (verdict q)"
  shows "rr_result r = PINGWEAVE_RESULT_SUCCESS
    \<and> unat (rr_network_delay r) = h_recv - h_send - unat sd
    \<and> unat (rr_client_delay r) = (t_recv - t_send) - (h_recv - h_send)
    \<and> unat (rr_client_delay r) + unat (rr_network_delay r) + unat (rr_server_delay r) = t_recv - t_send"
proof -
  let ?n = "calc_time_delta_with_modulo (of_nat h_send) (of_nat h_recv) PINGWEAVE_TIME_CALC_MODULO"
  let ?c = "calc_time_delta_with_modulo (of_nat t_send) (of_nat t_recv) PINGWEAVE_TIME_CALC_MODULO"
  have n: "unat ?n = h_recv - h_send" and c: "unat ?c = t_recv - t_send"
    using assms(2-6) unat_of_nat_mod by (simp_all add: delta_modulo_exact)
  have lt: "sd < ?n" and le: "?n \<le> ?c"
    using assms(5,6) n c by (simp_all add: word_less_nat_alt word_le_nat_alt)
  have sub: "unat (?n - sd) = unat ?n - unat sd" "unat (?c - ?n) = unat ?c - unat ?n"
    using lt le by (simp_all add: unat_sub)
  have f: "ri_network_delay q = ?n" "ri_client_delay q = ?c" "ri_server_delay q = sd"
    using assms(1,7) by (simp_all add: completed_def)
  have v: "verdict q = PINGWEAVE_RESULT_SUCCESS" using lt by (simp add: verdict_def f)
  show ?thesis
    using assms(5,6) sub n c lt unfolding assms(8) v by (simp add: rd_result_def f)
qed


text \<open>An insert leaves room in the queue if there was room for a failure of every entry.\<close>

lemma rd_insert_room:
  assumes inv: "rd_inv t0 s" and room: "length (brwq_pending (rd_queue s)) + length (keys (rd_table s)) < brwq_room (rd_queue s)"
    and i: "RdmaPinginfoMap_insert uninit now now' sys key msg dstip s = (r, s')"
  shows "length (brwq_pending (rd_queue s')) < brwq_room (rd_queue s')"
proof -
  obtain n s1 where e: "RdmaPinginfoMap_expireEntries uninit now s = (n, s1)"
    by (cases "RdmaPinginfoMap_expireEntries uninit now s")
  have "rd_queue s' = rd_queue s1" using i by (auto simp: RdmaPinginfoMap_insert_def e split: if_splits)
  moreover have "size (rd_accounts s1) \<le> size (rd_accounts s)"
    using rd_expire_spec(4) [OF inv e] by (rule size_mset_mono)
  ultimately show ?thesis using room rd_expire_spec(6) [OF inv e] by (simp add: rd_accounts_def)
qed

section \<open>At most one result per ping\<close>

datatype rd_op =
    R_insert u32 time_point time_point time_point rdma_pingmsg_t string
  | R_event u32 u64 rd_event
  | R_size u32 time_point
  | R_take

fun rd_step :: "rd_op \<Rightarrow> RdmaPinginfoMap \<Rightarrow> u64 list \<times> u64 list \<times> RdmaPinginfoMap" where
  "rd_step (R_insert uninit now now' sys msg dstip) s =
     (let (r, s') = RdmaPinginfoMap_insert uninit now now' sys (pm_pingid msg) msg dstip s
      in (if IS_SUCCESS r then [pm_pingid msg] else [], [], s'))"
| "rd_step (R_event uninit key ev) s = ([], [], snd (rd_handle uninit key ev s))"
| "rd_step (R_size uninit now) s = ([], [], snd (RdmaPinginfoMap_size uninit now s))"
| "rd_step R_take s =
     (let (r, q) = brwq_wait_dequeue_timed (rd_queue s)
      in ([], case r of Some (Some m) \<Rightarrow> [rr_pingid m] | _ \<Rightarrow> [], s\<lparr>rd_queue := q\<rparr>))"

fun rd_run :: "rd_op list \<Rightarrow> RdmaPinginfoMap \<Rightarrow> u64 list \<times> u64 list \<times> RdmaPinginfoMap" where
  "rd_run [] s = ([], [], s)"
| "rd_run (op # ops) s =
     (let (i, d, s1) = rd_step op s; (is, ds, s2) = rd_run ops s1 in (i @ is, d @ ds, s2))"

fun rd_clock :: "time_point \<Rightarrow> rd_op list \<Rightarrow> bool" where
  "rd_clock t0 [] \<longleftrightarrow> True"
| "rd_clock t0 (R_insert _ now now' _ _ _ # ops) \<longleftrightarrow> t0 \<le> now \<and> now \<le> now' \<and> rd_clock now' ops"
| "rd_clock t0 (_ # ops) \<longleftrightarrow> rd_clock t0 ops"

definition rd_step_ok :: "time_point \<Rightarrow> RdmaPinginfoMap \<Rightarrow> u64 list \<times> u64 list \<times> RdmaPinginfoMap \<Rightarrow> bool" where
  "rd_step_ok t1 s r \<longleftrightarrow> (case r of (i, d, s') \<Rightarrow>
     rd_inv t1 s' \<and> mset d + rd_accounts s' \<subseteq># rd_accounts s + mset i)"

lemma rd_insert_ok:
  assumes inv: "rd_inv t0 s" and t: "t0 \<le> now" "now \<le> now'"
  shows "rd_step_ok now' s (rd_step (R_insert uninit now now' sys msg dstip) s)"
proof -
  obtain n s1 where e: "RdmaPinginfoMap_expireEntries uninit now s = (n, s1)"
    by (cases "RdmaPinginfoMap_expireEntries uninit now s")
  have a: "rd_accounts s1 \<subseteq># rd_accounts s" by (rule rd_expire_spec(4) [OF inv e])
  have i: "rd_inv now' (snd (RdmaPinginfoMap_insert uninit now now' sys (pm_pingid msg) msg dstip s))"
    using rd_table.insert_invar [OF inv, of "(uninit, sys, msg, dstip)" "pm_pingid msg" now' now] t by simp
  show ?thesis
    using a i by (auto simp: rd_step_ok_def RdmaPinginfoMap_insert_def e Let_def)
      (simp add: rd_accounts_def keys_put)
qed

lemma rd_event_ok:
  assumes inv: "rd_inv t0 s"
  shows "rd_step_ok t0 s (rd_step (R_event uninit key ev) s)"
proof (cases "entries (rd_table s) key")
  case (Some e)
  have q: "brwq_inv (rd_queue s)" and ti: "table_inv (rd_table s)"
    and pk: "ri_pingid (entry_value e) = key" using inv Some by (auto simp: rd_inv_def)
  have k: "mset (keys (rd_table s)) = add_mset key (mset (keys (snd (table_remove key (rd_table s)))))"
    by (rule keys_remove [OF ti Some])
  have o: "mset (map rr_pingid (brwq_pending (offer (rd_result uninit (rd_on ev (entry_value e)) c) (rd_queue s))))
      \<subseteq># add_mset key (mset (map rr_pingid (brwq_pending (rd_queue s))))" for c
    using offer_pending_cases [OF q, of "rd_result uninit (rd_on ev (entry_value e)) c"] pk
    by (auto simp: rd_result_def)
  have "rd_accounts (snd (rd_handle uninit key ev s)) \<subseteq># rd_accounts s"
    using k subset_mset.add_right_mono [OF o]
    by (auto simp: rd_handle_spec [OF inv Some] Let_def rd_accounts_def table_update_view)
  then show ?thesis using rd_handle_inv [OF inv, of uninit key ev] by (simp add: rd_step_ok_def)
qed (simp add: rd_step_ok_def rd_handle_None inv)

lemma rd_size_ok:
  assumes inv: "rd_inv t0 s"
  shows "rd_step_ok t0 s (rd_step (R_size uninit now) s)"
proof -
  obtain n s1 where e: "RdmaPinginfoMap_expireEntries uninit now s = (n, s1)"
    by (cases "RdmaPinginfoMap_expireEntries uninit now s")
  show ?thesis using rd_expire_spec(1,4) [OF inv e] by (simp add: rd_step_ok_def RdmaPinginfoMap_size_def e)
qed

lemma rd_take_ok:
  assumes inv: "rd_inv t0 s"
  shows "rd_step_ok t0 s (rd_step R_take s)"
proof -
  obtain r q where d: "brwq_wait_dequeue_timed (rd_queue s) = (r, q)"
    by (cases "brwq_wait_dequeue_timed (rd_queue s)")
  have "brwq_inv (rd_queue s)" using inv by (simp add: rd_inv_def)
  note D = brwq_dequeue_spec [OF this d]
  show ?thesis using D inv d
    by (cases "brwq_pending (rd_queue s)") (simp_all add: rd_step_ok_def rd_inv_def rd_accounts_def)
qed

lemma rd_run_accounts:
  assumes "rd_inv t0 s" and "rd_clock t0 ops" and "rd_run ops s = (i, d, s')"
  shows "mset d + rd_accounts s' \<subseteq># rd_accounts s + mset i"
  using assms
proof (induction ops arbitrary: t0 s i d s')
  case (Cons op ops)
  obtain t1 where ok: "rd_step_ok t1 s (rd_step op s)" and cl: "rd_clock t1 ops"
  proof (cases op)
    case (R_insert uninit now now' sys msg dstip)
    then show thesis using that [of now'] rd_insert_ok [OF Cons.prems(1)] Cons.prems(2) by simp
  qed (use that [of t0] rd_event_ok rd_size_ok rd_take_ok Cons.prems in \<open>simp_all del: rd_step.simps\<close>)
  obtain i1 d1 s1 where s1: "rd_step op s = (i1, d1, s1)" by (cases "rd_step op s")
  obtain i2 d2 s2 where s2: "rd_run ops s1 = (i2, d2, s2)" by (cases "rd_run ops s1")
  have r: "i = i1 @ i2" "d = d1 @ d2" "s' = s2" using Cons.prems(3) by (auto simp: s1 s2)
  have acc: "mset d1 + rd_accounts s1 \<subseteq># rd_accounts s + mset i1" and inv: "rd_inv t1 s1"
    using ok by (auto simp: rd_step_ok_def s1)
  have "mset d1 + (mset d2 + rd_accounts s2) \<subseteq># mset d1 + (rd_accounts s1 + mset i2)"
    using Cons.IH [OF inv cl s2] by (rule subset_mset.add_left_mono)
  also have "\<dots> \<subseteq># rd_accounts s + mset i1 + mset i2"
    using subset_mset.add_right_mono [OF acc, of "mset i2"] by (simp add: add.assoc)
  finally show ?case unfolding r by (simp add: add.assoc)
qed simp

lemma rd_inv_new: "rd_inv t0 (RdmaPinginfoMap_new (brwq_new MSG_QUEUE_SIZE) th)"
  using brwq_new_inv(1) [where 'a = rdma_result_msg_t]
  by (simp add: rd_inv_def RdmaPinginfoMap_new_def) (simp add: table_new_def)

lemma rd_new_view:
  "rd_accounts (RdmaPinginfoMap_new (brwq_new MSG_QUEUE_SIZE) th) = {#}"
  "MSG_QUEUE_SIZE \<le> brwq_room (rd_queue (RdmaPinginfoMap_new (brwq_new MSG_QUEUE_SIZE) th))"
  "entries (rd_table (RdmaPinginfoMap_new q th)) = Map.empty"
  "threshold_ms (rd_table (RdmaPinginfoMap_new q th)) = th"
  "rd_queue (RdmaPinginfoMap_new q th) = q" "keys (rd_table (RdmaPinginfoMap_new q th)) = []"
  using brwq_new_inv(2,3) [where 'a = rdma_result_msg_t]
  by (simp_all add: rd_accounts_def RdmaPinginfoMap_new_def table_new_def keys_def)

text \<open>
  C4: at most one result per ping.  In every interleaving of the sender, of completion events in any
  number and order (also duplicated or for unknown identifiers), of expiry, and of the result
  thread, the identifiers reported, those queued and those still in the table are together a
  sub-multiset of the identifiers the table accepted; also when the queue refuses results.
\<close>

theorem rd_at_most_one_result:
  assumes "rd_run ops (RdmaPinginfoMap_new (brwq_new MSG_QUEUE_SIZE) th) = (sent, reported, s')"
    and "rd_clock t0 ops"
  shows "mset reported + mset (map rr_pingid (brwq_pending (rd_queue s'))) + mset (keys (rd_table s'))
    \<subseteq># mset sent"
  using rd_run_accounts [OF rd_inv_new assms(2,1)] unfolding rd_new_view(1)
  by (simp add: rd_accounts_def add.assoc)

definition sample_ping :: rdma_pingmsg_t where
  "sample_ping = \<lparr>pm_pingid = 7, pm_qpn = 1, pm_gid = replicate 16 0, pm_lid = 2, pm_time = 0\<rparr>"

theorem rd_at_most_one_result_witness:
  "\<exists>sent reported s'.
     rd_run [R_insert 0 0 1 5 sample_ping ''10.0.0.1'', R_event 0 7 (ACK 5), R_event 0 7 (PONG 900 700),
             R_event 0 7 (CQE 300), R_event 0 7 (CQE 300), R_take]
       (RdmaPinginfoMap_new (brwq_new MSG_QUEUE_SIZE) 1000) = (sent, reported, s')
     \<and> mset reported + mset (map rr_pingid (brwq_pending (rd_queue s'))) + mset (keys (rd_table s'))
         \<subseteq># mset sent"
  (is "\<exists>sent reported s'. ?run = _ \<and> _")
proof -
  obtain sent reported s' where r: "?run = (sent, reported, s')" by (cases ?run)
  have "mset reported + mset (map rr_pingid (brwq_pending (rd_queue s'))) + mset (keys (rd_table s'))
      \<subseteq># mset sent"
    by (rule rd_at_most_one_result [OF r, of 0]) simp
  with r show ?thesis by blast
qed

text \<open>
  C5: an incomplete ping is reported as a failure.  When the table expires entries with room in the
  queue, it queues one failure for each entry of at least the threshold's age with fewer than three
  events, in the order of insertion, and removes exactly the entries of that age.
\<close>

theorem rd_expiry_reports_failures:
  assumes "rd_inv t0 s" and "RdmaPinginfoMap_expireEntries uninit now s = (n, s')"
    and "length (brwq_pending (rd_queue s)) + length (keys (rd_table s)) \<le> brwq_room (rd_queue s)"
  shows "brwq_pending (rd_queue s') = brwq_pending (rd_queue s) @
      map (\<lambda>k. rd_failure uninit (entry_value (the (entries (rd_table s) k))))
        (filter (\<lambda>k. stale (threshold_ms (rd_table s)) now (the (entries (rd_table s) k))
             \<and> ri_recv_cnt (entry_value (the (entries (rd_table s) k))) < 3)
          (keys (rd_table s)))
    \<and> (\<forall>k. entries (rd_table s') k =
          (case entries (rd_table s) k of
             Some e \<Rightarrow> if stale (threshold_ms (rd_table s)) now e then None else Some e
           | None \<Rightarrow> None))"
proof -
  note S = rd_expire_spec [OF assms(1,2)]
  let ?P = "\<lambda>k. stale (threshold_ms (rd_table s)) now (the (entries (rd_table s) k))"
  let ?f = "filter (\<lambda>k. incomplete (entry_value (the (entries (rd_table s) k)))) (dead_keys now (rd_table s))"
  have d: "dead_keys now (rd_table s) = filter ?P (keys (rd_table s))"
    using assms(1) by (intro dead_keys_eq [of t0]) (simp add: rd_inv_def)
  have f: "?f = filter (\<lambda>k. ?P k \<and> ri_recv_cnt (entry_value (the (entries (rd_table s) k))) < 3)
      (keys (rd_table s))"
    unfolding d filter_filter incomplete_def by (intro filter_cong) auto
  have "length ?f \<le> length (keys (rd_table s))" unfolding f by (rule length_filter_le)
  then have "length (brwq_pending (rd_queue s)) + length ?f \<le> brwq_room (rd_queue s)"
    using assms(3) by linarith
  from S(5) [OF this] show ?thesis using S(2) unfolding f by (simp add: live_def split: option.split)
qed

definition sample_rd :: RdmaPinginfoMap where
  "sample_rd = snd (RdmaPinginfoMap_insert 0 0 10 5 7 sample_ping ''10.0.0.1''
     (RdmaPinginfoMap_new (brwq_new MSG_QUEUE_SIZE) 1000))"

lemma sample_rd_eq:
  "sample_rd = (RdmaPinginfoMap_new (brwq_new MSG_QUEUE_SIZE) 1000)
     \<lparr>rd_table := table_put 10 7 (rd_entry sample_ping ''10.0.0.1'' 5 10)
        (rd_table (RdmaPinginfoMap_new (brwq_new MSG_QUEUE_SIZE) 1000))\<rparr>"
proof -
  let ?n = "RdmaPinginfoMap_new (brwq_new MSG_QUEUE_SIZE) 1000"
  have x: "RdmaPinginfoMap_expireEntries 0 0 ?n = (0, ?n)"
    by (simp add: RdmaPinginfoMap_expireEntries_def RdmaPinginfoMap_new_def expire_table_def table_new_def)
  show ?thesis by (simp add: sample_rd_def RdmaPinginfoMap_insert_def x rd_new_view)
qed

lemma sample_rd_facts:
  "rd_inv 10 sample_rd" "brwq_pending (rd_queue sample_rd) = []" "0 < brwq_room (rd_queue sample_rd)"
  "entries (rd_table sample_rd) 7 =
     Some \<lparr>entry_value = rd_entry sample_ping ''10.0.0.1'' 5 10, timestamp = 10, listIter = 0\<rparr>"
  "keys (rd_table sample_rd) = [7]" "threshold_ms (rd_table sample_rd) = 1000"
proof -
  show "rd_inv 10 sample_rd"
    using rd_table.insert_invar [OF rd_inv_new [of 0 1000], of "(0, 5, sample_ping, ''10.0.0.1'')" 7 10 0]
    by (simp add: sample_rd_def sample_ping_def)
  show "brwq_pending (rd_queue sample_rd) = []" "0 < brwq_room (rd_queue sample_rd)"
    using rd_new_view(2) [of 1000] brwq_new_inv(2) [where 'a = rdma_result_msg_t]
    by (simp_all add: sample_rd_eq rd_new_view(5) MSG_QUEUE_SIZE_def)
  show "entries (rd_table sample_rd) 7 =
     Some \<lparr>entry_value = rd_entry sample_ping ''10.0.0.1'' 5 10, timestamp = 10, listIter = 0\<rparr>"
    by (simp add: sample_rd_eq) (simp add: RdmaPinginfoMap_new_def table_new_def)
  show "keys (rd_table sample_rd) = [7]" "threshold_ms (rd_table sample_rd) = 1000"
    by (simp_all add: sample_rd_eq keys_put rd_new_view)
qed

theorem rd_expiry_reports_failures_witness:
  "\<exists>n s'. RdmaPinginfoMap_expireEntries 0 1000000010 sample_rd = (n, s')
     \<and> map rr_result (brwq_pending (rd_queue s')) = [PINGWEAVE_RESULT_FAILURE]
     \<and> entries (rd_table s') 7 = None"
proof -
  obtain n s' where r: "RdmaPinginfoMap_expireEntries 0 1000000010 sample_rd = (n, s')"
    by (cases "RdmaPinginfoMap_expireEntries 0 1000000010 sample_rd")
  have st: "stale 1000 1000000010 \<lparr>entry_value = rd_entry sample_ping ''10.0.0.1'' 5 10, timestamp = 10, listIter = 0\<rparr>"
    by (simp add: stale_def duration_cast_def ns_per_ms_def signed_divide_int_def)
  have room: "length (brwq_pending (rd_queue sample_rd)) + length (keys (rd_table sample_rd))
      \<le> brwq_room (rd_queue sample_rd)"
    using sample_rd_facts(2,3,5) by simp
  show ?thesis
    using rd_expiry_reports_failures [OF sample_rd_facts(1) r room] r st
    by (simp add: sample_rd_facts rd_failure_def) (simp add: rd_entry_def)
qed

theorem rd_events_any_order_witness:
  "rd_handle_all 0 7 [PONG 910 800, ACK 100, CQE 300] sample_rd =
   rd_handle_all 0 7 [CQE 300, PONG 910 800, ACK 100] sample_rd
   \<and> map rr_network_delay (brwq_pending (rd_queue (rd_handle_all 0 7 [PONG 910 800, ACK 100, CQE 300] sample_rd)))
     = [400]"
proof -
  let ?e = "\<lparr>entry_value = rd_entry sample_ping ''10.0.0.1'' 5 10, timestamp = 10, listIter = 0\<rparr>"
  have fr: "fresh_entry (entry_value ?e)" by (simp add: fresh_entry_def rd_entry_def)
  have q: "brwq_inv (rd_queue sample_rd)" using sample_rd_facts(1) by (simp add: rd_inv_def)
  have d: "calc_time_delta_with_modulo 300 800 PINGWEAVE_TIME_CALC_MODULO = 500"
    by (simp add: calc_time_delta_with_modulo_def PINGWEAVE_TIME_CALC_MODULO_def)
  let ?p = "completed 300 910 800 100 (entry_value ?e)"
  let ?m = "rd_result 0 ?p (verdict ?p)"
  have R: "rd_handle_all 0 7 evs sample_rd =
      \<lparr>rd_table = snd (table_remove 7 (rd_table sample_rd)), rd_queue = offer ?m (rd_queue sample_rd)\<rparr>"
    if "mset evs = {#CQE 300, PONG 910 800, ACK 100#}" for evs
    using rd_events_any_order [OF sample_rd_facts(1,4) fr _ _ that, of 0] by (simp add: Let_def)
  have n: "rr_network_delay ?m = 400"
    by (simp only: rd_result_def completed_def rdma_pinginfo_t.simps rdma_result_msg_t.simps d) simp
  have "brwq_pending (offer ?m (rd_queue sample_rd)) = [?m]"
    using offer_pending [OF q] sample_rd_facts(2,3) by simp
  moreover have "mset [PONG 910 800, ACK 100, CQE 300] = {#CQE 300, PONG 910 800, ACK 100#}"
    unfolding mset.simps by (metis add_mset_commute)
  moreover have "mset [CQE 300, PONG 910 800, ACK 100] = {#CQE 300, PONG 910 800, ACK 100#}" by simp
  ultimately show ?thesis using n by (simp only: R) simp
qed


end
