(* ===== verification/Pw_Ipc.thy ===== *)
theory Pw_Ipc
  imports Pw_Ini Pw_Fifo
begin

text \<open>
  \<^verbatim>\<open>ProducerQueue\<close> of \<^verbatim>\<open>src/src/ipc_producer.hpp\<close>: the ring of messages in shared memory through which
  a measuring process hands its reports to the Python agent.  The reader is
  \<^verbatim>\<open>ConsumerQueue.read_messages\<close> of \<^verbatim>\<open>src/src/ipc_consumer.py\<close>.  The memory of a slot is the
  list of its \<^verbatim>\<open>IPC_MESSAGE_SIZE\<close> characters.  The results of the system calls are arguments; the
  names of the existing segments are part of the state.  A write and a read are one step each:
  the producer alone stores \<^verbatim>\<open>tail\<close> and the consumer alone stores \<^verbatim>\<open>head\<close>.
\<close>

section \<open>The shared memory\<close>

record SharedData =
  messages :: "nat \<Rightarrow> string"
  head :: nat
  tail :: nat

record ProducerQueue =
  shm_fd :: int
  shdata :: "SharedData option"
  prefix_name :: string
  shm_name :: string
  n_dropped_msgs :: u64

text \<open>\<^verbatim>\<open>strncpy\<close> copies the text up to its terminator and fills the rest with zero characters.\<close>

definition strncpy :: "string \<Rightarrow> nat \<Rightarrow> string" where
  "strncpy s n = take n (c_str s) @ replicate (n - length (c_str s)) nul"

definition full_name :: "string \<Rightarrow> string \<Rightarrow> string" where
  "full_name prefix shm = prefix @ ''_'' @ shm"

text \<open>
  \<^verbatim>\<open>initSharedMemory\<close>: the outcomes of \<^verbatim>\<open>shm_open\<close>, \<^verbatim>\<open>ftruncate\<close> and \<^verbatim>\<open>mmap\<close> (the latter with the
  old contents of the segment), the names in use before, and the queue and names after; an
  exception leaves the names as they are then.
\<close>

definition initSharedMemory ::
    "int \<Rightarrow> bool \<Rightarrow> (nat \<Rightarrow> string) option \<Rightarrow> ProducerQueue \<Rightarrow> string set
     \<Rightarrow> (exn + ProducerQueue) \<times> string set" where
  "initSharedMemory fd truncated mapped q names =
     (let fullName = full_name (prefix_name q) (shm_name q) in
      if fd = -1 then (Inl (Runtime_error ''Failed to create shared memory''), names)
      else
        let names1 = insert (c_str fullName) names in
        if \<not> truncated then
          (Inl (Runtime_error ''Failed to set size of shared memory''), names1 - {c_str fullName})
        else case mapped of
            None \<Rightarrow> (Inl (Runtime_error ''Failed to map shared memory''), names1 - {c_str fullName})
          | Some mem \<Rightarrow>
              (Inr (q\<lparr>shm_fd := fd, shdata := Some \<lparr>messages = mem, head = 0, tail = 0\<rparr>\<rparr>), names1))"

text \<open>The constructor: the log level must be configured, then the memory is set up.\<close>

definition ProducerQueue_new ::
    "level_enum option \<Rightarrow> int \<Rightarrow> bool \<Rightarrow> (nat \<Rightarrow> string) option \<Rightarrow> string \<Rightarrow> string \<Rightarrow> string set
     \<Rightarrow> (exn + ProducerQueue) \<times> string set" where
  "ProducerQueue_new log_level fd truncated mapped prefix shm names =
     (let q = \<lparr>shm_fd = -1, shdata = None, prefix_name = prefix, shm_name = shm, n_dropped_msgs = 0\<rparr> in
      case log_level of
        None \<Rightarrow> (Inl (Runtime_error (''Failed to get a param '' @ [CHR 0x27] @ ''logger_ipc_process_producer'' @ [CHR 0x27])), names)
      | Some _ \<Rightarrow> initSharedMemory fd truncated mapped q names)"

section \<open>Operations\<close>

text \<open>The body of \<^verbatim>\<open>writeMessage\<close> on the mapped memory.\<close>

definition ring_write :: "SharedData \<Rightarrow> string \<Rightarrow> bool \<times> SharedData" where
  "ring_write d message =
     (if message = [] then (True, d)
      else
        let headVal = head d; tailVal = tail d;
            nextTail = (tailVal + 1) mod IPC_BUFFER_SIZE
        in if nextTail = headVal then (False, d)
           else
             (True, d\<lparr>messages := (messages d)(tailVal := strncpy message (IPC_MESSAGE_SIZE - 1) @ [nul]),
                      tail := nextTail\<rparr>))"

definition writeMessage :: "ProducerQueue \<Rightarrow> string \<Rightarrow> bool \<times> ProducerQueue" where
  "writeMessage q message =
     (let (ok, d) = ring_write (the (shdata q)) message in
      if ok then (True, q\<lparr>shdata := Some d\<rparr>)
      else (False, q\<lparr>shdata := Some d, n_dropped_msgs := n_dropped_msgs q + 1\<rparr>))"

definition discardAllPendingMessages :: "ProducerQueue \<Rightarrow> ProducerQueue" where
  "discardAllPendingMessages q =
     (let d = the (shdata q); tailVal = tail d in q\<lparr>shdata := Some (d\<lparr>head := tailVal\<rparr>)\<rparr>)"

text \<open>The destructor: discards, unmaps, closes, and unlinks the name it was given.\<close>

definition ProducerQueue_destroy :: "ProducerQueue \<Rightarrow> string set \<Rightarrow> ProducerQueue \<times> string set" where
  "ProducerQueue_destroy q names =
     (let q1 = discardAllPendingMessages q;
          q2 = q1\<lparr>shdata := None\<rparr>
      in if shm_fd q2 \<noteq> -1 then (q2\<lparr>shm_fd := -1\<rparr>, names - {c_str (shm_name q2)}) else (q2, names))"

text \<open>
  \<^verbatim>\<open>waitConsumerToReadAll\<close>: \<open>obs i\<close> is what iteration \<open>i\<close> of the loop reads (head, tail, clock).
  \<open>Some True\<close> is the exit with an empty buffer, \<open>Some False\<close> the time-out, and \<open>None\<close> an iteration
  count that was not enough.
\<close>

fun wait_loop :: "(nat \<Rightarrow> nat \<times> nat \<times> time_point) \<Rightarrow> time_point \<Rightarrow> int \<Rightarrow> nat \<Rightarrow> nat \<Rightarrow> bool option" where
  "wait_loop obs startTime timeoutMs i 0 = None"
| "wait_loop obs startTime timeoutMs i (Suc fuel) =
     (let (headVal, tailVal, now) = obs i in
      if headVal = tailVal then Some True
      else if duration_cast ns_per_ms (now - startTime) > timeoutMs then Some False
      else wait_loop obs startTime timeoutMs (Suc i) fuel)"

text \<open>The reader: one iteration of its loop, and the loop.\<close>

definition rstrip_nul :: "string \<Rightarrow> string" where
  "rstrip_nul s = rev (dropWhile (\<lambda>c. c = nul) (rev s))"

definition ring_read :: "SharedData \<Rightarrow> string option \<times> SharedData" where
  "ring_read d =
     (if head d \<noteq> tail d then
        let head_index = head d;
            msg_str = rstrip_nul (messages d head_index);
            new_head = (head_index + 1) mod IPC_BUFFER_SIZE
        in (Some msg_str, d\<lparr>head := new_head\<rparr>)
      else (None, d))"

fun read_messages :: "nat \<Rightarrow> SharedData \<Rightarrow> string list \<times> SharedData" where
  "read_messages 0 d = ([], d)"
| "read_messages (Suc fuel) d =
     (case ring_read d of
        (None, d') \<Rightarrow> ([], d')
      | (Some m, d') \<Rightarrow> (let (ms, d'') = read_messages fuel d' in (m # ms, d'')))"

section \<open>The ring is a bounded channel\<close>

definition ring_inv :: "SharedData \<Rightarrow> bool" where
  "ring_inv d \<longleftrightarrow> head d < IPC_BUFFER_SIZE \<and> tail d < IPC_BUFFER_SIZE"

definition ring_count :: "SharedData \<Rightarrow> nat" where
  "ring_count d = gap IPC_BUFFER_SIZE (head d) (tail d)"

definition ring_pending :: "SharedData \<Rightarrow> string list" where
  "ring_pending d =
     map (\<lambda>j. rstrip_nul (messages d ((head d + j) mod IPC_BUFFER_SIZE))) [0..<ring_count d]"

text \<open>What the ring keeps of a message.\<close>

definition ipc_stored :: "string \<Rightarrow> string" where
  "ipc_stored m = take (IPC_MESSAGE_SIZE - 1) (c_str m)"

lemma buffer_pos [simp]: "0 < IPC_BUFFER_SIZE"
  by (simp add: IPC_BUFFER_SIZE_def)

lemma rstrip_nul_append: "rstrip_nul (s @ replicate n nul) = rstrip_nul s"
proof -
  have "dropWhile (\<lambda>c. c = nul) (replicate n nul @ rev s) = dropWhile (\<lambda>c. c = nul) (rev s)"
    by (induction n) auto
  then show ?thesis by (simp add: rstrip_nul_def)
qed

lemma rstrip_nul_id: "nul \<notin> set s \<Longrightarrow> rstrip_nul s = s"
  by (cases s rule: rev_cases) (auto simp: rstrip_nul_def)

lemma nul_not_in_c_str: "nul \<notin> set (c_str s)"
  by (auto simp: c_str_def dest: set_takeWhileD)

lemma rstrip_strncpy: "rstrip_nul (strncpy m n @ [nul]) = take n (c_str m)"
proof -
  have "strncpy m n @ [nul] = take n (c_str m) @ replicate (Suc (n - length (c_str m))) nul"
    by (simp add: strncpy_def replicate_append_same)
  moreover have "nul \<notin> set (take n (c_str m))" using nul_not_in_c_str by (meson in_set_takeD)
  ultimately show ?thesis by (metis rstrip_nul_append rstrip_nul_id)
qed

lemma ring_write_spec:
  assumes inv: "ring_inv d" and m: "m \<noteq> []" and w: "ring_write d m = (ok, d')"
  shows "ring_inv d'"
    and "ok \<Longrightarrow> ring_pending d' = ring_pending d @ [ipc_stored m]"
    and "\<not> ok \<Longrightarrow> d' = d \<and> length (ring_pending d) = IPC_BUFFER_SIZE - 1"
proof -
  let ?S = IPC_BUFFER_SIZE
  have lt: "head d < ?S" "tail d < ?S" using inv by (auto simp: ring_inv_def)
  show "ring_inv d'"
    using inv m w by (auto simp: ring_write_def ring_inv_def Let_def split: if_splits)
  show "\<not> ok \<Longrightarrow> d' = d \<and> length (ring_pending d) = ?S - 1"
    using m w gap_full_iff [OF lt]
    by (auto simp: ring_write_def Let_def ring_pending_def ring_count_def split: if_splits)
  assume ok: ok
  then have ne: "(tail d + 1) mod ?S \<noteq> head d"
    and d': "d' = d\<lparr>messages := (messages d)(tail d := strncpy m (IPC_MESSAGE_SIZE - 1) @ [nul]),
      tail := (tail d + 1) mod ?S\<rparr>"
    using m w by (auto simp: ring_write_def Let_def split: if_splits)
  note G = gap_Suc_right [OF lt ne]
  have c: "ring_count d' = Suc (ring_count d)" using G(1) by (simp add: ring_count_def d')
  have tl: "(head d + ring_count d) mod ?S = tail d" using gap_add [OF lt] by (simp add: ring_count_def)
  have "(head d + j) mod ?S \<noteq> tail d" if "j < ring_count d" for j
    using ring_add_inj [of "head d" j ?S "ring_count d"] tl that gap_lt [of ?S "head d" "tail d"]
    by (auto simp: ring_count_def)
  then show "ring_pending d' = ring_pending d @ [ipc_stored m]"
    unfolding ring_pending_def c using tl by (auto simp: d' rstrip_strncpy ipc_stored_def)
qed

lemma ring_read_spec:
  assumes inv: "ring_inv d" and r: "ring_read d = (x, d')"
  shows "ring_inv d'" and "ring_pending d = [] \<Longrightarrow> x = None \<and> d' = d"
    and "ring_pending d = y # ys \<Longrightarrow> x = Some y \<and> ring_pending d' = ys"
proof -
  let ?S = IPC_BUFFER_SIZE
  have lt: "head d < ?S" "tail d < ?S" using inv by (auto simp: ring_inv_def)
  have e: "ring_pending d = [] \<longleftrightarrow> head d = tail d"
    using gap_zero_iff [OF lt] by (auto simp: ring_pending_def ring_count_def)
  show "ring_inv d'" using inv r by (auto simp: ring_read_def ring_inv_def Let_def split: if_splits)
  show "ring_pending d = [] \<Longrightarrow> x = None \<and> d' = d" using e r by (simp add: ring_read_def)
  assume y: "ring_pending d = y # ys"
  then have ne: "head d \<noteq> tail d" using e by auto
  have x: "x = Some (rstrip_nul (messages d (head d)))" and d': "d' = d\<lparr>head := (head d + 1) mod ?S\<rparr>"
    using r ne by (auto simp: ring_read_def Let_def)
  have "0 < ring_count d" using y by (cases "ring_count d") (simp_all add: ring_pending_def)
  moreover have "ring_count d' = ring_count d - 1"
    using gap_Suc_left [OF lt ne] by (simp add: ring_count_def d')
  ultimately have c: "ring_count d = Suc (ring_count d')" by simp
  have "ring_pending d = rstrip_nul (messages d (head d)) #
      map (\<lambda>j. rstrip_nul (messages d ((head d + Suc j) mod ?S))) [0..<ring_count d']"
    unfolding ring_pending_def c
    by (simp add: upt_conv_Cons map_Suc_upt [symmetric] comp_def lt del: upt_Suc)
  moreover have "ring_pending d' = map (\<lambda>j. rstrip_nul (messages d ((head d + Suc j) mod ?S))) [0..<ring_count d']"
    by (simp add: ring_pending_def d' mod_add_left_eq)
  ultimately show "x = Some y \<and> ring_pending d' = ys" using x y by simp
qed

interpretation ipc_ring: bounded_fifo ring_inv ring_pending "\<lambda>m. m \<noteq> []" ipc_stored ring_write ring_read
  "\<lambda>_. IPC_BUFFER_SIZE - 1"
proof (unfold_locales, goal_cases)
  case (1 q m)
  then show ?case using ring_write_spec(1) [of q m] by (cases "ring_write q m") simp
next
  case (2 q m)
  then show ?case using ring_write_spec(2) [of q m] by (cases "ring_write q m") simp
next
  case (3 q m)
  then show ?case using ring_write_spec(3) [of q m] by (cases "ring_write q m") simp
next
  case (4 q)
  then show ?case using ring_read_spec(1) [of q] by (cases "ring_read q") simp
next
  case (5 q)
  then show ?case using ring_read_spec(2) [of q] by (cases "ring_read q") simp
next
  case (6 q x xs)
  then show ?case using ring_read_spec(3) [of q] by (cases "ring_read q") simp
qed simp_all

lemma read_messages_drains:
  "ring_inv d \<Longrightarrow> length (ring_pending d) < fuel \<Longrightarrow> read_messages fuel d = (ms, d') \<Longrightarrow>
   ms = ring_pending d \<and> ring_pending d' = [] \<and> ring_inv d'"
proof (induction fuel arbitrary: d ms d')
  case (Suc fuel)
  obtain x d1 where r: "ring_read d = (x, d1)" by (cases "ring_read d")
  note R = ring_read_spec [OF Suc.prems(1) r]
  show ?case
  proof (cases "ring_pending d")
    case Nil
    then show ?thesis using R Suc.prems r by simp
  next
    case (Cons y ys)
    obtain ms1 d2 where r2: "read_messages fuel d1 = (ms1, d2)" by (cases "read_messages fuel d1")
    have "x = Some y" "ring_pending d1 = ys" using R(3) [OF Cons] by auto
    moreover have "ms1 = ring_pending d1 \<and> ring_pending d2 = [] \<and> ring_inv d2"
      using Suc.IH [OF R(1) _ r2] Suc.prems(2) Cons calculation by simp
    ultimately show ?thesis using Suc.prems(3) Cons by (simp add: r r2)
  qed
qed simp

lemma length_ring_pending: "length (ring_pending d) < IPC_BUFFER_SIZE"
  by (simp add: ring_pending_def ring_count_def)

section \<open>Properties of the shared-memory channel\<close>

definition ring_init :: "(nat \<Rightarrow> string) \<Rightarrow> SharedData" where
  "ring_init mem = \<lparr>messages = mem, head = 0, tail = 0\<rparr>"

lemma ring_init_facts: "ring_inv (ring_init mem)" "ring_pending (ring_init mem) = []"
  by (simp_all add: ring_init_def ring_inv_def ring_pending_def ring_count_def)





text \<open>
  C14: \<^verbatim>\<open>writeMessage\<close> drops a message only when 63 messages wait, and counts exactly the drops; the
  memory and the indices are then unchanged.
\<close>

theorem ipc_drop_counted:
  assumes "shdata q = Some d" and "ring_inv d" and "m \<noteq> []" and "writeMessage q m = (ok, q')"
  shows "if ok then n_dropped_msgs q' = n_dropped_msgs q
      \<and> ring_pending (the (shdata q')) = ring_pending d @ [ipc_stored m]
    else length (ring_pending d) = IPC_BUFFER_SIZE - 1
      \<and> n_dropped_msgs q' = n_dropped_msgs q + 1 \<and> shdata q' = Some d"
proof -
  obtain ok' d' where w: "ring_write d m = (ok', d')" by (cases "ring_write d m")
  show ?thesis
    using ring_write_spec [OF assms(2,3) w] assms(1,4) w by (auto simp: writeMessage_def split: if_splits)
qed

definition sample_queue :: ProducerQueue where
  "sample_queue = \<lparr>shm_fd = 3, shdata = Some \<lparr>messages = (\<lambda>_. []), head = 5, tail = 4\<rparr>,
     prefix_name = ''p'', shm_name = ''s'', n_dropped_msgs = 0\<rparr>"

theorem ipc_drop_counted_witness:
  "\<exists>q'. writeMessage sample_queue ''x'' = (False, q') \<and> n_dropped_msgs q' = 1"
proof -
  obtain ok q' where w: "writeMessage sample_queue ''x'' = (ok, q')" by (cases "writeMessage sample_queue ''x''")
  have "\<not> ok" using w by (simp add: writeMessage_def sample_queue_def ring_write_def IPC_BUFFER_SIZE_def
        Let_def split: if_splits)
  moreover have "ring_inv \<lparr>messages = (\<lambda>_. []), head = 5, tail = 4\<rparr>"
    by (simp add: ring_inv_def IPC_BUFFER_SIZE_def)
  ultimately show ?thesis
    using ipc_drop_counted [of sample_queue _ "''x''", OF _ _ _ w] w by (simp add: sample_queue_def)
qed

lemma wait_loop_ends:
  assumes clock: "\<And>k. startTime + int k * ns_per_ms \<le> snd (snd (obs k))"
    and "int i \<le> timeoutMs + 1" and "timeoutMs + 1 < int (i + fuel)"
  shows "\<exists>b. wait_loop obs startTime timeoutMs i fuel = Some b"
  using assms(2,3)
proof (induction fuel arbitrary: i)
  case (Suc fuel)
  obtain h t n where o: "obs i = (h, t, n)" by (cases "obs i")
  have "int i * ns_per_ms \<le> n - startTime" using clock [of i] o by simp
  then have d: "int i \<le> duration_cast ns_per_ms (n - startTime)"
    using duration_cast_mono [of ns_per_ms "int i * ns_per_ms" "n - startTime"]
    by (simp add: ns_per_ms_def duration_cast_nonneg)
  show ?case
  proof (cases "timeoutMs < int i")
    case True
    then show ?thesis using d by (auto simp: o)
  next
    case False
    then have "\<exists>b. wait_loop obs startTime timeoutMs (Suc i) fuel = Some b"
      using Suc.IH [of "Suc i"] Suc.prems by simp
    then show ?thesis by (auto simp: o)
  qed
qed simp

text \<open>
  \<^verbatim>\<open>waitConsumerToReadAll\<close> returns.  If each iteration reads a clock at least a millisecond later
  than the one before it (the loop sleeps that long), it ends within \<open>timeoutMs + 2\<close> iterations,
  whatever the consumer does; and it reports an empty buffer only if it saw one.
\<close>

theorem wait_consumer_returns:
  assumes "\<And>k. startTime + int k * ns_per_ms \<le> snd (snd (obs k))" and "0 \<le> timeoutMs"
  shows "\<exists>b. wait_loop obs startTime timeoutMs 0 (nat timeoutMs + 2) = Some b
    \<and> (b \<longrightarrow> (\<exists>k. fst (obs k) = fst (snd (obs k))))"
proof -
  have seen: "wait_loop obs startTime timeoutMs i fuel = Some True \<Longrightarrow> \<exists>k. fst (obs k) = fst (snd (obs k))"
    for i fuel
    by (induction fuel arbitrary: i) (auto simp: case_prod_beta split: if_splits)
  obtain b where b: "wait_loop obs startTime timeoutMs 0 (nat timeoutMs + 2) = Some b"
    using wait_loop_ends [of startTime obs 0 timeoutMs "nat timeoutMs + 2"] assms by auto
  moreover have "b \<longrightarrow> (\<exists>k. fst (obs k) = fst (snd (obs k)))" using seen [of 0 "nat timeoutMs + 2"] b by (cases b) simp_all
  ultimately show ?thesis by blast
qed

theorem wait_consumer_returns_witness:
  "\<exists>b. wait_loop (\<lambda>k. (0, 1, int k * ns_per_ms)) 0 3 0 5 = Some b"
proof -
  have "\<And>k. 0 + int k * ns_per_ms \<le> snd (snd ((\<lambda>k. (0 :: nat, 1 :: nat, int k * ns_per_ms)) k))" by simp
  from wait_consumer_returns [OF this, of 3] zero_le_numeral
  have "\<exists>b. wait_loop (\<lambda>k. (0, 1, int k * ns_per_ms)) 0 3 0 (nat 3 + 2) = Some b" by blast
  moreover have "nat 3 + 2 = 5" by simp
  ultimately show ?thesis by (simp only:)
qed

text \<open>
  The destructor leaves the segment behind.  It unlinks the name it was given instead of the prefixed
  name the constructor created, so that after a successful construction and destruction the
  segment still exists.
\<close>

theorem ipc_segment_not_unlinked:
  assumes "ProducerQueue_new (Some lv) fd True (Some mem) prefix shm names = (Inr q, names1)"
    and "nul \<notin> set prefix" and "nul \<notin> set shm"
  shows "c_str (full_name prefix shm) \<in> snd (ProducerQueue_destroy q names1)"
proof -
  have fd: "fd \<noteq> -1" and q: "shm_name q = shm" "names1 = insert (c_str (full_name prefix shm)) names"
    using assms(1) by (auto simp: ProducerQueue_new_def initSharedMemory_def Let_def split: if_splits)
  have n: "nul \<notin> set (full_name prefix shm)" using assms(2,3) by (simp add: full_name_def nul_def)
  have "full_name prefix shm \<noteq> shm"
    by (rule notI, drule arg_cong [where f = length]) (simp add: full_name_def)
  then show ?thesis
    using q n assms(3) by (simp add: ProducerQueue_destroy_def discardAllPendingMessages_def Let_def c_str_no_nul)
qed

theorem ipc_segment_not_unlinked_witness:
  "\<exists>q names1. ProducerQueue_new (Some Info) 3 True (Some (\<lambda>_. [])) ''p'' ''s'' {} = (Inr q, names1)
     \<and> c_str (full_name ''p'' ''s'') \<in> snd (ProducerQueue_destroy q names1)"
proof -
  obtain r names1 where r: "ProducerQueue_new (Some Info) 3 True (Some (\<lambda>_. [])) ''p'' ''s'' {} = (r, names1)"
    by (cases "ProducerQueue_new (Some Info) 3 True (Some (\<lambda>_. [])) ''p'' ''s'' {}")
  then obtain q where "r = Inr q" by (auto simp: ProducerQueue_new_def initSharedMemory_def Let_def)
  with r have n: "ProducerQueue_new (Some Info) 3 True (Some (\<lambda>_. [])) ''p'' ''s'' {} = (Inr q, names1)" by simp
  show ?thesis using ipc_segment_not_unlinked [OF n] n by (auto simp: nul_def)
qed

end
