(* ===== verification/Pw_Yaml.thy ===== *)
theory Pw_Yaml
  imports Pw_Prelude
begin

text \<open>
  The part of the vendored YAML library (\<^verbatim>\<open>src/libs/fkyaml/node.hpp\<close>) that the schedulers use on a
  parsed document: type tests, keys, elements and typed references.  Here
  a document is a value of type \<open>node\<close>, or absent where \<^verbatim>\<open>deserialize\<close> throws.
  A mapping is the list of its pairs in the order of its iterator, with distinct keys.
\<close>

datatype node =
    N_null
  | N_bool bool
  | N_int int
  | N_float string
  | N_str string
  | N_seq "node list"
  | N_map "(node \<times> node) list"

text \<open>\<^verbatim>\<open>contains\<close> is false for anything but a mapping.\<close>

definition contains :: "node \<Rightarrow> string \<Rightarrow> bool" where
  "contains n key = (case n of N_map kvs \<Rightarrow> map_of kvs (N_str key) \<noteq> None | _ \<Rightarrow> False)"

text \<open>
  \<^verbatim>\<open>operator[]\<close> with a string: a mapping gives the value, inserting a null node for a new key; a
  sequence takes integers only; a scalar has no elements.
\<close>

definition at_key :: "node \<Rightarrow> string \<Rightarrow> exn + node" where
  "at_key n key =
     (case n of
        N_map kvs \<Rightarrow> Inr (case map_of kvs (N_str key) of Some v \<Rightarrow> v | None \<Rightarrow> N_null)
      | _ \<Rightarrow> Inl Type_error)"

text \<open>\<^verbatim>\<open>operator[]\<close> with an integer: \<open>None\<close> is the unchecked access outside a sequence.\<close>

definition at_index :: "node \<Rightarrow> nat \<Rightarrow> (exn + node) option" where
  "at_index n i =
     (case n of
        N_seq xs \<Rightarrow> if i < length xs then Some (Inr (xs ! i)) else None
      | N_map kvs \<Rightarrow> Some (Inr (case map_of kvs (N_int (int i)) of Some v \<Rightarrow> v | None \<Rightarrow> N_null))
      | _ \<Rightarrow> Some (Inl Type_error))"

text \<open>\<^verbatim>\<open>begin\<close> and \<^verbatim>\<open>end\<close>: the elements of a sequence, the values of a mapping.\<close>

definition elements :: "node \<Rightarrow> exn + node list" where
  "elements n =
     (case n of
        N_seq xs \<Rightarrow> Inr xs
      | N_map kvs \<Rightarrow> Inr (map snd kvs)
      | _ \<Rightarrow> Inl Type_error)"

definition get_str :: "node \<Rightarrow> exn + string" where
  "get_str n = (case n of N_str s \<Rightarrow> Inr s | _ \<Rightarrow> Inl Type_error)"

definition get_int :: "node \<Rightarrow> exn + int" where
  "get_int n = (case n of N_int i \<Rightarrow> Inr i | _ \<Rightarrow> Inl Type_error)"

lemmas node_defs [pw_defs] = contains_def at_key_def at_index_def elements_def get_str_def get_int_def

lemma node_simps [simp]:
  "elements (N_seq xs) = Inr xs" "get_str (N_str s) = Inr s" "get_int (N_int i) = Inr i"
  "contains (N_map kvs) key \<longleftrightarrow> map_of kvs (N_str key) \<noteq> None"
  "at_key (N_map kvs) key = Inr (case map_of kvs (N_str key) of Some v \<Rightarrow> v | None \<Rightarrow> N_null)"
  by (simp_all add: node_defs)

end
