(* ===== verification/Pw_Encoding.thy ===== *)
theory Pw_Encoding
  imports Pw_Prelude
begin

text \<open>
  How the vendored YAML library (\<^verbatim>\<open>src/libs/fkyaml/node.hpp\<close>) reads the bytes of a file: the UTF encodings, their detection and
  the adapter for streams, which turns an input in any of five encodings into UTF-8 without carriage returns.  A stream is the
  list of the bytes left in it.  An exception is a value of \<open>yaml_error\<close>; reading past the end of a buffer, which C++ leaves
  undefined, is the value \<open>Undefined\<close>.
\<close>

datatype yaml_error = Invalid_stream | Invalid_encoding | Parse_error string | Node_type_error | Invalid_tag string | Not_modelled | Undefined

datatype utf_encode_t = UTF_8 | UTF_16BE | UTF_16LE | UTF_32BE | UTF_32LE

section \<open>UTF-8\<close>

definition get_num_bytes :: "u8 \<Rightarrow> yaml_error + nat" where
  "get_num_bytes first_byte =
     (if first_byte < 0x80 then Inr 1
      else if first_byte AND 0xE0 = 0xC0 then Inr 2
      else if first_byte AND 0xF0 = 0xE0 then Inr 3
      else if first_byte AND 0xF8 = 0xF0 then Inr 4
      else Inl Invalid_encoding)"

text \<open>\<^verbatim>\<open>validate\<close> is only called with one to four bytes.\<close>

fun validate :: "bytes \<Rightarrow> bool" where
  "validate [first] = (first \<le> 0x7F)"
| "validate [first, second] = (0xC2 \<le> first \<and> first \<le> 0xDF \<and> 0x80 \<le> second \<and> second \<le> 0xBF)"
| "validate [first, second, third] =
     (if 0xE0 \<le> first \<and> first \<le> 0xEC then 0x80 \<le> second \<and> second \<le> 0xBF \<and> 0x80 \<le> third \<and> third \<le> 0xBF
      else if first = 0xED then 0x80 \<le> second \<and> second \<le> 0x9F \<and> 0x80 \<le> third \<and> third \<le> 0xBF
      else if first = 0xEE \<or> first = 0xEF then 0x80 \<le> second \<and> second \<le> 0xBF \<and> 0x80 \<le> third \<and> third \<le> 0xBF
      else False)"
| "validate [first, second, third, fourth] =
     (if first = 0xF0 then 0x90 \<le> second \<and> second \<le> 0xBF \<and> 0x80 \<le> third \<and> third \<le> 0xBF \<and> 0x80 \<le> fourth \<and> fourth \<le> 0xBF
      else if 0xF1 \<le> first \<and> first \<le> 0xF3
        then 0x80 \<le> second \<and> second \<le> 0xBF \<and> 0x80 \<le> third \<and> third \<le> 0xBF \<and> 0x80 \<le> fourth \<and> fourth \<le> 0xBF
      else if first = 0xF4
        then 0x80 \<le> second \<and> second \<le> 0x8F \<and> 0x80 \<le> third \<and> third \<le> 0xBF \<and> 0x80 \<le> fourth \<and> fourth \<le> 0xBF
      else False)"
| "validate _ = False"

section \<open>Conversions to UTF-8\<close>

text \<open>The bytes of a chunk that the conversions put together in a word.\<close>

definition chunk2 :: "u32 \<Rightarrow> bytes" where
  "chunk2 c =
     (let utf8_chunk = ucast (0xC080 OR push_bit 2 (c AND 0x07C0) OR (c AND 0x3F)) :: u16
      in [ucast (drop_bit 8 (utf8_chunk AND 0xFF00)), ucast (utf8_chunk AND 0x00FF)])"

definition chunk3 :: "u32 \<Rightarrow> bytes" where
  "chunk3 c =
     (let utf8_chunk = 0xE08080 OR push_bit 4 (c AND 0xF000) OR push_bit 2 (c AND 0x0FC0) OR (c AND 0x3F)
      in [ucast (drop_bit 16 (utf8_chunk AND 0xFF0000)), ucast (drop_bit 8 (utf8_chunk AND 0x00FF00)),
          ucast (utf8_chunk AND 0x0000FF)])"

definition chunk4 :: "u32 \<Rightarrow> bytes" where
  "chunk4 c =
     (let utf8_chunk = 0xF0808080 OR push_bit 6 (c AND 0x1C0000) OR push_bit 4 (c AND 0x03F000) OR push_bit 2 (c AND 0x0FC0)
            OR (c AND 0x3F)
      in [ucast (drop_bit 24 (utf8_chunk AND 0xFF000000)), ucast (drop_bit 16 (utf8_chunk AND 0x00FF0000)),
          ucast (drop_bit 8 (utf8_chunk AND 0x0000FF00)), ucast (utf8_chunk AND 0x000000FF)])"

text \<open>The result of \<^verbatim>\<open>from_utf16\<close>: the bytes it wrote and the number of elements it consumed.\<close>

definition from_utf16 :: "u16 \<times> u16 \<Rightarrow> yaml_error + bytes \<times> u32" where
  "from_utf16 utf16 =
     (let (u0, u1) = utf16 in
      if u0 < 0x80 then Inr ([ucast (u0 AND 0x7F)], 1)
      else if u0 \<le> 0x7FF then Inr (chunk2 (ucast u0), 1)
      else if u0 < 0xD800 \<or> 0xE000 \<le> u0 then Inr (chunk3 (ucast u0), 1)
      else if u0 \<le> 0xDBFF \<and> 0xDC00 \<le> u1 \<and> u1 \<le> 0xDFFF then
        let code_point = 0x10000 + push_bit 10 (ucast u0 AND 0x03FF) + (ucast u1 AND 0x03FF)
        in Inr (chunk4 code_point, 2)
      else Inl Invalid_encoding)"

definition from_utf32 :: "u32 \<Rightarrow> yaml_error + bytes" where
  "from_utf32 utf32 =
     (if utf32 < 0x80 then Inr [ucast (utf32 AND 0x007F)]
      else if utf32 \<le> 0x7FF then Inr (chunk2 utf32)
      else if utf32 \<le> 0xFFFF then Inr (chunk3 utf32)
      else if utf32 \<le> 0x10FFFF then Inr (chunk4 utf32)
      else Inl Invalid_encoding)"

section \<open>Detection of the encoding\<close>

definition detect_encoding_type :: "u8 \<Rightarrow> u8 \<Rightarrow> u8 \<Rightarrow> u8 \<Rightarrow> utf_encode_t \<times> bool" where
  "detect_encoding_type byte0 byte1 byte2 byte3 =
     (if byte0 = 0xEF \<and> byte1 = 0xBB \<and> byte2 = 0xBF then (UTF_8, True)
      else if byte0 = 0 \<and> byte1 = 0 \<and> byte2 = 0xFE \<and> byte3 = 0xFF then (UTF_32BE, True)
      else if byte0 = 0xFF \<and> byte1 = 0xFE \<and> byte2 = 0 \<and> byte3 = 0 then (UTF_32LE, True)
      else if byte0 = 0xFE \<and> byte1 = 0xFF then (UTF_16BE, True)
      else if byte0 = 0xFF \<and> byte1 = 0xFE then (UTF_16LE, True)
      else if byte0 = 0 \<and> byte1 = 0 \<and> byte2 = 0 \<and> 0 < byte3 \<and> byte3 < 0x80 then (UTF_32BE, False)
      else if 0 < byte0 \<and> byte0 < 0x80 \<and> byte1 = 0 \<and> byte2 = 0 \<and> byte3 = 0 then (UTF_32LE, False)
      else if byte0 = 0 \<and> 0 < byte1 \<and> byte1 < 0x80 then (UTF_16BE, False)
      else if 0 < byte0 \<and> byte0 < 0x80 \<and> byte1 = 0 then (UTF_16LE, False)
      else (UTF_8, False))"

text \<open>
  \<^verbatim>\<open>stream_utf_encode_detector::detect\<close>: up to four bytes are read, the others stay 0xFF; the stream is left behind a byte order
  mark, or at its beginning.
\<close>

definition stream_detect :: "bytes \<Rightarrow> utf_encode_t \<times> bytes" where
  "stream_detect s =
     (let bytes = take 4 (s @ replicate 4 0xFF);
          (encode_type, has_bom) = detect_encoding_type (bytes ! 0) (bytes ! 1) (bytes ! 2) (bytes ! 3);
          offset = (if has_bom then
                      (case encode_type of UTF_8 \<Rightarrow> 3 | UTF_16BE \<Rightarrow> 2 | UTF_16LE \<Rightarrow> 2 | UTF_32BE \<Rightarrow> 4 | UTF_32LE \<Rightarrow> 4)
                    else 0)
      in (encode_type, drop offset s))"

section \<open>The adapter for streams\<close>

text \<open>
  \<^verbatim>\<open>istream::read\<close> of \<open>n\<close> bytes: the bytes read, the stream afterwards and whether its end was met, which is so exactly if
  fewer than \<open>n\<close> bytes were left.
\<close>

definition stream_read :: "nat \<Rightarrow> bytes \<Rightarrow> bytes \<times> bytes \<times> bool" where
  "stream_read n s = (take n s, drop n s, length s < n)"

text \<open>The loop that appends a chunk to the buffer without its carriage returns.\<close>

function append_chunk :: "bytes \<Rightarrow> bytes \<Rightarrow> bytes" where
  "append_chunk p m_buffer =
     (let m_buffer' = m_buffer @ takeWhile (\<lambda>b. b \<noteq> 0x0D) p in
      (case dropWhile (\<lambda>b. b \<noteq> 0x0D) p of
         [] \<Rightarrow> m_buffer'
       | _ # p' \<Rightarrow> if p' = [] then m_buffer' else append_chunk p' m_buffer'))"
  by pat_completeness auto

termination append_chunk
proof (relation "measure (\<lambda>(p, _). length p)")
  show "((x', m'), p, m) \<in> measure (\<lambda>(p, _). length p)" if "dropWhile (\<lambda>b. b \<noteq> 0x0D) p = x # x'" for p m m' x x'
    using length_dropWhile_le [of "\<lambda>b. b \<noteq> 0x0D" p] that by simp
qed simp

function read_chunks :: "bytes \<Rightarrow> bytes \<Rightarrow> bytes" where
  "read_chunks s m_buffer =
     (let (tmp_buf, s', eof) = stream_read 256 s;
          m_buffer' = append_chunk tmp_buf m_buffer
      in if eof then m_buffer' else read_chunks s' m_buffer')"
  by pat_completeness auto

termination read_chunks
  by (relation "measure (\<lambda>(s, _). length s)") (auto simp: stream_read_def)

text \<open>The loop over the characters of the buffer, each of which is read and then validated.\<close>

function validate_all :: "bytes \<Rightarrow> yaml_error option" where
  "validate_all [] = None"
| "validate_all (first # current) =
     (case get_num_bytes first of
        Inl e \<Rightarrow> Some e
      | Inr num_bytes \<Rightarrow>
          if num_bytes = 1 then validate_all current
          else if length current < num_bytes - 1 then Some Undefined
          else if \<not> validate (first # take (num_bytes - 1) current) then Some Invalid_encoding
          else validate_all (drop (num_bytes - 1) current))"
  by pat_completeness auto

termination validate_all
  by (relation "measure length") auto

definition get_buffer_view_utf8 :: "bytes \<Rightarrow> yaml_error + bytes" where
  "get_buffer_view_utf8 s =
     (let m_buffer = read_chunks s [] in
      case validate_all m_buffer of Some e \<Rightarrow> Inl e | None \<Rightarrow> Inr m_buffer)"

text \<open>An element of two bytes, by the shifts of the byte order.\<close>

definition element16 :: "bool \<Rightarrow> bytes \<Rightarrow> u16" where
  "element16 big chars =
     ucast (push_bit (if big then 8 else 0) (ucast (chars ! 0) :: u32) OR push_bit (if big then 0 else 8) (ucast (chars ! 1) :: u32))"

definition element32 :: "bool \<Rightarrow> bytes \<Rightarrow> u32" where
  "element32 big chars =
     push_bit (if big then 24 else 0) (ucast (chars ! 0)) OR push_bit (if big then 16 else 8) (ucast (chars ! 1))
     OR push_bit (if big then 8 else 16) (ucast (chars ! 2)) OR push_bit (if big then 0 else 24) (ucast (chars ! 3))"

text \<open>The inner loop that fills the buffer of two elements, and the flag of the end of the stream after it.\<close>

function fill_utf16 :: "bool \<Rightarrow> bytes \<Rightarrow> u16 \<times> u16 \<Rightarrow> u32 \<Rightarrow> bytes \<times> bool \<times> (u16 \<times> u16) \<times> u32" where
  "fill_utf16 big s encoded_buffer encoded_buf_size =
     (if encoded_buf_size < 2 then
        let (chars, s', eof) = stream_read 2 s in
        if length chars \<noteq> 2 then (s', eof, encoded_buffer, encoded_buf_size)
        else
          let utf16 = element16 big chars in
          if utf16 \<noteq> 0x000D then
            fill_utf16 big s'
              (if encoded_buf_size = 0 then (utf16, snd encoded_buffer) else (fst encoded_buffer, utf16)) (encoded_buf_size + 1)
          else fill_utf16 big s' encoded_buffer encoded_buf_size
      else (s, False, encoded_buffer, encoded_buf_size))"
  by pat_completeness auto

termination fill_utf16
  by (relation "measure (\<lambda>(_, s, _, _). length s)") (auto simp: stream_read_def)

declare append_chunk.simps [simp del] read_chunks.simps [simp del] fill_utf16.simps [simp del]

lemma fill_utf16_eqs:
  "\<not> n < 2 \<Longrightarrow> fill_utf16 big s buf n = (s, False, buf, n)"
  "n < 2 \<Longrightarrow> length s < 2 \<Longrightarrow> fill_utf16 big s buf n = ([], True, buf, n)"
  "n < 2 \<Longrightarrow> 2 \<le> length s \<Longrightarrow> element16 big (take 2 s) = 0x0D \<Longrightarrow> fill_utf16 big s buf n = fill_utf16 big (drop 2 s) buf n"
  "n < 2 \<Longrightarrow> 2 \<le> length s \<Longrightarrow> element16 big (take 2 s) \<noteq> 0x0D \<Longrightarrow>
     fill_utf16 big s buf n = fill_utf16 big (drop 2 s)
       (if n = 0 then (element16 big (take 2 s), snd buf) else (fst buf, element16 big (take 2 s))) (n + 1)"
  by (simp_all add: fill_utf16.simps [of big s] stream_read_def)

lemma word_less_2: "(n :: u32) < 2 \<longleftrightarrow> n = 0 \<or> n = 1"
proof
  assume "n < 2"
  then have "unat n = 0 \<or> unat n = 1" by (auto simp: word_less_nat_alt)
  then show "n = 0 \<or> n = 1" by (metis unat_0 unat_1 word_eq_iff_unsigned of_nat_unat)
qed auto

lemma fill_utf16_progress:
  "fill_utf16 big s buf n = (s', False, buf', n') \<Longrightarrow> (n < 2 \<longrightarrow> length s' + 2 \<le> length s \<and> n' = 2) \<and> (\<not> n < 2 \<longrightarrow> s' = s \<and> n' = n)"
proof (induction "length s" arbitrary: s buf n rule: less_induct)
  case less
  show ?case
  proof (cases "n < 2 \<and> 2 \<le> length s")
    case False
    then show ?thesis using less.prems by (auto simp: fill_utf16_eqs not_less not_le)
  next
    case True
    then have sh: "length (drop 2 s) < length s" and n: "n < 2" "2 \<le> length s" by auto
    show ?thesis
    proof (cases "element16 big (take 2 s) = 0x0D")
      case True
      show ?thesis using less.hyps [OF sh, of buf n] less.prems fill_utf16_eqs(3) [OF n True, of buf] n by auto
    next
      case False
      let ?buf = "if n = 0 then (element16 big (take 2 s), snd buf) else (fst buf, element16 big (take 2 s))"
      have n1: "n + 1 < 2 \<or> (\<not> n + 1 < 2 \<and> n + 1 = 2)" using n(1) by (auto simp: word_less_2)
      have "fill_utf16 big (drop 2 s) ?buf (n + 1) = (s', False, buf', n')"
        by (rule trans [OF sym [OF fill_utf16_eqs(4) [OF n False]] less.prems])
      note ih = less.hyps [OF sh this]
      have "n' = 2 \<and> length s' \<le> length (drop 2 s)"
        using n1
      proof
        assume "n + 1 < 2"
        with ih have "length s' + 2 \<le> length (drop 2 s) \<and> n' = 2" by blast
        then show ?thesis by linarith
      next
        assume a: "\<not> n + 1 < 2 \<and> n + 1 = 2"
        with ih have "s' = drop 2 s \<and> n' = n + 1" by blast
        then show ?thesis using a by simp
      qed
      then show ?thesis using n by auto
    qed
  qed
qed

text \<open>The outer loop.  At the end of the stream the buffer is converted once more, whatever it holds.\<close>

function utf16_loop :: "bool \<Rightarrow> bytes \<Rightarrow> u16 \<times> u16 \<Rightarrow> u32 \<Rightarrow> bytes \<Rightarrow> yaml_error + bytes" where
  "utf16_loop big s encoded_buffer encoded_buf_size m_buffer =
     (let (s', eof, buf, n) = fill_utf16 big s encoded_buffer encoded_buf_size in
      case from_utf16 buf of
        Inl e \<Rightarrow> Inl e
      | Inr (utf8_buffer, consumed_size) \<Rightarrow>
          let buf' = (if consumed_size = 1 then (snd buf, snd buf) else buf);
              m_buffer' = m_buffer @ utf8_buffer
          in if eof then Inr m_buffer' else utf16_loop big s' buf' (n - consumed_size) m_buffer')"
  by pat_completeness auto

lemma from_utf16_consumed: "from_utf16 buf = Inr (bs, k) \<Longrightarrow> k = 1 \<or> k = 2"
  by (auto simp: from_utf16_def Let_def split: prod.splits if_splits)

lemma utf16_loop_progress:
  assumes f: "fill_utf16 big s buf n = (s', False, buf', n')" and k: "k = 1 \<or> k = (2 :: u32)"
  shows "2 * length s' + unat (n' - k) < 2 * length s + unat n"
proof (cases "n < 2")
  case True
  then have "length s' + 2 \<le> length s" "unat (n' - k) \<le> 1" using fill_utf16_progress [OF f] k by auto
  then show ?thesis by linarith
next
  case False
  note p = fill_utf16_progress [OF f]
  have "unat (n' - k) < unat n" using False p k by (auto simp: unat_sub_if_size word_less_nat_alt)
  then show ?thesis using False p by simp
qed

termination utf16_loop
  by (relation "measure (\<lambda>(_, s, _, n, _). 2 * length s + unat n)")
    (auto intro!: utf16_loop_progress dest: from_utf16_consumed dest!: sym [of "(_, _, _, _)"])

definition get_buffer_view_utf16 :: "bool \<Rightarrow> bytes \<Rightarrow> yaml_error + bytes" where
  "get_buffer_view_utf16 big s = utf16_loop big s (0, 0) 0 []"

function utf32_loop :: "bool \<Rightarrow> bytes \<Rightarrow> bytes \<Rightarrow> yaml_error + bytes" where
  "utf32_loop big s m_buffer =
     (let (chars, s', eof) = stream_read 4 s in
      if length chars \<noteq> 4 then Inr m_buffer
      else
        let utf32 = element32 big chars in
        if utf32 \<noteq> 0x0000000D then
          (case from_utf32 utf32 of
             Inl e \<Rightarrow> Inl e
           | Inr utf8_buffer \<Rightarrow>
               if eof then Inr (m_buffer @ utf8_buffer) else utf32_loop big s' (m_buffer @ utf8_buffer))
        else if eof then Inr m_buffer else utf32_loop big s' m_buffer)"
  by pat_completeness auto

termination utf32_loop
  by (relation "measure (\<lambda>(_, s, _). length s)") (auto simp: stream_read_def)

definition get_buffer_view_utf32 :: "bool \<Rightarrow> bytes \<Rightarrow> yaml_error + bytes" where
  "get_buffer_view_utf32 big s = utf32_loop big s []"

definition get_buffer_view :: "utf_encode_t \<Rightarrow> bytes \<Rightarrow> yaml_error + bytes" where
  "get_buffer_view m_encode_type s =
     (case m_encode_type of
        UTF_8 \<Rightarrow> get_buffer_view_utf8 s
      | UTF_16BE \<Rightarrow> get_buffer_view_utf16 True s
      | UTF_16LE \<Rightarrow> get_buffer_view_utf16 False s
      | UTF_32BE \<Rightarrow> get_buffer_view_utf32 True s
      | UTF_32LE \<Rightarrow> get_buffer_view_utf32 False s)"

text \<open>\<^verbatim>\<open>input_adapter\<close> on a stream that is good or not, and the buffer the parser then works on.\<close>

definition input_adapter :: "bool \<Rightarrow> bytes \<Rightarrow> yaml_error + utf_encode_t \<times> bytes" where
  "input_adapter good s = (if \<not> good then Inl Invalid_stream else Inr (stream_detect s))"

definition read_input :: "bool \<Rightarrow> bytes \<Rightarrow> yaml_error + bytes" where
  "read_input good s =
     (case input_adapter good s of Inl e \<Rightarrow> Inl e | Inr (encode_type, s') \<Rightarrow> get_buffer_view encode_type s')"

section \<open>Bits of the conversions\<close>

lemma and_field: "(c :: 'a :: len word) AND push_bit n (mask m) = push_bit n (take_bit m (drop_bit n c))"
  by (rule bit_word_eqI) (auto simp: bit_simps)

lemma masks:
  "(0x3F :: 'a :: len word) = push_bit 0 (mask 6)" "(0x07C0 :: 'a :: len word) = push_bit 6 (mask 5)"
  "(0x0FC0 :: 'a :: len word) = push_bit 6 (mask 6)" "(0xF000 :: 'a :: len word) = push_bit 12 (mask 4)"
  "(0x1C0000 :: 'a :: len word) = push_bit 18 (mask 3)" "(0x03F000 :: 'a :: len word) = push_bit 12 (mask 6)"
  "(0xFF :: 'a :: len word) = push_bit 0 (mask 8)" "(0xFF00 :: 'a :: len word) = push_bit 8 (mask 8)"
  "(0xFF0000 :: 'a :: len word) = push_bit 16 (mask 8)" "(0xFF000000 :: 'a :: len word) = push_bit 24 (mask 8)"
  "(0x03FF :: 'a :: len word) = push_bit 0 (mask 10)" "(0x7F :: 'a :: len word) = push_bit 0 (mask 7)"
  by (simp_all add: mask_eq_exp_minus_1 push_bit_eq_mult)

lemma leads:
  "(0xC080 :: u32) = push_bit 14 (mask 2) OR push_bit 7 (mask 1)"
  "(0xE08080 :: u32) = push_bit 21 (mask 3) OR push_bit 15 (mask 1) OR push_bit 7 (mask 1)"
  "(0xF0808080 :: u32) = push_bit 28 (mask 4) OR push_bit 23 (mask 1) OR push_bit 15 (mask 1) OR push_bit 7 (mask 1)"
  "(0xC0 :: u8) = push_bit 6 (mask 2)" "(0xE0 :: u8) = push_bit 5 (mask 3)"
  "(0xF0 :: u8) = push_bit 4 (mask 4)" "(0x80 :: u8) = push_bit 7 (mask 1)"
  by (simp_all add: mask_eq_exp_minus_1 push_bit_eq_mult)

lemma bit_128:
  "bit (128 :: int) k \<longleftrightarrow> k = 7" "bit (32768 :: int) k \<longleftrightarrow> k = 15" "bit (8388608 :: int) k \<longleftrightarrow> k = 23"
  "bit (128 :: nat) k \<longleftrightarrow> k = 7" "bit (32768 :: nat) k \<longleftrightarrow> k = 15" "bit (8388608 :: nat) k \<longleftrightarrow> k = 23"
  using bit_exp_iff [of 7 k, where 'a = int] bit_exp_iff [of 15 k, where 'a = int] bit_exp_iff [of 23 k, where 'a = int]
    bit_exp_iff [of 7 k, where 'a = nat] bit_exp_iff [of 15 k, where 'a = nat] bit_exp_iff [of 23 k, where 'a = nat] by auto

lemma chunk2_bits:
  "chunk2 c = [0xC0 OR ucast (take_bit 5 (drop_bit 6 c)), 0x80 OR ucast (take_bit 6 c)]"
  unfolding chunk2_def Let_def masks leads and_field list.inject
  by (intro conjI refl; rule bit_word_eqI) (auto simp: bit_simps bit_128)

lemma chunk3_bits:
  "chunk3 c = [0xE0 OR ucast (take_bit 4 (drop_bit 12 c)), 0x80 OR ucast (take_bit 6 (drop_bit 6 c)), 0x80 OR ucast (take_bit 6 c)]"
  unfolding chunk3_def Let_def masks leads and_field list.inject
  by (intro conjI refl; rule bit_word_eqI) (auto simp: bit_simps bit_128)

lemma chunk4_bits:
  "chunk4 c = [0xF0 OR ucast (take_bit 3 (drop_bit 18 c)), 0x80 OR ucast (take_bit 6 (drop_bit 12 c)),
     0x80 OR ucast (take_bit 6 (drop_bit 6 c)), 0x80 OR ucast (take_bit 6 c)]"
  unfolding chunk4_def Let_def masks leads and_field list.inject
  by (intro conjI refl; rule bit_word_eqI) (auto simp: bit_simps bit_128)

text \<open>A lead or continuation byte, with a field of the code point in its low bits.\<close>

lemma byte_field:
  assumes "x < 2 ^ m" and "m \<le> 6"
  shows "(push_bit m a :: u8) OR of_nat x = push_bit m a + of_nat x"
proof -
  have "\<not> bit x n" if "m \<le> n" for n
    using assms(1) that by (metis bit_take_bit_iff take_bit_nat_eq_self not_le)
  then have "push_bit m a AND (of_nat x :: u8) = 0"
    using assms by (intro bit_word_eqI) (auto simp: bit_simps)
  then show ?thesis by (simp add: disjunctive_add_eq_or)
qed

section \<open>The encodings of a code point\<close>

text \<open>A code point that UTF-8 may encode, the reference encoding in arithmetic, and the units of UTF-16.\<close>

definition scalar :: "nat \<Rightarrow> bool" where "scalar c \<longleftrightarrow> c < 0xD800 \<or> (0xE000 \<le> c \<and> c \<le> 0x10FFFF)"

definition utf8_encode :: "nat \<Rightarrow> bytes" where
  "utf8_encode c =
     (if c < 0x80 then [of_nat c]
      else if c < 0x800 then [0xC0 + of_nat (c div 64), 0x80 + of_nat (c mod 64)]
      else if c < 0x10000 then [0xE0 + of_nat (c div 4096), 0x80 + of_nat (c div 64 mod 64), 0x80 + of_nat (c mod 64)]
      else [0xF0 + of_nat (c div 262144), 0x80 + of_nat (c div 4096 mod 64), 0x80 + of_nat (c div 64 mod 64),
            0x80 + of_nat (c mod 64)])"

definition utf16_encode :: "nat \<Rightarrow> u16 list" where
  "utf16_encode c =
     (if c < 0x10000 then [of_nat c]
      else [of_nat (0xD800 + (c - 0x10000) div 1024), of_nat (0xDC00 + (c - 0x10000) mod 1024)])"

lemma field_of_nat:
  assumes "c < 2 ^ 32"
  shows "(ucast (take_bit m (drop_bit k (of_nat c :: u32))) :: u8) = of_nat (c div 2 ^ k mod 2 ^ m)"
proof -
  have "unat (take_bit m (drop_bit k (of_nat c :: u32))) = c div 2 ^ k mod 2 ^ m"
    using assms unfolding unsigned_take_bit_eq unsigned_drop_bit_eq
    by (simp add: unat_of_nat drop_bit_eq_div [where 'a = nat] take_bit_eq_mod [where 'a = nat])
  moreover have "(ucast w :: u8) = of_nat (unat w)" for w :: u32 
    by (simp add: word_eq_iff_unsigned unat_of_nat unsigned_ucast_eq take_bit_eq_mod [where 'a = nat])
  ultimately show ?thesis by metis
qed

lemma byte_or:
  "x < 64 \<Longrightarrow> (0x80 :: u8) OR of_nat x = 0x80 + of_nat x"
  "x < 32 \<Longrightarrow> (0xC0 :: u8) OR of_nat x = 0xC0 + of_nat x"
  "x < 16 \<Longrightarrow> (0xE0 :: u8) OR of_nat x = 0xE0 + of_nat x"
  "x < 8 \<Longrightarrow> (0xF0 :: u8) OR of_nat x = 0xF0 + of_nat x"
  using byte_field [of x 6 2] byte_field [of x 5 6] byte_field [of x 4 14] byte_field [of x 3 30]
  by (simp_all add: push_bit_eq_mult)

lemma chunk_of_nat:
  "0x80 \<le> c \<Longrightarrow> c < 0x800 \<Longrightarrow> chunk2 (of_nat c) = utf8_encode c"
  "0x800 \<le> c \<Longrightarrow> c < 0x10000 \<Longrightarrow> chunk3 (of_nat c) = utf8_encode c"
  "0x10000 \<le> c \<Longrightarrow> c \<le> 0x10FFFF \<Longrightarrow> chunk4 (of_nat c) = utf8_encode c"
proof -
  let ?w = "of_nat c :: u32"
  have f: "(ucast (take_bit m (drop_bit k ?w)) :: u8) = of_nat (c div 2 ^ k mod 2 ^ m)" if "c < 0x110000" for k m
    using that by (intro field_of_nat) simp
  have f0: "(ucast (take_bit m ?w) :: u8) = of_nat (c mod 2 ^ m)" if "c < 0x110000" for m
    using f [OF that, of m 0] by simp
  have d: "c div 64 < 32" if "c < 0x800" using that by auto
  have d3: "c div 4096 < 16" if "c < 0x10000" using that by auto
  have d4: "c div 262144 < 8" if "c \<le> 0x10FFFF" using that by auto
  show "chunk2 ?w = utf8_encode c" if "0x80 \<le> c" "c < 0x800"
    using that d by (simp add: chunk2_bits utf8_encode_def f f0 byte_or)
  show "chunk3 ?w = utf8_encode c" if "0x800 \<le> c" "c < 0x10000"
    using that d3 by (simp add: chunk3_bits utf8_encode_def f f0 byte_or)
  show "chunk4 ?w = utf8_encode c" if "0x10000 \<le> c" "c \<le> 0x10FFFF"
    using that d4 by (simp add: chunk4_bits utf8_encode_def f f0 byte_or)
qed

lemma unat_eqI: "unat a = unat b \<Longrightarrow> a = (b :: 'a :: len word)"
  by (rule word_eq_iff_unsigned [THEN iffD2])

lemma of_nat_word_less:
  "c < 2 ^ LENGTH('a) \<Longrightarrow> numeral k < (2 :: nat) ^ LENGTH('a) \<Longrightarrow> (of_nat c :: 'a :: len word) < numeral k \<longleftrightarrow> c < numeral k"
  "c < 2 ^ LENGTH('a) \<Longrightarrow> numeral k < (2 :: nat) ^ LENGTH('a) \<Longrightarrow> (of_nat c :: 'a :: len word) \<le> numeral k \<longleftrightarrow> c \<le> numeral k"
  "c < 2 ^ LENGTH('a) \<Longrightarrow> numeral k < (2 :: nat) ^ LENGTH('a) \<Longrightarrow> numeral k \<le> (of_nat c :: 'a :: len word) \<longleftrightarrow> numeral k \<le> c"
  by (simp_all add: word_less_nat_alt word_le_nat_alt unat_of_nat take_bit_eq_mod [where 'a = nat])

lemma ascii_byte:
  assumes "c < 0x80"
  shows "(ucast ((of_nat c :: u16) AND 0x7F) :: u8) = of_nat c" "(ucast ((of_nat c :: u32) AND 0x7F) :: u8) = of_nat c"
proof -
  have "(of_nat c :: u16) AND 0x7F = take_bit 7 (of_nat c)" "(of_nat c :: u32) AND 0x7F = take_bit 7 (of_nat c)"
    by (simp_all add: masks take_bit_eq_mask)
  then have e: "(of_nat c :: u16) AND 0x7F = of_nat c" "(of_nat c :: u32) AND 0x7F = of_nat c"
    using assms by (simp_all add: take_bit_of_nat take_bit_eq_mod [where 'a = nat])
  show "(ucast ((of_nat c :: u16) AND 0x7F) :: u8) = of_nat c" "(ucast ((of_nat c :: u32) AND 0x7F) :: u8) = of_nat c"
    unfolding e using assms
    by (auto intro!: unat_eqI simp: unat_of_nat unsigned_ucast_eq take_bit_eq_mod [where 'a = nat])
qed

lemma from_utf32_encodes: "c \<le> 0x10FFFF \<Longrightarrow> from_utf32 (of_nat c) = Inr (utf8_encode c)"
  by (auto simp: from_utf32_def of_nat_word_less chunk_of_nat ascii_byte) (simp_all add: utf8_encode_def)

lemma ucast_of_nat: "c < 2 ^ 16 \<Longrightarrow> (ucast (of_nat c :: u16) :: u32) = of_nat c"
  by (rule unat_eqI) (simp add: unat_of_nat unsigned_ucast_eq take_bit_eq_mod [where 'a = nat])

lemma low_ten: "(of_nat c :: u32) AND 0x03FF = of_nat (c mod 1024)"
proof -
  have "(of_nat c :: u32) AND 0x03FF = take_bit 10 (of_nat c)"
    by (simp add: masks take_bit_eq_mask)
  then show ?thesis by (simp add: take_bit_of_nat take_bit_eq_mod [where 'a = nat])
qed

lemma from_utf16_encodes:
  "c < 0x10000 \<Longrightarrow> scalar c \<Longrightarrow> from_utf16 (of_nat c, u1) = Inr (utf8_encode c, 1)"
  "0x10000 \<le> c \<Longrightarrow> c \<le> 0x10FFFF \<Longrightarrow> from_utf16 (of_nat (0xD800 + (c - 0x10000) div 1024), of_nat (0xDC00 + (c - 0x10000) mod 1024))
     = Inr (utf8_encode c, 2)"
proof -
  show "from_utf16 (of_nat c, u1) = Inr (utf8_encode c, 1)" if "c < 0x10000" "scalar c"
    using that unfolding from_utf16_def scalar_def
    by (auto simp: of_nat_word_less ucast_of_nat chunk_of_nat ascii_byte) (simp_all add: utf8_encode_def)
  assume c: "0x10000 \<le> c" "c \<le> 0x10FFFF"
  let ?h = "0xD800 + (c - 0x10000) div 1024" and ?l = "0xDC00 + (c - 0x10000) mod 1024"
  have b: "(c - 0x10000) div 1024 < 1024" using c by auto
  have h: "?h \<le> 0xDBFF" "0xD800 \<le> ?h" and l: "?l \<le> 0xDFFF" "0xDC00 \<le> ?l"
    using b mod_less_divisor [of 1024 "c - 0x10000"] by linarith+
  have m: "?h mod 1024 = (c - 0x10000) div 1024" "?l mod 1024 = (c - 0x10000) mod 1024"
    using b by (simp_all add: mod_add_eq [symmetric, of "0xD800"] mod_add_eq [symmetric, of "0xDC00"])
  have "0x10000 + push_bit 10 ((of_nat ?h :: u32) AND 0x03FF) + (of_nat ?l AND 0x03FF) =
      of_nat (0x10000 + (c - 0x10000) div 1024 * 1024 + (c - 0x10000) mod 1024)"
    unfolding low_ten m by (simp only: push_bit_eq_mult of_nat_add of_nat_mult) simp
  also have "\<dots> = of_nat c" using c(1) by (simp only: add.assoc div_mult_mod_eq le_add_diff_inverse)
  finally have p: "0x10000 + push_bit 10 ((of_nat ?h :: u32) AND 0x03FF) + (of_nat ?l AND 0x03FF) = of_nat c" .
  have u: "(ucast (of_nat ?h :: u16) :: u32) = of_nat ?h" "(ucast (of_nat ?l :: u16) :: u32) = of_nat ?l"
    by (rule ucast_of_nat, use h l in simp)+
  have cmp: "\<not> (of_nat ?h :: u16) < 0x80" "\<not> (of_nat ?h :: u16) \<le> 0x7FF" "\<not> (of_nat ?h :: u16) < 0xD800"
    "\<not> 0xE000 \<le> (of_nat ?h :: u16)" "(of_nat ?h :: u16) \<le> 0xDBFF" "0xDC00 \<le> (of_nat ?l :: u16)" "(of_nat ?l :: u16) \<le> 0xDFFF"
    using h l by (subst of_nat_word_less; simp)+
  show "from_utf16 (of_nat ?h, of_nat ?l) = Inr (utf8_encode c, 2)"
    unfolding from_utf16_def prod.case Let_def u p
    using cmp chunk_of_nat(3) [OF c] by (simp only: if_False if_True simp_thms Let_def)
qed

lemma byte_as: "k \<le> unat b \<Longrightarrow> of_nat k + of_nat (unat b - k) = (b :: u8)"
  by (simp flip: of_nat_add)

text \<open>Bytes that \<^verbatim>\<open>validate\<close> takes although UTF-8 does not allow them: code points below 0x800 in three bytes.\<close>

definition overlong :: "bytes \<Rightarrow> bool" where
  "overlong bs \<longleftrightarrow> (\<exists>b c. bs = [0xE0, b, c] \<and> 0x80 \<le> b \<and> b \<le> 0x9F \<and> 0x80 \<le> c \<and> c \<le> 0xBF)"

lemma unat_byte: "x < 64 \<Longrightarrow> unat (0x80 + of_nat x :: u8) = 0x80 + x" "x < 32 \<Longrightarrow> unat (0xC0 + of_nat x :: u8) = 0xC0 + x"
  "x < 16 \<Longrightarrow> unat (0xE0 + of_nat x :: u8) = 0xE0 + x" "x < 8 \<Longrightarrow> unat (0xF0 + of_nat x :: u8) = 0xF0 + x"
  by (simp_all add: unat_word_ariths unat_of_nat)

lemma byte_eq: "b = (n :: u8) \<longleftrightarrow> unat b = unat n"
  by (rule word_eq_iff_unsigned)

lemma validate_nat:
  "validate [a, b] \<longleftrightarrow> 0xC2 \<le> unat a \<and> unat a \<le> 0xDF \<and> 0x80 \<le> unat b \<and> unat b \<le> 0xBF"
  "validate [a, b, c] \<longleftrightarrow> 0xE0 \<le> unat a \<and> unat a \<le> 0xEF \<and> 0x80 \<le> unat b \<and> unat b \<le> (if unat a = 0xED then 0x9F else 0xBF)
     \<and> 0x80 \<le> unat c \<and> unat c \<le> 0xBF"
  "validate [a, b, c, d] \<longleftrightarrow> 0xF0 \<le> unat a \<and> unat a \<le> 0xF4
     \<and> (if unat a = 0xF0 then 0x90 else 0x80) \<le> unat b \<and> unat b \<le> (if unat a = 0xF4 then 0x8F else 0xBF)
     \<and> 0x80 \<le> unat c \<and> unat c \<le> 0xBF \<and> 0x80 \<le> unat d \<and> unat d \<le> 0xBF"
  by (auto simp: word_le_nat_alt byte_eq)

declare validate.simps [simp del]

lemma validate_encode:
  assumes "scalar c"
  shows "validate (utf8_encode c)"
proof -
  have m: "a mod 64 \<le> 63" for a :: nat using mod_less_divisor [of 64 a] by linarith
  have d: "c div 64 < 32" if "c < 0x800" using that by auto
  have d3: "c div 4096 < 16" "c div 64 = c div 4096 * 64 + c div 64 mod 64" if "c < 0x10000"
    using that div_mult_mod_eq [of "c div 64" 64] by (auto simp: div_mult2_eq [symmetric] ac_simps)
  have d4: "c div 262144 < 8" "c div 4096 = c div 262144 * 64 + c div 4096 mod 64" if "c \<le> 0x10FFFF"
    using that div_mult_mod_eq [of "c div 4096" 64] by (auto simp: div_mult2_eq [symmetric] ac_simps)
  consider "c < 0x80" | "0x80 \<le> c" "c < 0x800" | "0x800 \<le> c" "c < 0x10000" | "0x10000 \<le> c" "c \<le> 0x10FFFF"
    using assms unfolding scalar_def by linarith
  then show ?thesis
  proof cases
    case 1
    then show ?thesis by (simp add: utf8_encode_def validate.simps word_le_nat_alt unat_of_nat)
  next
    case 2
    then show ?thesis using d by (simp add: utf8_encode_def validate_nat unat_byte) linarith
  next
    case 3
    then have "c div 64 mod 64 \<le> 31" if "c div 4096 = 13"
      using assms d3 that unfolding scalar_def by linarith
    then show ?thesis using 3 d3 by (simp add: utf8_encode_def validate_nat unat_byte m)
  next
    case 4
    then have "16 \<le> c div 4096" "c div 4096 \<le> 271" by linarith+
    then have "c div 262144 = 0 \<Longrightarrow> 16 \<le> c div 4096 mod 64" "c div 262144 = 4 \<Longrightarrow> c div 4096 mod 64 \<le> 15" "c div 262144 \<le> 4"
      using d4 4 by linarith+
    then show ?thesis using 4 d4 by (simp add: utf8_encode_def validate_nat unat_byte m)
  qed
qed

text \<open>The fields of a sequence of bytes, put together.\<close>

lemma fields:
  assumes "x < (64 :: nat)" and "y < 64" and "z < 64"
  shows "(k * 64 + x) div 64 = k" "(k * 64 + x) mod 64 = x"
    "((k * 64 + x) * 64 + y) div 4096 = k" "((k * 64 + x) * 64 + y) div 64 mod 64 = x" "((k * 64 + x) * 64 + y) mod 64 = y"
    "(((k * 64 + x) * 64 + y) * 64 + z) div 262144 = k" "(((k * 64 + x) * 64 + y) * 64 + z) div 4096 mod 64 = x"
    "(((k * 64 + x) * 64 + y) * 64 + z) div 64 mod 64 = y" "(((k * 64 + x) * 64 + y) * 64 + z) mod 64 = z"
proof -
  have d: "a div 4096 = a div 64 div 64" "a div 262144 = a div 64 div 64 div 64" for a :: nat
    by (simp_all add: div_mult2_eq [symmetric])
  have b: "(a * 64 + v) div 64 = a" "(a * 64 + v) mod 64 = v" if "v < 64" for a v :: nat using that by simp_all
  show "(k * 64 + x) div 64 = k" "(k * 64 + x) mod 64 = x"
    "((k * 64 + x) * 64 + y) div 4096 = k" "((k * 64 + x) * 64 + y) div 64 mod 64 = x" "((k * 64 + x) * 64 + y) mod 64 = y"
    "(((k * 64 + x) * 64 + y) * 64 + z) div 262144 = k" "(((k * 64 + x) * 64 + y) * 64 + z) div 4096 mod 64 = x"
    "(((k * 64 + x) * 64 + y) * 64 + z) div 64 mod 64 = y" "(((k * 64 + x) * 64 + y) * 64 + z) mod 64 = z"
    unfolding d by (simp_all only: b [OF assms(1)] b [OF assms(2)] b [OF assms(3)])
qed

lemma byte_parts: "k \<le> unat b \<Longrightarrow> \<exists>x. unat b = k + x \<and> b = (of_nat k + of_nat x :: u8)"
  using byte_as [of k b] by (intro exI [of _ "unat b - k"]) simp

lemma continuation_byte:
  assumes "0x80 \<le> unat b" and "unat b \<le> 0xBF"
  obtains x where "x < 64" "unat b = 0x80 + x" "b = (0x80 + of_nat x :: u8)"
  using byte_parts [OF assms(1)] assms(2) by auto

lemma validate_decode:
  assumes v: "validate bs" and o: "\<not> overlong bs"
  shows "\<exists>c. scalar c \<and> bs = utf8_encode c"
proof -
  consider a where "bs = [a]" | a b where "bs = [a, b]" | a b c where "bs = [a, b, c]" | a b c d where "bs = [a, b, c, d]"
    using v by (cases bs rule: validate.cases) (auto simp: validate.simps)
  then show ?thesis
  proof cases
    case 1
    then have "unat a < 0x80" using v by (simp add: validate.simps word_le_nat_alt)
    then show ?thesis using 1 by (intro exI [of _ "unat a"]) (simp add: scalar_def utf8_encode_def)
  next
    case 2
    then have h: "0xC2 \<le> unat a" "unat a \<le> 0xDF" "0x80 \<le> unat b" "unat b \<le> 0xBF" using v by (simp_all add: validate_nat)
    obtain k where k: "unat a = 0xC0 + k" "a = 0xC0 + of_nat k" using byte_parts [of "0xC0" a] h by auto
    obtain x where x: "x < 64" "unat b = 0x80 + x" "b = 0x80 + of_nat x" using continuation_byte h by blast
    have "k * 64 + x < 0x800" "0x80 \<le> k * 64 + x" using h k(1) x(1) by auto
    then show ?thesis using fields(1,2) [OF x(1) x(1) x(1), of k] unfolding 2 k(2) x(3)
      by (intro exI [of _ "k * 64 + x"]) (simp add: scalar_def utf8_encode_def)
  next
    case 3
    then have h: "0xE0 \<le> unat a" "unat a \<le> 0xEF" "0x80 \<le> unat b" "unat b \<le> 0xBF" "0x80 \<le> unat c" "unat c \<le> 0xBF"
      and e: "unat a = 0xED \<longrightarrow> unat b \<le> 0x9F"
      using v by (simp_all add: validate_nat split: if_splits)
    have o': "unat a = 0xE0 \<longrightarrow> 0xA0 \<le> unat b"
      using o 3 h by (auto simp: overlong_def word_le_nat_alt byte_eq [of a])
    obtain k where k: "unat a = 0xE0 + k" "a = 0xE0 + of_nat k" using byte_parts [of "0xE0" a] h by auto
    obtain x where x: "x < 64" "unat b = 0x80 + x" "b = 0x80 + of_nat x" using continuation_byte h by blast
    obtain y where y: "y < 64" "unat c = 0x80 + y" "c = 0x80 + of_nat y" using continuation_byte h by blast
    let ?c = "(k * 64 + x) * 64 + y"
    have "k < 13 \<or> (k = 13 \<and> x \<le> 31) \<or> 14 \<le> k" using e unfolding k(1) x(2) by auto
    then have "?c < 0xD800 \<or> 0xE000 \<le> ?c" using x(1) y(1) by (elim disjE) auto
    moreover have "?c < 0x10000" "0x800 \<le> ?c" using h(1,2) o' x(1) y(1) unfolding k(1) x(2) by auto
    ultimately have "scalar ?c" "utf8_encode ?c = bs"
      unfolding scalar_def utf8_encode_def fields(3-5) [OF x(1) y(1) y(1)] 3 k(2) x(3) y(3) by simp_all
    then show ?thesis by blast
  next
    case 4
    then have h: "0xF0 \<le> unat a" "unat a \<le> 0xF4" "0x80 \<le> unat b" "unat b \<le> 0xBF" "0x80 \<le> unat c" "unat c \<le> 0xBF"
        "0x80 \<le> unat d" "unat d \<le> 0xBF" and e: "unat a = 0xF0 \<longrightarrow> 0x90 \<le> unat b" "unat a = 0xF4 \<longrightarrow> unat b \<le> 0x8F"
      using v by (simp_all add: validate_nat split: if_splits)
    obtain k where k: "unat a = 0xF0 + k" "a = 0xF0 + of_nat k" using byte_parts [of "0xF0" a] h by auto
    obtain x where x: "x < 64" "unat b = 0x80 + x" "b = 0x80 + of_nat x" using continuation_byte h by blast
    obtain y where y: "y < 64" "unat c = 0x80 + y" "c = 0x80 + of_nat y" using continuation_byte h by blast
    obtain z where z: "z < 64" "unat d = 0x80 + z" "d = 0x80 + of_nat z" using continuation_byte h by blast
    let ?c = "((k * 64 + x) * 64 + y) * 64 + z"
    have "?c \<le> 0x10FFFF" "0x10000 \<le> ?c"
      using h(1,2) e x(1) y(1) z(1) unfolding k(1) x(2) by auto
    then have "scalar ?c" "utf8_encode ?c = bs"
      unfolding scalar_def utf8_encode_def fields(6-9) [OF x(1) y(1) z(1)] 4 k(2) x(3) y(3) z(3) by simp_all
    then show ?thesis by blast
  qed
qed

section \<open>The view of a UTF-8 input\<close>

lemma filter_takeWhile: "filter P p = takeWhile P p @ filter P (dropWhile P p)"
  by (induction p) auto

lemma append_chunk_eq: "append_chunk p m = m @ filter (\<lambda>b. b \<noteq> 0x0D) p"
proof (induction "length p" arbitrary: p m rule: less_induct)
  case less
  let ?P = "\<lambda>b. b \<noteq> (0x0D :: u8)"
  show ?case
  proof (cases "dropWhile ?P p")
    case Nil
    then show ?thesis by (subst append_chunk.simps, unfold filter_takeWhile [of ?P p] Nil Let_def) simp
  next
    case (Cons x p')
    then have "x = 0x0D" using hd_dropWhile [of ?P p] by simp
    moreover have "length p' < length p" using length_dropWhile_le [of ?P p] Cons by simp
    ultimately show ?thesis using Cons less.hyps [of p' "m @ takeWhile ?P p"]
      by (subst append_chunk.simps) (simp add: filter_takeWhile [of _ p] Let_def)
  qed
qed

lemma read_chunks_eq: "read_chunks s m = m @ filter (\<lambda>b. b \<noteq> 0x0D) s"
proof (induction "length s" arbitrary: s m rule: less_induct)
  case less
  have "filter (\<lambda>b. b \<noteq> 0x0D) (take 256 s) @ filter (\<lambda>b. b \<noteq> 0x0D) (drop 256 s) = filter (\<lambda>b. b \<noteq> 0x0D) s"
    by (simp flip: filter_append)
  then show ?case using less.hyps [of "drop 256 s"]
    by (subst read_chunks.simps) (simp add: stream_read_def append_chunk_eq Let_def)
qed

lemma num_bytes_nat:
  "get_num_bytes b =
     (if unat b < 0x80 then Inr 1 else if unat b div 32 = 6 then Inr 2 else if unat b div 16 = 14 then Inr 3
      else if unat b div 8 = 30 then Inr 4 else Inl Invalid_encoding)"
proof -
  have "(0xE0 :: u8) = push_bit 5 (mask 3)" "(0xF0 :: u8) = push_bit 4 (mask 4)" "(0xF8 :: u8) = push_bit 3 (mask 5)"
    by (simp_all add: mask_eq_exp_minus_1 push_bit_eq_mult)
  then have a: "b AND 0xE0 = push_bit 5 (take_bit 3 (drop_bit 5 b))" "b AND 0xF0 = push_bit 4 (take_bit 4 (drop_bit 4 b))"
    "b AND 0xF8 = push_bit 3 (take_bit 5 (drop_bit 3 b))"
    by (simp_all only: and_field)
  have b: "unat b < 256" using unsigned_less [of b, where ?'a = nat] by simp
  have u: "unat (push_bit n (take_bit k (drop_bit n b))) = unat b div 2 ^ n mod 2 ^ k * 2 ^ n mod 256" for n k
    using b by (simp add: unsigned_push_bit_eq unsigned_take_bit_eq unsigned_drop_bit_eq push_bit_eq_mult [where 'a = nat]
      take_bit_eq_mod [where 'a = nat] drop_bit_eq_div [where 'a = nat])
  have "unat b div 32 mod 8 = unat b div 32" "unat b div 16 mod 16 = unat b div 16" "unat b div 8 mod 32 = unat b div 8"
    using b by simp_all
  then have e: "(b AND 0xE0 = 0xC0) = (unat b div 32 = 6)" "(b AND 0xF0 = 0xE0) = (unat b div 16 = 14)" "(b AND 0xF8 = 0xF0) = (unat b div 8 = 30)"
    unfolding a byte_eq u using b by auto
  show ?thesis unfolding get_num_bytes_def e by (simp add: word_less_nat_alt)
qed

lemma validate_num_bytes:
  assumes "validate (f # t)"
  shows "get_num_bytes f = Inr (Suc (length t))"
proof -
  have "length t < 4" using assms by (cases "f # t" rule: validate.cases) (auto simp: validate.simps)
  then consider "t = []" | b where "t = [b]" | b c where "t = [b, c]" | b c d where "t = [b, c, d]"
    by (auto simp: numeral_eq_Suc less_Suc_eq length_Suc_conv)
  then show ?thesis
  proof cases
    case 1
    then show ?thesis using assms by (simp add: num_bytes_nat validate.simps word_le_nat_alt)
  next
    case 2
    then have "unat f div 32 = 6" "\<not> unat f < 0x80" using assms by (auto simp: validate_nat)
    then show ?thesis using 2 by (simp add: num_bytes_nat)
  next
    case 3
    then have "unat f div 32 \<noteq> 6" "unat f div 16 = 14" "\<not> unat f < 0x80" using assms by (auto simp: validate_nat)
    then show ?thesis using 3 by (simp add: num_bytes_nat)
  next
    case 4
    then have "unat f div 32 \<noteq> 6" "unat f div 16 \<noteq> 14" "unat f div 8 = 30" "\<not> unat f < 0x80"
      using assms by (auto simp: validate_nat)
    then show ?thesis using 4 by (simp add: num_bytes_nat)
  qed
qed

lemma validate_all_piece: "validate p \<Longrightarrow> validate_all (p @ r) = validate_all r"
proof (cases p)
  case (Cons f t)
  assume "validate p"
  then show ?thesis using validate_num_bytes [of f t] Cons by simp
qed (simp add: validate.simps)

lemma num_bytes_cases: "get_num_bytes f = Inr n \<Longrightarrow> 1 \<le> n \<and> n \<le> 4 \<and> (n = 1 \<longrightarrow> validate [f])"
  by (auto simp: num_bytes_nat validate.simps word_le_nat_alt split: if_splits)

lemma validate_all_pieces:
  "validate_all bs = None \<longleftrightarrow> (\<exists>ps. bs = concat ps \<and> (\<forall>p \<in> set ps. validate p))"
proof
  assume "validate_all bs = None"
  then show "\<exists>ps. bs = concat ps \<and> (\<forall>p \<in> set ps. validate p)"
  proof (induction "length bs" arbitrary: bs rule: less_induct)
    case less
    show ?case
    proof (cases bs)
      case Nil
      then show ?thesis by (intro exI [of _ "[]"]) simp
    next
      case (Cons f t)
      then obtain n where n: "get_num_bytes f = Inr n" using less.prems by (auto split: sum.splits)
      have 1: "validate (f # take (n - 1) t)" "validate_all (drop (n - 1) t) = None"
        using less.prems Cons n num_bytes_cases [OF n] by (auto split: if_splits)
      obtain ps where "drop (n - 1) t = concat ps" "\<forall>p \<in> set ps. validate p"
        using less.hyps [OF _ 1(2)] Cons by (auto simp: less_Suc_eq_le)
      then show ?thesis using 1(1) Cons
        by (intro exI [of _ "(f # take (n - 1) t) # ps"]) (metis (no_types, lifting) append_Cons append_take_drop_id concat.simps(2) set_ConsD)
    qed
  qed
next
  assume "\<exists>ps. bs = concat ps \<and> (\<forall>p \<in> set ps. validate p)"
  then obtain ps where ps: "bs = concat ps" "\<forall>p \<in> set ps. validate p" by blast
  have "validate_all (concat ps) = None" using ps(2)
    by (induction ps) (simp_all add: validate_all_piece)
  then show "validate_all bs = None" using ps(1) by simp
qed

section \<open>Texts\<close>

text \<open>A text of code points in each of the encodings, and its byte order mark.\<close>

definition utf8_text :: "nat list \<Rightarrow> bytes" where "utf8_text cs = concat (map utf8_encode cs)"

definition bytes16 :: "bool \<Rightarrow> u16 \<Rightarrow> bytes" where
  "bytes16 big u = (let h = ucast (drop_bit 8 u); l = ucast u in if big then [h, l] else [l, h])"

definition bytes32 :: "bool \<Rightarrow> u32 \<Rightarrow> bytes" where
  "bytes32 big u =
     (let bs = [ucast (drop_bit 24 u), ucast (drop_bit 16 u), ucast (drop_bit 8 u), ucast u]
      in if big then bs else rev bs)"

fun encode_text :: "utf_encode_t \<Rightarrow> nat list \<Rightarrow> bytes" where
  "encode_text UTF_8 cs = utf8_text cs"
| "encode_text UTF_16BE cs = concat (map (bytes16 True) (concat (map utf16_encode cs)))"
| "encode_text UTF_16LE cs = concat (map (bytes16 False) (concat (map utf16_encode cs)))"
| "encode_text UTF_32BE cs = concat (map (bytes32 True) (map of_nat cs))"
| "encode_text UTF_32LE cs = concat (map (bytes32 False) (map of_nat cs))"

definition bom :: "utf_encode_t \<Rightarrow> bytes" where "bom enc = encode_text enc [0xFEFF]"

lemma element16_bytes: "element16 big (bytes16 big u) = u"
  by (cases big; rule bit_word_eqI) (auto simp: element16_def bytes16_def bit_simps)

lemma element32_bytes: "element32 big (bytes32 big u) = u"
proof (rule bit_word_eqI)
  fix n assume "n < LENGTH(32)"
  then consider "n < 8" | "8 \<le> n" "n < 16" | "16 \<le> n" "n < 24" | "24 \<le> n" "n < 32" by fastforce
  then show "bit (element32 big (bytes32 big u)) n = bit u n"
    by cases (cases big; auto simp: element32_def bytes32_def Let_def nth_Cons' bit_simps)+
qed

section \<open>Reading UTF-32\<close>

lemma length_bytes [simp]: "length (bytes16 big u) = 2" "length (bytes32 big v) = 4"
  by (simp_all add: bytes16_def bytes32_def Let_def)

lemma utf32_loop_text:
  "\<forall>c \<in> set cs. c \<le> 0x10FFFF \<Longrightarrow>
     utf32_loop big (concat (map (bytes32 big) (map of_nat cs))) m = Inr (m @ utf8_text (filter (\<lambda>c. c \<noteq> 13) cs))"
proof (induction cs arbitrary: m)
  case Nil
  show ?case by (subst utf32_loop.simps) (simp add: stream_read_def utf8_text_def)
next
  case (Cons c cs)
  have z: "(of_nat c :: u32) = 0x0D \<longleftrightarrow> c = 13"
    using Cons.prems word_eq_iff_unsigned [of "of_nat c :: u32" 13, where ?'a = nat] by (simp add: unat_of_nat)
  show ?case using Cons
    by (subst utf32_loop.simps) (simp add: stream_read_def element32_bytes from_utf32_encodes utf8_text_def z Let_def)
qed

section \<open>Reading UTF-16\<close>

definition stream16 :: "bool \<Rightarrow> u16 list \<Rightarrow> bytes" where "stream16 big us = concat (map (bytes16 big) us)"

definition no_cr :: "u16 list \<Rightarrow> u16 list" where "no_cr us = filter (\<lambda>u. u \<noteq> 0x0D) us"

lemma stream16_simps [simp]:
  "stream16 big [] = []" "2 \<le> length (stream16 big (u # us))" "take 2 (stream16 big (u # us)) = bytes16 big u"
  "drop 2 (stream16 big (u # us)) = stream16 big us"
  by (simp_all add: stream16_def)

lemma no_cr_simps [simp]: "no_cr [] = []" "no_cr (u # us) = (if u = 0x0D then no_cr us else u # no_cr us)"
  by (simp_all add: no_cr_def)

lemma fill_second:
  "no_cr us = [] \<Longrightarrow> fill_utf16 big (stream16 big us) buf 1 = ([], True, buf, 1)"
  "no_cr us = u # r \<Longrightarrow> \<exists>us'. no_cr us' = r \<and> fill_utf16 big (stream16 big us) buf 1 = (stream16 big us', False, (fst buf, u), 2)"
proof (induction us)
  case (Cons v us)
  have e: "v = 13 \<Longrightarrow> fill_utf16 big (stream16 big (v # us)) buf 1 = fill_utf16 big (stream16 big us) buf 1"
    "v \<noteq> 13 \<Longrightarrow> fill_utf16 big (stream16 big (v # us)) buf 1 = (stream16 big us, False, (fst buf, v), 2)"
    by (simp_all add: fill_utf16_eqs element16_bytes)
  {
    case 1
    then show ?case using Cons.IH(1) e by (simp split: if_splits)
  next
    case 2
    then show ?case using Cons.IH(2) e by (auto split: if_splits)
  }
qed (simp_all add: fill_utf16_eqs)

lemma fill_first:
  "no_cr us = [] \<Longrightarrow> fill_utf16 big (stream16 big us) buf 0 = ([], True, buf, 0)"
  "no_cr us = u # r \<Longrightarrow> \<exists>us'. no_cr us' = r \<and> fill_utf16 big (stream16 big us) buf 0 = fill_utf16 big (stream16 big us') (u, snd buf) 1"
proof (induction us)
  case (Cons v us)
  have e: "v = 13 \<Longrightarrow> fill_utf16 big (stream16 big (v # us)) buf 0 = fill_utf16 big (stream16 big us) buf 0"
    "v \<noteq> 13 \<Longrightarrow> fill_utf16 big (stream16 big (v # us)) buf 0 = fill_utf16 big (stream16 big us) (v, snd buf) 1"
    by (simp_all add: fill_utf16_eqs element16_bytes)
  {
    case 1
    then show ?case using Cons.IH(1) e by (simp split: if_splits)
  next
    case 2
    then show ?case using Cons.IH(2) e by (auto split: if_splits)
  }
qed (simp_all add: fill_utf16_eqs)

text \<open>What the loop has still to convert: an element of the buffer, if it holds one, and the rest of the stream.\<close>

definition waiting :: "u16 \<times> u16 \<Rightarrow> u32 \<Rightarrow> u16 list \<Rightarrow> u16 list" where
  "waiting buf n us = (if n = 1 then [fst buf] else []) @ no_cr us"

lemma fill_waiting:
  assumes "n = 0 \<or> n = 1"
  shows "waiting buf n us = [] \<Longrightarrow> n = 0 \<and> fill_utf16 big (stream16 big us) buf n = ([], True, buf, 0)"
    and "waiting buf n us = [u] \<Longrightarrow> \<exists>v. fill_utf16 big (stream16 big us) buf n = ([], True, (u, v), 1)"
    and "waiting buf n us = u # v # r \<Longrightarrow>
      \<exists>us'. no_cr us' = r \<and> fill_utf16 big (stream16 big us) buf n = (stream16 big us', False, (u, v), 2)"
proof -
  show "n = 0 \<and> fill_utf16 big (stream16 big us) buf n = ([], True, buf, 0)" if "waiting buf n us = []"
    using assms that fill_first(1) [of us big buf] by (auto simp: waiting_def)
  show "\<exists>v. fill_utf16 big (stream16 big us) buf n = ([], True, (u, v), 1)" if "waiting buf n us = [u]"
  proof (cases "n = 1")
    case True
    then show ?thesis using that fill_second(1) [of us big buf] by (cases buf) (auto simp: waiting_def)
  next
    case False
    then have "no_cr us = [u]" "n = 0" using that assms by (auto simp: waiting_def)
    then show ?thesis using fill_first(2) [of us u "[]" big buf] fill_second(1) [of _ big "(u, snd buf)"] by auto
  qed
  show "\<exists>us'. no_cr us' = r \<and> fill_utf16 big (stream16 big us) buf n = (stream16 big us', False, (u, v), 2)"
    if "waiting buf n us = u # v # r"
  proof (cases "n = 1")
    case True
    then show ?thesis using that fill_second(2) [of us v r big buf] by (cases buf) (auto simp: waiting_def)
  next
    case False
    then have "no_cr us = u # v # r" "n = 0" using that assms by (auto simp: waiting_def)
    then obtain us' where "no_cr us' = v # r" "fill_utf16 big (stream16 big us) buf n = fill_utf16 big (stream16 big us') (u, snd buf) 1"
      using fill_first(2) by blast
    then show ?thesis using fill_second(2) [of us' v r big "(u, snd buf)"] by auto
  qed
qed

text \<open>One pass of the loop.\<close>

lemma utf16_loop_step:
  assumes "fill_utf16 big s buf n = (s', eof, b, k)" and "from_utf16 b = Inr (bs, d)"
  shows "utf16_loop big s buf n m =
    (if eof then Inr (m @ bs) else utf16_loop big s' (if d = 1 then (snd b, snd b) else b) (k - d) (m @ bs))"
  using assms by (subst utf16_loop.simps) (simp add: Let_def)

lemma utf16_loop_text:
  "cs \<noteq> [] \<Longrightarrow> \<forall>c \<in> set cs. scalar c \<Longrightarrow> n = 0 \<or> n = 1 \<Longrightarrow> waiting buf n us = concat (map utf16_encode cs) \<Longrightarrow>
     utf16_loop big (stream16 big us) buf n m = Inr (m @ utf8_text (if last cs < 0x10000 then cs else cs @ [last cs]))"
proof (induction cs arbitrary: buf n us m)
  case (Cons c cs)
  have wait: "waiting buf n us = utf16_encode c @ concat (map utf16_encode cs)" and c: "scalar c" using Cons.prems by simp_all
  have ih: "utf16_loop big (stream16 big us') buf' n' m' = Inr (m' @ utf8_text (if last cs < 0x10000 then cs else cs @ [last cs]))"
    if "cs \<noteq> []" "n' = 0 \<or> n' = 1" "waiting buf' n' us' = concat (map utf16_encode cs)" for buf' n' us' m'
    using Cons.IH [OF that(1) _ that(2,3)] Cons.prems(2) by simp
  have t: "utf8_text (c # xs) = utf8_encode c @ utf8_text xs" for xs by (simp add: utf8_text_def)
  show ?case
  proof (cases "c < 0x10000")
    case True
    then have u: "utf16_encode c = [of_nat c]" by (simp add: utf16_encode_def)
    note conv = from_utf16_encodes(1) [OF True c]
    show ?thesis
    proof (cases "concat (map utf16_encode cs)")
      case Nil
      then have cs: "cs = []" by (cases cs) (auto simp: utf16_encode_def split: if_splits)
      have "waiting buf n us = [of_nat c]" using wait u Nil by simp
      then obtain v where "fill_utf16 big (stream16 big us) buf n = ([], True, (of_nat c, v), 1)"
        using fill_waiting(2) [OF Cons.prems(3)] by blast
      from utf16_loop_step [OF this conv] show ?thesis using True cs by (simp add: utf8_text_def)
    next
      case r: (Cons v r)
      then have cs: "cs \<noteq> []" by auto
      have "waiting buf n us = of_nat c # v # r" using wait u r by simp
      then obtain us' where us': "no_cr us' = r" "fill_utf16 big (stream16 big us) buf n = (stream16 big us', False, (of_nat c, v), 2)"
        using fill_waiting(3) [OF Cons.prems(3)] by blast
      from utf16_loop_step [OF us'(2) conv]
      have "utf16_loop big (stream16 big us) buf n m = utf16_loop big (stream16 big us') (v, v) 1 (m @ utf8_encode c)" by simp
      also have "\<dots> = Inr (m @ utf8_encode c @ utf8_text (if last cs < 0x10000 then cs else cs @ [last cs]))"
        using ih [OF cs, of 1 "(v, v)" us' "m @ utf8_encode c"] us'(1) r by (simp add: waiting_def)
      finally show ?thesis using cs by (simp add: t)
    qed
  next
    case False
    let ?h = "of_nat (0xD800 + (c - 0x10000) div 1024) :: u16" and ?l = "of_nat (0xDC00 + (c - 0x10000) mod 1024) :: u16"
    have u: "utf16_encode c = [?h, ?l]" using False by (simp add: utf16_encode_def)
    have "c \<le> 0x10FFFF" "0x10000 \<le> c" using c False by (auto simp: scalar_def)
    note conv = from_utf16_encodes(2) [OF this(2,1)]
    have "waiting buf n us = ?h # ?l # concat (map utf16_encode cs)" using wait u by simp
    then obtain us' where us': "no_cr us' = concat (map utf16_encode cs)"
        "fill_utf16 big (stream16 big us) buf n = (stream16 big us', False, (?h, ?l), 2)"
      using fill_waiting(3) [OF Cons.prems(3)] by blast
    from utf16_loop_step [OF us'(2) conv]
    have r: "utf16_loop big (stream16 big us) buf n m = utf16_loop big (stream16 big us') (?h, ?l) 0 (m @ utf8_encode c)" by simp
    have w: "waiting (?h, ?l) 0 us' = concat (map utf16_encode cs)" using us'(1) by (simp add: waiting_def)
    show ?thesis
    proof (cases "cs = []")
      case True
      then have "fill_utf16 big (stream16 big us') (?h, ?l) 0 = ([], True, (?h, ?l), 0)"
        using fill_waiting(1) [of 0 "(?h, ?l)" us'] w by simp
      from utf16_loop_step [OF this conv] show ?thesis unfolding r using True False by (simp add: utf8_text_def)
    next
      case cs: False
      show ?thesis unfolding r using ih [OF cs _ w] cs by (simp add: t)
    qed
  qed
qed simp

section \<open>Reading a text\<close>

lemma of_nat_eq_13:
  "c < 2 ^ 8 \<Longrightarrow> (of_nat c :: u8) = 13 \<longleftrightarrow> c = 13" "c < 2 ^ 16 \<Longrightarrow> (of_nat c :: u16) = 13 \<longleftrightarrow> c = 13"
  using word_eq_iff_unsigned [of "of_nat c :: u8" 13, where ?'a = nat] word_eq_iff_unsigned [of "of_nat c :: u16" 13, where ?'a = nat]
  by (simp_all add: unat_of_nat)

lemma not_13:
  "0x80 \<le> unat b \<Longrightarrow> (b :: u8) \<noteq> 13" "0xD800 \<le> unat u \<Longrightarrow> (u :: u16) \<noteq> 13"
  by auto

lemma utf16_no_cr:
  assumes "\<forall>c \<in> set cs. scalar c"
  shows "no_cr (concat (map utf16_encode cs)) = concat (map utf16_encode (filter (\<lambda>c. c \<noteq> 13) cs))"
proof -
  have "no_cr (utf16_encode c) = (if c = 13 then [] else utf16_encode c)" if "scalar c" for c
  proof (cases "c < 0x10000")
    case True
    then show ?thesis by (simp add: utf16_encode_def of_nat_eq_13)
  next
    case False
    then have d: "(c - 0x10000) div 1024 < 1024" "(c - 0x10000) mod 1024 < 1024" "c \<noteq> 13" using that by (auto simp: scalar_def)
    then have "of_nat (0xD800 + (c - 0x10000) div 1024) \<noteq> (13 :: u16)" "of_nat (0xDC00 + (c - 0x10000) mod 1024) \<noteq> (13 :: u16)"
      by (subst of_nat_eq_13; simp)+
    then show ?thesis using False d(3) by (simp add: utf16_encode_def)
  qed
  then show ?thesis using assms by (induction cs) (auto simp: no_cr_def)
qed

lemma utf8_no_cr:
  assumes "\<forall>c \<in> set cs. scalar c"
  shows "filter (\<lambda>b. b \<noteq> 0x0D) (utf8_text cs) = utf8_text (filter (\<lambda>c. c \<noteq> 13) cs)"
proof -
  have "filter (\<lambda>b. b \<noteq> 0x0D) (utf8_encode c) = (if c = 13 then [] else utf8_encode c)" if "scalar c" for c
  proof (cases "c < 0x80")
    case True
    then show ?thesis by (simp add: utf8_encode_def of_nat_eq_13)
  next
    case False
    have "c div 64 < 32" if "c < 0x800" using that by auto
    moreover have "c div 4096 < 16" if "c < 0x10000" using that by auto
    moreover have "c div 262144 < 8" using \<open>scalar c\<close> by (auto simp: scalar_def)
    ultimately have "\<forall>b \<in> set (utf8_encode c). 0x80 \<le> unat b" using False
      by (simp add: utf8_encode_def unat_byte)
    then have "\<forall>b \<in> set (utf8_encode c). b \<noteq> 0x0D" using not_13(1) by blast
    then have "filter (\<lambda>b. b \<noteq> 0x0D) (utf8_encode c) = utf8_encode c" by (simp add: filter_id_conv)
    then show ?thesis using False by simp
  qed
  then show ?thesis using assms by (induction cs) (simp_all add: utf8_text_def)
qed

lemma utf8_text_valid: "\<forall>c \<in> set cs. scalar c \<Longrightarrow> validate_all (utf8_text cs) = None"
  by (induction cs) (simp_all add: utf8_text_def validate_all_piece validate_encode)

lemma last_twice: "get_buffer_view_utf16 big (stream16 big (concat (map utf16_encode cs)))
    = Inr (utf8_text (let text = filter (\<lambda>c. c \<noteq> 13) cs in if last text < 0x10000 then text else text @ [last text]))"
  if "\<forall>c \<in> set cs. scalar c" "filter (\<lambda>c. c \<noteq> 13) cs \<noteq> []"
  using utf16_loop_text [OF that(2), of 0 "(0, 0)" "concat (map utf16_encode cs)" big "[]"] that(1) utf16_no_cr [OF that(1)]
  by (simp add: get_buffer_view_utf16_def waiting_def Let_def)

definition wide :: "utf_encode_t \<Rightarrow> bool" where "wide enc \<longleftrightarrow> enc = UTF_16BE \<or> enc = UTF_16LE"

lemma view_text:
  assumes "\<forall>c \<in> set cs. scalar c" and "wide enc \<longrightarrow> filter (\<lambda>c. c \<noteq> 13) cs \<noteq> []"
  shows "get_buffer_view enc (encode_text enc cs)
    = Inr (utf8_text (let text = filter (\<lambda>c. c \<noteq> 13) cs in if wide enc \<and> 0x10000 \<le> last text then text @ [last text] else text))"
proof -
  have s: "\<forall>c \<in> set cs. c \<le> 0x10FFFF" using assms(1) by (auto simp: scalar_def)
  have f: "\<forall>c \<in> set (filter (\<lambda>c. c \<noteq> 13) cs). scalar c" using assms(1) by simp
  show ?thesis
    using assms last_twice [OF assms(1), unfolded stream16_def] utf32_loop_text [OF s, of _ "[]"] utf8_text_valid [OF f]
    by (cases enc) (simp_all add: get_buffer_view_def wide_def get_buffer_view_utf8_def get_buffer_view_utf32_def read_chunks_eq utf8_no_cr
      Let_def not_le)
qed

lemma boms:
  "bom UTF_8 = [0xEF, 0xBB, 0xBF]" "bom UTF_16BE = [0xFE, 0xFF]" "bom UTF_16LE = [0xFF, 0xFE]"
  "bom UTF_32BE = [0, 0, 0xFE, 0xFF]" "bom UTF_32LE = [0xFF, 0xFE, 0, 0]"
  by (simp_all add: bom_def utf8_text_def utf8_encode_def utf16_encode_def bytes16_def bytes32_def Let_def)

lemma replicate_4: "replicate 4 x = [x, x, x, x]"
  by (simp add: eval_nat_numeral)

definition mark_length :: "utf_encode_t \<Rightarrow> nat" where
  "mark_length enc = (case enc of UTF_8 \<Rightarrow> 3 | UTF_16BE \<Rightarrow> 2 | UTF_16LE \<Rightarrow> 2 | UTF_32BE \<Rightarrow> 4 | UTF_32LE \<Rightarrow> 4)"

lemma stream_detect_bytes:
  assumes "s @ replicate 4 0xFF = b0 # b1 # b2 # b3 # r" and "detect_encoding_type b0 b1 b2 b3 = (enc, m)"
  shows "stream_detect s = (enc, drop (if m then mark_length enc else 0) s)"
  unfolding stream_detect_def assms(1) mark_length_def using assms(2) by simp

lemma four_bytes: "\<exists>x y z w. s @ replicate 4 (0xFF :: u8) = x # y # z # w # drop 4 (s @ replicate 4 0xFF)
    \<and> (take 2 s \<noteq> [0, 0] \<longleftrightarrow> \<not> (x = 0 \<and> y = 0)) \<and> (s \<noteq> [] \<longrightarrow> x = hd s) \<and> (s = [] \<longrightarrow> x = 0xFF)"
proof -
  consider "s = []" | a where "s = [a]" | a b where "s = [a, b]" | a b c where "s = [a, b, c]" | a b c d r where "s = a # b # c # d # r"
    by (metis list.exhaust)
  then show ?thesis by cases (simp_all add: replicate_4)
qed

lemma detect_bom:
  assumes "enc = UTF_16LE \<longrightarrow> take 2 s \<noteq> [0, 0]"
  shows "stream_detect (bom enc @ s) = (enc, s)"
proof -
  obtain x y z w r where e: "s @ replicate 4 0xFF = x # y # z # w # r" "take 2 s \<noteq> [0, 0] \<longleftrightarrow> \<not> (x = 0 \<and> y = 0)"
    using four_bytes [of s] by blast
  show ?thesis
  proof (cases enc)
    case UTF_8
    show ?thesis unfolding UTF_8 boms
      by (subst stream_detect_bytes [of _ "0xEF" "0xBB" "0xBF" x _ UTF_8 True])
        (simp_all add: e(1) detect_encoding_type_def mark_length_def)
  next
    case UTF_16BE
    show ?thesis unfolding UTF_16BE boms
      by (subst stream_detect_bytes [of _ "0xFE" "0xFF" x y _ UTF_16BE True])
        (simp_all add: e(1) detect_encoding_type_def mark_length_def)
  next
    case UTF_16LE
    then have "\<not> (x = 0 \<and> y = 0)" using assms e(2) by simp
    then show ?thesis unfolding UTF_16LE boms
      by (subst stream_detect_bytes [of _ "0xFF" "0xFE" x y _ UTF_16LE True])
        (simp_all add: e(1) detect_encoding_type_def mark_length_def)
  next
    case UTF_32BE
    show ?thesis unfolding UTF_32BE boms
      by (subst stream_detect_bytes [of _ 0 0 "0xFE" "0xFF" _ UTF_32BE True])
        (simp_all add: e(1) detect_encoding_type_def mark_length_def)
  next
    case UTF_32LE
    show ?thesis unfolding UTF_32LE boms
      by (subst stream_detect_bytes [of _ "0xFF" "0xFE" 0 0 _ UTF_32LE True])
        (simp_all add: e(1) detect_encoding_type_def mark_length_def)
  qed
qed

lemma detect_ascii:
  assumes a: "0 < a" "a < (0x80 :: u8)"
  shows "s = [] \<or> hd s \<noteq> 0 \<Longrightarrow> stream_detect (a # s) = (UTF_8, a # s)"
    and "stream_detect (0 # a # s) = (UTF_16BE, 0 # a # s)"
    and "take 2 s \<noteq> [0, 0] \<Longrightarrow> stream_detect (a # 0 # s) = (UTF_16LE, a # 0 # s)"
    and "stream_detect (0 # 0 # 0 # a # s) = (UTF_32BE, 0 # 0 # 0 # a # s)"
    and "stream_detect (a # 0 # 0 # 0 # s) = (UTF_32LE, a # 0 # 0 # 0 # s)"
proof -
  obtain x y z w r where e: "s @ replicate 4 0xFF = x # y # z # w # r" "take 2 s \<noteq> [0, 0] \<longleftrightarrow> \<not> (x = 0 \<and> y = 0)"
      "s \<noteq> [] \<longrightarrow> x = hd s" "s = [] \<longrightarrow> x = 0xFF"
    using four_bytes [of s] by blast
  have n: "a \<noteq> 0" "a \<noteq> 0xEF" "a \<noteq> 0xFE" "a \<noteq> 0xFF" using a by auto
  show "stream_detect (a # s) = (UTF_8, a # s)" if "s = [] \<or> hd s \<noteq> 0"
  proof -
    have "x \<noteq> 0" using that e(3,4) by auto
    then show ?thesis using n a
      by (subst stream_detect_bytes [of _ a x y z _ UTF_8 False]) (simp_all add: e(1) detect_encoding_type_def)
  qed
  show "stream_detect (0 # a # s) = (UTF_16BE, 0 # a # s)"
    using n a by (subst stream_detect_bytes [of _ 0 a x y _ UTF_16BE False]) (simp_all add: e(1) detect_encoding_type_def)
  show "stream_detect (a # 0 # s) = (UTF_16LE, a # 0 # s)" if "take 2 s \<noteq> [0, 0]"
  proof -
    have "\<not> (x = 0 \<and> y = 0)" using that e(2) by blast
    then show ?thesis using n a
      by (subst stream_detect_bytes [of _ a 0 x y _ UTF_16LE False]) (simp_all add: e(1) detect_encoding_type_def)
  qed
  show "stream_detect (0 # 0 # 0 # a # s) = (UTF_32BE, 0 # 0 # 0 # a # s)"
    using n a by (subst stream_detect_bytes [of _ 0 0 0 a _ UTF_32BE False]) (simp_all add: e(1) detect_encoding_type_def)
  show "stream_detect (a # 0 # 0 # 0 # s) = (UTF_32LE, a # 0 # 0 # 0 # s)"
    using n a by (subst stream_detect_bytes [of _ a 0 0 0 _ UTF_32LE False]) (simp_all add: e(1) detect_encoding_type_def)
qed

lemma ascii_elements:
  assumes "c < 0x80"
  shows "bytes16 True (of_nat c) = [0, of_nat c]" "bytes16 False (of_nat c) = [of_nat c, 0]"
    "bytes32 True (of_nat c) = [0, 0, 0, of_nat c]" "bytes32 False (of_nat c) = [of_nat c, 0, 0, 0]"
proof -
  have d: "drop_bit 8 (of_nat c :: u16) = 0" "drop_bit 8 (of_nat c :: u32) = 0" "drop_bit 16 (of_nat c :: u32) = 0"
      "drop_bit 24 (of_nat c :: u32) = 0"
    using assms by (auto intro!: unat_eqI simp: unsigned_drop_bit_eq drop_bit_eq_div [where 'a = nat] take_bit_eq_mod [where 'a = nat] unat_of_nat)
  have u: "(ucast (of_nat c :: u16) :: u8) = of_nat c" "(ucast (of_nat c :: u32) :: u8) = of_nat c"
    using assms by (auto intro!: unat_eqI simp: unat_of_nat unsigned_ucast_eq take_bit_eq_mod [where 'a = nat])
  show "bytes16 True (of_nat c) = [0, of_nat c]" "bytes16 False (of_nat c) = [of_nat c, 0]"
    "bytes32 True (of_nat c) = [0, 0, 0, of_nat c]" "bytes32 False (of_nat c) = [of_nat c, 0, 0, 0]"
    by (simp_all add: bytes16_def bytes32_def d u)
qed

lemma first_byte:
  assumes "scalar c" and "c \<noteq> 0"
  shows "hd (utf8_encode c) \<noteq> 0"
proof -
  have "c div 64 < 32" if "c < 0x800" using that by auto
  moreover have "c div 4096 < 16" if "c < 0x10000" using that by auto
  moreover have "c div 262144 < 8" using assms by (auto simp: scalar_def)
  ultimately have "unat (hd (utf8_encode c)) \<noteq> 0" using assms(2)
    by (simp add: utf8_encode_def unat_byte unat_of_nat)
  then show ?thesis by auto
qed

lemma first_element:
  assumes "scalar c" and "c \<noteq> 0"
  shows "take 2 (encode_text UTF_16LE (c # cs)) \<noteq> [0, 0]"
proof
  let ?u = "hd (utf16_encode c)"
  assume "take 2 (encode_text UTF_16LE (c # cs)) = [0, 0]"
  moreover have "take 2 (encode_text UTF_16LE (c # cs)) = bytes16 False ?u"
    by (cases "utf16_encode c") (simp_all add: utf16_encode_def split: if_splits)
  ultimately have "?u = element16 False [0, 0]" using element16_bytes [of False ?u] by simp
  then have "unat ?u = 0" by (simp add: element16_def)
  moreover have "unat ?u \<noteq> 0"
  proof (cases "c < 0x10000")
    case False
    then have "(c - 0x10000) div 1024 < 1024" using assms(1) by (auto simp: scalar_def)
    then show ?thesis using False by (simp add: utf16_encode_def unat_of_nat del: of_nat_add)
  qed (use assms(2) in \<open>simp add: utf16_encode_def unat_of_nat\<close>)
  ultimately show False by contradiction
qed

lemma detect_text:
  assumes "\<forall>c \<in> set cs. scalar c \<and> c \<noteq> 0" and "m = bom enc \<or> m = [] \<and> cs \<noteq> [] \<and> hd cs < 0x80"
  shows "stream_detect (m @ encode_text enc cs) = (enc, encode_text enc cs)"
  using assms(2)
proof
  assume m: "m = bom enc"
  have "enc = UTF_16LE \<longrightarrow> take 2 (encode_text enc cs) \<noteq> [0, 0]"
    using assms(1) first_element by (cases cs) auto
  then show ?thesis unfolding m by (rule detect_bom)
next
  assume m: "m = [] \<and> cs \<noteq> [] \<and> hd cs < 0x80"
  then obtain c r where cs: "cs = c # r" and c: "c < 0x80" by (cases cs) auto
  have a: "0 < (of_nat c :: u8)" "(of_nat c :: u8) < 0x80"
    using c assms(1) cs by (auto simp: word_less_nat_alt unat_of_nat)
  have e: "utf8_encode c = [of_nat c]" "utf16_encode c = [of_nat c]" using c by (simp_all add: utf8_encode_def utf16_encode_def)
  have 8: "utf8_text r = [] \<or> hd (utf8_text r) \<noteq> 0"
  proof (cases r)
    case (Cons d q)
    then have "hd (utf8_encode d) \<noteq> 0" using assms(1) cs by (intro first_byte) auto
    moreover have "utf8_encode d \<noteq> []" by (simp add: utf8_encode_def)
    ultimately show ?thesis using Cons by (simp add: utf8_text_def)
  qed (simp add: utf8_text_def)
  have 16: "take 2 (encode_text UTF_16LE r) \<noteq> [0, 0]"
    using assms(1) first_element cs by (cases r) auto
  show ?thesis
    using m detect_ascii(1) [OF a 8] detect_ascii(2) [OF a] detect_ascii(3) [OF a 16] detect_ascii(4,5) [OF a]
    by (cases enc) (simp_all add: cs e utf8_text_def ascii_elements [OF c])
qed

section \<open>Properties of the reading of a file\<close>

text \<open>
  C34: reading a text back.  A text of Unicode characters without NUL, in any of the five encodings, with a byte order mark or
  with a first character in ASCII, is read as its UTF-8 encoding without carriage returns.  In UTF-16 the text must not
  be empty; and when its last character needs two elements the adapter converts them again, so that the
  text read ends in that character twice.
\<close>

theorem input_adapter_reads_text:
  assumes "\<forall>c \<in> set cs. scalar c \<and> c \<noteq> 0" and "m = bom enc \<or> m = [] \<and> cs \<noteq> [] \<and> hd cs < 0x80"
    and "text = filter (\<lambda>c. c \<noteq> 13) cs" and "wide enc \<longrightarrow> text \<noteq> []"
  shows "read_input True (m @ encode_text enc cs)
    = Inr (utf8_text (if wide enc \<and> 0x10000 \<le> last text then text @ [last text] else text))"
  using detect_text [OF assms(1,2)] view_text [of cs enc] assms by (simp add: read_input_def input_adapter_def Let_def)

theorem input_adapter_reads_text_witness:
  "read_input True (bom UTF_16BE @ encode_text UTF_16BE [97, 13, 10, 0x1F600]) = Inr (utf8_text [97, 10, 0x1F600, 0x1F600])
   \<and> read_input True (encode_text UTF_32LE [97, 0x20AC]) = Inr (utf8_text [97, 0x20AC])"
  using input_adapter_reads_text [of "[97, 13, 10, 0x1F600]" "bom UTF_16BE" UTF_16BE "[97, 10, 0x1F600]"]
    input_adapter_reads_text [of "[97, 0x20AC]" "[]" UTF_32LE "[97, 0x20AC]"]
  by (simp_all add: scalar_def wide_def)

text \<open>
  What is accepted as UTF-8.  An input taken for UTF-8 is accepted exactly if it is, without its carriage
  returns, a sequence of well-formed encodings of characters and of the three-byte encodings of code points below 0x800 that
  start with 0xE0, which UTF-8 forbids; the parser then works on the input without carriage returns.
\<close>

theorem utf8_view_exact:
  "get_buffer_view UTF_8 s = Inr b \<longleftrightarrow>
     b = filter (\<lambda>b. b \<noteq> 0x0D) s
     \<and> (\<exists>ps. b = concat ps \<and> (\<forall>p \<in> set ps. (\<exists>c. scalar c \<and> p = utf8_encode c) \<or> overlong p))"
proof -
  have "overlong p \<Longrightarrow> validate p" for p by (auto simp: overlong_def validate.simps word_le_nat_alt)
  then have p: "validate p \<longleftrightarrow> (\<exists>c. scalar c \<and> p = utf8_encode c) \<or> overlong p" for p
    using validate_decode validate_encode by blast
  show ?thesis
    using validate_all_pieces [of b] unfolding p [symmetric]
    by (auto simp: get_buffer_view_def get_buffer_view_utf8_def read_chunks_eq Let_def split: option.splits)
qed

text \<open>Such a forbidden encoding: the slash in three bytes.\<close>

theorem utf8_view_exact_witness: "get_buffer_view UTF_8 [0xE0, 0x80, 0xAF, 13] = Inr [0xE0, 0x80, 0xAF]"
  unfolding utf8_view_exact by (auto simp: overlong_def intro!: exI [of _ "[[0xE0, 0x80, 0xAF]]"])

text \<open>A file with nothing but the byte order mark of UTF-16 is read as a NUL.\<close>

lemma utf16_mark_only: "read_input True (bom UTF_16LE) = Inr [0]"
  using detect_bom [of UTF_16LE "[]"] fill_first(1) [of "[]" False "(0, 0)"]
  by (simp add: read_input_def input_adapter_def get_buffer_view_def get_buffer_view_utf16_def utf16_loop.simps [of False "[]" "(0, 0)"]
    from_utf16_def Let_def)

end
