(* ===== verification/Pw_YamlScalar.thy ===== *)
theory Pw_YamlScalar
  imports Pw_Yaml Pw_Encoding
begin

text \<open>
  How the vendored YAML library (\<^verbatim>\<open>src/libs/fkyaml/node.hpp\<close>) gives a scalar its type and its value: the scanner that decides
  what a plain scalar is (\<^verbatim>\<open>scalar_scanner\<close>), the conversions to null, booleans, integers and floating-point numbers, and the
  creation of a node.  The conversion of decimal text to a \<^verbatim>\<open>double\<close> by \<^verbatim>\<open>std::from_chars\<close> is a parameter that says whether it
  converts the whole text; a node for a number carries its text.  Positions in error messages are left out.
\<close>

datatype node_type = SEQUENCE | MAPPING | NULL_OBJECT | BOOLEAN | INTEGER | FLOAT | STRING

text \<open>The tags, whose names in the code are those of \<open>tag_t\<close> without the prefix.\<close>

datatype tag_t =
    TAG_NONE | TAG_NON_SPECIFIC | TAG_CUSTOM | TAG_SEQUENCE | TAG_MAPPING | TAG_NULL_VALUE | TAG_BOOLEAN | TAG_INTEGER
  | TAG_FLOATING_NUMBER | TAG_STRING

datatype lexical_token_t =
    END_OF_BUFFER | EXPLICIT_KEY_PREFIX | KEY_SEPARATOR | VALUE_SEPARATOR | ANCHOR_PREFIX | ALIAS_PREFIX | YAML_VER_DIRECTIVE
  | TAG_DIRECTIVE | TAG_PREFIX | INVALID_DIRECTIVE | SEQUENCE_BLOCK_PREFIX | SEQUENCE_FLOW_BEGIN | SEQUENCE_FLOW_END
  | MAPPING_FLOW_BEGIN | MAPPING_FLOW_END | PLAIN_SCALAR | SINGLE_QUOTED_SCALAR | DOUBLE_QUOTED_SCALAR | BLOCK_LITERAL_SCALAR
  | BLOCK_FOLDED_SCALAR | END_OF_DIRECTIVES | END_OF_DOCUMENT

section \<open>The scanner of plain scalars\<close>

text \<open>A function of the scanner is only called on a text that is not empty.\<close>

definition scan_after_exponent :: "string \<Rightarrow> node_type" where
  "scan_after_exponent s =
     (let c = hd s in
      if c = CHR ''+'' \<or> c = CHR ''-'' then
        if length s = 1 then STRING else if list_all (is_digit 10) (tl s) then FLOAT else STRING
      else if list_all (is_digit 10) s then FLOAT else STRING)"

fun scan_after_decimal_point :: "string \<Rightarrow> node_type" where
  "scan_after_decimal_point [] = FLOAT"
| "scan_after_decimal_point (c # s) =
     (if is_digit 10 c then scan_after_decimal_point s
      else if c = CHR ''e'' \<or> c = CHR ''E'' then if s = [] then STRING else scan_after_exponent s
      else STRING)"

fun scan_octal_number :: "string \<Rightarrow> node_type" where
  "scan_octal_number [] = STRING"
| "scan_octal_number (c # s) =
     (if is_digit 8 c then if s \<noteq> [] then scan_octal_number s else INTEGER else STRING)"

fun scan_hexadecimal_number :: "string \<Rightarrow> node_type" where
  "scan_hexadecimal_number [] = STRING"
| "scan_hexadecimal_number (c # s) =
     (if is_digit 16 c then if s \<noteq> [] then scan_hexadecimal_number s else INTEGER else STRING)"

fun scan_decimal_number :: "string \<Rightarrow> node_type" where
  "scan_decimal_number [] = STRING"
| "scan_decimal_number (c # s) =
     (if is_digit 10 c then if s \<noteq> [] then scan_decimal_number s else INTEGER
      else if c = CHR ''.'' then if s \<noteq> [] then scan_after_decimal_point s else FLOAT
      else if c = CHR ''e'' \<or> c = CHR ''E'' then if s \<noteq> [] then scan_after_exponent s else STRING
      else STRING)"

fun scan_negative_number :: "string \<Rightarrow> node_type" where
  "scan_negative_number [] = STRING"
| "scan_negative_number (c # s) =
     (if is_digit 10 c then if s \<noteq> [] then scan_decimal_number s else INTEGER
      else if c = CHR ''.'' then if s \<noteq> [] then scan_after_decimal_point s else STRING
      else STRING)"

fun scan_after_zero_at_first :: "string \<Rightarrow> node_type" where
  "scan_after_zero_at_first [] = STRING"
| "scan_after_zero_at_first (c # s) =
     (if is_digit 10 c then STRING
      else if c = CHR ''.'' then if s \<noteq> [] then scan_after_decimal_point s else FLOAT
      else if c = CHR ''e'' \<or> c = CHR ''E'' then if s \<noteq> [] then scan_after_exponent s else STRING
      else if c = CHR ''o'' then if s \<noteq> [] then scan_octal_number s else STRING
      else if c = CHR ''x'' then if s \<noteq> [] then scan_hexadecimal_number s else STRING
      else STRING)"

fun scan_possible_number_token :: "string \<Rightarrow> node_type" where
  "scan_possible_number_token [] = STRING"
| "scan_possible_number_token (c # s) =
     (if c = CHR ''-'' then if s \<noteq> [] then scan_negative_number s else STRING
      else if c = CHR ''+'' then if s \<noteq> [] then scan_decimal_number s else STRING
      else if c = CHR ''.'' then if s \<noteq> [] then scan_after_decimal_point s else STRING
      else if c = CHR ''0'' then if s \<noteq> [] then scan_after_zero_at_first s else INTEGER
      else if is_digit 10 c then if s \<noteq> [] then scan_decimal_number s else INTEGER
      else STRING)"

definition scan :: "string \<Rightarrow> node_type" where
  "scan s =
     (if s = [] then STRING
      else
        let len = length s; c = hd s; r = tl s in
        if len > 5 then scan_possible_number_token s
        else if len = 1 \<and> c = CHR ''~'' then NULL_OBJECT
        else if len = 4 \<and> c = CHR ''n'' then if r = ''ull'' then NULL_OBJECT else STRING
        else if len = 4 \<and> c = CHR ''N'' then if r = ''ull'' \<or> r = ''ULL'' then NULL_OBJECT else STRING
        else if len = 4 \<and> c = CHR ''t'' then if r = ''rue'' then BOOLEAN else STRING
        else if len = 4 \<and> c = CHR ''T'' then if r = ''rue'' \<or> r = ''RUE'' then BOOLEAN else STRING
        else if len = 4 \<and> c = CHR ''.''
          \<and> (r = ''inf'' \<or> r = ''Inf'' \<or> r = ''INF'' \<or> r = ''nan'' \<or> r = ''NaN'' \<or> r = ''NAN'') then FLOAT
        else if len = 5 \<and> c = CHR ''f'' then if r = ''alse'' then BOOLEAN else STRING
        else if len = 5 \<and> c = CHR ''F'' then if r = ''alse'' \<or> r = ''ALSE'' then BOOLEAN else STRING
        else if len = 5 \<and> (c = CHR ''+'' \<or> c = CHR ''-'') \<and> hd r = CHR ''.''
          \<and> (tl r = ''inf'' \<or> tl r = ''Inf'' \<or> tl r = ''INF'') then FLOAT
        else scan_possible_number_token s)"

section \<open>Conversions\<close>

definition aton :: "string \<Rightarrow> bool" where
  "aton s = (if s = [] then False
     else if length s = 4 then s = ''null'' \<or> s = ''Null'' \<or> s = ''NULL''
     else if length s = 1 then hd s = CHR ''~''
     else False)"

definition atob :: "string \<Rightarrow> bool option" where
  "atob s = (if s = [] then None
     else if length s = 4 then if s = ''true'' \<or> s = ''True'' \<or> s = ''TRUE'' then Some True else None
     else if length s = 5 then if s = ''false'' \<or> s = ''False'' \<or> s = ''FALSE'' then Some False else None
     else None)"

text \<open>The limits of a 64-bit signed integer.\<close>

definition max_chars_dec :: nat where "max_chars_dec = 19"
definition max_value_chars_dec :: string where "max_value_chars_dec = ''9223372036854775807''"
definition min_value_chars_dec :: string where "min_value_chars_dec = ''9223372036854775808''"
definition max_chars_oct :: nat where "max_chars_oct = 22"
definition max_chars_hex :: nat where "max_chars_hex = 16"

text \<open>A \<^verbatim>\<open>char\<close> is signed.\<close>

definition char_value :: "char \<Rightarrow> int" where
  "char_value c = (let n = of_char c :: nat in if n < 128 then int n else int n - 256)"

definition check_if_octs_safe :: "string \<Rightarrow> bool" where
  "check_if_octs_safe octs \<longleftrightarrow>
     length octs < max_chars_oct \<or> (length octs = max_chars_oct \<and> char_value (hd octs) \<le> char_value (CHR ''1''))"

definition check_if_hexs_safe :: "string \<Rightarrow> bool" where
  "check_if_hexs_safe hexs \<longleftrightarrow> length hexs \<le> max_chars_hex"

text \<open>
  The loops over the digits, with the arithmetic of \<^verbatim>\<open>int64_t\<close> as the machine does it: the code
  relies on its wrapping round where C++ leaves signed overflow undefined.
\<close>

fun digits_loop :: "nat \<Rightarrow> string \<Rightarrow> 64 word \<Rightarrow> 64 word option" where
  "digits_loop base [] i = Some i"
| "digits_loop base (c # s) i =
     (if is_digit base c then digits_loop base s (i * of_nat base + of_nat (the (digit_val c))) else None)"

definition atoi_dec_unchecked :: "string \<Rightarrow> 64 word option" where
  "atoi_dec_unchecked s = digits_loop 10 s 0"

text \<open>The comparison with the digits of a limit, from the highest on.\<close>

fun exceeds :: "string \<Rightarrow> string \<Rightarrow> bool" where
  "exceeds (p # ps) (m # ms) =
     (if char_value p < char_value m then False else if char_value p > char_value m then True else exceeds ps ms)"
| "exceeds _ _ = False"

definition atoi_dec_pos :: "string \<Rightarrow> 64 word option" where
  "atoi_dec_pos s =
     (if s = [] then None
      else if length s > max_chars_dec then None
      else if length s = max_chars_dec \<and> exceeds s max_value_chars_dec then None
      else atoi_dec_unchecked s)"

definition atoi_dec_neg :: "string \<Rightarrow> 64 word option" where
  "atoi_dec_neg s =
     (if s = [] then None
      else if length s > max_chars_dec then None
      else if length s = max_chars_dec \<and> exceeds s min_value_chars_dec then None
      else atoi_dec_unchecked s)"

definition atoi_oct :: "string \<Rightarrow> 64 word option" where
  "atoi_oct s = (if s = [] then None else if \<not> check_if_octs_safe s then None else digits_loop 8 s 0)"

definition atoi_hex :: "string \<Rightarrow> 64 word option" where
  "atoi_hex s = (if s = [] then None else if \<not> check_if_hexs_safe s then None else digits_loop 16 s 0)"

definition atoi :: "string \<Rightarrow> 64 word option" where
  "atoi s =
     (case s of
        [] \<Rightarrow> None
      | first # r \<Rightarrow>
          if first = CHR ''+'' then atoi_dec_pos r
          else if first = CHR ''-'' then map_option (\<lambda>i. i * (-1)) (atoi_dec_neg r)
          else if first \<noteq> CHR ''0'' then atoi_dec_pos s
          else
            (case r of
               [] \<Rightarrow> Some 0
             | second # r' \<Rightarrow>
                 if second = CHR ''o'' then atoi_oct r' else if second = CHR ''x'' then atoi_hex r' else None))"

definition atof :: "(string \<Rightarrow> bool) \<Rightarrow> string \<Rightarrow> bool" where
  "atof from_chars s =
     (case s of
        [] \<Rightarrow> False
      | first # r \<Rightarrow>
          if first = CHR ''-'' \<or> first = CHR ''+'' then
            if length s = 5 \<and> (r = ''.inf'' \<or> r = ''.Inf'' \<or> r = ''.INF'') then True
            else from_chars (if first = CHR ''+'' then r else s)
          else if length s = 4 \<and> (s = ''.inf'' \<or> s = ''.Inf'' \<or> s = ''.INF'' \<or> s = ''.nan'' \<or> s = ''.NaN'' \<or> s = ''.NAN'')
            then True
          else from_chars s)"

section \<open>Nodes of scalars\<close>

definition decide_value_type :: "lexical_token_t \<Rightarrow> tag_t \<Rightarrow> string \<Rightarrow> node_type" where
  "decide_value_type lex_type tag_type token =
     (let value_type = (if lex_type = PLAIN_SCALAR then scan token else STRING) in
      case tag_type of
        TAG_NULL_VALUE \<Rightarrow> NULL_OBJECT
      | TAG_BOOLEAN \<Rightarrow> BOOLEAN
      | TAG_INTEGER \<Rightarrow> INTEGER
      | TAG_FLOATING_NUMBER \<Rightarrow> FLOAT
      | TAG_STRING \<Rightarrow> STRING
      | TAG_NON_SPECIFIC \<Rightarrow> STRING
      | _ \<Rightarrow> value_type)"

text \<open>A type other than those of scalars is not possible here.\<close>

definition create_scalar_node :: "(string \<Rightarrow> bool) \<Rightarrow> node_type \<Rightarrow> string \<Rightarrow> yaml_error + node" where
  "create_scalar_node from_chars type token =
     (case type of
        NULL_OBJECT \<Rightarrow>
          if aton token then Inr N_null else Inl (Parse_error ''Failed to convert a scalar to a null.'')
      | BOOLEAN \<Rightarrow>
          (case atob token of Some b \<Rightarrow> Inr (N_bool b) | None \<Rightarrow> Inl (Parse_error ''Failed to convert a scalar to a boolean.''))
      | INTEGER \<Rightarrow>
          (case atoi token of
             Some i \<Rightarrow> Inr (N_int (sint i)) | None \<Rightarrow> Inl (Parse_error ''Failed to convert a scalar to an integer.''))
      | FLOAT \<Rightarrow>
          if atof from_chars token then Inr (N_float token)
          else Inl (Parse_error ''Failed to convert a scalar to a floating point value'')
      | STRING \<Rightarrow> Inr (N_str token)
      | _ \<Rightarrow> Inl Undefined)"

section \<open>The language of the scanner\<close>

text \<open>The texts of numbers, as a grammar: a sign, digits, a fraction, an exponent.\<close>

abbreviation digits :: "string \<Rightarrow> bool" where "digits s \<equiv> list_all (is_digit 10) s"

definition exponent :: "string \<Rightarrow> bool" where
  "exponent x \<longleftrightarrow> x \<noteq> [] \<and> (digits x \<or> (hd x \<in> set ''+-'' \<and> tl x \<noteq> [] \<and> digits (tl x)))"

definition fraction :: "string \<Rightarrow> bool" where
  "fraction p \<longleftrightarrow> (let x = dropWhile (is_digit 10) p in x = [] \<or> (hd x \<in> set ''eE'' \<and> exponent (tl x)))"

definition number_tail :: "string \<Rightarrow> bool" where
  "number_tail t \<longleftrightarrow> t \<noteq> [] \<and> ((hd t = CHR ''.'' \<and> fraction (tl t)) \<or> (hd t \<in> set ''eE'' \<and> exponent (tl t)))"

definition sign_of :: "string \<Rightarrow> string" where "sign_of s = (if s \<noteq> [] \<and> hd s \<in> set ''+-'' then [hd s] else [])"

definition unsigned_part :: "string \<Rightarrow> string" where "unsigned_part s = drop (length (sign_of s)) s"

definition integer_text :: "string \<Rightarrow> bool" where
  "integer_text s \<longleftrightarrow>
     (let r = unsigned_part s in
        (r \<noteq> [] \<and> digits r \<and> (sign_of s = [] \<longrightarrow> hd r \<noteq> CHR ''0'' \<or> tl r = []))
      \<or> (sign_of s = [] \<and> take 2 r = ''0o'' \<and> drop 2 r \<noteq> [] \<and> list_all (is_digit 8) (drop 2 r))
      \<or> (sign_of s = [] \<and> take 2 r = ''0x'' \<and> drop 2 r \<noteq> [] \<and> list_all (is_digit 16) (drop 2 r)))"

definition float_text :: "string \<Rightarrow> bool" where
  "float_text s \<longleftrightarrow>
     (let r = unsigned_part s; ds = takeWhile (is_digit 10) r; t = dropWhile (is_digit 10) r in
        number_tail t
      \<and> (ds = [] \<longrightarrow> sign_of s = ''+'' \<or> (hd t = CHR ''.'' \<and> tl t \<noteq> []))
      \<and> (sign_of s = [] \<and> ds \<noteq> [] \<and> hd ds = CHR ''0'' \<longrightarrow> tl ds = []))"

lemma digit_facts [simp]:
  "\<not> is_digit b (CHR ''.'')" "\<not> is_digit b (CHR ''+'')" "\<not> is_digit b (CHR ''-'')" "\<not> is_digit b (CHR ''o'')"
  "\<not> is_digit b (CHR ''x'')" "\<not> is_digit 10 (CHR ''e'')" "\<not> is_digit 10 (CHR ''E'')" "is_digit 10 (CHR ''0'')"
  by (simp_all add: is_digit_def digit_val_def)

lemma scan_exponent: "x \<noteq> [] \<Longrightarrow> scan_after_exponent x = (if exponent x then FLOAT else STRING)"
  by (cases x) (auto simp: scan_after_exponent_def exponent_def)

lemma scan_fraction: "scan_after_decimal_point p = (if fraction p then FLOAT else STRING)"
proof (induction p)
  case (Cons c s)
  then show ?case by (cases s) (auto simp: fraction_def scan_exponent Let_def, auto simp: exponent_def)
qed (simp add: fraction_def)

lemma scan_decimal:
  "s \<noteq> [] \<Longrightarrow> scan_decimal_number s =
     (if digits s then INTEGER else if number_tail (dropWhile (is_digit 10) s) then FLOAT else STRING)"
proof (induction s)
  case (Cons c s)
  show ?case
  proof (cases "is_digit 10 c")
    case True
    then show ?thesis using Cons.IH by (cases s) auto
  next
    case False
    then show ?thesis by (auto simp: number_tail_def scan_exponent scan_fraction, auto simp: fraction_def exponent_def)
  qed
qed simp

lemma scan_octal: "s \<noteq> [] \<Longrightarrow> scan_octal_number s = (if list_all (is_digit 8) s then INTEGER else STRING)"
  by (induction s) auto

lemma scan_hexadecimal: "s \<noteq> [] \<Longrightarrow> scan_hexadecimal_number s = (if list_all (is_digit 16) s then INTEGER else STRING)"
  by (induction s) auto

lemma fraction_Nil [simp]: "fraction []" and exponent_Nil [simp]: "\<not> exponent []" and number_tail_Nil [simp]: "\<not> number_tail []"
  by (simp_all add: fraction_def exponent_def number_tail_def)

lemma number_tail_Cons:
  "number_tail (c # s) \<longleftrightarrow> (c = CHR ''.'' \<and> fraction s) \<or> (c \<in> set ''eE'' \<and> exponent s)"
  by (auto simp: number_tail_def)

lemma scan_negative:
  "r \<noteq> [] \<Longrightarrow> scan_negative_number r =
     (let t = dropWhile (is_digit 10) r in
      if digits r then INTEGER
      else if number_tail t \<and> (takeWhile (is_digit 10) r = [] \<longrightarrow> hd t = CHR ''.'' \<and> tl t \<noteq> []) then FLOAT else STRING)"
proof (cases r)
  case (Cons c s)
  show ?thesis
  proof (cases "is_digit 10 c")
    case True
    then show ?thesis using Cons scan_decimal [of s] by (cases "s = []") (simp_all add: Let_def)
  next
    case False
    then show ?thesis using Cons by (auto simp: Let_def number_tail_Cons scan_fraction)
  qed
qed simp

lemma scan_zero:
  "r \<noteq> [] \<Longrightarrow> scan_after_zero_at_first r =
     (if hd r = CHR ''o'' \<and> tl r \<noteq> [] \<and> list_all (is_digit 8) (tl r) then INTEGER
      else if hd r = CHR ''x'' \<and> tl r \<noteq> [] \<and> list_all (is_digit 16) (tl r) then INTEGER
      else if number_tail r then FLOAT else STRING)"
  by (cases r) (auto simp: number_tail_Cons scan_fraction scan_exponent scan_octal scan_hexadecimal)

lemma digits_dropWhile: "dropWhile (is_digit 10) s = [] \<longleftrightarrow> digits s"
  by (simp add: list_all_iff)

lemma tail_not_digits: "digits r \<Longrightarrow> \<not> number_tail (dropWhile (is_digit 10) r)"
  by (drule digits_dropWhile [THEN iffD2], erule ssubst, rule number_tail_Nil)

lemma scan_number_zero:
  assumes c: "c = CHR ''0''" and s: "s = c # r"
  shows "scan_possible_number_token s = (if float_text s then FLOAT else if integer_text s then INTEGER else STRING)"
proof -
  have u: "sign_of s = []" "unsigned_part s = s" using c by (simp_all add: s sign_of_def unsigned_part_def)
  show ?thesis
  proof (cases r)
    case (Cons d q)
    have scan: "scan_possible_number_token s = scan_after_zero_at_first (d # q)" using c by (simp add: s Cons)
    have ct: "take 2 s = [CHR ''0'', d]" "drop 2 s = q" using c by (simp_all add: s Cons)
    show ?thesis
    proof (cases "is_digit 10 d")
      case True
      then have d: "d \<noteq> CHR ''o''" "d \<noteq> CHR ''x''" "d \<notin> set ''.eE''" by auto
      then have "\<not> float_text s" "\<not> integer_text s" "\<not> number_tail (d # q)" using True c
        unfolding float_text_def integer_text_def u Let_def by (simp_all add: s Cons number_tail_Cons)
      then show ?thesis using d unfolding scan by (subst scan_zero) simp_all
    next
      case False
      then have f: "float_text s \<longleftrightarrow> number_tail (d # q)" using c
        unfolding float_text_def u Let_def by (simp add: s Cons)
      have i: "integer_text s \<longleftrightarrow> (d = CHR ''o'' \<and> q \<noteq> [] \<and> list_all (is_digit 8) q) \<or> (d = CHR ''x'' \<and> q \<noteq> [] \<and> list_all (is_digit 16) q)"
        using False c unfolding integer_text_def u Let_def ct by (auto simp: s Cons)
      have n: "number_tail (d # q) \<Longrightarrow> d \<noteq> CHR ''o'' \<and> d \<noteq> CHR ''x''" by (auto simp: number_tail_Cons)
      show ?thesis unfolding scan f i using n by (subst scan_zero) auto
    qed
  qed (use c in \<open>simp add: s float_text_def integer_text_def sign_of_def unsigned_part_def\<close>)
qed

lemma scan_number_token:
  assumes "s \<noteq> []"
  shows "scan_possible_number_token s = (if float_text s then FLOAT else if integer_text s then INTEGER else STRING)"
proof -
  obtain c r where s: "s = c # r" using assms by (cases s) auto
  consider "c = CHR ''-''" | "c = CHR ''+''" | "c = CHR ''.''" | "c = CHR ''0''"
    | "c \<notin> set ''+-.0''" "is_digit 10 c" | "c \<notin> set ''+-.0''" "\<not> is_digit 10 c" by auto
  then show ?thesis
  proof cases
    case 1
    then have u: "sign_of s = ''-''" "unsigned_part s = r" by (simp_all add: s sign_of_def unsigned_part_def)
    show ?thesis
    proof (cases "r = []")
      case False
      then show ?thesis using 1 unfolding float_text_def integer_text_def u Let_def
        by (cases "digits r") (simp_all add: s scan_negative Let_def tail_not_digits)
    qed (use 1 in \<open>simp add: s float_text_def integer_text_def sign_of_def unsigned_part_def\<close>)
  next
    case 2
    then have u: "sign_of s = ''+''" "unsigned_part s = r" by (simp_all add: s sign_of_def unsigned_part_def)
    show ?thesis
    proof (cases "r = []")
      case False
      then show ?thesis using 2 unfolding float_text_def integer_text_def u Let_def
        by (cases "digits r") (simp_all add: s scan_decimal Let_def tail_not_digits)
    qed (use 2 in \<open>simp add: s float_text_def integer_text_def sign_of_def unsigned_part_def\<close>)
  next
    case 3
    then have u: "sign_of s = []" "unsigned_part s = s" by (simp_all add: s sign_of_def unsigned_part_def)
    show ?thesis using 3 unfolding float_text_def integer_text_def u Let_def
      by (simp add: s scan_fraction number_tail_Cons)
  next
    case 4
    then show ?thesis using s by (rule scan_number_zero)
  next
    case 5
    then have u: "sign_of s = []" "unsigned_part s = s" by (simp_all add: s sign_of_def unsigned_part_def)
    have "take 2 s \<noteq> ''0o''" "take 2 s \<noteq> ''0x''" using 5 by (simp_all add: s)
    then show ?thesis using 5 unfolding float_text_def integer_text_def u Let_def
      by (cases "r = []"; cases "digits r") (simp_all add: s scan_decimal tail_not_digits)
  next
    case 6
    then have u: "sign_of s = []" "unsigned_part s = s" by (simp_all add: s sign_of_def unsigned_part_def)
    have "take 2 s \<noteq> ''0o''" "take 2 s \<noteq> ''0x''" using 6 by (auto simp: s)
    then show ?thesis using 6 unfolding float_text_def integer_text_def u Let_def
      by (simp add: s number_tail_Cons)
  qed
qed

text \<open>The words that are not numbers.\<close>

definition null_words :: "string list" where "null_words = [''~'', ''null'', ''Null'', ''NULL'']"
definition bool_words :: "string list" where "bool_words = [''true'', ''True'', ''TRUE'', ''false'', ''False'', ''FALSE'']"
definition float_words :: "string list" where
  "float_words = [''.inf'', ''.Inf'', ''.INF'', ''.nan'', ''.NaN'', ''.NAN'', ''+.inf'', ''+.Inf'', ''+.INF'', ''-.inf'', ''-.Inf'', ''-.INF'']"

lemma scan_word:
  "list_all (\<lambda>w. scan w = NULL_OBJECT) null_words" "list_all (\<lambda>w. scan w = BOOLEAN) bool_words" "list_all (\<lambda>w. scan w = FLOAT) float_words"
  by (simp_all add: null_words_def bool_words_def float_words_def scan_def)

lemma scan_other:
  assumes "s \<noteq> []" and w: "s \<notin> set null_words" "s \<notin> set bool_words" "s \<notin> set float_words"
  shows "scan s = scan_possible_number_token s"
proof -
  obtain c r where s: "s = c # r" using assms(1) by (cases s) auto
  have d: "\<not> is_digit 10 (CHR ''n'')" "\<not> is_digit 10 (CHR ''N'')" "\<not> is_digit 10 (CHR ''t'')" "\<not> is_digit 10 (CHR ''T'')"
    "\<not> is_digit 10 (CHR ''f'')" "\<not> is_digit 10 (CHR ''F'')"
    by (simp_all add: is_digit_def digit_val_def)
  have t: "tl s = r" "hd s = c" by (simp_all add: s)
  have n: "c = CHR ''~'' \<Longrightarrow> length s \<noteq> 1" "c = CHR ''n'' \<Longrightarrow> r \<noteq> ''ull''" "c = CHR ''N'' \<Longrightarrow> r \<noteq> ''ull'' \<and> r \<noteq> ''ULL''"
    "c = CHR ''t'' \<Longrightarrow> r \<noteq> ''rue''" "c = CHR ''T'' \<Longrightarrow> r \<noteq> ''rue'' \<and> r \<noteq> ''RUE''"
    "c = CHR ''f'' \<Longrightarrow> r \<noteq> ''alse''" "c = CHR ''F'' \<Longrightarrow> r \<noteq> ''alse'' \<and> r \<noteq> ''ALSE''"
    using w(1,2) by (auto simp: s null_words_def bool_words_def)
  have f: "\<not> (c = CHR ''.'' \<and> (r = ''inf'' \<or> r = ''Inf'' \<or> r = ''INF'' \<or> r = ''nan'' \<or> r = ''NaN'' \<or> r = ''NAN''))"
    using w(3) by (auto simp: s float_words_def)
  have g: "\<not> (length s = 5 \<and> (c = CHR ''+'' \<or> c = CHR ''-'') \<and> hd r = CHR ''.'' \<and> (tl r = ''inf'' \<or> tl r = ''Inf'' \<or> tl r = ''INF''))"
  proof
    assume a: "length s = 5 \<and> (c = CHR ''+'' \<or> c = CHR ''-'') \<and> hd r = CHR ''.'' \<and> (tl r = ''inf'' \<or> tl r = ''Inf'' \<or> tl r = ''INF'')"
    then have "s = [c, hd r] @ tl r" by (cases r) (auto simp: s)
    then show False using a w(3) by (auto simp: float_words_def)
  qed
  have z: "scan_possible_number_token s = STRING" if "c \<in> set ''nNtTfF''"
    using that d by (auto simp: s)
  show ?thesis
  proof (cases "c \<in> set ''nNtTfF''")
    case True
    then have "scan s = STRING"
      using n(2-) z [OF True] assms(1) unfolding scan_def Let_def t list.set insert_iff empty_iff
      by (elim disjE; simp del: scan_possible_number_token.simps)
    then show ?thesis using z [OF True] by simp
  next
    case False
    have "(length s = 1 \<and> c = CHR ''~'') = False" using n(1) by blast
    moreover have "(length s = 4 \<and> c = CHR ''.''
        \<and> (r = ''inf'' \<or> r = ''Inf'' \<or> r = ''INF'' \<or> r = ''nan'' \<or> r = ''NaN'' \<or> r = ''NAN'')) = False" using f by blast
    moreover have "(length s = 5 \<and> (c = CHR ''+'' \<or> c = CHR ''-'') \<and> hd r = CHR ''.''
        \<and> (tl r = ''inf'' \<or> tl r = ''Inf'' \<or> tl r = ''INF'')) = False" using g by blast
    ultimately show ?thesis unfolding scan_def Let_def t using False assms(1)
      by (simp only: if_False list.set insert_iff empty_iff simp_thms if_cancel) (simp del: scan_possible_number_token.simps)
  qed
qed

text \<open>
  C35: what a plain scalar is taken for.  The scanner decides by the words for null, the booleans, infinity and
  not-a-number, and by a grammar of numbers; everything else is a string.  The grammar of floating-point numbers is the one the
  code has: after a plus sign neither digits nor a fraction are required.
\<close>

theorem scan_exact:
  "scan s =
     (if s \<in> set null_words then NULL_OBJECT else if s \<in> set bool_words then BOOLEAN
      else if s \<in> set float_words \<or> float_text s then FLOAT else if integer_text s then INTEGER else STRING)"
proof (cases "s = [] \<or> s \<in> set null_words \<or> s \<in> set bool_words \<or> s \<in> set float_words")
  case True
  have "scan [] = STRING" "\<not> float_text []" "\<not> integer_text []"
    by (simp_all add: scan_def float_text_def integer_text_def sign_of_def unsigned_part_def)
  moreover have "scan s = BOOLEAN \<and> s \<notin> set null_words" if "s \<in> set bool_words"
    using that scan_word(2) by (auto simp: list_all_iff) (auto simp: null_words_def bool_words_def)
  moreover have "scan s = FLOAT \<and> s \<notin> set null_words \<and> s \<notin> set bool_words" if "s \<in> set float_words"
    using that scan_word(3) by (auto simp: list_all_iff) (auto simp: null_words_def bool_words_def float_words_def)
  moreover have "scan s = NULL_OBJECT" if "s \<in> set null_words" using that scan_word(1) by (auto simp: list_all_iff)
  moreover have "[] \<notin> set null_words" "[] \<notin> set bool_words" "[] \<notin> set float_words"
    by (simp_all add: null_words_def bool_words_def float_words_def)
  ultimately show ?thesis using True by auto
next
  case False
  then show ?thesis using scan_other scan_number_token by simp
qed

section \<open>Integers\<close>

lemma digits_loop_eq:
  "digits_loop b s i =
     (if list_all (is_digit b) s then Some (i * of_nat b ^ length s + of_nat (read_base b s)) else None)"
proof (induction s arbitrary: i)
  case (Cons c s)
  have r: "read_base b (c # s) = (case digit_val c of None \<Rightarrow> 0 | Some d \<Rightarrow> d) * b ^ length s + read_base b s"
    using read_base_append [of b "[c]" s] by (simp add: read_base_def)
  show ?case
  proof (cases "is_digit b c")
    case True
    then obtain d where "digit_val c = Some d" by (auto simp: is_digit_def split: option.splits)
    then show ?thesis using True by (simp add: Cons.IH r algebra_simps)
  qed simp
qed simp

lemma digit_range: "is_digit 10 c \<Longrightarrow> \<exists>d < 10. digit_val c = Some d \<and> char_value c = 48 + int d"
  by (auto simp: is_digit_def digit_val_def char_value_def Let_def split: if_splits option.splits)

lemma read_digits_bound: "digits s \<Longrightarrow> read_base 10 s < 10 ^ length s"
proof (induction s rule: rev_induct)
  case (snoc c s)
  then obtain d where "d < 10" "digit_val c = Some d" using digit_range by auto
  then show ?case using snoc by simp
qed simp

lemma exceeds_digits:
  "digits s \<Longrightarrow> digits m \<Longrightarrow> length s = length m \<Longrightarrow> exceeds s m \<longleftrightarrow> read_base 10 m < read_base 10 s"
proof (induction s m rule: exceeds.induct)
  case (1 p ps q qs)
  obtain d e where d: "d < 10" "digit_val p = Some d" "char_value p = 48 + int d"
    and e: "e < 10" "digit_val q = Some e" "char_value q = 48 + int e"
    using "1.prems" digit_range [of p] digit_range [of q] by auto
  have r: "read_base 10 (p # ps) = d * 10 ^ length ps + read_base 10 ps" "read_base 10 (q # qs) = e * 10 ^ length qs + read_base 10 qs"
    using read_base_append [of 10 "[p]" ps] read_base_append [of 10 "[q]" qs] d e by (simp_all add: read_base_def)
  have b: "read_base 10 ps < 10 ^ length ps" "read_base 10 qs < 10 ^ length ps" using 1 read_digits_bound by fastforce+
  consider "d < e" | "e < d" | "d = e" by linarith
  then show ?case
  proof cases
    case 1
    then have "(d + 1) * 10 ^ length ps \<le> e * 10 ^ length ps" by (intro mult_le_mono1) simp
    then show ?thesis using 1 b d e \<open>length (p # ps) = length (q # qs)\<close> by (simp add: r)
  next
    case 2
    then have "(e + 1) * 10 ^ length ps \<le> d * 10 ^ length ps" by (intro mult_le_mono1) simp
    then show ?thesis using 2 b d e \<open>length (p # ps) = length (q # qs)\<close> by (simp add: r)
  next
    case 3
    then show ?thesis using "1.IH" "1.prems" d e by (simp add: r)
  qed
qed auto

lemma dec_limits:
  "digits s \<Longrightarrow> length s = 19 \<Longrightarrow> exceeds s max_value_chars_dec \<longleftrightarrow> 2 ^ 63 - 1 < read_base 10 s"
  "digits s \<Longrightarrow> length s = 19 \<Longrightarrow> exceeds s min_value_chars_dec \<longleftrightarrow> 2 ^ 63 < read_base 10 s"
proof -
  have "digits max_value_chars_dec" "digits min_value_chars_dec"
      "read_base 10 max_value_chars_dec = 2 ^ 63 - 1" "read_base 10 min_value_chars_dec = 2 ^ 63"
      "length max_value_chars_dec = 19" "length min_value_chars_dec = 19"
    by (simp_all add: max_value_chars_dec_def min_value_chars_dec_def is_digit_def digit_val_def read_base_def)
  then show "digits s \<Longrightarrow> length s = 19 \<Longrightarrow> exceeds s max_value_chars_dec \<longleftrightarrow> 2 ^ 63 - 1 < read_base 10 s"
    "digits s \<Longrightarrow> length s = 19 \<Longrightarrow> exceeds s min_value_chars_dec \<longleftrightarrow> 2 ^ 63 < read_base 10 s"
    using exceeds_digits by metis+
qed

lemma dec_pos_neg:
  assumes "s \<noteq> []" and d: "digits s"
  shows "atoi_dec_pos s = (if length s \<le> 19 \<and> read_base 10 s < 2 ^ 63 then Some (of_nat (read_base 10 s)) else None)"
    and "atoi_dec_neg s = (if length s \<le> 19 \<and> read_base 10 s \<le> 2 ^ 63 then Some (of_nat (read_base 10 s)) else None)"
proof -
  have b: "read_base 10 s < 2 ^ 63" if "length s < 19"
  proof -
    have "read_base 10 s < 10 ^ length s" using d by (rule read_digits_bound)
    also have "\<dots> \<le> 10 ^ 18" using that by (intro power_increasing) auto
    finally show ?thesis by simp
  qed
  have l: "atoi_dec_unchecked s = Some (of_nat (read_base 10 s))" using d by (simp add: atoi_dec_unchecked_def digits_loop_eq)
  show "atoi_dec_pos s = (if length s \<le> 19 \<and> read_base 10 s < 2 ^ 63 then Some (of_nat (read_base 10 s)) else None)"
    using assms b l dec_limits(1) [OF d] by (auto simp: atoi_dec_pos_def max_chars_dec_def)
  show "atoi_dec_neg s = (if length s \<le> 19 \<and> read_base 10 s \<le> 2 ^ 63 then Some (of_nat (read_base 10 s)) else None)"
    using assms b l dec_limits(2) [OF d] by (auto simp: atoi_dec_neg_def max_chars_dec_def)
qed

lemma sint_values:
  shows "v < 2 ^ 63 \<Longrightarrow> sint (of_nat v :: 64 word) = int v" and "v \<le> 2 ^ 63 \<Longrightarrow> sint (- of_nat v :: 64 word) = - int v"
proof -
  have s: "sint (of_int k :: 64 word) = k" if "- (2 ^ 63) \<le> k" "k < 2 ^ 63" for k
    using that by (simp add: signed_of_int signed_take_bit_int_eq_self)
  show "sint (of_nat v :: 64 word) = int v" if "v < 2 ^ 63" using s [of "int v"] that by simp
  show "sint (- of_nat v :: 64 word) = - int v" if "v \<le> 2 ^ 63" using s [of "- int v"] that by simp
qed

lemma decimal_scalar:
  assumes "sg = [] \<or> sg = ''+'' \<or> sg = ''-''" and "ds \<noteq> []" and "digits ds" and "sg = [] \<longrightarrow> hd ds \<noteq> CHR ''0'' \<or> tl ds = []"
    and "v = (if sg = ''-'' then - int (read_base 10 ds) else int (read_base 10 ds))"
  shows "create_scalar_node from_chars (decide_value_type PLAIN_SCALAR TAG_NONE (sg @ ds)) (sg @ ds) =
    (if length ds \<le> 19 \<and> - (2 ^ 63) \<le> v \<and> v < 2 ^ 63 then Inr (N_int v)
     else Inl (Parse_error ''Failed to convert a scalar to an integer.''))"
proof -
  obtain c r where ds: "ds = c # r" using assms(2) by (cases ds) auto
  then have c: "is_digit 10 c" using assms(3) by simp
  have u: "sign_of (sg @ ds) = sg" "unsigned_part (sg @ ds) = ds"
    using assms(1) c by (auto simp: sign_of_def unsigned_part_def ds)
  have i: "integer_text (sg @ ds)" "\<not> float_text (sg @ ds)"
    unfolding integer_text_def float_text_def u Let_def using assms(2-4) tail_not_digits [OF assms(3)] by auto
  have "sg @ ds \<notin> set null_words \<and> sg @ ds \<notin> set bool_words \<and> sg @ ds \<notin> set float_words"
    using assms(1,3) by (elim disjE) (auto simp: null_words_def bool_words_def float_words_def ds is_digit_def digit_val_def)
  then have t: "decide_value_type PLAIN_SCALAR TAG_NONE (sg @ ds) = INTEGER"
    using i by (simp add: decide_value_type_def scan_exact)
  note n = dec_pos_neg [OF assms(2,3)]
  have z: "atoi (sg @ ds) = (if sg = ''-'' then map_option (\<lambda>i. i * (-1)) (atoi_dec_neg ds) else atoi_dec_pos ds)"
  proof (cases "sg = [] \<and> c = CHR ''0''")
    case True
    then show ?thesis using assms(4) n(1) by (simp add: atoi_def ds read_base_def digit_val_def)
  next
    case False
    moreover have "c \<noteq> CHR ''+''" "c \<noteq> CHR ''-''" using c by auto
    ultimately show ?thesis using assms(1) by (auto simp: atoi_def ds)
  qed
  show ?thesis unfolding t using n sint_values [of "read_base 10 ds"] assms(5)
    by (auto simp: create_scalar_node_def z)
qed

text \<open>
  Decimal integers are read exactly or not at all.  A plain scalar of an optional sign and digits, without a needless zero in
  front where it has no sign, is an integer node with its value, if this is in the range of a 64-bit signed integer and it has at most
  19 digits, and an error that ends the parse otherwise.
\<close>

theorem decimal_scalar_exact:
  assumes "sg = [] \<or> sg = ''+'' \<or> sg = ''-''" and "ds \<noteq> []" and "digits ds" and "sg = [] \<longrightarrow> hd ds \<noteq> CHR ''0'' \<or> tl ds = []"
    and "v = (if sg = ''-'' then - int (read_base 10 ds) else int (read_base 10 ds))"
  shows "create_scalar_node from_chars (decide_value_type PLAIN_SCALAR TAG_NONE (sg @ ds)) (sg @ ds) =
    (if length ds \<le> 19 \<and> - (2 ^ 63) \<le> v \<and> v < 2 ^ 63 then Inr (N_int v)
     else Inl (Parse_error ''Failed to convert a scalar to an integer.''))"
  using assms by (rule decimal_scalar)

theorem decimal_scalar_exact_witness:
  "create_scalar_node (\<lambda>_. False) (decide_value_type PLAIN_SCALAR TAG_NONE ''-9223372036854775808'') ''-9223372036854775808''
     = Inr (N_int (- (2 ^ 63))) \<and>
   create_scalar_node (\<lambda>_. False) (decide_value_type PLAIN_SCALAR TAG_NONE ''9223372036854775808'') ''9223372036854775808''
     = Inl (Parse_error ''Failed to convert a scalar to an integer.'')"
  using decimal_scalar_exact [of "''-''" "''9223372036854775808''" "- (2 ^ 63)" "\<lambda>_. False"]
    decimal_scalar_exact [of "[]" "''9223372036854775808''" "2 ^ 63" "\<lambda>_. False"]
  by (simp_all add: is_digit_def digit_val_def read_base_def)

text \<open>Hexadecimal text with the highest of its 64 bits set is accepted and becomes negative.\<close>

lemma hexadecimal_scalar:
  assumes "ds \<noteq> []" and "list_all (is_digit 16) ds"
  shows "create_scalar_node from_chars INTEGER (''0x'' @ ds) =
    (if length ds \<le> 16 then Inr (N_int (sint (of_nat (read_base 16 ds) :: 64 word)))
     else Inl (Parse_error ''Failed to convert a scalar to an integer.''))"
  using assms by (simp add: create_scalar_node_def atoi_def atoi_hex_def check_if_hexs_safe_def max_chars_hex_def digits_loop_eq)

lemma hexadecimal_wraps: "create_scalar_node from_chars (scan ''0xFFFFFFFFFFFFFFFF'') ''0xFFFFFFFFFFFFFFFF'' = Inr (N_int (-1))"
proof -
  have "scan ''0xFFFFFFFFFFFFFFFF'' = INTEGER" by (simp add: scan_def is_digit_def digit_val_def)
  then show ?thesis using hexadecimal_scalar [of "''FFFFFFFFFFFFFFFF''" from_chars]
    by (simp add: is_digit_def digit_val_def read_base_def)
qed

text \<open>
  Text that the scanner takes for a floating-point number and no conversion takes: it ends the parse, although it would be a
  string by the core schema of YAML.
\<close>

lemma bare_point_rejected:
  assumes "\<not> from_chars ''.''" and "\<not> from_chars ''.e5''" and "\<not> from_chars ''e5''"
  shows "\<forall>s \<in> set [''+.'', ''.e5'', ''+e5'']. create_scalar_node from_chars (decide_value_type PLAIN_SCALAR TAG_NONE s) s
    = Inl (Parse_error ''Failed to convert a scalar to a floating point value'')"
proof -
  have "scan ''+.'' = FLOAT" "scan ''.e5'' = FLOAT" "scan ''+e5'' = FLOAT"
    by (simp_all add: scan_def scan_after_exponent_def is_digit_def digit_val_def)
  then show ?thesis using assms by (simp add: decide_value_type_def create_scalar_node_def atof_def)
qed

end
