(* ===== verification/Pw_YamlText.thy ===== *)
theory Pw_YamlText
  imports Pw_YamlScalar Pw_Address
begin

text \<open>
  The contents of scalars in the vendored YAML library (\<^verbatim>\<open>src/libs/fkyaml/node.hpp\<close>): escape sequences (\<^verbatim>\<open>yaml_escaper\<close>) and
  the parser of quoted and block scalars (\<^verbatim>\<open>scalar_parser\<close>), with the searches of \<^verbatim>\<open>str_view\<close> that it uses.  An assertion of the
  code that does not hold, and a reference outside a buffer, are \<open>Undefined\<close>.
\<close>

abbreviation (input) newline_char :: char where "newline_char \<equiv> CHR 0x0A"

definition blank :: "char \<Rightarrow> bool" where "blank c \<longleftrightarrow> c = CHR '' '' \<or> c = CHR 0x09"

section \<open>Escape sequences\<close>

definition convert_hexchar_to_byte :: "char \<Rightarrow> nat option" where
  "convert_hexchar_to_byte source =
     (let n = of_char source :: nat in
      if 48 \<le> n \<and> n \<le> 57 then Some (n - 48)
      else if 65 \<le> n \<and> n \<le> 70 then Some (n - 65 + 10)
      else if 97 \<le> n \<and> n \<le> 102 then Some (n - 97 + 10)
      else None)"

text \<open>
  The loop over the digits, from the highest on.  A digit beyond the end of the token is the quote that closes the scalar, which is
  no digit.
\<close>

fun codepoint_loop :: "nat \<Rightarrow> string \<Rightarrow> u32 \<Rightarrow> (u32 \<times> string) option" where
  "codepoint_loop 0 s codepoint = Some (codepoint, s)"
| "codepoint_loop (Suc i) [] codepoint = None"
| "codepoint_loop (Suc i) (c # s) codepoint =
     (case convert_hexchar_to_byte c of
        None \<Rightarrow> None
      | Some byte \<Rightarrow> codepoint_loop i s (codepoint OR push_bit (4 * i) (of_nat byte)))"

definition extract_codepoint :: "nat \<Rightarrow> string \<Rightarrow> (u32 \<times> string) option" where
  "extract_codepoint bytes_to_read s =
     (if \<not> bytes_to_read - 1 \<le> length s + 1 then None else codepoint_loop (bytes_to_read * 2) s 0)"

definition chars_of :: "bytes \<Rightarrow> string" where "chars_of bs = map (\<lambda>b. char_of (unat b)) bs"

definition unescape_escaped_unicode :: "u32 \<Rightarrow> yaml_error + string" where
  "unescape_escaped_unicode codepoint = (case from_utf32 codepoint of Inl e \<Rightarrow> Inl e | Inr bs \<Rightarrow> Inr (chars_of bs))"

definition unsupported_escape :: yaml_error where
  "unsupported_escape = Parse_error ''Unsupported escape sequence is found in a double quoted scalar.''"

text \<open>The result of \<^verbatim>\<open>unescape\<close> behind a backslash: what it appends and the text behind the sequence.\<close>

definition unescape_hex :: "nat \<Rightarrow> string \<Rightarrow> yaml_error + string \<times> string" where
  "unescape_hex bytes_to_read s =
     (case extract_codepoint bytes_to_read s of
        None \<Rightarrow> Inl unsupported_escape
      | Some (codepoint, s') \<Rightarrow>
          (case unescape_escaped_unicode codepoint of Inl e \<Rightarrow> Inl e | Inr t \<Rightarrow> Inr (t, s')))"

definition unescape_code :: "u32 \<Rightarrow> string \<Rightarrow> yaml_error + string \<times> string" where
  "unescape_code codepoint s = (case unescape_escaped_unicode codepoint of Inl e \<Rightarrow> Inl e | Inr t \<Rightarrow> Inr (t, s))"

fun unescape :: "string \<Rightarrow> yaml_error + string \<times> string" where
  "unescape [] = Inl Undefined"
| "unescape (c # s) =
     (if c = CHR ''a'' then Inr ([CHR 0x07], s)
      else if c = CHR ''b'' then Inr ([CHR 0x08], s)
      else if c = CHR ''t'' \<or> c = CHR 0x09 then Inr ([CHR 0x09], s)
      else if c = CHR ''n'' then Inr ([CHR 0x0A], s)
      else if c = CHR ''v'' then Inr ([CHR 0x0B], s)
      else if c = CHR ''f'' then Inr ([CHR 0x0C], s)
      else if c = CHR ''r'' then Inr ([CHR 0x0D], s)
      else if c = CHR ''e'' then Inr ([CHR 0x1B], s)
      else if c = CHR '' '' then Inr ('' '', s)
      else if c = CHR 0x22 then Inr ([CHR 0x22], s)
      else if c = CHR ''/'' then Inr (''/'', s)
      else if c = CHR 0x5C then Inr ([CHR 0x5C], s)
      else if c = CHR ''N'' then unescape_code 0x85 s
      else if c = CHR ''_'' then unescape_code 0xA0 s
      else if c = CHR ''L'' then unescape_code 0x2028 s
      else if c = CHR ''P'' then unescape_code 0x2029 s
      else if c = CHR ''x'' then unescape_hex 1 s
      else if c = CHR ''u'' then unescape_hex 2 s
      else if c = CHR ''U'' then unescape_hex 4 s
      else Inl unsupported_escape)"

text \<open>\<^verbatim>\<open>escape\<close>: what a character below 0x80 becomes, and the sequences of UTF-8 that have a name.\<close>

definition escape_ascii :: "char \<Rightarrow> string option" where
  "escape_ascii c =
     (if c = CHR 0x01 then Some [CHR 0x5C, CHR ''u'', CHR ''0'', CHR ''0'', CHR ''0'', CHR ''1'']
      else if c = CHR 0x02 then Some [CHR 0x5C, CHR ''u'', CHR ''0'', CHR ''0'', CHR ''0'', CHR ''2'']
      else if c = CHR 0x03 then Some [CHR 0x5C, CHR ''u'', CHR ''0'', CHR ''0'', CHR ''0'', CHR ''3'']
      else if c = CHR 0x04 then Some [CHR 0x5C, CHR ''u'', CHR ''0'', CHR ''0'', CHR ''0'', CHR ''4'']
      else if c = CHR 0x05 then Some [CHR 0x5C, CHR ''u'', CHR ''0'', CHR ''0'', CHR ''0'', CHR ''5'']
      else if c = CHR 0x06 then Some [CHR 0x5C, CHR ''u'', CHR ''0'', CHR ''0'', CHR ''0'', CHR ''6'']
      else if c = CHR 0x07 then Some [CHR 0x5C, CHR ''a'']
      else if c = CHR 0x08 then Some [CHR 0x5C, CHR ''b'']
      else if c = CHR 0x09 then Some [CHR 0x5C, CHR ''t'']
      else if c = CHR 0x0A then Some [CHR 0x5C, CHR ''n'']
      else if c = CHR 0x0B then Some [CHR 0x5C, CHR ''v'']
      else if c = CHR 0x0C then Some [CHR 0x5C, CHR ''f'']
      else if c = CHR 0x0D then Some [CHR 0x5C, CHR ''r'']
      else if c = CHR 0x0E then Some [CHR 0x5C, CHR ''u'', CHR ''0'', CHR ''0'', CHR ''0'', CHR ''E'']
      else if c = CHR 0x0F then Some [CHR 0x5C, CHR ''u'', CHR ''0'', CHR ''0'', CHR ''0'', CHR ''F'']
      else if c = CHR 0x10 then Some [CHR 0x5C, CHR ''u'', CHR ''0'', CHR ''0'', CHR ''1'', CHR ''0'']
      else if c = CHR 0x11 then Some [CHR 0x5C, CHR ''u'', CHR ''0'', CHR ''0'', CHR ''1'', CHR ''1'']
      else if c = CHR 0x12 then Some [CHR 0x5C, CHR ''u'', CHR ''0'', CHR ''0'', CHR ''1'', CHR ''2'']
      else if c = CHR 0x13 then Some [CHR 0x5C, CHR ''u'', CHR ''0'', CHR ''0'', CHR ''1'', CHR ''3'']
      else if c = CHR 0x14 then Some [CHR 0x5C, CHR ''u'', CHR ''0'', CHR ''0'', CHR ''1'', CHR ''4'']
      else if c = CHR 0x15 then Some [CHR 0x5C, CHR ''u'', CHR ''0'', CHR ''0'', CHR ''1'', CHR ''5'']
      else if c = CHR 0x16 then Some [CHR 0x5C, CHR ''u'', CHR ''0'', CHR ''0'', CHR ''1'', CHR ''6'']
      else if c = CHR 0x17 then Some [CHR 0x5C, CHR ''u'', CHR ''0'', CHR ''0'', CHR ''1'', CHR ''7'']
      else if c = CHR 0x18 then Some [CHR 0x5C, CHR ''u'', CHR ''0'', CHR ''0'', CHR ''1'', CHR ''8'']
      else if c = CHR 0x19 then Some [CHR 0x5C, CHR ''u'', CHR ''0'', CHR ''0'', CHR ''1'', CHR ''9'']
      else if c = CHR 0x1A then Some [CHR 0x5C, CHR ''u'', CHR ''0'', CHR ''0'', CHR ''1'', CHR ''A'']
      else if c = CHR 0x1B then Some [CHR 0x5C, CHR ''e'']
      else if c = CHR 0x1C then Some [CHR 0x5C, CHR ''u'', CHR ''0'', CHR ''0'', CHR ''1'', CHR ''C'']
      else if c = CHR 0x1D then Some [CHR 0x5C, CHR ''u'', CHR ''0'', CHR ''0'', CHR ''1'', CHR ''D'']
      else if c = CHR 0x1E then Some [CHR 0x5C, CHR ''u'', CHR ''0'', CHR ''0'', CHR ''1'', CHR ''E'']
      else if c = CHR 0x1F then Some [CHR 0x5C, CHR ''u'', CHR ''0'', CHR ''0'', CHR ''1'', CHR ''F'']
      else if c = CHR 0x22 then Some [CHR 0x5C, CHR 0x22]
      else if c = CHR 0x5C then Some [CHR 0x5C, CHR 0x5C]
      else None)"

text \<open>The step of the loop at the characters \<open>s\<close>: what is appended, how many are used up, and whether something was escaped.\<close>

definition escape_step :: "string \<Rightarrow> string \<times> nat \<times> bool" where
  "escape_step s =
     (case escape_ascii (hd s) of
        Some e \<Rightarrow> (e, 1, True)
      | None \<Rightarrow>
          if take 2 s = [CHR 0xC2, CHR 0x85] then ([CHR 0x5C, CHR ''N''], 2, True)
          else if take 2 s = [CHR 0xC2, CHR 0xA0] then ([CHR 0x5C, CHR ''_''], 2, True)
          else if take 3 s = [CHR 0xE2, CHR 0x80, CHR 0xA8] then ([CHR 0x5C, CHR ''L''], 3, True)
          else if take 3 s = [CHR 0xE2, CHR 0x80, CHR 0xA9] then ([CHR 0x5C, CHR ''P''], 3, True)
          else ([hd s], 1, False))"

lemma escape_step_uses: "1 \<le> fst (snd (escape_step s))"
  by (auto simp: escape_step_def split: option.splits)

function escape :: "string \<Rightarrow> string \<times> bool" where
  "escape s =
     (if s = [] then ([], False)
      else
        let (e, used, escaped) = escape_step s; (t, is_escaped) = escape (drop used s)
        in (e @ t, escaped \<or> is_escaped))"
  by pat_completeness auto

termination escape
proof (relation "measure length", simp)
  fix s :: string and x e y used escaped
  assume "s \<noteq> []" "x = escape_step s" "(e, y) = x" "(used, escaped) = y"
  then have "1 \<le> used" using escape_step_uses [of s] by (metis fst_conv snd_conv)
  then show "(drop used s, s) \<in> measure length" using \<open>s \<noteq> []\<close> by (cases s) auto
qed

declare escape.simps [simp del]

section \<open>Searches in a text\<close>

text \<open>
  \<^verbatim>\<open>find_last_not_of\<close> of \<^verbatim>\<open>str_view\<close> for a set of \<open>n\<close> characters starts \<open>n\<close> characters before the end, as if it searched for a text
  of that length, and fails on a text shorter than \<open>n\<close>.
\<close>

fun search_down :: "(char \<Rightarrow> bool) \<Rightarrow> string \<Rightarrow> nat \<Rightarrow> nat option" where
  "search_down P s 0 = (if P (s ! 0) then Some 0 else None)"
| "search_down P s (Suc i) = (if P (s ! Suc i) then Some (Suc i) else search_down P s i)"

definition find_last_not_of :: "string \<Rightarrow> string \<Rightarrow> nat option" where
  "find_last_not_of chars s =
     (if length chars \<le> length s then search_down (\<lambda>c. c \<notin> set chars) s (length s - length chars) else None)"

section \<open>Flow scalars\<close>

function skip_empty_lines :: "string \<Rightarrow> nat \<Rightarrow> string \<times> nat" where
  "skip_empty_lines token empty_line_counts =
     (case dropWhile blank token of
        [] \<Rightarrow> ([], empty_line_counts)
      | c # token' \<Rightarrow>
          if c \<noteq> newline_char then (c # token', empty_line_counts) else skip_empty_lines token' (empty_line_counts + 1))"
  by pat_completeness auto

lemma dropWhile_shorter: "dropWhile P s = c # t \<Longrightarrow> length t < length s"
  using length_dropWhile_le [of P s] by simp

termination skip_empty_lines
  by (relation "measure (\<lambda>(token, _). length token)") (auto dest: dropWhile_shorter)

declare skip_empty_lines.simps [simp del]

text \<open>
  \<^verbatim>\<open>process_line_folding\<close> at a line end behind \<open>newline_pos\<close> characters: what is appended to the buffer, and the rest of the
  token.
\<close>

definition process_line_folding :: "string \<Rightarrow> nat \<Rightarrow> string \<times> string" where
  "process_line_folding token newline_pos =
     (let kept = (case find_last_not_of [CHR '' '', CHR 0x09] (take (newline_pos + 1) token) of
             None \<Rightarrow> take newline_pos token
           | Some last_non_space_pos \<Rightarrow> take (last_non_space_pos + 1) token);
          (token', empty_line_counts) = skip_empty_lines (drop (newline_pos + 1) token) 0
      in (kept @ (if empty_line_counts > 0 then replicate empty_line_counts newline_char else '' ''), token'))"

lemma skip_empty_lines_shorter: "length (fst (skip_empty_lines token n)) \<le> length token"
proof (induction token n rule: skip_empty_lines.induct)
  case (1 token n)
  show ?case
  proof (cases "dropWhile blank token")
    case (Cons c t)
    then have "length t < length token" by (rule dropWhile_shorter)
    then show ?thesis using Cons "1.IH" [OF Cons] by (subst skip_empty_lines.simps) auto
  next
    case Nil
    show ?thesis by (subst skip_empty_lines.simps, simp only: Nil list.case fst_conv list.size)
  qed
qed

lemma process_line_folding_shorter: "length (snd (process_line_folding token p)) \<le> length token - (p + 1)"
  using skip_empty_lines_shorter [of "drop (p + 1) token" 0]
  by (cases "skip_empty_lines (drop (p + 1) token) 0") (simp add: process_line_folding_def Let_def)

lemma process_line_folding_less:
  assumes "(t, token') = process_line_folding token p" and "p = length (takeWhile P token)" and "p \<noteq> length token"
  shows "length token' < length token"
proof -
  have "token' = snd (process_line_folding token p)" by (simp add: assms(1) [symmetric])
  then have "length token' \<le> length token - (p + 1)" using process_line_folding_shorter by simp
  moreover have "p < length token" using assms(2,3) length_takeWhile_le [of P token] by simp
  ultimately show ?thesis by linarith
qed

lemma codepoint_loop_shorter: "codepoint_loop n s c = Some (d, t) \<Longrightarrow> length t \<le> length s"
  by (induction n s c rule: codepoint_loop.induct) (auto split: option.splits)

lemma unescape_shorter: "unescape s = Inr (t, r) \<Longrightarrow> length r < length s"
  by (cases s) (auto simp: unescape_code_def unescape_hex_def extract_codepoint_def less_Suc_eq_le
    dest: codepoint_loop_shorter split: if_splits sum.splits option.splits)

function single_quoted_loop :: "string \<Rightarrow> string \<Rightarrow> yaml_error + string" where
  "single_quoted_loop token m_buffer =
     (let stop = (\<lambda>c. c = CHR 0x27 \<or> c = newline_char); pos = length (takeWhile (\<lambda>c. \<not> stop c) token) in
      if pos = length token then Inr (m_buffer @ token)
      else if token ! pos = CHR 0x27 then
        if \<not> pos + 1 < length token then Inl Undefined
        else single_quoted_loop (drop (pos + 2) token) (m_buffer @ take (pos + 1) token)
      else
        let (t, token') = process_line_folding token pos in single_quoted_loop token' (m_buffer @ t))"
  by pat_completeness auto

termination single_quoted_loop
  by (relation "measure (\<lambda>(token, _). length token)") (auto intro: process_line_folding_less)

definition parse_single_quoted_scalar :: "string \<Rightarrow> yaml_error + string" where
  "parse_single_quoted_scalar token = (if token = [] then Inr token else single_quoted_loop token [])"

function double_quoted_loop :: "string \<Rightarrow> string \<Rightarrow> yaml_error + string" where
  "double_quoted_loop token m_buffer =
     (let stop = (\<lambda>c. c = CHR 0x5C \<or> c = newline_char); pos = length (takeWhile (\<lambda>c. \<not> stop c) token) in
      if pos = length token then Inr (m_buffer @ token)
      else if token ! pos = CHR 0x5C then
        if \<not> pos + 1 < length token then Inl Undefined
        else if token ! (pos + 1) \<noteq> newline_char then
          (case unescape (drop (pos + 1) token) of
             Inl e \<Rightarrow> Inl e
           | Inr (t, token') \<Rightarrow> double_quoted_loop token' (m_buffer @ take pos token @ t))
        else double_quoted_loop (dropWhile blank (drop (pos + 2) token)) (m_buffer @ take pos token)
      else
        let (t, token') = process_line_folding token pos in double_quoted_loop token' (m_buffer @ t))"
  by pat_completeness auto

lemma dropWhile_drop_less: "Suc p < length s \<Longrightarrow> length (dropWhile P (drop (Suc (Suc p)) s)) < length s"
  using length_dropWhile_le [of P "drop (Suc (Suc p)) s"] by simp

termination double_quoted_loop
proof (relation "measure (\<lambda>(token, _). length token)", simp)
  fix token m_buffer x xa xb xc xd
  assume u: "unescape (drop (xb + 1) token) = Inr xc" "(xd, x) = xc"
  then have "length x < length (drop (xb + 1) token)" using unescape_shorter by metis
  then show "((x, m_buffer @ take xb token @ xd), token, m_buffer) \<in> measure (\<lambda>(token, _). length token)" by simp
qed (auto intro: process_line_folding_less dropWhile_drop_less)

declare single_quoted_loop.simps [simp del] double_quoted_loop.simps [simp del]

definition parse_double_quoted_scalar :: "string \<Rightarrow> yaml_error + string" where
  "parse_double_quoted_scalar token = (if token = [] then Inr token else double_quoted_loop token [])"

definition parse_flow_scalar_token :: "lexical_token_t \<Rightarrow> string \<Rightarrow> yaml_error + string" where
  "parse_flow_scalar_token lex_type token =
     (case lex_type of
        SINGLE_QUOTED_SCALAR \<Rightarrow> parse_single_quoted_scalar token
      | DOUBLE_QUOTED_SCALAR \<Rightarrow> parse_double_quoted_scalar token
      | _ \<Rightarrow> Inr token)"

definition parse_flow :: "(string \<Rightarrow> bool) \<Rightarrow> lexical_token_t \<Rightarrow> tag_t \<Rightarrow> string \<Rightarrow> yaml_error + node" where
  "parse_flow from_chars lex_type tag_type token =
     (if lex_type \<notin> {PLAIN_SCALAR, SINGLE_QUOTED_SCALAR, DOUBLE_QUOTED_SCALAR} \<or> tag_type \<in> {TAG_SEQUENCE, TAG_MAPPING} then Inl Undefined
      else
        case parse_flow_scalar_token lex_type token of
          Inl e \<Rightarrow> Inl e
        | Inr text \<Rightarrow> create_scalar_node from_chars (decide_value_type lex_type tag_type text) text)"

section \<open>Block scalars\<close>

datatype chomping_indicator_t = STRIP | CLIP | KEEP

record block_scalar_header =
  chomp :: chomping_indicator_t
  indent :: nat

text \<open>\<^verbatim>\<open>process_chomping\<close>, with \<^verbatim>\<open>find_last_not_of\<close> of \<^verbatim>\<open>std::string\<close> for a single character.\<close>

definition content_size :: "string \<Rightarrow> nat" where
  "content_size s = length (dropWhile (\<lambda>c. c = newline_char) (rev s))"

definition process_chomping :: "chomping_indicator_t \<Rightarrow> string \<Rightarrow> string" where
  "process_chomping c m_buffer =
     (case c of
        STRIP \<Rightarrow> if content_size m_buffer = 0 then [] else take (content_size m_buffer) m_buffer
      | CLIP \<Rightarrow>
          if content_size m_buffer = 0 then []
          else if content_size m_buffer = length m_buffer then m_buffer
          else take (content_size m_buffer + 1) m_buffer
      | KEEP \<Rightarrow> m_buffer)"

function literal_loop :: "nat \<Rightarrow> string \<Rightarrow> string \<Rightarrow> string" where
  "literal_loop ind token m_buffer =
     (let line = takeWhile (\<lambda>c. c \<noteq> newline_char) token;
          m_buffer = m_buffer @ (if length line > ind then drop ind line else [])
      in case dropWhile (\<lambda>c. c \<noteq> newline_char) token of
           [] \<Rightarrow> m_buffer
         | _ # token' \<Rightarrow>
             let m_buffer = m_buffer @ [newline_char] in
             if token' = [] then m_buffer else literal_loop ind token' m_buffer)"
  by pat_completeness auto

termination literal_loop
  by (relation "measure (\<lambda>(_, token, _). length token)") (auto dest: dropWhile_shorter)

definition parse_block_literal_scalar :: "block_scalar_header \<Rightarrow> string \<Rightarrow> string" where
  "parse_block_literal_scalar header token =
     (if token = [] then token else process_chomping (chomp header) (literal_loop (indent header) token []))"

text \<open>
  A line of a folded scalar: what is appended, and whether the line end before the next line can be folded.  \<open>ended\<close> says that the
  line has a line end.
\<close>

definition folded_line :: "nat \<Rightarrow> string \<Rightarrow> bool \<Rightarrow> bool \<Rightarrow> string \<times> bool" where
  "folded_line ind line ended can_be_folded =
     (if length line \<le> ind then ([newline_char], False)
      else
        let non_space_pos = length (takeWhile (\<lambda>c. c = CHR '' '') line);
            is_more_indented = (non_space_pos \<noteq> length line \<and> non_space_pos > ind);
            before = (if can_be_folded then if is_more_indented then [newline_char] else '' '' else [])
        in if is_more_indented \<and> ended then (before @ drop ind line @ [newline_char], False)
           else (before @ drop ind line, True))"

function folded_loop :: "nat \<Rightarrow> string \<Rightarrow> bool \<Rightarrow> string \<Rightarrow> string" where
  "folded_loop ind token can_be_folded m_buffer =
     (let line = takeWhile (\<lambda>c. c \<noteq> newline_char) token in
      case dropWhile (\<lambda>c. c \<noteq> newline_char) token of
        [] \<Rightarrow> m_buffer @ fst (folded_line ind line False can_be_folded)
      | _ # token' \<Rightarrow>
          let (t, can) = folded_line ind line True can_be_folded in
          if token' = [] then m_buffer @ t @ (if can then [newline_char] else [])
          else folded_loop ind token' can (m_buffer @ t))"
  by pat_completeness auto

termination folded_loop
  by (relation "measure (\<lambda>(_, token, _). length token)") (auto dest: dropWhile_shorter)

declare literal_loop.simps [simp del] folded_loop.simps [simp del]

definition parse_block_folded_scalar :: "block_scalar_header \<Rightarrow> string \<Rightarrow> string" where
  "parse_block_folded_scalar header token =
     (if token = [] then token else process_chomping (chomp header) (folded_loop (indent header) token False []))"

definition parse_block ::
    "(string \<Rightarrow> bool) \<Rightarrow> lexical_token_t \<Rightarrow> tag_t \<Rightarrow> string \<Rightarrow> block_scalar_header \<Rightarrow> yaml_error + node" where
  "parse_block from_chars lex_type tag_type token header =
     (if lex_type \<notin> {BLOCK_LITERAL_SCALAR, BLOCK_FOLDED_SCALAR} \<or> tag_type \<in> {TAG_SEQUENCE, TAG_MAPPING} then Inl Undefined
      else
        let text = (if lex_type = BLOCK_LITERAL_SCALAR then parse_block_literal_scalar header token
                    else parse_block_folded_scalar header token)
        in create_scalar_node from_chars (decide_value_type lex_type tag_type text) text)"

section \<open>Escaping and unescaping\<close>

lemma codepoint_loop_numeral:
  "codepoint_loop (numeral k) (c # s) codepoint =
     (case convert_hexchar_to_byte c of
        None \<Rightarrow> None
      | Some byte \<Rightarrow> codepoint_loop (pred_numeral k) s (codepoint OR push_bit (4 * pred_numeral k) (of_nat byte)))"
  by (simp add: numeral_eq_Suc)

lemma unescape_codes:
  "unescape_code 0x85 r = Inr ([CHR 0xC2, CHR 0x85], r)" "unescape_code 0xA0 r = Inr ([CHR 0xC2, CHR 0xA0], r)"
  "unescape_code 0x2028 r = Inr ([CHR 0xE2, CHR 0x80, CHR 0xA8], r)" "unescape_code 0x2029 r = Inr ([CHR 0xE2, CHR 0x80, CHR 0xA9], r)"
  by (simp_all add: unescape_code_def unescape_escaped_unicode_def from_utf32_def chunk2_def chunk3_def chars_of_def char_of_eq_iff)

lemma unescape_u:
  "unescape_hex 2 s = (case codepoint_loop 4 s 0 of None \<Rightarrow> Inl unsupported_escape | Some (codepoint, r) \<Rightarrow> unescape_code codepoint r)"
  if "s \<noteq> []"
  using that by (cases s) (simp_all add: unescape_hex_def extract_codepoint_def unescape_code_def split: option.splits)

lemma unescape_code_ascii: "c < 0x80 \<Longrightarrow> unescape_code (of_nat c) r = Inr ([char_of c], r)"
  using from_utf32_encodes [of c] by (simp add: unescape_code_def unescape_escaped_unicode_def utf8_encode_def chars_of_def unat_of_nat)

definition escapes :: "string \<Rightarrow> string \<Rightarrow> bool" where
  "escapes e t \<longleftrightarrow> e \<noteq> [] \<and> hd e = CHR 0x5C \<and> tl e \<noteq> [] \<and> hd (tl e) \<noteq> newline_char \<and> (\<forall>r. unescape (tl e @ r) = Inr (t, r))"

lemma unescape_hex_control:
  assumes "convert_hexchar_to_byte x = Some a" and "convert_hexchar_to_byte y = Some b"
    and "push_bit 4 (of_nat a) OR of_nat b = (of_nat (16 * a + b) :: u32)" and "16 * a + b < 0x80"
  shows "unescape_hex 2 (CHR ''0'' # CHR ''0'' # x # y # r) = Inr ([char_of (16 * a + b)], r)"
  using assms unescape_code_ascii [of "16 * a + b" r]
  by (simp add: unescape_u codepoint_loop_numeral convert_hexchar_to_byte_def [of "CHR ''0''"])

lemma escape_ascii_unescape: "escape_ascii c = Some e \<Longrightarrow> escapes e [c]"
proof -
  have h: "convert_hexchar_to_byte (CHR ''0'') = Some 0" "convert_hexchar_to_byte (CHR ''1'') = Some 1"
      "convert_hexchar_to_byte (CHR ''2'') = Some 2" "convert_hexchar_to_byte (CHR ''3'') = Some 3"
      "convert_hexchar_to_byte (CHR ''4'') = Some 4" "convert_hexchar_to_byte (CHR ''5'') = Some 5"
      "convert_hexchar_to_byte (CHR ''6'') = Some 6" "convert_hexchar_to_byte (CHR ''7'') = Some 7"
      "convert_hexchar_to_byte (CHR ''8'') = Some 8" "convert_hexchar_to_byte (CHR ''9'') = Some 9"
      "convert_hexchar_to_byte (CHR ''A'') = Some 10" "convert_hexchar_to_byte (CHR ''C'') = Some 12"
      "convert_hexchar_to_byte (CHR ''D'') = Some 13" "convert_hexchar_to_byte (CHR ''E'') = Some 14"
      "convert_hexchar_to_byte (CHR ''F'') = Some 15"
    by (simp_all add: convert_hexchar_to_byte_def)
  show "escape_ascii c = Some e \<Longrightarrow> escapes e [c]"
    unfolding escape_ascii_def
    by (auto simp: escapes_def unescape_hex_control h char_of_eq_iff take_bit_eq_mod split: if_split_asm)
qed

lemma escape_step_cases:
  assumes "s \<noteq> []" and "escape_step s = (e, k, f)"
  shows "(e = [hd s] \<and> k = 1 \<and> hd s \<noteq> CHR 0x5C \<and> hd s \<noteq> newline_char) \<or> escapes e (take k s)"
proof (cases "escape_ascii (hd s)")
  case (Some x)
  then have "escapes x [hd s]" by (rule escape_ascii_unescape)
  moreover have "take 1 s = [hd s]" using assms(1) by (cases s) simp_all
  ultimately show ?thesis using Some assms(2) by (simp add: escape_step_def)
next
  case None
  have "hd s \<noteq> CHR 0x5C" "hd s \<noteq> newline_char" using None by (auto simp: escape_ascii_def)
  then show ?thesis using None assms(2)
    by (auto simp: escape_step_def escapes_def unescape_codes split: if_splits)
qed

lemma double_quoted_plain: "\<forall>c \<in> set p. c \<noteq> CHR 0x5C \<and> c \<noteq> newline_char \<Longrightarrow> double_quoted_loop p m = Inr (m @ p)"
proof -
  assume "\<forall>c \<in> set p. c \<noteq> CHR 0x5C \<and> c \<noteq> newline_char"
  then have w: "takeWhile (\<lambda>c. \<not> (c = CHR 0x5C \<or> c = newline_char)) p = p" by (simp add: takeWhile_eq_all_conv)
  show ?thesis by (subst double_quoted_loop.simps) (simp only: w Let_def if_True simp_thms)
qed

lemma double_quoted_escape:
  assumes "\<forall>c \<in> set p. c \<noteq> CHR 0x5C \<and> c \<noteq> newline_char" and "escapes e t"
  shows "double_quoted_loop (p @ e @ r) m = double_quoted_loop r (m @ p @ t)"
proof -
  obtain e' where e: "e = CHR 0x5C # e'" "e' \<noteq> []" "hd e' \<noteq> newline_char" "\<forall>r. unescape (e' @ r) = Inr (t, r)"
    using assms(2) by (cases e) (auto simp: escapes_def)
  have w: "takeWhile (\<lambda>c. \<not> (c = CHR 0x5C \<or> c = newline_char)) (p @ e @ r) = p"
    using assms(1) e(1) by (simp add: takeWhile_append takeWhile_eq_all_conv)
  have n: "(p @ e @ r) ! length p = CHR 0x5C" "(p @ e @ r) ! (length p + 1) = hd e'"
    using e(1,2) by (simp_all add: nth_append hd_conv_nth)
  have l: "length p \<noteq> length (p @ e @ r)" "length p + 1 < length (p @ e @ r)" using e(1,2) by (cases e'; simp)+
  have d: "drop (length p + 1) (p @ e @ r) = e' @ r" "take (length p) (p @ e @ r) = p" using e(1) by simp_all
  show ?thesis using e(3,4) l by (subst double_quoted_loop.simps) (simp only: w n d Let_def if_False if_True not_True_eq_False sum.case prod.case simp_thms append_assoc)
qed

lemma double_quoted_escaped:
  "\<forall>c \<in> set p. c \<noteq> CHR 0x5C \<and> c \<noteq> newline_char \<Longrightarrow> double_quoted_loop (p @ fst (escape s)) m = Inr (m @ p @ s)"
proof (induction "length s" arbitrary: s p m rule: less_induct)
  case less
  show ?case
  proof (cases "s = []")
    case True
    then show ?thesis using double_quoted_plain [OF less.prems] by (simp add: escape.simps)
  next
    case False
    obtain e k f where step: "escape_step s = (e, k, f)" by (cases "escape_step s")
    have esc: "fst (escape s) = e @ fst (escape (drop k s))"
      using False step by (subst escape.simps) (simp split: prod.splits)
    have sh: "length (drop k s) < length s" using escape_step_uses [of s] step False by (cases s) auto
    from escape_step_cases [OF False step] show ?thesis
    proof
      assume a: "e = [hd s] \<and> k = 1 \<and> hd s \<noteq> CHR 0x5C \<and> hd s \<noteq> newline_char"
      have "hd s # drop 1 s = s" using False by (cases s) auto
      then show ?thesis using less.hyps [OF sh, of "p @ [hd s]" m] less.prems a by (auto simp: esc)
    next
      assume "escapes e (take k s)"
      then show ?thesis using double_quoted_escape [OF less.prems, of e "take k s" "fst (escape (drop k s))" m]
          less.hyps [OF sh, of "[]" "m @ p @ take k s"] by (simp add: esc)
    qed
  qed
qed

text \<open>
  A text that the library escapes is read back: the contents that \<^verbatim>\<open>escape\<close> writes between double quotes for a text of any
  bytes, line ends, quotes and backslashes among them, are parsed to a string node with this text.
\<close>

lemma escaped_scalar_read_back:
  "parse_flow from_chars DOUBLE_QUOTED_SCALAR TAG_NONE (fst (escape s)) = Inr (N_str s)"
proof -
  have "parse_double_quoted_scalar (fst (escape s)) = Inr s"
    using double_quoted_escaped [of "[]" s "[]"] double_quoted_plain [of "[]" "[]"]
    by (auto simp: parse_double_quoted_scalar_def)
  then show ?thesis
    by (simp add: parse_flow_def parse_flow_scalar_token_def decide_value_type_def create_scalar_node_def)
qed

section \<open>Other scalars read back\<close>

text \<open>A text between single quotes has its quotes doubled.\<close>

definition double_quotes :: "string \<Rightarrow> string" where
  "double_quotes s = concat (map (\<lambda>c. if c = CHR 0x27 then [c, c] else [c]) s)"

lemma single_quoted_step:
  assumes "\<forall>c \<in> set p. c \<noteq> CHR 0x27 \<and> c \<noteq> newline_char"
  shows "single_quoted_loop p m = Inr (m @ p)"
    and "single_quoted_loop (p @ CHR 0x27 # CHR 0x27 # r) m = single_quoted_loop r (m @ p @ [CHR 0x27])"
proof -
  have w: "takeWhile (\<lambda>c. \<not> (c = CHR 0x27 \<or> c = newline_char)) p = p" using assms by (simp add: takeWhile_eq_all_conv)
  show "single_quoted_loop p m = Inr (m @ p)"
    by (subst single_quoted_loop.simps) (simp only: w Let_def if_True simp_thms)
  let ?t = "p @ CHR 0x27 # CHR 0x27 # r"
  have w: "takeWhile (\<lambda>c. \<not> (c = CHR 0x27 \<or> c = newline_char)) ?t = p"
    using assms by (simp add: takeWhile_append takeWhile_eq_all_conv)
  have n: "?t ! length p = CHR 0x27" "length p \<noteq> length ?t" "length p + 1 < length ?t" "drop (length p + 2) ?t = r"
    "take (length p + 1) ?t = p @ [CHR 0x27]"
    by simp_all
  show "single_quoted_loop ?t m = single_quoted_loop r (m @ p @ [CHR 0x27])"
    using n(2,3) by (subst single_quoted_loop.simps) (simp only: w n(1,4,5) Let_def if_False if_True not_True_eq_False simp_thms)
qed

lemma single_quoted_read_back:
  "\<forall>c \<in> set p. c \<noteq> CHR 0x27 \<and> c \<noteq> newline_char \<Longrightarrow> newline_char \<notin> set s \<Longrightarrow>
     single_quoted_loop (p @ double_quotes s) m = Inr (m @ p @ s)"
proof (induction s arbitrary: p m)
  case Nil
  then show ?case using single_quoted_step(1) [of p m] by (simp add: double_quotes_def)
next
  case (Cons c s)
  show ?case
  proof (cases "c = CHR 0x27")
    case True
    then have "single_quoted_loop (p @ double_quotes (c # s)) m = single_quoted_loop (double_quotes s) (m @ p @ [c])"
      using single_quoted_step(2) [OF Cons.prems(1), of "double_quotes s" m] by (simp add: double_quotes_def)
    then show ?thesis using Cons.IH [of "[]" "m @ p @ [c]"] Cons.prems by simp
  next
    case False
    then show ?thesis using Cons.IH [of "p @ [c]" m] Cons.prems by (auto simp: double_quotes_def)
  qed
qed

lemma single_quoted_any: "parse_single_quoted_scalar t = single_quoted_loop t []"
  using single_quoted_step(1) [of "[]" "[]"] by (simp add: parse_single_quoted_scalar_def)

text \<open>The addresses of a ping list need no quotes: a plain scalar that is an IPv4 address is a string.\<close>

lemma dotted_scan:
  assumes "digits a" "digits b" "a \<noteq> []" "b \<noteq> []"
  shows "scan (a @ CHR ''.'' # b @ CHR ''.'' # r) = STRING"
proof -
  let ?s = "a @ CHR ''.'' # b @ CHR ''.'' # r"
  have h: "is_digit 10 (hd ?s)" using assms by (cases a) auto
  then have u: "sign_of ?s = []" "unsigned_part ?s = ?s" by (auto simp: sign_of_def unsigned_part_def)
  have w: "takeWhile (is_digit 10) ?s = a" "dropWhile (is_digit 10) ?s = CHR ''.'' # b @ CHR ''.'' # r"
      "dropWhile (is_digit 10) (b @ CHR ''.'' # r) = CHR ''.'' # r"
    using assms by (simp_all add: takeWhile_append dropWhile_append list_all_iff takeWhile_eq_all_conv)
  have f: "\<not> float_text ?s" unfolding float_text_def u Let_def w by (simp add: number_tail_def fraction_def w(3))
  have d: "CHR ''.'' \<in> set ?s" by simp
  have i: "\<not> integer_text ?s"
  proof -
    have "CHR ''.'' \<in> set (drop 2 ?s)" using assms(3,4) by (cases a; cases "tl a"; cases b) auto
    then have "\<not> list_all (is_digit 8) (drop 2 ?s)" "\<not> list_all (is_digit 16) (drop 2 ?s)" "\<not> digits ?s"
      using d digit_facts(1) unfolding list_all_iff by blast+
    then show ?thesis unfolding integer_text_def u Let_def by blast
  qed
  have "\<not> is_digit 10 (hd w)" if "w \<in> set null_words \<or> w \<in> set bool_words \<or> w \<in> set float_words" for w
    using that by (auto simp: null_words_def bool_words_def float_words_def is_digit_def digit_val_def)
  then show ?thesis using h f i unfolding scan_exact by auto
qed

text \<open>
  C36: scalars of configurations and ping lists read back.  An IPv4 address as the programs print it, without quotes, is a
  string node with this text, never a number; a printed 64-bit integer without quotes is a node of this integer; and a text
  without line ends between single quotes, its quotes doubled, is a string node with this text.
\<close>

theorem plain_scalars_read_back:
  "parse_flow from_chars PLAIN_SCALAR TAG_NONE (uint2ip ip) = Inr (N_str (uint2ip ip))
   \<and> parse_flow from_chars PLAIN_SCALAR TAG_NONE (show_int (sint (i :: 64 word))) = Inr (N_int (sint i))
   \<and> parse_flow from_chars SINGLE_QUOTED_SCALAR TAG_NONE (double_quotes (filter (\<lambda>c. c \<noteq> newline_char) s))
       = Inr (N_str (filter (\<lambda>c. c \<noteq> newline_char) s))"
proof (intro conjI)
  have d: "digits (show_nat n)" "show_nat n \<noteq> []" for n
    using show_base_digits [of 10 n] by (simp_all add: show_nat_def list_all_iff)
  have "\<exists>x y z w. bs = [x, y, z, w]" if "length bs = 4" for bs :: bytes
    using that by (auto simp: numeral_eq_Suc length_Suc_conv)
  from this [OF length_le_encode] obtain x y z w where "le_encode 4 (unat ip) = [x, y, z, w]" by blast
  then have "scan (uint2ip ip) = STRING"
    using dotted_scan [OF d(1) d(1) d(2) d(2)] by (simp add: uint2ip_def inet_ntop4_def)
  then show "parse_flow from_chars PLAIN_SCALAR TAG_NONE (uint2ip ip) = Inr (N_str (uint2ip ip))"
    by (simp add: parse_flow_def parse_flow_scalar_token_def decide_value_type_def create_scalar_node_def)
  let ?v = "sint i" and ?n = "nat \<bar>sint i\<bar>"
  let ?sg = "if ?v < 0 then ''-'' else []"
  have r: "- (2 ^ 63) \<le> ?v" "?v < 2 ^ 63" using sint_ge [of i] sint_lt [of i] by simp_all
  have z: "hd (show_nat ?n) \<noteq> CHR ''0'' \<or> tl (show_nat ?n) = []"
    using show_nat_zero_lead [of ?n] by (cases "show_nat ?n") auto
  have l: "length (show_nat ?n) \<le> 19" unfolding show_nat_def by (rule length_show_base) (use r in auto)
  have e: "show_int ?v = ?sg @ show_nat ?n" by (simp add: show_int_def)
  have "parse_flow from_chars PLAIN_SCALAR TAG_NONE (?sg @ show_nat ?n) =
      create_scalar_node from_chars (decide_value_type PLAIN_SCALAR TAG_NONE (?sg @ show_nat ?n)) (?sg @ show_nat ?n)"
    by (simp add: parse_flow_def parse_flow_scalar_token_def)
  also have "\<dots> = Inr (N_int ?v)"
    using decimal_scalar [OF _ d(2) d(1), of ?sg ?n ?v from_chars] z l r by (simp add: show_nat_def)
  finally show "parse_flow from_chars PLAIN_SCALAR TAG_NONE (show_int ?v) = Inr (N_int ?v)" unfolding e .
  show "parse_flow from_chars SINGLE_QUOTED_SCALAR TAG_NONE (double_quotes (filter (\<lambda>c. c \<noteq> newline_char) s))
       = Inr (N_str (filter (\<lambda>c. c \<noteq> newline_char) s))"
    using single_quoted_read_back [of "[]" "filter (\<lambda>c. c \<noteq> newline_char) s" "[]"]
    by (simp add: parse_flow_def parse_flow_scalar_token_def single_quoted_any decide_value_type_def create_scalar_node_def)
qed

section \<open>Literal scalars\<close>

definition indented :: "nat \<Rightarrow> string list \<Rightarrow> string" where
  "indented n ls = concat (map (\<lambda>l. replicate n (CHR '' '') @ l @ [newline_char]) ls)"

lemma literal_loop_lines:
  "ls \<noteq> [] \<Longrightarrow> \<forall>l \<in> set ls. newline_char \<notin> set l \<Longrightarrow> literal_loop n (indented n ls) m = m @ indented 0 ls"
proof (induction ls arbitrary: m)
  case (Cons l ls)
  let ?p = "replicate n (CHR '' '') @ l"
  have p: "\<forall>c \<in> set ?p. c \<noteq> newline_char" using Cons.prems(2) by auto
  have t: "indented n (l # ls) = ?p @ newline_char # indented n ls" by (simp add: indented_def)
  have w: "takeWhile (\<lambda>c. c \<noteq> newline_char) (?p @ newline_char # indented n ls) = ?p"
    "dropWhile (\<lambda>c. c \<noteq> newline_char) (?p @ newline_char # indented n ls) = newline_char # indented n ls"
    using p by (simp_all add: takeWhile_append dropWhile_append takeWhile_eq_all_conv)
  have l: "(if length ?p > n then drop n ?p else []) = l" by simp
  have step: "literal_loop n (?p @ newline_char # indented n ls) m =
      (if indented n ls = [] then (m @ l) @ [newline_char] else literal_loop n (indented n ls) ((m @ l) @ [newline_char]))"
    by (subst literal_loop.simps) (simp only: w l Let_def list.case)
  show ?case
  proof (cases "ls = []")
    case True
    then show ?thesis unfolding t step by (simp add: indented_def)
  next
    case False
    then have "indented n ls \<noteq> []" by (cases ls) (simp_all add: indented_def)
    then show ?thesis using Cons.IH [OF False] Cons.prems(2) unfolding t step by (simp add: indented_def)
  qed
qed simp

lemma chomping_lines:
  assumes "l \<noteq> []" and "newline_char \<notin> set l"
  shows "process_chomping c (s @ l @ [newline_char]) = s @ l @ (if c = STRIP then [] else [newline_char])"
proof -
  have "dropWhile (\<lambda>c. c = newline_char) (rev (s @ l @ [newline_char])) = rev (s @ l)"
    using assms by (cases l rule: rev_cases) auto
  then have "content_size (s @ l @ [newline_char]) = length (s @ l)" unfolding content_size_def by simp
  then show ?thesis using assms by (cases c) (simp_all add: process_chomping_def)
qed

text \<open>Lines that are written behind a fixed indentation are read back; stripping takes the last line end away.\<close>

theorem literal_scalar_read_back:
  assumes "\<forall>l \<in> set (ls @ [l]). newline_char \<notin> set l" and "l \<noteq> []"
  shows "parse_block from_chars BLOCK_LITERAL_SCALAR TAG_NONE (indented n (ls @ [l])) \<lparr>chomp = c, indent = n\<rparr>
    = Inr (N_str (indented 0 ls @ l @ (if c = STRIP then [] else [newline_char])))"
proof -
  have "indented n (ls @ [l]) \<noteq> []" "indented 0 (ls @ [l]) = indented 0 ls @ l @ [newline_char]" by (simp_all add: indented_def)
  then have "parse_block_literal_scalar \<lparr>chomp = c, indent = n\<rparr> (indented n (ls @ [l]))
      = indented 0 ls @ l @ (if c = STRIP then [] else [newline_char])"
    using literal_loop_lines [of "ls @ [l]" n "[]"] chomping_lines [of l c "indented 0 ls"] assms
    by (simp add: parse_block_literal_scalar_def)
  then show ?thesis by (simp add: parse_block_def decide_value_type_def create_scalar_node_def)
qed

end
