(* ===== verification/Pw_YamlLexer.thy ===== *)
theory Pw_YamlLexer
  imports Pw_YamlText
begin

text \<open>
  The lexical analyser of the vendored YAML library (\<^verbatim>\<open>src/libs/fkyaml/node.hpp\<close>): \<^verbatim>\<open>uri_encoding\<close>, \<^verbatim>\<open>position_tracker\<close> and
  \<^verbatim>\<open>lexical_analyzer\<close>.  Pointers into the input are positions in it; the character behind the last one is the NUL that ends
  the buffer of the adapter, and reading further is \<open>Undefined\<close>.  The position in an error message is left out, and
  the messages for the control characters are one.
\<close>

section \<open>URIs\<close>

definition alnum :: "char \<Rightarrow> bool" where
  "alnum c = (let n = of_char c :: nat in (48 \<le> n \<and> n \<le> 57) \<or> (65 \<le> n \<and> n \<le> 90) \<or> (97 \<le> n \<and> n \<le> 122))"

definition validate_character :: "char \<Rightarrow> bool" where
  "validate_character c \<longleftrightarrow> c \<in> set '':/?#[]@!$&()*+,;=-._~'' \<or> c = CHR 0x27 \<or> alnum c"

text \<open>
  The loop of \<^verbatim>\<open>uri_encoding::validate\<close>: behind two octets the position is moved on once more, so that a character is
  passed over.  \<open>None\<close> is a position behind the end, from which the loop reads on.
\<close>

fun uri_validate :: "string \<Rightarrow> bool option" where
  "uri_validate [] = Some True"
| "uri_validate (c # s) =
     (if c = CHR ''%'' then
        (case s of
           a # b # r \<Rightarrow>
             if is_digit 16 a \<and> is_digit 16 b then (case r of [] \<Rightarrow> None | _ # r' \<Rightarrow> uri_validate r') else Some False
         | _ \<Rightarrow> Some False)
      else if validate_character c then uri_validate s else Some False)"

section \<open>Positions\<close>

record position_tracker =
  m_last :: nat
  m_cur_pos :: nat
  m_cur_pos_in_line :: nat
  m_lines_read :: nat

definition tracker_new :: position_tracker where
  "tracker_new = \<lparr>m_last = 0, m_cur_pos = 0, m_cur_pos_in_line = 0, m_lines_read = 0\<rparr>"

text \<open>The characters between \<open>p_current\<close> and the line end before it, of which the first of the buffer is not looked at.\<close>

fun count_back :: "string \<Rightarrow> nat \<Rightarrow> nat" where
  "count_back buffer 0 = 0"
| "count_back buffer (Suc p) = (if p = 0 then 0 else if buffer ! p = newline_char then 0 else Suc (count_back buffer p))"

definition update_position :: "string \<Rightarrow> nat \<Rightarrow> position_tracker \<Rightarrow> position_tracker" where
  "update_position buffer p_current t =
     (let diff = p_current - m_last t in
      if diff = 0 then t
      else
        let lines_read = m_lines_read t + length (filter (\<lambda>c. c = newline_char) (take diff (drop (m_last t) buffer)));
            t' = t\<lparr>m_last := p_current, m_cur_pos := m_cur_pos t + diff, m_lines_read := lines_read\<rparr>
        in if lines_read = m_lines_read t then t'\<lparr>m_cur_pos_in_line := m_cur_pos_in_line t + diff\<rparr>
           else t'\<lparr>m_cur_pos_in_line := count_back buffer p_current\<rparr>)"

section \<open>The state of the analyser\<close>

definition flow_context_bit :: u32 where "flow_context_bit = 1"
definition document_directive_bit :: u32 where "document_directive_bit = 2"

record lexer =
  m_input_buffer :: string
  m_cur_itr :: nat
  m_token_begin_itr :: nat
  m_pos_tracker :: position_tracker
  m_yaml_version :: string
  m_tag_handle :: string
  m_tag_prefix :: string
  m_block_scalar_header :: block_scalar_header
  m_last_token_begin_pos :: nat
  m_last_token_begin_line :: nat
  m_state :: u32

record lexical_token =
  token_type :: lexical_token_t
  token_str :: string

definition lexer_new :: "string \<Rightarrow> lexer" where
  "lexer_new input_buffer =
     \<lparr>m_input_buffer = input_buffer, m_cur_itr = 0, m_token_begin_itr = 0, m_pos_tracker = tracker_new, m_yaml_version = [],
      m_tag_handle = [], m_tag_prefix = [], m_block_scalar_header = \<lparr>chomp = CLIP, indent = 0\<rparr>, m_last_token_begin_pos = 0,
      m_last_token_begin_line = 0, m_state = 0\<rparr>"

definition set_context_state :: "bool \<Rightarrow> lexer \<Rightarrow> lexer" where
  "set_context_state is_flow_context l =
     (let s = m_state l AND NOT flow_context_bit in l\<lparr>m_state := (if is_flow_context then s OR flow_context_bit else s)\<rparr>)"

definition set_document_state :: "bool \<Rightarrow> lexer \<Rightarrow> lexer" where
  "set_document_state is_directive l =
     (let s = m_state l AND NOT document_directive_bit in l\<lparr>m_state := (if is_directive then s OR document_directive_bit else s)\<rparr>)"

definition in_flow :: "lexer \<Rightarrow> bool" where "in_flow l \<longleftrightarrow> m_state l AND flow_context_bit \<noteq> 0"
definition in_directives :: "lexer \<Rightarrow> bool" where "in_directives l \<longleftrightarrow> m_state l AND document_directive_bit \<noteq> 0"

text \<open>What is left of the input, the character at a position, and the text of a token.\<close>

definition input_left :: "lexer \<Rightarrow> string" where "input_left l = drop (m_cur_itr l) (m_input_buffer l)"

definition char_at :: "lexer \<Rightarrow> nat \<Rightarrow> char" where
  "char_at l i = (if i < length (m_input_buffer l) then m_input_buffer l ! i else CHR 0x00)"

definition at_end :: "lexer \<Rightarrow> bool" where "at_end l \<longleftrightarrow> m_cur_itr l = length (m_input_buffer l)"

definition token_text :: "lexer \<Rightarrow> string" where
  "token_text l = take (m_cur_itr l - m_token_begin_itr l) (drop (m_token_begin_itr l) (m_input_buffer l))"

definition move :: "nat \<Rightarrow> lexer \<Rightarrow> lexer" where "move n l = l\<lparr>m_cur_itr := m_cur_itr l + n\<rparr>"

definition skip_while :: "(char \<Rightarrow> bool) \<Rightarrow> lexer \<Rightarrow> lexer" where
  "skip_while P l = move (length (takeWhile P (input_left l))) l"

definition skip_white_spaces :: "lexer \<Rightarrow> lexer" where "skip_white_spaces = skip_while blank"

definition skip_white_spaces_and_newline_codes :: "lexer \<Rightarrow> lexer" where
  "skip_white_spaces_and_newline_codes = skip_while (\<lambda>c. blank c \<or> c = newline_char)"

definition skip_until_line_end :: "lexer \<Rightarrow> lexer" where
  "skip_until_line_end l =
     (let l' = skip_while (\<lambda>c. c \<noteq> newline_char) l in if at_end l' then l' else move 1 l')"

definition emit_error :: "string \<Rightarrow> yaml_error + 'a" where "emit_error msg = Inl (Parse_error msg)"

section \<open>Scalars\<close>

definition check_scalar_content :: "string \<Rightarrow> bool" where
  "check_scalar_content contents \<longleftrightarrow>
     list_all (\<lambda>c. let n = of_char c :: nat in \<not> (n < 32 \<and> n \<noteq> 0 \<and> n \<noteq> 9 \<and> n \<noteq> 10 \<and> n \<noteq> 13)) contents"

text \<open>The end of a plain scalar: the loop over the characters of \<^verbatim>\<open>"\n :{}[],"\<close>, each with the text behind it.\<close>

definition plain_ends :: "bool \<Rightarrow> char \<Rightarrow> string \<Rightarrow> bool" where
  "plain_ends flow c s =
     (if c = newline_char then True
      else if c = CHR '' '' then
        (case s of
           [] \<Rightarrow> True
         | d # t \<Rightarrow>
             if d = CHR '' '' \<or> d = CHR 0x09 \<or> d = newline_char \<or> d = CHR ''#'' then True
             else if d = CHR '':'' then t \<noteq> [] \<and> hd t = CHR '' ''
             else if d \<in> set ''{}[],'' then flow
             else False)
      else if c = CHR '':'' then s \<noteq> [] \<and> (hd s = CHR '' '' \<or> hd s = CHR 0x09 \<or> hd s = newline_char)
      else if c \<in> set ''{}[],'' then flow
      else False)"

fun plain_length :: "bool \<Rightarrow> string \<Rightarrow> nat" where
  "plain_length flow [] = 0"
| "plain_length flow (c # s) = (if plain_ends flow c s then 0 else Suc (plain_length flow s))"

definition determine_plain_scalar_range :: "lexer \<Rightarrow> lexer" where
  "determine_plain_scalar_range l =
     l\<lparr>m_cur_itr := m_token_begin_itr l + plain_length (in_flow l) (drop (m_token_begin_itr l) (m_input_buffer l))\<rparr>"

text \<open>The position of the quote that closes a scalar.\<close>

fun single_quote_end :: "string \<Rightarrow> nat option" where
  "single_quote_end [] = None"
| "single_quote_end (c # s) =
     (if c = CHR 0x27 then
        (case s of
           d # t \<Rightarrow> if d \<noteq> CHR 0x27 then Some 0 else map_option (\<lambda>n. n + 2) (single_quote_end t)
         | [] \<Rightarrow> Some 0)
      else map_option Suc (single_quote_end s))"

definition find_from :: "char \<Rightarrow> string \<Rightarrow> nat \<Rightarrow> nat option" where
  "find_from c s p =
     (let n = length (takeWhile (\<lambda>d. d \<noteq> c) (drop p s)) in if p + n < length s then Some (p + n) else None)"

text \<open>
  The backslashes before a double quote, counted from position \<open>p\<close> backwards.  The loop ends when it comes to the first
  character of the contents, without looking at it; when it starts there it looks at it, and then at the opening quote.
\<close>

fun backslash_counts :: "string \<Rightarrow> nat \<Rightarrow> nat" where
  "backslash_counts s 0 = (if s ! 0 = CHR 0x5C then 1 else 0)"
| "backslash_counts s (Suc p) =
     (if s ! Suc p \<noteq> CHR 0x5C then 0 else if p = 0 then 1 else Suc (backslash_counts s p))"

definition double_quote_closed :: "string \<Rightarrow> nat \<Rightarrow> bool" where
  "double_quote_closed s p \<longleftrightarrow> (if p > 0 then even (backslash_counts s (p - 1)) else True)"

function double_quote_end :: "string \<Rightarrow> nat \<Rightarrow> nat option" where
  "double_quote_end s p =
     (case find_from (CHR 0x22) s p of
        None \<Rightarrow> None
      | Some q \<Rightarrow> if double_quote_closed s q then Some q else double_quote_end s (q + 1))"
  by pat_completeness auto

lemma find_from_bounds: "find_from c s p = Some q \<Longrightarrow> p \<le> q \<and> q < length s"
  by (auto simp: find_from_def Let_def split: if_splits)

termination double_quote_end
  by (relation "measure (\<lambda>(s, p). length s - p)") (auto dest: find_from_bounds)

declare double_quote_end.simps [simp del]

definition quoted_scalar :: "lexical_token_t \<Rightarrow> (string \<Rightarrow> nat option) \<Rightarrow> string \<Rightarrow> lexer \<Rightarrow> yaml_error + lexical_token \<times> lexer" where
  "quoted_scalar type closing msg l =
     (let l = l\<lparr>m_token_begin_itr := m_token_begin_itr l + 1\<rparr>;
          sv = drop (m_token_begin_itr l) (m_input_buffer l)
      in case closing sv of
           None \<Rightarrow> emit_error msg
         | Some pos \<Rightarrow>
             if check_scalar_content (take pos sv)
             then Inr (\<lparr>token_type = type, token_str = take pos sv\<rparr>, l\<lparr>m_cur_itr := m_token_begin_itr l + (pos + 1)\<rparr>)
             else emit_error ''Control character must be escaped.'')"

definition determine_single_quoted_scalar_range :: "lexer \<Rightarrow> yaml_error + lexical_token \<times> lexer" where
  "determine_single_quoted_scalar_range =
     quoted_scalar SINGLE_QUOTED_SCALAR single_quote_end ''Invalid end of input buffer in a single-quoted scalar token.''"

definition determine_double_quoted_scalar_range :: "lexer \<Rightarrow> yaml_error + lexical_token \<times> lexer" where
  "determine_double_quoted_scalar_range =
     quoted_scalar DOUBLE_QUOTED_SCALAR (\<lambda>sv. double_quote_end sv 0) ''Invalid end of input buffer in a double-quoted scalar token.''"

section \<open>Block scalars\<close>

fun header_loop :: "string \<Rightarrow> block_scalar_header \<Rightarrow> yaml_error + block_scalar_header" where
  "header_loop [] header = Inr header"
| "header_loop (c # line) header =
     (if c = CHR ''-'' then
        if chomp header \<noteq> CLIP then emit_error ''Too many block chomping indicators specified.''
        else header_loop line (header\<lparr>chomp := STRIP\<rparr>)
      else if c = CHR ''+'' then
        if chomp header \<noteq> CLIP then emit_error ''Too many block chomping indicators specified.''
        else header_loop line (header\<lparr>chomp := KEEP\<rparr>)
      else if c = CHR ''0'' then emit_error ''An indentation level for a block scalar cannot be 0.''
      else if is_digit 10 c then
        if indent header > 0 then emit_error ''Invalid indentation level for a block scalar. It must be between 1 and 9.''
        else header_loop line (header\<lparr>indent := the (digit_val c)\<rparr>)
      else if blank c then header_loop line header
      else emit_error ''Invalid character found in a block scalar header.'')"

text \<open>The line up to a comment.\<close>

fun before_comment :: "string \<Rightarrow> string" where
  "before_comment (c # d # s) = (if c = CHR '' '' \<and> d = CHR ''#'' then [] else c # before_comment (d # s))"
| "before_comment s = s"

definition convert_to_block_scalar_header :: "string \<Rightarrow> yaml_error + block_scalar_header" where
  "convert_to_block_scalar_header line = header_loop (before_comment line) \<lparr>chomp = CLIP, indent = 0\<rparr>"

text \<open>The loop over the lines of a block scalar, from the line end at \<open>last_newline_pos\<close> on.\<close>

definition line_end_from :: "string \<Rightarrow> nat \<Rightarrow> nat" where
  "line_end_from sv p = (case find_from newline_char sv p of None \<Rightarrow> length sv | Some q \<Rightarrow> q)"

function block_end :: "string \<Rightarrow> nat \<Rightarrow> nat \<Rightarrow> nat" where
  "block_end sv ind last_newline_pos =
     (if last_newline_pos < length sv then
        let cur_line_end_pos = line_end_from sv (last_newline_pos + 1);
            content = last_newline_pos + 1 + length (takeWhile (\<lambda>c. c = CHR '' '') (drop (last_newline_pos + 1) sv))
        in if \<not> content < length sv then block_end sv ind cur_line_end_pos
           else if content - last_newline_pos - 1 < ind \<and> sv ! content \<noteq> newline_char then last_newline_pos
           else block_end sv ind cur_line_end_pos
      else last_newline_pos)"
  by pat_completeness auto

lemma line_end_from_bounds: "p < length sv \<Longrightarrow> p < line_end_from sv (p + 1)"
  using find_from_bounds [of newline_char sv "p + 1"] by (auto simp: line_end_from_def split: option.splits)

termination block_end
  by (relation "measure (\<lambda>(sv, _, p). length sv - p)") (use line_end_from_bounds in \<open>force intro: diff_less_mono2\<close>)+

declare block_end.simps [simp del]

text \<open>\<^verbatim>\<open>scan_block_style_string_token\<close>: the length of the token and the indentation, which is found out when it is 0.\<close>

definition scan_block_style_string_token :: "string \<Rightarrow> nat \<Rightarrow> yaml_error + nat \<times> nat" where
  "scan_block_style_string_token sv ind =
     (let first_non_space_pos = length (takeWhile (\<lambda>c. blank c \<or> c = newline_char) sv) in
      if first_non_space_pos = length sv then Inr (length sv, length sv)
      else
        let cur_indent = length (takeWhile (\<lambda>c. c \<noteq> newline_char) (rev (take first_non_space_pos sv))) in
        if ind \<noteq> 0 \<and> cur_indent < ind then emit_error ''A block style scalar is less indented than the indicated level.''
        else
          let ind = (if ind = 0 then cur_indent else ind);
              last_newline_pos = block_end sv ind (line_end_from sv (first_non_space_pos + 1))
          in Inr (if last_newline_pos < length sv then last_newline_pos + 1 else last_newline_pos, ind))"

definition scan_block_scalar :: "lexer \<Rightarrow> yaml_error + lexical_token \<times> lexer" where
  "scan_block_scalar l =
     (let sv = drop (m_token_begin_itr l) (m_input_buffer l);
          type = (if hd sv = CHR ''|'' then BLOCK_LITERAL_SCALAR else BLOCK_FOLDED_SCALAR)
      in case find_from newline_char sv 0 of
           None \<Rightarrow> Inl Undefined
         | Some header_end_pos \<Rightarrow>
             (case convert_to_block_scalar_header (take (header_end_pos - 1) (drop 1 sv)) of
                Inl e \<Rightarrow> Inl e
              | Inr header \<Rightarrow>
                  let l = l\<lparr>m_block_scalar_header := header, m_token_begin_itr := m_token_begin_itr l + (header_end_pos + 1)\<rparr>;
                      sv = drop (m_token_begin_itr l) (m_input_buffer l)
                  in (case scan_block_style_string_token sv (indent header) of
                        Inl e \<Rightarrow> Inl e
                      | Inr (len, ind) \<Rightarrow>
                          Inr (\<lparr>token_type = type, token_str = take len sv\<rparr>,
                            l\<lparr>m_block_scalar_header := header\<lparr>indent := ind\<rparr>, m_cur_itr := m_token_begin_itr l + len\<rparr>))))"

section \<open>Anchors, tags and directives\<close>

definition extract_anchor_name :: "lexer \<Rightarrow> string \<times> lexer" where
  "extract_anchor_name l =
     (let l = move 1 l; l = l\<lparr>m_token_begin_itr := m_cur_itr l\<rparr>;
          l = skip_while (\<lambda>c. \<not> (blank c \<or> c = newline_char \<or> c \<in> set ''{}[],'')) l
      in (token_text l, l))"

definition scan_anchor :: "lexical_token_t \<Rightarrow> lexer \<Rightarrow> yaml_error + lexical_token \<times> lexer" where
  "scan_anchor type l =
     (let (name, l) = extract_anchor_name l in
      if name = [] then emit_error ''anchor name must not be empty.'' else Inr (\<lparr>token_type = type, token_str = name\<rparr>, l))"

text \<open>The loop over the characters of a tag name; the result is their number and whether the tag has a named handle.\<close>

fun tag_loop :: "bool \<Rightarrow> bool \<Rightarrow> string \<Rightarrow> yaml_error + nat \<times> bool" where
  "tag_loop allows_another_tag_prefix is_named_handle [] = Inr (0, is_named_handle)"
| "tag_loop allows_another_tag_prefix is_named_handle (c # s) =
     (if blank c \<or> c = newline_char then Inr (0, is_named_handle)
      else if c = CHR ''!'' then
        if \<not> allows_another_tag_prefix then emit_error ''invalid tag prefix (!) is found.''
        else (case tag_loop False True s of Inl e \<Rightarrow> Inl e | Inr (n, b) \<Rightarrow> Inr (Suc n, b))
      else (case tag_loop allows_another_tag_prefix is_named_handle s of Inl e \<Rightarrow> Inl e | Inr (n, b) \<Rightarrow> Inr (Suc n, b)))"

text \<open>The checks of the text of a tag, and of a shorthand behind its last exclamation mark.\<close>

definition check_uri :: "string \<Rightarrow> string \<Rightarrow> yaml_error + unit" where
  "check_uri msg uri = (case uri_validate uri of None \<Rightarrow> Inl Undefined | Some True \<Rightarrow> Inr () | Some False \<Rightarrow> emit_error msg)"

definition check_tag :: "bool \<Rightarrow> bool \<Rightarrow> string \<Rightarrow> yaml_error + unit" where
  "check_tag is_verbatim is_named_handle str =
     (if is_verbatim then
        if last str \<noteq> CHR ''>'' then emit_error ''verbatim tag (!<TAG>) must be ended with '>'.''
        else
          let tag_body = take (length str - 3) (drop 2 str) in
          if tag_body = [] then emit_error ''verbatim tag(!<TAG>) must not be empty.''
          else check_uri ''invalid URI character is found in a verbatim tag.'' tag_body
      else if is_named_handle \<and> last str = CHR ''!'' then emit_error ''named handle has no suffix.''
      else
        let tag_uri = rev (takeWhile (\<lambda>c. c \<noteq> CHR ''!'') (rev str)) in
        (case check_uri ''Invalid URI character is found in a named tag handle.'' tag_uri of
           Inl e \<Rightarrow> Inl e
         | Inr _ \<Rightarrow>
             if list_ex (\<lambda>c. c \<in> set ''{}[],'') tag_uri
             then emit_error ''Tag shorthand cannot contain flow indicators({}[],).'' else Inr ()))"

definition read_tag :: "bool \<Rightarrow> bool \<Rightarrow> lexer \<Rightarrow> yaml_error + string \<times> lexer" where
  "read_tag is_verbatim allows_another_tag_prefix l =
     (if at_end l then Inl Undefined
      else
        let l = move 1 l in
        (case tag_loop allows_another_tag_prefix False (input_left l) of
           Inl e \<Rightarrow> Inl e
         | Inr (n, is_named_handle) \<Rightarrow>
             let l = move n l; str = token_text l in
             (case check_tag is_verbatim is_named_handle str of Inl e \<Rightarrow> Inl e | Inr _ \<Rightarrow> Inr (str, l))))"

definition extract_tag_name :: "lexer \<Rightarrow> yaml_error + string \<times> lexer" where
  "extract_tag_name l =
     (let l = move 1 l; c = char_at l (m_cur_itr l); is_verbatim = (c = CHR ''<'') in
      if at_end l \<or> c = CHR '' '' \<or> c = newline_char then Inr (token_text l, l)
      else read_tag is_verbatim (c \<noteq> CHR ''!'' \<and> \<not> is_verbatim) (if is_verbatim then move 1 l else l))"

text \<open>The characters of a named handle behind the first; the result is their number, with the closing exclamation mark.\<close>

fun handle_loop :: "string \<Rightarrow> yaml_error + nat" where
  "handle_loop [] = Inl Undefined"
| "handle_loop (c # s) =
     (if blank c then emit_error ''invalid tag handle is found.''
      else if c = CHR ''!'' then
        if s \<noteq> [] \<and> \<not> blank (hd s) then emit_error ''invalid tag handle is found.''
        else if s = [] then emit_error ''invalid TAG directive is found.''
        else Inr 1
      else if c \<noteq> CHR ''-'' \<and> \<not> alnum c then
        emit_error ''named handle can contain only numbers(0-9), alphabets(A-Z,a-z) and hyphens(-).''
      else if s = [] then emit_error ''invalid TAG directive is found.''
      else (case handle_loop s of Inl e \<Rightarrow> Inl e | Inr n \<Rightarrow> Inr (Suc n)))"

definition scan_tag_handle :: "lexer \<Rightarrow> yaml_error + lexer" where
  "scan_tag_handle l =
     (let l = l\<lparr>m_token_begin_itr := m_cur_itr l\<rparr> in
      if char_at l (m_cur_itr l) \<noteq> CHR ''!'' then emit_error ''Tag handle must start with '!'.''
      else
        let l = move 1 l; c = char_at l (m_cur_itr l) in
        if at_end l then emit_error ''invalid TAG directive is found.''
        else if blank c then Inr l
        else if c = CHR ''!'' then
          let l = move 1 l in
          if at_end l then emit_error ''invalid TAG directive is found.''
          else if \<not> blank (char_at l (m_cur_itr l)) then emit_error ''invalid tag handle is found.''
          else Inr l
        else (case handle_loop (input_left l) of Inl e \<Rightarrow> Inl e | Inr n \<Rightarrow> Inr (move n l)))"

definition scan_tag_directive :: "lexer \<Rightarrow> yaml_error + lexical_token_t \<times> lexer" where
  "scan_tag_directive l =
     (case scan_tag_handle l of
        Inl e \<Rightarrow> Inl e
      | Inr l \<Rightarrow>
          let l = skip_white_spaces (l\<lparr>m_tag_handle := token_text l\<rparr>); l = l\<lparr>m_token_begin_itr := m_cur_itr l\<rparr> in
          if char_at l (m_cur_itr l) \<in> set '',[]{}'' then emit_error ''tag prefix must not start with flow indicators (',', [], {}).''
          else if at_end l then Inl Undefined
          else
            let l = skip_while (\<lambda>c. \<not> (blank c \<or> c = newline_char)) l in
            (case check_uri ''invalid URI character is found in a tag prefix.'' (token_text l) of
               Inl e \<Rightarrow> Inl e
             | Inr _ \<Rightarrow> Inr (TAG_DIRECTIVE, l\<lparr>m_tag_prefix := token_text l\<rparr>)))"

definition scan_yaml_version_directive :: "lexer \<Rightarrow> yaml_error + lexical_token_t \<times> lexer" where
  "scan_yaml_version_directive l =
     (let l = l\<lparr>m_token_begin_itr := m_cur_itr l\<rparr>;
          l = skip_while (\<lambda>c. \<not> (blank c \<or> c = newline_char)) l;
          l = l\<lparr>m_yaml_version := token_text l\<rparr>
      in if m_yaml_version l \<noteq> ''1.1'' \<and> m_yaml_version l \<noteq> ''1.2''
         then emit_error ''Only 1.1 and 1.2 can be specified as the YAML version.''
         else Inr (YAML_VER_DIRECTIVE, l))"

definition scan_directive :: "lexer \<Rightarrow> yaml_error + lexical_token_t \<times> lexer" where
  "scan_directive l =
     (let l = move 1 l; l = l\<lparr>m_token_begin_itr := m_cur_itr l\<rparr>;
          l = skip_while (\<lambda>c. \<not> (blank c \<or> c = newline_char)) l;
          ends_loop = blank (char_at l (m_cur_itr l))
      in if \<not> at_end l \<and> \<not> ends_loop then Inr (INVALID_DIRECTIVE, skip_until_line_end l)
         else if token_text l = ''TAG'' then
           if \<not> ends_loop then emit_error ''There must be at least one white space between %TAG and tag info.''
           else scan_tag_directive (skip_white_spaces l)
         else if token_text l = ''YAML'' then
           if \<not> ends_loop then emit_error ''There must be at least one white space between %YAML and version.''
           else scan_yaml_version_directive (skip_white_spaces l)
         else Inr (INVALID_DIRECTIVE, skip_until_line_end l))"

section \<open>Tokens\<close>

definition indicator :: "lexical_token_t \<Rightarrow> nat \<Rightarrow> lexer \<Rightarrow> yaml_error + lexical_token \<times> lexer" where
  "indicator type n l = Inr (\<lparr>token_type = type, token_str = []\<rparr>, move n l)"

definition scan_plain :: "lexer \<Rightarrow> yaml_error + lexical_token \<times> lexer" where
  "scan_plain l =
     (let l = determine_plain_scalar_range l in
      if check_scalar_content (token_text l) then Inr (\<lparr>token_type = PLAIN_SCALAR, token_str = token_text l\<rparr>, l)
      else emit_error ''Control character must be escaped.'')"

text \<open>The switch of \<^verbatim>\<open>get_next_token\<close> over the first character of a token; a case that breaks out of it reads a plain scalar.\<close>

definition scan_token :: "lexer \<Rightarrow> yaml_error + lexical_token \<times> lexer" where
  "scan_token l =
     (let c = char_at l (m_cur_itr l); next = char_at l (m_cur_itr l + 1); s = input_left l in
      if c = CHR ''?'' then
        if length s = 1 then Inr (\<lparr>token_type = PLAIN_SCALAR, token_str = s\<rparr>, move 1 l)
        else if next = CHR '' '' then indicator EXPLICIT_KEY_PREFIX 1 l
        else scan_plain l
      else if c = CHR '':'' then
        if length s = 1 then indicator KEY_SEPARATOR 1 l
        else if next = CHR '' '' \<or> next = CHR 0x09 \<or> next = newline_char then indicator KEY_SEPARATOR 1 l
        else if next \<in> set '',[]{}'' \<and> in_flow l then indicator KEY_SEPARATOR 1 l
        else scan_plain l
      else if c = CHR '','' then indicator VALUE_SEPARATOR 1 l
      else if c = CHR ''&'' then scan_anchor ANCHOR_PREFIX l
      else if c = CHR ''*'' then scan_anchor ALIAS_PREFIX l
      else if c = CHR ''!'' then
        (case extract_tag_name l of Inl e \<Rightarrow> Inl e | Inr (str, l) \<Rightarrow> Inr (\<lparr>token_type = TAG_PREFIX, token_str = str\<rparr>, l))
      else if c = CHR ''%'' \<and> in_directives l then
        (case scan_directive l of Inl e \<Rightarrow> Inl e | Inr (type, l) \<Rightarrow> Inr (\<lparr>token_type = type, token_str = []\<rparr>, l))
      else if c = CHR ''-'' then
        if next = CHR '' '' \<or> next = CHR 0x09 \<or> next = newline_char then indicator SEQUENCE_BLOCK_PREFIX 2 l
        else if take 3 s = ''---'' then indicator END_OF_DIRECTIVES 3 l
        else scan_plain l
      else if c = CHR ''['' then indicator SEQUENCE_FLOW_BEGIN 1 l
      else if c = CHR '']'' then indicator SEQUENCE_FLOW_END 1 l
      else if c = CHR ''{'' then indicator MAPPING_FLOW_BEGIN 1 l
      else if c = CHR ''}'' then indicator MAPPING_FLOW_END 1 l
      else if c = CHR ''@'' then
        emit_error ''Any token cannot start with at(@). It is a reserved indicator for YAML.''
      else if c = CHR 0x60 then
        emit_error ''Any token cannot start with grave accent(`). It is a reserved indicator for YAML.''
      else if c = CHR 0x22 then determine_double_quoted_scalar_range l
      else if c = CHR 0x27 then determine_single_quoted_scalar_range l
      else if c = CHR ''.'' \<and> take 3 s = ''...'' then indicator END_OF_DOCUMENT 3 l
      else if c = CHR ''|'' \<or> c = CHR ''>'' then scan_block_scalar l
      else scan_plain l)"

text \<open>The beginning of \<^verbatim>\<open>get_next_token\<close>, and all of it: a comment is skipped and the next token read.\<close>

definition begin_token :: "lexer \<Rightarrow> lexer" where
  "begin_token l =
     (let l = skip_white_spaces_and_newline_codes l;
          t = update_position (m_input_buffer l) (m_cur_itr l) (m_pos_tracker l)
      in l\<lparr>m_token_begin_itr := m_cur_itr l, m_pos_tracker := t, m_last_token_begin_pos := m_cur_pos_in_line t,
           m_last_token_begin_line := m_lines_read t\<rparr>)"

lemma lexer_pos [simp]:
  "m_input_buffer (move n l) = m_input_buffer l" "m_cur_itr (move n l) = m_cur_itr l + n"
  "m_input_buffer (skip_while P l) = m_input_buffer l"
  "m_cur_itr (skip_while P l) = m_cur_itr l + length (takeWhile P (input_left l))"
  "m_input_buffer (begin_token l) = m_input_buffer l"
  "m_cur_itr (begin_token l) = m_cur_itr (skip_white_spaces_and_newline_codes l)"
  by (simp_all add: move_def skip_while_def begin_token_def skip_white_spaces_and_newline_codes_def Let_def)

lemma takeWhile_left: "length (takeWhile P (input_left l)) \<le> length (m_input_buffer l) - m_cur_itr l"
  using length_takeWhile_le [of P "input_left l"] by (simp add: input_left_def)

lemma skip_line_end_progress:
  assumes "m_cur_itr l < length (m_input_buffer l)"
  shows "m_cur_itr l < m_cur_itr (skip_until_line_end l)" "m_cur_itr (skip_until_line_end l) \<le> length (m_input_buffer l)"
    "m_input_buffer (skip_until_line_end l) = m_input_buffer l"
  using assms takeWhile_left [of "\<lambda>c. c \<noteq> newline_char" l]
  by (auto simp: skip_until_line_end_def Let_def at_end_def)

function get_next_token :: "lexer \<Rightarrow> yaml_error + lexical_token \<times> lexer" where
  "get_next_token l =
     (let l' = begin_token l in
      if \<not> m_cur_itr l' < length (m_input_buffer l') then Inr (\<lparr>token_type = END_OF_BUFFER, token_str = []\<rparr>, l')
      else if char_at l' (m_cur_itr l') = CHR ''#'' then get_next_token (skip_until_line_end l')
      else scan_token l')"
  by pat_completeness auto

termination get_next_token
proof (relation "measure (\<lambda>l. length (m_input_buffer l) - m_cur_itr l)", simp)
  fix l l'
  assume l': "l' = begin_token l" and n: "\<not> \<not> m_cur_itr l' < length (m_input_buffer l')"
  then have "m_cur_itr l \<le> m_cur_itr l'" by (simp add: skip_white_spaces_and_newline_codes_def)
  then show "(skip_until_line_end l', l) \<in> measure (\<lambda>l. length (m_input_buffer l) - m_cur_itr l)"
    using n l' skip_line_end_progress [of l'] by simp
qed

declare get_next_token.simps [simp del]

end
