(* ===== verification/Pw_YamlTokens.thy ===== *)
theory Pw_YamlTokens
  imports Pw_YamlLexer
begin

text \<open>
  What the lexical analyser of \<^verbatim>\<open>src/libs/fkyaml/node.hpp\<close> does: every token moves it on, so that it comes to the end of the
  input; the line and the column it gives for a token are those of the first character of the token; and a text that the
  library writes between double quotes is one token again.
\<close>

section \<open>Every token advances\<close>

definition advances :: "lexer \<Rightarrow> lexer \<Rightarrow> bool" where
  "advances l l' \<longleftrightarrow>
     m_cur_itr l < m_cur_itr l' \<and> m_cur_itr l' \<le> length (m_input_buffer l) \<and> m_input_buffer l' = m_input_buffer l \<and>
     m_pos_tracker l' = m_pos_tracker l \<and> m_last_token_begin_pos l' = m_last_token_begin_pos l \<and>
     m_last_token_begin_line l' = m_last_token_begin_line l \<and> m_state l' = m_state l"

lemma char_classes [simp]: "blank (CHR '' '')" "blank (CHR 0x09)" "\<not> blank newline_char"
  by (simp_all add: blank_def)

lemma lexer_rest [simp]:
  "m_pos_tracker (move n l) = m_pos_tracker l" "m_last_token_begin_pos (move n l) = m_last_token_begin_pos l"
  "m_last_token_begin_line (move n l) = m_last_token_begin_line l" "m_state (move n l) = m_state l"
  "m_token_begin_itr (move n l) = m_token_begin_itr l"
  "m_pos_tracker (skip_while P l) = m_pos_tracker l" "m_last_token_begin_pos (skip_while P l) = m_last_token_begin_pos l"
  "m_last_token_begin_line (skip_while P l) = m_last_token_begin_line l" "m_state (skip_while P l) = m_state l"
  "m_token_begin_itr (skip_while P l) = m_token_begin_itr l"
  by (simp_all add: move_def skip_while_def)

lemma char_at_upd [simp]: "char_at (l\<lparr>m_token_begin_itr := b\<rparr>) i = char_at l i" "char_at (move n l) i = char_at l i"
  by (simp_all add: char_at_def move_def)

lemma skip_while_bound: "m_cur_itr l \<le> length (m_input_buffer l) \<Longrightarrow> m_cur_itr (skip_while P l) \<le> length (m_input_buffer l)"
  using takeWhile_left [of P l] by simp

lemma advances_move: "0 < n \<Longrightarrow> m_cur_itr l + n \<le> length (m_input_buffer l) \<Longrightarrow> advances l (move n l)"
  by (simp add: advances_def)

lemma advances_skip: "advances l l' \<Longrightarrow> advances l (skip_while P l')"
  using skip_while_bound [of l' P] by (auto simp: advances_def simp del: lexer_pos(4)) (simp add: move_def)

lemma advances_more: "advances l l' \<Longrightarrow> m_cur_itr l' + n \<le> length (m_input_buffer l) \<Longrightarrow> advances l (move n l')"
  by (simp add: advances_def)

lemma advances_upd [simp]:
  "advances l (l'\<lparr>m_token_begin_itr := b\<rparr>) = advances l l'" "advances l (l'\<lparr>m_tag_handle := h\<rparr>) = advances l l'"
  "advances l (l'\<lparr>m_tag_prefix := h\<rparr>) = advances l l'" "advances l (l'\<lparr>m_yaml_version := h\<rparr>) = advances l l'"
  "advances l (l'\<lparr>m_block_scalar_header := bh\<rparr>) = advances l l'"
  by (simp_all add: advances_def)

lemma advances_line_end:
  assumes "advances l l'"
  shows "advances l (skip_until_line_end l')"
proof -
  let ?m = "skip_while (\<lambda>c. c \<noteq> newline_char) l'"
  have a: "advances l ?m" by (rule advances_skip [OF assms])
  show ?thesis
  proof (cases "at_end ?m")
    case True
    then show ?thesis using a by (simp add: skip_until_line_end_def)
  next
    case False
    then have "m_cur_itr ?m + 1 \<le> length (m_input_buffer l)" using a by (simp add: at_end_def advances_def)
    then show ?thesis using False advances_more [OF a] by (simp add: skip_until_line_end_def)
  qed
qed

lemma input_left_length: "m_cur_itr l + length (input_left l) = max (m_cur_itr l) (length (m_input_buffer l))"
  by (simp add: input_left_def max_def)

lemma scan_anchor_advances:
  assumes "m_cur_itr l < length (m_input_buffer l)" "scan_anchor type l = Inr (t, l')"
  shows "advances l l'"
proof -
  have "advances l (move 1 l)" using assms(1) by (simp add: advances_move)
  from advances_skip [of l "(move 1 l)\<lparr>m_token_begin_itr := m_cur_itr (move 1 l)\<rparr>"] this show ?thesis
    using assms(2) by (auto simp: scan_anchor_def extract_anchor_name_def Let_def emit_error_def split: if_splits)
qed

lemma tag_loop_bound: "tag_loop a b s = Inr (n, d) \<Longrightarrow> n \<le> length s"
  by (induction a b s arbitrary: n d rule: tag_loop.induct)
    (auto simp: emit_error_def split: if_splits sum.splits prod.splits)

lemma read_tag_advances:
  assumes "advances l k" "read_tag v a k = Inr (t, l')"
  shows "advances l l'"
proof -
  from assms(2) have e: "\<not> at_end k" by (simp add: read_tag_def split: if_splits)
  then have c: "advances l (move 1 k)" using assms(1) advances_more [of l k 1] by (simp add: at_end_def advances_def)
  from e assms(2) obtain n d where n: "tag_loop a False (input_left (move 1 k)) = Inr (n, d)" and l': "l' = move n (move 1 k)"
    by (auto simp: read_tag_def Let_def split: sum.splits)
  from tag_loop_bound [OF n] c have "m_cur_itr (move 1 k) + n \<le> length (m_input_buffer l)"
    by (auto simp: input_left_def advances_def)
  then show ?thesis unfolding l' by (rule advances_more [OF c])
qed

lemma extract_tag_name_advances:
  assumes "m_cur_itr l < length (m_input_buffer l)" "extract_tag_name l = Inr (t, l')"
  shows "advances l l'"
proof -
  have a: "advances l (move 1 l)" using assms(1) by (simp add: advances_move)
  show ?thesis
  proof (cases "at_end (move 1 l)")
    case True
    then show ?thesis using a assms(2) by (auto simp: extract_tag_name_def Let_def)
  next
    case False
    then have b: "advances l (move 1 (move 1 l))"
      using a advances_more [of l "move 1 l" 1] by (simp add: at_end_def advances_def)
    from assms(2) False a show ?thesis
      by (auto simp: extract_tag_name_def Let_def split: if_splits intro: read_tag_advances [OF a] read_tag_advances [OF b])
  qed
qed

lemma handle_loop_bound: "handle_loop s = Inr n \<Longrightarrow> n \<le> length s"
  by (induction s arbitrary: n rule: handle_loop.induct) (auto simp: emit_error_def split: if_splits sum.splits)

lemma scan_tag_handle_advances:
  assumes "advances l k" "scan_tag_handle k = Inr l'"
  shows "advances l l'"
proof -
  let ?k = "k\<lparr>m_token_begin_itr := m_cur_itr k\<rparr>"
  have b: "m_input_buffer k = m_input_buffer l" using assms(1) by (simp add: advances_def)
  have lt: "m_cur_itr k < length (m_input_buffer l)"
  proof -
    have "char_at k (m_cur_itr k) = CHR ''!''" using assms(2) by (simp add: scan_tag_handle_def Let_def emit_error_def split: if_splits)
    then show ?thesis using b by (simp add: char_at_def split: if_splits)
  qed
  have c: "advances l (move 1 ?k)" using assms(1) lt by (intro advances_more) simp_all
  have d: "advances l (move 1 (move 1 ?k))" if "\<not> at_end (move 1 ?k)"
    using that lt b by (intro advances_more [OF c]) (simp add: at_end_def)
  have e: "advances l (move n (move 1 ?k))" if "handle_loop (input_left (move 1 ?k)) = Inr n" for n
    using handle_loop_bound [OF that] lt b by (intro advances_more [OF c]) (simp add: input_left_def)
  from assms(2) c d e show ?thesis
    by (auto simp: scan_tag_handle_def Let_def emit_error_def split: if_splits sum.splits)
qed

lemma scan_tag_directive_advances:
  assumes "advances l k" "scan_tag_directive k = Inr (t, l')"
  shows "advances l l'"
proof -
  from assms(2) obtain h where h: "scan_tag_handle k = Inr h" by (auto simp: scan_tag_directive_def split: sum.splits)
  let ?h = "skip_white_spaces (h\<lparr>m_tag_handle := token_text h\<rparr>)"
  have "advances l ?h" using scan_tag_handle_advances [OF assms(1) h] by (simp add: skip_white_spaces_def advances_skip)
  then have "advances l (skip_while P (?h\<lparr>m_token_begin_itr := m_cur_itr ?h\<rparr>))" for P by (simp add: advances_skip)
  then show ?thesis using assms(2) h
    by (auto simp: scan_tag_directive_def Let_def emit_error_def check_uri_def split: if_splits sum.splits option.splits bool.splits)
qed

lemma scan_yaml_version_directive_advances:
  assumes "advances l k" "scan_yaml_version_directive k = Inr (t, l')"
  shows "advances l l'"
proof -
  have "advances l (skip_while P (k\<lparr>m_token_begin_itr := m_cur_itr k\<rparr>))" for P using assms(1) by (simp add: advances_skip)
  then show ?thesis using assms(2)
    by (auto simp: scan_yaml_version_directive_def Let_def emit_error_def split: if_splits)
qed

lemma scan_directive_advances:
  assumes "m_cur_itr l < length (m_input_buffer l)" "scan_directive l = Inr (t, l')"
  shows "advances l l'"
proof -
  let ?m = "(move 1 l)\<lparr>m_token_begin_itr := m_cur_itr (move 1 l)\<rparr>"
  let ?k = "skip_while (\<lambda>c. \<not> (blank c \<or> c = newline_char)) ?m"
  have a: "advances l ?k" using assms(1) by (simp add: advances_skip advances_move)
  then have e: "advances l (skip_until_line_end ?k)" by (rule advances_line_end)
  have b: "advances l (skip_white_spaces ?k)" using a by (simp add: skip_white_spaces_def advances_skip)
  have "l' = skip_until_line_end ?k \<or> scan_tag_directive (skip_white_spaces ?k) = Inr (t, l') \<or>
      scan_yaml_version_directive (skip_white_spaces ?k) = Inr (t, l')"
    using assms(2) by (simp add: scan_directive_def Let_def emit_error_def split: if_splits)
  then show ?thesis
    using e scan_tag_directive_advances [OF b] scan_yaml_version_directive_advances [OF b] by blast
qed

lemma single_quote_end_bound: "single_quote_end s = Some p \<Longrightarrow> p < length s"
  by (induction s arbitrary: p rule: single_quote_end.induct) (force split: if_splits list.splits)+

lemma double_quote_end_bound: "double_quote_end s p = Some q \<Longrightarrow> q < length s"
proof (induction s p arbitrary: q rule: double_quote_end.induct)
  case (1 s p)
  show ?case
  proof (cases "find_from (CHR 0x22) s p")
    case None
    then show ?thesis using "1.prems" by (simp add: double_quote_end.simps [of s p])
  next
    case (Some r)
    then show ?thesis using "1.prems" "1.IH" [OF Some] find_from_bounds [OF Some]
      by (cases "double_quote_closed s r") (simp_all add: double_quote_end.simps [of s p])
  qed
qed

lemma quoted_scalar_advances:
  assumes "m_cur_itr l < length (m_input_buffer l)" "m_token_begin_itr l = m_cur_itr l" "quoted_scalar type closing msg l = Inr (t, l')"
    and c: "\<And>s p. closing s = Some p \<Longrightarrow> p < length s"
  shows "advances l l'"
proof -
  from assms(2,3) obtain p where p: "closing (drop (m_cur_itr l + 1) (m_input_buffer l)) = Some p"
    and l': "l' = l\<lparr>m_token_begin_itr := m_cur_itr l + 1, m_cur_itr := m_cur_itr l + 1 + (p + 1)\<rparr>"
    by (auto simp: quoted_scalar_def Let_def emit_error_def split: option.splits if_splits)
  then show ?thesis using assms(1) c [OF p] by (simp add: advances_def)
qed

lemma block_end_bound: "p \<le> length sv \<Longrightarrow> block_end sv ind p \<le> length sv"
proof (induction sv ind p rule: block_end.induct)
  case (1 sv ind p)
  have e: "line_end_from sv q \<le> length sv" for q
    using find_from_bounds [of newline_char sv q] by (auto simp: line_end_from_def split: option.splits)
  show ?case
    using "1.prems" "1.IH"(1) [OF _ refl refl _ e] "1.IH"(2) [OF _ refl refl _ _ e]
    by (subst block_end.simps) (simp add: Let_def)
qed

lemma scan_block_bound:
  assumes "scan_block_style_string_token sv ind = Inr (n, i)"
  shows "n \<le> length sv"
proof -
  let ?f = "length (takeWhile (\<lambda>c. blank c \<or> c = newline_char) sv)"
  let ?e = "line_end_from sv (?f + 1)"
  have "?e \<le> length sv"
    using find_from_bounds [of newline_char sv "?f + 1"] by (auto simp: line_end_from_def split: option.splits)
  from block_end_bound [OF this] assms show ?thesis
    by (auto simp: scan_block_style_string_token_def Let_def emit_error_def le_less_trans split: if_splits)
qed

lemma scan_block_scalar_advances:
  assumes "m_cur_itr l < length (m_input_buffer l)" "m_token_begin_itr l = m_cur_itr l" "scan_block_scalar l = Inr (t, l')"
  shows "advances l l'"
proof -
  let ?sv = "drop (m_cur_itr l) (m_input_buffer l)"
  from assms(2,3) obtain h header len ind where h: "find_from newline_char ?sv 0 = Some h"
    and len: "scan_block_style_string_token (drop (m_cur_itr l + (h + 1)) (m_input_buffer l)) (indent header) = Inr (len, ind)"
    and l': "l' = l\<lparr>m_token_begin_itr := m_cur_itr l + (h + 1), m_block_scalar_header := header\<lparr>indent := ind\<rparr>,
      m_cur_itr := m_cur_itr l + (h + 1) + len\<rparr>"
    by (auto simp: scan_block_scalar_def Let_def split: option.splits sum.splits prod.splits)
  have "m_cur_itr l + (h + 1) + len \<le> length (m_input_buffer l)"
    using find_from_bounds [OF h] scan_block_bound [OF len] by simp
  then show ?thesis by (simp add: l' advances_def)
qed

text \<open>The first character of a plain scalar never ends it.\<close>

lemma scan_plain_advances:
  assumes "m_cur_itr l < length (m_input_buffer l)" "m_token_begin_itr l = m_cur_itr l"
    "\<not> plain_ends (in_flow l) (char_at l (m_cur_itr l)) (drop (m_cur_itr l + 1) (m_input_buffer l))"
    "scan_plain l = Inr (t, l')"
  shows "advances l l'"
proof -
  have le: "plain_length f s \<le> length s" for f s by (induction s) auto
  have d: "drop (m_cur_itr l) (m_input_buffer l) = char_at l (m_cur_itr l) # drop (m_cur_itr l + 1) (m_input_buffer l)"
    using assms(1) by (simp add: char_at_def Cons_nth_drop_Suc)
  have "0 < plain_length (in_flow l) (drop (m_cur_itr l) (m_input_buffer l))" using assms(3) by (simp add: d)
  then show ?thesis
    using assms(1,2,4) le [of "in_flow l" "drop (m_cur_itr l) (m_input_buffer l)"]
    by (auto simp: scan_plain_def determine_plain_scalar_range_def advances_def emit_error_def Let_def split: if_splits)
qed

lemma plain_start:
  assumes "m_cur_itr l < length (m_input_buffer l)" "\<not> blank (char_at l (m_cur_itr l))" "char_at l (m_cur_itr l) \<noteq> newline_char"
    "char_at l (m_cur_itr l) \<notin> set ''{}[],''"
    "char_at l (m_cur_itr l) = CHR '':'' \<Longrightarrow>
       char_at l (m_cur_itr l + 1) \<notin> {CHR '' '', CHR 0x09, newline_char}"
  shows "\<not> plain_ends (in_flow l) (char_at l (m_cur_itr l)) (drop (m_cur_itr l + 1) (m_input_buffer l))"
proof -
  have hd: "hd (drop (m_cur_itr l + 1) (m_input_buffer l)) = char_at l (m_cur_itr l + 1)"
    if "drop (m_cur_itr l + 1) (m_input_buffer l) \<noteq> []"
    using that by (simp add: char_at_def hd_drop_conv_nth)
  show ?thesis
    using assms(2-5) hd by (auto simp: plain_ends_def blank_def)
qed

lemma scan_token_advances:
  assumes lt: "m_cur_itr l < length (m_input_buffer l)" and b: "m_token_begin_itr l = m_cur_itr l"
    and nb: "\<not> blank (char_at l (m_cur_itr l))" "char_at l (m_cur_itr l) \<noteq> newline_char"
    and s: "scan_token l = Inr (t, l')"
  shows "advances l l'"
proof -
  note p = scan_plain_advances [OF lt b plain_start [OF lt nb]]
  have n: "m_cur_itr l + 2 \<le> length (m_input_buffer l)"
    if "char_at l (m_cur_itr l + 1) = CHR '' '' \<or> char_at l (m_cur_itr l + 1) = CHR 0x09 \<or> char_at l (m_cur_itr l + 1) = newline_char"
    using that lt by (auto simp: char_at_def split: if_splits)
  have m: "m_cur_itr l + 3 \<le> length (m_input_buffer l)" if "take 3 (input_left l) = [a, b, c]" for a b c
  proof -
    have "length (take 3 (input_left l)) = 3" using that by simp
    then show ?thesis by (simp add: input_left_def)
  qed
  have i: "advances l l'" if "indicator type k l = Inr (t, l')" "0 < k" "m_cur_itr l + k \<le> length (m_input_buffer l)" for type k
    using that advances_move [of k l] by (auto simp: indicator_def)
  have one: "advances l (move (Suc 0) l)" using lt by (intro advances_move) simp_all
  have i2: "advances l l'" if "indicator type 2 l = Inr (t, l')"
    "char_at l (Suc (m_cur_itr l)) = CHR '' '' \<or> char_at l (Suc (m_cur_itr l)) = CHR 0x09 \<or> char_at l (Suc (m_cur_itr l)) = newline_char"
    for type
    using that n by (intro i [of type 2]) simp_all
  have q: "advances l l'" if "quoted_scalar type closing msg l = Inr (t, l')" "\<And>s p. closing s = Some p \<Longrightarrow> p < length s"
    for type closing msg
    using quoted_scalar_advances [OF lt b that] .
  have dq: "advances l l'" if "determine_double_quoted_scalar_range l = Inr (t, l')"
    using that double_quote_end_bound unfolding determine_double_quoted_scalar_range_def by (rule q)
  have sq: "advances l l'" if "determine_single_quoted_scalar_range l = Inr (t, l')"
    using that single_quote_end_bound unfolding determine_single_quoted_scalar_range_def by (rule q)
  show ?thesis
    using s lt
    by (auto simp: scan_token_def Let_def emit_error_def split: if_splits sum.splits prod.splits
        intro: one i2 i p dq sq scan_block_scalar_advances [OF lt b] scan_anchor_advances [OF lt] dest: m
        dest!: extract_tag_name_advances [OF lt] scan_directive_advances [OF lt])
qed

section \<open>Positions are exact\<close>

text \<open>The column and the line of a position: the characters behind the last line end before it, and the line ends before it.\<close>

definition column_of :: "string \<Rightarrow> nat \<Rightarrow> nat" where
  "column_of buffer p = length (takeWhile (\<lambda>c. c \<noteq> newline_char) (rev (take p buffer)))"

definition line_of :: "string \<Rightarrow> nat \<Rightarrow> nat" where
  "line_of buffer p = length (filter (\<lambda>c. c = newline_char) (take p buffer))"

definition tracked :: "string \<Rightarrow> position_tracker \<Rightarrow> bool" where
  "tracked buffer t \<longleftrightarrow> m_last t \<le> length buffer \<and> m_cur_pos t = m_last t \<and>
     m_cur_pos_in_line t = column_of buffer (m_last t) \<and> m_lines_read t = line_of buffer (m_last t)"

lemma column_of_Suc: "p < length buffer \<Longrightarrow> column_of buffer (Suc p) = (if buffer ! p = newline_char then 0 else Suc (column_of buffer p))"
  by (simp add: column_of_def take_Suc_conv_app_nth)

lemma count_back_column:
  "p \<le> length buffer \<Longrightarrow> newline_char \<in> set (take p buffer) \<Longrightarrow> count_back buffer p = column_of buffer p"
proof (induction p)
  case 0
  then show ?case by simp
next
  case (Suc p)
  show ?case
  proof (cases "buffer ! p = newline_char")
    case True
    then show ?thesis using Suc.prems by (cases p) (simp_all add: column_of_Suc Suc_le_eq)
  next
    case False
    then have "newline_char \<in> set (take p buffer)" using Suc.prems by (simp add: take_Suc_conv_app_nth)
    then show ?thesis using Suc False by (cases "p = 0") (simp_all add: column_of_Suc)
  qed
qed

lemma column_of_append:
  assumes "newline_char \<notin> set (take d (drop p buffer))" "p + d \<le> length buffer"
  shows "column_of buffer (p + d) = column_of buffer p + d"
proof -
  let ?w = "rev (take d (drop p buffer))"
  have "rev (take (p + d) buffer) = ?w @ rev (take p buffer)" by (simp add: take_add)
  moreover have "length ?w = d" using assms(2) by simp
  moreover have "takeWhile (\<lambda>c. c \<noteq> newline_char) (?w @ r) = ?w @ takeWhile (\<lambda>c. c \<noteq> newline_char) r" for r
    using assms(1) by (intro takeWhile_append2) auto
  ultimately show ?thesis by (simp only: column_of_def length_append)
qed

lemma update_position_tracked:
  assumes t: "tracked buffer t" and p: "m_last t \<le> p" "p \<le> length buffer"
  shows "tracked buffer (update_position buffer p t) \<and> m_last (update_position buffer p t) = p"
proof (cases "p = m_last t")
  case True
  then show ?thesis using t by (simp add: update_position_def)
next
  case False
  let ?d = "p - m_last t"
  let ?n = "length (filter (\<lambda>c. c = newline_char) (take ?d (drop (m_last t) buffer)))"
  have "take p buffer = take (m_last t) buffer @ take ?d (drop (m_last t) buffer)"
    using p(1) by (metis le_add_diff_inverse take_add)
  then have l: "line_of buffer p = line_of buffer (m_last t) + ?n" and sub: "set (take ?d (drop (m_last t) buffer)) \<subseteq> set (take p buffer)"
    by (simp_all add: line_of_def)
  have c: "column_of buffer p = (if ?n = 0 then column_of buffer (m_last t) + ?d else count_back buffer p)"
  proof (cases "?n = 0")
    case True
    then have "newline_char \<notin> set (take ?d (drop (m_last t) buffer))" by (auto simp: filter_empty_conv)
    from column_of_append [OF this] True p show ?thesis by simp
  next
    case False
    then have "newline_char \<in> set (take ?d (drop (m_last t) buffer))" by (auto simp: filter_empty_conv)
    then show ?thesis using count_back_column [OF p(2)] sub False by auto
  qed
  show ?thesis
    using False t p l c by (simp add: update_position_def Let_def tracked_def)
qed

text \<open>The characters that are passed over before a token: white space, line ends and comments with their line end.\<close>

function gap_length :: "string \<Rightarrow> nat" where
  "gap_length s =
     (let n = length (takeWhile (\<lambda>c. blank c \<or> c = newline_char) s) in
      case drop n s of
        [] \<Rightarrow> n
      | c # r \<Rightarrow>
          if c = CHR ''#'' then
            let m = length (takeWhile (\<lambda>c. c \<noteq> newline_char) (c # r)) in
            if n + m < length s then n + m + 1 + gap_length (drop (n + m + 1) s) else n + m
          else n)"
  by pat_completeness auto
termination by (relation "measure length") auto
declare gap_length.simps [simp del]

definition lexer_ok :: "lexer \<Rightarrow> bool" where
  "lexer_ok l \<longleftrightarrow> tracked (m_input_buffer l) (m_pos_tracker l) \<and> m_last (m_pos_tracker l) \<le> m_cur_itr l \<and>
     m_cur_itr l \<le> length (m_input_buffer l)"

lemma lexer_new_ok: "lexer_ok (lexer_new buffer)"
  by (simp add: lexer_ok_def lexer_new_def tracker_new_def tracked_def column_of_def line_of_def)

lemma begin_token_ok:
  assumes "lexer_ok l"
  defines "p \<equiv> m_cur_itr l + length (takeWhile (\<lambda>c. blank c \<or> c = newline_char) (input_left l))"
  shows "lexer_ok (begin_token l)" "m_cur_itr (begin_token l) = p" "m_token_begin_itr (begin_token l) = p"
    "m_last_token_begin_pos (begin_token l) = column_of (m_input_buffer l) p"
    "m_last_token_begin_line (begin_token l) = line_of (m_input_buffer l) p"
    "m_state (begin_token l) = m_state l" "m_last (m_pos_tracker (begin_token l)) = p"
proof -
  let ?l = "skip_white_spaces_and_newline_codes l"
  have s: "m_input_buffer ?l = m_input_buffer l" "m_pos_tracker ?l = m_pos_tracker l" "m_cur_itr ?l = p" "m_state ?l = m_state l"
    by (simp_all add: skip_white_spaces_and_newline_codes_def p_def)
  have p: "m_last (m_pos_tracker l) \<le> p" "p \<le> length (m_input_buffer l)"
    using assms(1) takeWhile_left [of "\<lambda>c. blank c \<or> c = newline_char" l] by (auto simp: lexer_ok_def p_def)
  have u: "tracked (m_input_buffer l) (update_position (m_input_buffer l) p (m_pos_tracker l))"
    "m_last (update_position (m_input_buffer l) p (m_pos_tracker l)) = p"
    using update_position_tracked [OF _ p] assms(1) by (auto simp: lexer_ok_def)
  show "lexer_ok (begin_token l)" "m_cur_itr (begin_token l) = p" "m_token_begin_itr (begin_token l) = p"
    "m_last_token_begin_pos (begin_token l) = column_of (m_input_buffer l) p"
    "m_last_token_begin_line (begin_token l) = line_of (m_input_buffer l) p"
    "m_state (begin_token l) = m_state l" "m_last (m_pos_tracker (begin_token l)) = p"
    using u p by (simp_all add: begin_token_def Let_def s lexer_ok_def) (simp_all add: tracked_def)
qed

declare lexer_pos(6) [simp del]

lemma first_after_skip:
  assumes "m_cur_itr (begin_token l) < length (m_input_buffer l)" "lexer_ok l"
  shows "\<not> blank (char_at (begin_token l) (m_cur_itr (begin_token l)))" "char_at (begin_token l) (m_cur_itr (begin_token l)) \<noteq> newline_char"
proof -
  let ?n = "length (takeWhile (\<lambda>c. blank c \<or> c = newline_char) (input_left l))"
  have "?n < length (input_left l)" using assms begin_token_ok(2) [OF assms(2)] by (simp add: input_left_def)
  from nth_length_takeWhile [OF this]
  have "\<not> (blank (input_left l ! ?n) \<or> input_left l ! ?n = newline_char)" .
  moreover have "input_left l ! ?n = char_at (begin_token l) (m_cur_itr (begin_token l))"
    using assms begin_token_ok(2) [OF assms(2)] by (simp add: char_at_def input_left_def)
  ultimately show "\<not> blank (char_at (begin_token l) (m_cur_itr (begin_token l)))"
    "char_at (begin_token l) (m_cur_itr (begin_token l)) \<noteq> newline_char" by simp_all
qed

lemma skip_line_end_ok: "lexer_ok l \<Longrightarrow> m_cur_itr l < length (m_input_buffer l) \<Longrightarrow> lexer_ok (skip_until_line_end l)"
  using skip_line_end_progress [of l] by (auto simp: lexer_ok_def skip_until_line_end_def Let_def)

lemma advances_ok: "lexer_ok l \<Longrightarrow> advances l l' \<Longrightarrow> lexer_ok l'"
  by (auto simp: lexer_ok_def advances_def)

lemma gap_length_step:
  assumes s: "s = input_left l" and n: "n = length (takeWhile (\<lambda>c. blank c \<or> c = newline_char) s)"
  shows "n = length s \<Longrightarrow> gap_length s = n" "n < length s \<Longrightarrow> s ! n \<noteq> CHR ''#'' \<Longrightarrow> gap_length s = n"
    "n < length s \<Longrightarrow> s ! n = CHR ''#'' \<Longrightarrow>
       gap_length s =
         (let m = length (takeWhile (\<lambda>c. c \<noteq> newline_char) (drop n s)); k = (if n + m < length s then n + m + 1 else n + m)
          in k + gap_length (drop k s))"
proof -
  have z: "gap_length [] = 0" by (subst gap_length.simps) simp
  show "gap_length s = n" if "n = length s"
    using that by (subst gap_length.simps) (simp add: n [symmetric])
  have d: "drop n s = s ! n # drop (Suc n) s" if "n < length s" using that by (simp add: Cons_nth_drop_Suc)
  show "gap_length s = n" if "n < length s" "s ! n \<noteq> CHR ''#''"
    using that d by (subst gap_length.simps) (simp add: n [symmetric] Let_def)
  show "gap_length s = (let m = length (takeWhile (\<lambda>c. c \<noteq> newline_char) (drop n s));
      k = (if n + m < length s then n + m + 1 else n + m) in k + gap_length (drop k s))" if "n < length s" "s ! n = CHR ''#''"
  proof -
    have "length (takeWhile (\<lambda>c. c \<noteq> newline_char) (drop n s)) \<le> length s - n"
      using length_takeWhile_le [of "\<lambda>c. c \<noteq> newline_char" "drop n s"] by simp
    then show ?thesis
      using that d by (subst gap_length.simps) (auto simp: n [symmetric] Let_def z)
  qed
qed

lemma scan_token_type: "scan_token l = Inr (t, l') \<Longrightarrow> token_type t \<noteq> END_OF_BUFFER"
  by (auto simp: scan_token_def Let_def emit_error_def indicator_def scan_anchor_def scan_plain_def scan_directive_def
      scan_tag_directive_def scan_yaml_version_directive_def scan_block_scalar_def quoted_scalar_def
      determine_single_quoted_scalar_range_def determine_double_quoted_scalar_range_def
      split: if_splits sum.splits prod.splits option.splits)

lemma next_token:
  assumes "lexer_ok l" "get_next_token l = Inr (t, l')"
  defines "p \<equiv> m_cur_itr l + gap_length (input_left l)"
  shows "lexer_ok l' \<and> m_input_buffer l' = m_input_buffer l \<and> m_state l' = m_state l \<and> p \<le> length (m_input_buffer l) \<and>
    m_last_token_begin_pos l' = column_of (m_input_buffer l) p \<and> m_last_token_begin_line l' = line_of (m_input_buffer l) p \<and>
    (if p = length (m_input_buffer l) then token_type t = END_OF_BUFFER \<and> m_cur_itr l' = p
     else token_type t \<noteq> END_OF_BUFFER \<and> p < m_cur_itr l')"
  using assms(1,2) unfolding p_def
proof (induction l rule: get_next_token.induct)
  case (1 l)
  let ?b = "begin_token l"
  let ?n = "length (takeWhile (\<lambda>c. blank c \<or> c = newline_char) (input_left l))"
  note b = begin_token_ok [OF "1.prems"(1)]
  note g = gap_length_step [OF refl refl, of l]
  have len: "length (input_left l) = length (m_input_buffer l) - m_cur_itr l" "m_cur_itr l \<le> length (m_input_buffer l)"
    using "1.prems"(1) by (simp_all add: input_left_def lexer_ok_def)
  have left: "input_left ?b = drop ?n (input_left l)" using b(2) by (simp add: input_left_def add.commute)
  show ?case
  proof (cases "m_cur_itr ?b < length (m_input_buffer l)")
    case False
    then have "?n = length (input_left l)" using b(2) len length_takeWhile_le [of _ "input_left l"] by (simp add: le_antisym)
    then show ?thesis using "1.prems"(2) False b g(1) len lexer_pos(5) [of l] by (auto simp: get_next_token.simps [of l])
  next
    case True
    then have n: "?n < length (input_left l)" using b(2) len by simp
    have c: "char_at ?b (m_cur_itr ?b) = input_left l ! ?n" using True b(2) len by (simp add: char_at_def input_left_def)
    show ?thesis
    proof (cases "input_left l ! ?n = CHR ''#''")
      case False
      then have "scan_token ?b = Inr (t, l')" using "1.prems"(2) True c by (simp add: get_next_token.simps [of l])
      from scan_token_advances [OF _ _ first_after_skip this] scan_token_type [OF this] True b "1.prems"(1)
      have a: "advances ?b l'" "token_type t \<noteq> END_OF_BUFFER" by simp_all
      show ?thesis using a advances_ok [OF b(1) a(1)] b True g(2) [OF n False] by (simp add: advances_def)
    next
      case comment: True
      let ?k = "skip_until_line_end ?b"
      have e: "get_next_token ?k = Inr (t, l')" using "1.prems"(2) True c comment by (simp add: get_next_token.simps [of l])
      have ok: "lexer_ok ?k" using skip_line_end_ok [OF b(1)] True by simp
      have ih: "\<not> \<not> m_cur_itr ?b < length (m_input_buffer ?b)" "char_at ?b (m_cur_itr ?b) = CHR ''#''" using True c comment by simp_all
      let ?m = "length (takeWhile (\<lambda>c. c \<noteq> newline_char) (drop ?n (input_left l)))"
      let ?j = "if ?n + ?m < length (input_left l) then ?n + ?m + 1 else ?n + ?m"
      have k: "m_cur_itr ?k = m_cur_itr l + ?j" "m_input_buffer ?k = m_input_buffer l" "m_state ?k = m_state l"
        using b(2,6) len left n takeWhile_left [of "\<lambda>c. c \<noteq> newline_char" ?b]
        by (auto simp: skip_until_line_end_def at_end_def Let_def)
      have "gap_length (input_left l) = ?j + gap_length (drop ?j (input_left l))" using g(3) [OF n comment] by (simp only: Let_def)
      moreover have "input_left ?k = drop ?j (input_left l)" by (simp add: input_left_def k add.commute)
      ultimately have p: "m_cur_itr ?k + gap_length (input_left ?k) = m_cur_itr l + gap_length (input_left l)" by (simp add: k(1))
      show ?thesis using "1.IH" [OF refl ih ok e] unfolding p k(2,3) .
    qed
  qed
qed

text \<open>The states that a client reaches, with the number of tokens it has read; it may change the context in between.\<close>

inductive lexer_run :: "string \<Rightarrow> nat \<Rightarrow> lexer \<Rightarrow> bool" for buffer where
  start: "lexer_run buffer 0 (lexer_new buffer)"
| context_state: "lexer_run buffer n l \<Longrightarrow> lexer_run buffer n (set_context_state b l)"
| document_state: "lexer_run buffer n l \<Longrightarrow> lexer_run buffer n (set_document_state b l)"
| token: "lexer_run buffer n l \<Longrightarrow> get_next_token l = Inr (t, l') \<Longrightarrow> token_type t \<noteq> END_OF_BUFFER \<Longrightarrow> lexer_run buffer (Suc n) l'"
| end_of_buffer: "lexer_run buffer n l \<Longrightarrow> get_next_token l = Inr (t, l') \<Longrightarrow> token_type t = END_OF_BUFFER \<Longrightarrow> lexer_run buffer n l'"

lemma set_state_ok [simp]:
  "lexer_ok (set_context_state b l) = lexer_ok l" "m_input_buffer (set_context_state b l) = m_input_buffer l"
  "m_cur_itr (set_context_state b l) = m_cur_itr l" "input_left (set_context_state b l) = input_left l"
  "lexer_ok (set_document_state b l) = lexer_ok l" "m_input_buffer (set_document_state b l) = m_input_buffer l"
  "m_cur_itr (set_document_state b l) = m_cur_itr l" "input_left (set_document_state b l) = input_left l"
  by (simp_all add: set_context_state_def set_document_state_def lexer_ok_def input_left_def Let_def)

lemma lexer_run_ok: "lexer_run buffer n l \<Longrightarrow> lexer_ok l \<and> m_input_buffer l = buffer \<and> n \<le> m_cur_itr l"
proof (induction rule: lexer_run.induct)
  case start
  then show ?case using lexer_new_ok by (simp add: lexer_new_def)
next
  case (token n l t l')
  from next_token [OF _ token.hyps(2)] token.IH token.hyps(3) show ?case by (auto split: if_splits)
next
  case (end_of_buffer n l t l')
  from next_token [OF _ end_of_buffer.hyps(2)] end_of_buffer.IH end_of_buffer.hyps(3) show ?case by (auto split: if_splits)
qed simp_all

text \<open>
  The analyser ends.  From every state that a client reaches, whatever context it has set, a call that succeeds either moves on
  and returns another token than the end of the buffer, or finds white space and comments only and returns the end of the buffer;
  and no more tokens come than the input has characters.
\<close>

theorem lexer_ends:
  assumes "lexer_run buffer n l" "get_next_token l = Inr (t, l')"
  shows "n \<le> length buffer \<and> m_cur_itr l' \<le> length buffer \<and>
    (if m_cur_itr l + gap_length (input_left l) = length buffer then token_type t = END_OF_BUFFER
     else token_type t \<noteq> END_OF_BUFFER \<and> n < length buffer \<and> m_cur_itr l < m_cur_itr l')"
proof -
  have ok: "lexer_ok l" "m_input_buffer l = buffer" "n \<le> m_cur_itr l" using lexer_run_ok [OF assms(1)] by auto
  note n = next_token [OF ok(1) assms(2)]
  have "n \<le> length buffer" "m_cur_itr l' \<le> length buffer" using n ok by (auto simp: lexer_ok_def)
  then show ?thesis using n ok by (simp split: if_splits)
qed

theorem lexer_ends_witness:
  "\<exists>t l'. get_next_token (lexer_new ''# x'') = Inr (t, l') \<and> m_cur_itr l' \<le> length ''# x'' \<and> token_type t = END_OF_BUFFER"
proof -
  have "\<not> isl (get_next_token (lexer_new ''# x''))" by code_simp
  then obtain t l' where g: "get_next_token (lexer_new ''# x'') = Inr (t, l')" by (cases "get_next_token (lexer_new ''# x'')") auto
  have "m_cur_itr (lexer_new ''# x'') + gap_length (input_left (lexer_new ''# x'')) = length ''# x''" by code_simp
  then show ?thesis using g lexer_ends [OF lexer_run.start g] by auto
qed

text \<open>
  C39: the line and the column of a token are exact.  In every state that a client reaches, after a call that succeeds the analyser
  gives as the position of the last token the number of line ends before its first character and the number of characters between
  it and the last of them, though it keeps the position of the last token only and counts from there.
\<close>

theorem token_positions_exact:
  assumes "lexer_run buffer n l" "get_next_token l = Inr (t, l')"
  defines "p \<equiv> m_cur_itr l + gap_length (input_left l)"
  shows "m_last_token_begin_line l' = line_of buffer p \<and> m_last_token_begin_pos l' = column_of buffer p"
  using lexer_run_ok [OF assms(1)] next_token [OF _ assms(2)] unfolding p_def by auto

theorem token_positions_exact_witness:
  "\<exists>t l'. get_next_token (lexer_new (''# x'' @ newline_char # ''  b'')) = Inr (t, l') \<and> m_last_token_begin_line l' = 1 \<and> m_last_token_begin_pos l' = 2"
proof -
  let ?l = "lexer_new (''# x'' @ newline_char # ''  b'')"
  have "\<not> isl (get_next_token ?l)" by code_simp
  then obtain t l' where g: "get_next_token ?l = Inr (t, l')" by (cases "get_next_token ?l") auto
  have "line_of (''# x'' @ newline_char # ''  b'') (m_cur_itr ?l + gap_length (input_left ?l)) = 1"
    "column_of (''# x'' @ newline_char # ''  b'') (m_cur_itr ?l + gap_length (input_left ?l)) = 2" by code_simp+
  then show ?thesis using g token_positions_exact [OF lexer_run.start g] by auto
qed

section \<open>Double quotes\<close>

text \<open>Whether the next character is escaped, after a text that is read from the left.\<close>

fun pending :: "bool \<Rightarrow> string \<Rightarrow> bool" where
  "pending b [] = b"
| "pending b (c # s) = pending (\<not> b \<and> c = CHR 0x5C) s"

text \<open>A text all of whose double quotes are escaped and that does not end in the middle of a sequence.\<close>

definition all_escaped :: "string \<Rightarrow> bool" where
  "all_escaped w \<longleftrightarrow> \<not> pending False w \<and> (\<forall>i < length w. w ! i = CHR 0x22 \<longrightarrow> pending False (take i w))"

definition trail :: "string \<Rightarrow> nat" where "trail w = length (takeWhile (\<lambda>c. c = CHR 0x5C) (rev w))"

lemma pending_append: "pending b (u @ v) = pending (pending b u) v"
  by (induction u arbitrary: b) simp_all

lemma pending_trail: "pending False w \<longleftrightarrow> odd (trail w)"
  by (induction w rule: rev_induct) (auto simp: trail_def pending_append)

lemma backslash_counts_trail:
  "p < length s \<Longrightarrow> take 2 s \<noteq> [CHR 0x5C, CHR 0x5C] \<Longrightarrow> backslash_counts s p = trail (take (Suc p) s)"
proof (induction s p rule: backslash_counts.induct)
  case (1 s)
  then show ?case by (cases s) (simp_all add: trail_def)
next
  case (2 s p)
  have t: "trail (take (Suc (Suc p)) s) = (if s ! Suc p = CHR 0x5C then Suc (trail (take (Suc p) s)) else 0)"
    using "2.prems"(1) by (simp add: trail_def take_Suc_conv_app_nth [of "Suc p"])
  show ?case
  proof (cases "p = 0")
    case True
    obtain a b r where "s = a # b # r" using "2.prems"(1) by (cases s; cases "tl s") auto
    then show ?thesis using True "2.prems"(2) by (auto simp: trail_def)
  next
    case False
    then show ?thesis using "2.IH" "2.prems" t by simp
  qed
qed

lemma double_quote_closed_pending:
  assumes "q < length s" "take 2 s \<noteq> [CHR 0x5C, CHR 0x5C]"
  shows "double_quote_closed s q \<longleftrightarrow> \<not> pending False (take q s)"
  using assms backslash_counts_trail [of "q - 1" s] by (cases q) (simp_all add: double_quote_closed_def pending_trail)

lemma find_from_Some: "find_from c s p = Some q \<Longrightarrow> s ! q = c"
  using nth_length_takeWhile [of "\<lambda>d. d \<noteq> c" "drop p s"] by (auto simp: find_from_def Let_def split: if_splits)

lemma find_from_first: "find_from c s p = Some q \<Longrightarrow> p \<le> i \<Longrightarrow> i < length s \<Longrightarrow> s ! i = c \<Longrightarrow> q \<le> i"
proof (rule ccontr)
  assume f: "find_from c s p = Some q" and i: "p \<le> i" "i < length s" "s ! i = c" and "\<not> q \<le> i"
  then have q: "q = p + length (takeWhile (\<lambda>d. d \<noteq> c) (drop p s))" "i - p < length (takeWhile (\<lambda>d. d \<noteq> c) (drop p s))"
    by (auto simp: find_from_def Let_def split: if_splits)
  from takeWhile_nth [OF q(2)] nth_mem [OF q(2)] set_takeWhileD [of _ "\<lambda>d. d \<noteq> c" "drop p s"] i
  show False by fastforce
qed

lemma find_from_None: "find_from c s p = None \<Longrightarrow> p \<le> i \<Longrightarrow> i < length s \<Longrightarrow> s ! i \<noteq> c"
proof
  assume f: "find_from c s p = None" and i: "p \<le> i" "i < length s" "s ! i = c"
  have "length (takeWhile (\<lambda>d. d \<noteq> c) (drop p s)) = length (drop p s)"
    using f i length_takeWhile_le [of "\<lambda>d. d \<noteq> c" "drop p s"] by (auto simp: find_from_def Let_def split: if_splits)
  then have "takeWhile (\<lambda>d. d \<noteq> c) (drop p s) = drop p s" by (metis takeWhile_eq_take take_all order_refl)
  then have "\<forall>d \<in> set (drop p s). d \<noteq> c" by (simp add: takeWhile_eq_all_conv)
  moreover have "s ! i \<in> set (drop p s)" using i by (auto simp: in_set_conv_nth intro!: exI [of _ "i - p"])
  ultimately show False using i(3) by blast
qed

lemma double_quote_end_escaped:
  assumes "all_escaped w" "take 2 w \<noteq> [CHR 0x5C, CHR 0x5C]" "p \<le> length w"
  shows "double_quote_end (w @ CHR 0x22 # r) p = Some (length w)"
  using assms(3)
proof (induction "length w - p" arbitrary: p rule: less_induct)
  case less
  let ?s = "w @ CHR 0x22 # r"
  have t: "take 2 ?s \<noteq> [CHR 0x5C, CHR 0x5C]" using assms(2) by (cases w; cases "tl w") auto
  obtain q where q: "find_from (CHR 0x22) ?s p = Some q"
    using find_from_None [of "CHR 0x22" ?s p "length w"] less.prems by (cases "find_from (CHR 0x22) ?s p") auto
  have b: "p \<le> q" "q < length ?s" "q \<le> length w" "?s ! q = CHR 0x22"
    using find_from_bounds [OF q] find_from_first [OF q less.prems] find_from_Some [OF q] by auto
  show ?case
  proof (cases "q = length w")
    case True
    then have "double_quote_closed ?s q" using double_quote_closed_pending [OF b(2) t] assms(1) by (simp add: all_escaped_def)
    then show ?thesis using q True by (simp add: double_quote_end.simps [of ?s p])
  next
    case False
    then have "q < length w" "w ! q = CHR 0x22" using b by (simp_all add: nth_append)
    then have "\<not> double_quote_closed ?s q" using double_quote_closed_pending [OF b(2) t] assms(1) by (simp add: all_escaped_def)
    moreover have "double_quote_end ?s (q + 1) = Some (length w)" using \<open>q < length w\<close> b(1) by (intro less.hyps) auto
    ultimately show ?thesis using q by (simp add: double_quote_end.simps [of ?s p])
  qed
qed

fun escaped_from :: "bool \<Rightarrow> string \<Rightarrow> bool" where
  "escaped_from b [] = (\<not> b)"
| "escaped_from b (c # s) = ((c = CHR 0x22 \<longrightarrow> b) \<and> escaped_from (\<not> b \<and> c = CHR 0x5C) s)"

lemma escaped_from_all:
  "escaped_from b w \<Longrightarrow> \<not> pending b w \<and> (\<forall>i < length w. w ! i = CHR 0x22 \<longrightarrow> pending b (take i w))"
proof (induction b w rule: escaped_from.induct)
  case (2 b c s)
  then show ?case by (auto simp: less_Suc_eq_0_disj)
qed simp

lemma escaped_from_append: "escaped_from b u \<Longrightarrow> escaped_from b (u @ v) \<longleftrightarrow> escaped_from False v"
  by (induction b u rule: escaped_from.induct) auto

lemma escape_ascii_escaped: "escape_ascii c = Some e \<Longrightarrow> escaped_from False e \<and> check_scalar_content e"
  unfolding escape_ascii_def by (auto simp: check_scalar_content_def split: if_split_asm)

lemma escape_unfold:
  assumes "s \<noteq> []" "escape_step s = (e, k, f)"
  shows "fst (escape s) = e @ fst (escape (drop k s))"
  using assms by (subst escape.simps) (simp split: prod.splits)

lemma escape_ascii_control: "\<forall>n \<in> set [1..<32]. escape_ascii (char_of (n :: nat)) \<noteq> None"
  by code_simp

lemma escape_step_escaped:
  assumes "s \<noteq> []" "escape_step s = (e, k, f)"
  shows "escaped_from False e \<and> check_scalar_content e"
proof (cases "escape_ascii (hd s)")
  case (Some x)
  then show ?thesis using assms escape_ascii_escaped by (simp add: escape_step_def)
next
  case None
  then have c: "hd s \<noteq> CHR 0x22" "hd s \<noteq> CHR 0x5C" by (auto simp: escape_ascii_def)
  have "check_scalar_content [hd s]"
  proof -
    have False if "of_char (hd s) < (32 :: nat)" "of_char (hd s) \<notin> {0, 9, 10, 13 :: nat}"
    proof -
      have "(of_char (hd s) :: nat) \<in> set [1..<32]" using that by auto
      then have "escape_ascii (char_of (of_char (hd s) :: nat)) \<noteq> None" using escape_ascii_control by blast
      then show False using None by simp
    qed
    then show ?thesis by (auto simp: check_scalar_content_def Let_def)
  qed
  then show ?thesis using None c assms by (auto simp: escape_step_def check_scalar_content_def split: if_splits)
qed

lemma escape_escaped: "escaped_from False (fst (escape s)) \<and> check_scalar_content (fst (escape s))"
proof (induction "length s" arbitrary: s rule: less_induct)
  case less
  show ?case
  proof (cases "s = []")
    case True
    then show ?thesis by (simp add: escape.simps check_scalar_content_def)
  next
    case False
    obtain e k f where step: "escape_step s = (e, k, f)" by (cases "escape_step s")
    have sh: "length (drop k s) < length s" using escape_step_uses [of s] step False by (cases s) auto
    show ?thesis
      using escape_step_escaped [OF False step] less [OF sh] escaped_from_append [of False e]
      by (simp add: escape_unfold [OF False step] check_scalar_content_def)
  qed
qed

lemma escape_no_backslashes:
  assumes "s \<noteq> []" "hd s \<noteq> CHR 0x5C"
  shows "take 2 (fst (escape s)) \<noteq> [CHR 0x5C, CHR 0x5C]"
proof -
  obtain e k f where step: "escape_step s = (e, k, f)" by (cases "escape_step s")
  show ?thesis
  proof (cases "escape_ascii (hd s)")
    case (Some x)
    then have "take 2 x \<noteq> [CHR 0x5C, CHR 0x5C] \<and> 2 \<le> length x"
      using assms(2) by (auto simp: escape_ascii_def split: if_split_asm)
    then show ?thesis using Some step by (simp add: escape_unfold [OF assms(1) step] escape_step_def)
  next
    case None
    have "e \<in> {[CHR 0x5C, CHR ''N''], [CHR 0x5C, CHR ''_''], [CHR 0x5C, CHR ''L''], [CHR 0x5C, CHR ''P''], [hd s]}"
      using step unfolding escape_step_def None option.case by (simp only: prod.inject insert_iff split: if_split_asm) blast+
    then show ?thesis using assms(2)
      by (simp only: insert_iff empty_iff escape_unfold [OF assms(1) step]) (elim disjE; simp add: numeral_2_eq_2)
  qed
qed

text \<open>
  A text that the library writes between double quotes is read back.  From a state that stands at a double quote, the contents
  that \<^verbatim>\<open>escape\<close> writes and the closing quote, the next token is this scalar, the analyser stands behind the quote, and the
  scalar parser makes of the token a string node with the text, for every text that does not begin with a backslash.
\<close>

theorem double_quoted_read_back:
  assumes "lexer_ok l" "input_left l = CHR 0x22 # fst (escape s) @ CHR 0x22 # r" "s = [] \<or> hd s \<noteq> CHR 0x5C"
  shows "\<exists>t l'. get_next_token l = Inr (t, l') \<and> input_left l' = r \<and>
    parse_flow from_chars (token_type t) TAG_NONE (token_str t) = Inr (N_str s)"
proof -
  let ?w = "fst (escape s)"
  have le: "m_cur_itr l \<le> length (m_input_buffer l)" using assms(1) by (simp add: lexer_ok_def)
  have gap: "takeWhile (\<lambda>c. blank c \<or> c = newline_char) (input_left l) = []" using assms(2) by (simp add: blank_def)
  note b = begin_token_ok [OF assms(1), unfolded gap list.size add_0_right]
  have lt: "m_cur_itr l < length (m_input_buffer l)"
  proof -
    have "input_left l \<noteq> []" using assms(2) by simp
    then show ?thesis by (simp add: input_left_def)
  qed
  then have d: "m_input_buffer l ! m_cur_itr l # drop (Suc (m_cur_itr l)) (m_input_buffer l) = CHR 0x22 # ?w @ CHR 0x22 # r"
    using assms(2) by (simp add: input_left_def Cons_nth_drop_Suc)
  then have c: "char_at (begin_token l) (m_cur_itr l) = CHR 0x22" and sv: "drop (Suc (m_cur_itr l)) (m_input_buffer l) = ?w @ CHR 0x22 # r"
    using lt by (simp_all add: char_at_def)
  have e: "escaped_from False ?w" "check_scalar_content ?w" using escape_escaped [of s] by simp_all
  have n: "take 2 ?w \<noteq> [CHR 0x5C, CHR 0x5C]"
    using escape_no_backslashes [of s] assms(3) by (cases "s = []") (auto simp: escape.simps [of "[]"])
  have q: "double_quote_end (?w @ CHR 0x22 # r) 0 = Some (length ?w)"
    using double_quote_end_escaped [of ?w 0 r] escaped_from_all [OF e(1)] n by (simp add: all_escaped_def)
  let ?t = "\<lparr>token_type = DOUBLE_QUOTED_SCALAR, token_str = ?w\<rparr>"
  let ?l = "(begin_token l)\<lparr>m_token_begin_itr := m_cur_itr l + 1, m_cur_itr := m_cur_itr l + 1 + (length ?w + 1)\<rparr>"
  have "determine_double_quoted_scalar_range (begin_token l) = Inr (?t, ?l)"
    using b(3) e(2) by (simp add: determine_double_quoted_scalar_range_def quoted_scalar_def Let_def sv q)
  then have "get_next_token l = Inr (?t, ?l)"
    using lt c b(2) by (simp add: get_next_token.simps [of l] scan_token_def Let_def)
  moreover have "input_left ?l = r"
    using arg_cong [OF sv, of "drop (length ?w + 1)"] by (simp add: input_left_def add.commute)
  ultimately show ?thesis using escaped_scalar_read_back by auto
qed

theorem double_quoted_read_back_witness:
  "\<exists>t l'. get_next_token (lexer_new (CHR 0x22 # fst (escape [CHR ''a'', CHR 0x22]) @ CHR 0x22 # '': 1'')) = Inr (t, l') \<and>
     input_left l' = '': 1'' \<and> parse_flow (\<lambda>_. True) (token_type t) TAG_NONE (token_str t) = Inr (N_str [CHR ''a'', CHR 0x22])"
  by (rule double_quoted_read_back [OF lexer_new_ok]) (simp_all add: lexer_new_def input_left_def)

text \<open>The texts left out: the closing quote of the scalar that \<open>escape\<close> writes for a single backslash is taken to be escaped.\<close>

lemma backslash_not_read_back:
  "get_next_token (lexer_new (CHR 0x22 # fst (escape [CHR 0x5C]) @ [CHR 0x22])) =
     emit_error ''Invalid end of input buffer in a double-quoted scalar token.''"
  by code_simp

end
