(* ===== verification/Pw_YamlParser.thy ===== *)
theory Pw_YamlParser
  imports Pw_YamlTokens
begin

text \<open>
  The parser of the vendored YAML library (\<^verbatim>\<open>src/libs/fkyaml/node.hpp\<close>): \<^verbatim>\<open>tag_resolver\<close> and \<^verbatim>\<open>basic_deserializer\<close>, which
  builds a tree of nodes through pointers into it.  The nodes lie in a store; a pointer is an address, and what follows a pointer to a node
  that has been deleted or to the top of an empty stack is \<open>Undefined\<close>.  An element of a sequence keeps its address when
  the sequence grows.  The tag of a node is used to give a scalar its type and not kept.  Anchors and aliases are left out: a
  token for one ends the parser with \<open>Not_modelled\<close>.  The comparison of floating-point keys is a parameter,
  and lines and indentations are natural numbers.
\<close>

definition and_then :: "yaml_error + 'a \<Rightarrow> ('a \<Rightarrow> yaml_error + 'b) \<Rightarrow> yaml_error + 'b" where
  "and_then m f = (case m of Inl e \<Rightarrow> Inl e | Inr x \<Rightarrow> f x)"

lemma and_then_simps [simp]: "and_then (Inl e) f = Inl e" "and_then (Inr x) f = f x"
  by (simp_all add: and_then_def)

lemma and_then_Inr: "and_then m f = Inr y \<longleftrightarrow> (\<exists>x. m = Inr x \<and> f x = Inr y)"
  by (cases m) simp_all

section \<open>The order of keys\<close>

record float_env =
  from_chars :: "string \<Rightarrow> bool"
  float_less :: "string \<Rightarrow> string \<Rightarrow> bool"

fun str_less :: "string \<Rightarrow> string \<Rightarrow> bool" where
  "str_less s [] = False"
| "str_less [] (d # t) = True"
| "str_less (c # s) (d # t) =
     (if (of_char c :: nat) < of_char d then True else if (of_char d :: nat) < of_char c then False else str_less s t)"

fun value_bit :: "node \<Rightarrow> nat" where
  "value_bit (N_seq _) = 1"
| "value_bit (N_map _) = 2"
| "value_bit N_null = 4"
| "value_bit (N_bool _) = 8"
| "value_bit (N_int _) = 16"
| "value_bit (N_float _) = 32"
| "value_bit (N_str _) = 64"

function (sequential) node_less :: "float_env \<Rightarrow> node \<Rightarrow> node \<Rightarrow> bool"
    and seq_less :: "float_env \<Rightarrow> node list \<Rightarrow> node list \<Rightarrow> bool"
    and map_less :: "float_env \<Rightarrow> (node \<times> node) list \<Rightarrow> (node \<times> node) list \<Rightarrow> bool" where
  "node_less env (N_seq xs) (N_seq ys) = seq_less env xs ys"
| "node_less env (N_map xs) (N_map ys) = map_less env xs ys"
| "node_less env (N_bool a) (N_bool b) = (\<not> a \<and> b)"
| "node_less env (N_int a) (N_int b) = (a < b)"
| "node_less env (N_float a) (N_float b) = float_less env a b"
| "node_less env (N_str a) (N_str b) = str_less a b"
| "node_less env v w = (value_bit v < value_bit w)"
| "seq_less env xs [] = False"
| "seq_less env [] (y # ys) = True"
| "seq_less env (x # xs) (y # ys) =
     (if node_less env x y then True else if node_less env y x then False else seq_less env xs ys)"
| "map_less env xs [] = False"
| "map_less env [] (y # ys) = True"
| "map_less env ((k, v) # xs) ((l, w) # ys) =
     (if node_less env k l then True else if node_less env l k then False
      else if node_less env v w then True else if node_less env w v then False else map_less env xs ys)"
  by pat_completeness auto

termination
  by (relation "measure (\<lambda>x. case x of Inl (_, v, w) \<Rightarrow> size v + size w
      | Inr (Inl (_, xs, ys)) \<Rightarrow> size_list size xs + size_list size ys
      | Inr (Inr (_, xs, ys)) \<Rightarrow> size_list (size_prod size size) xs + size_list (size_prod size size) ys)") auto

text \<open>\<^verbatim>\<open>emplace\<close> of \<^verbatim>\<open>std::map\<close>: the map afterwards, the value of the key and whether it was inserted.\<close>

fun map_emplace :: "(node \<Rightarrow> node \<Rightarrow> bool) \<Rightarrow> node \<Rightarrow> 'a \<Rightarrow> (node \<times> 'a) list \<Rightarrow> (node \<times> 'a) list \<times> 'a \<times> bool" where
  "map_emplace lt k a [] = ([(k, a)], a, True)"
| "map_emplace lt k a ((l, b) # r) =
     (if lt k l then ((k, a) # (l, b) # r, a, True)
      else if lt l k then (case map_emplace lt k a r of (r', x) \<Rightarrow> ((l, b) # r', x))
      else ((l, b) # r, b, False))"

section \<open>Tags\<close>

datatype yaml_version_type = VERSION_1_1 | VERSION_1_2

record document_metainfo =
  version :: yaml_version_type
  is_version_specified :: bool
  primary_handle_prefix :: string
  secondary_handle_prefix :: string
  named_handle_map :: "string \<rightharpoonup> string"

definition default_primary_handle_prefix :: string where "default_primary_handle_prefix = ''!''"
definition default_secondary_handle_prefix :: string where "default_secondary_handle_prefix = ''tag:yaml.org,2002:''"

definition normalize_tag_name :: "string \<Rightarrow> document_metainfo \<Rightarrow> yaml_error + string" where
  "normalize_tag_name tag directives =
     (let prefix = (\<lambda>given dflt. if given = [] then dflt else given);
          primary = prefix (primary_handle_prefix directives) default_primary_handle_prefix;
          secondary = prefix (secondary_handle_prefix directives) default_secondary_handle_prefix
      in if tag = [] then Inl (Invalid_tag ''tag must not be empty.'')
         else if hd tag \<noteq> CHR ''!'' then Inl (Invalid_tag (''tag must start with '' @ [CHR 0x27, CHR ''!'', CHR 0x27]))
         else if length tag = 1 then Inr tag
         else if tag ! 1 = CHR ''!'' then Inr (''!<'' @ secondary @ drop 2 tag @ ''>'')
         else if tag ! 1 = CHR ''<'' then
           if length tag > 2 \<and> tag ! 2 = CHR ''!'' then Inr (''!<'' @ primary @ drop 3 tag) else Inr tag
         else
           (case find_from (CHR ''!'') tag 1 of
              Some tag_end_pos \<Rightarrow>
                if \<not> tag_end_pos < length tag - 1 then Inl Undefined
                else
                  (case named_handle_map directives (take (tag_end_pos + 1) tag) of
                     None \<Rightarrow> Inl (Invalid_tag ''named handle has not been registered.'')
                   | Some given \<Rightarrow> Inr (''!<'' @ given @ drop (tag_end_pos + 1) tag @ ''>''))
            | None \<Rightarrow> Inr (''!<'' @ primary @ drop 1 tag @ ''>'')))"

definition convert_to_tag_type :: "string \<Rightarrow> tag_t" where
  "convert_to_tag_type normalized =
     (if normalized = ''!'' then TAG_NON_SPECIFIC
      else if length normalized < 24 then TAG_CUSTOM
      else if take 20 normalized \<noteq> ''!<tag:yaml.org,2002:'' then TAG_CUSTOM
      else if normalized = ''!<tag:yaml.org,2002:seq>'' then TAG_SEQUENCE
      else if normalized = ''!<tag:yaml.org,2002:map>'' then TAG_MAPPING
      else if normalized = ''!<tag:yaml.org,2002:null>'' then TAG_NULL_VALUE
      else if normalized = ''!<tag:yaml.org,2002:bool>'' then TAG_BOOLEAN
      else if normalized = ''!<tag:yaml.org,2002:int>'' then TAG_INTEGER
      else if normalized = ''!<tag:yaml.org,2002:float>'' then TAG_FLOATING_NUMBER
      else if normalized = ''!<tag:yaml.org,2002:str>'' then TAG_STRING
      else TAG_CUSTOM)"

definition resolve_tag :: "string \<Rightarrow> document_metainfo \<Rightarrow> yaml_error + tag_t" where
  "resolve_tag tag directives =
     and_then (normalize_tag_name tag directives) (\<lambda>normalized. Inr (convert_to_tag_type normalized))"

section \<open>The store\<close>

type_synonym addr = nat

datatype cell =
    C_scalar node
  | C_seq "addr list"
  | C_map "(node \<times> addr) list"
  | C_deleted

type_synonym store = "addr \<Rightarrow> cell"

definition sequence_node :: cell where "sequence_node = C_seq []"
definition mapping_node :: cell where "mapping_node = C_map []"
definition null_node :: cell where "null_node = C_scalar N_null"

text \<open>The tree at an address, to a depth; a pointer leads to a larger address than the node it is in has.\<close>

fun read_node :: "nat \<Rightarrow> store \<Rightarrow> addr \<Rightarrow> node" where
  "read_node 0 h a = N_null"
| "read_node (Suc n) h a =
     (case h a of
        C_scalar v \<Rightarrow> v
      | C_seq xs \<Rightarrow> N_seq (map (read_node n h) xs)
      | C_map kvs \<Rightarrow> N_map (map (\<lambda>(k, b). (k, read_node n h b)) kvs)
      | C_deleted \<Rightarrow> N_null)"

text \<open>The addresses of the nodes below an address, which go with it when it is assigned to or deleted.\<close>

fun below :: "nat \<Rightarrow> store \<Rightarrow> addr \<Rightarrow> addr list" where
  "below 0 h a = []"
| "below (Suc n) h a =
     (case h a of
        C_seq xs \<Rightarrow> concat (map (\<lambda>b. b # below n h b) xs)
      | C_map kvs \<Rightarrow> concat (map (\<lambda>(_, b). b # below n h b) kvs)
      | _ \<Rightarrow> [])"

section \<open>The state of the parser\<close>

datatype context_state_t =
    BLOCK_MAPPING | BLOCK_MAPPING_EXPLICIT_KEY | BLOCK_MAPPING_EXPLICIT_VALUE | MAPPING_VALUE | BLOCK_SEQUENCE
  | FLOW_SEQUENCE | FLOW_SEQUENCE_KEY | FLOW_MAPPING | FLOW_MAPPING_KEY

record parse_context =
  c_line :: nat
  c_indent :: nat
  c_state :: context_state_t
  p_node :: addr

datatype flow_token_state_t = NEEDS_VALUE_OR_SUFFIX | NEEDS_SEPARATOR_OR_SUFFIX

text \<open>The members, the store with its first free address, and the variables \<open>token\<close>, \<open>line\<close> and \<open>indent\<close> of
  \<^verbatim>\<open>deserialize_node\<close>.  The head of the list is the \<^verbatim>\<open>back\<close> of the stack.\<close>

record deserializer =
  d_lexer :: lexer
  d_store :: store
  d_next :: addr
  mp_current_node :: addr
  m_context_stack :: "parse_context list"
  m_flow_context_depth :: nat
  m_flow_token_state :: flow_token_state_t
  mp_meta :: document_metainfo
  m_needs_tag_impl :: bool
  m_tag_name :: string
  cur_token :: lexical_token
  cur_line :: nat
  cur_indent :: nat

definition deserializer_new :: "lexer \<Rightarrow> deserializer" where
  "deserializer_new l =
     \<lparr>d_lexer = l, d_store = (\<lambda>_. C_deleted)(0 := null_node), d_next = 1, mp_current_node = 0, m_context_stack = [],
      m_flow_context_depth = 0, m_flow_token_state = NEEDS_VALUE_OR_SUFFIX,
      mp_meta = \<lparr>version = VERSION_1_2, is_version_specified = False, primary_handle_prefix = [], secondary_handle_prefix = [],
        named_handle_map = Map.empty\<rparr>,
      m_needs_tag_impl = False, m_tag_name = [], cur_token = \<lparr>token_type = END_OF_BUFFER, token_str = []\<rparr>,
      cur_line = 0, cur_indent = 0\<rparr>"

definition get_token :: "deserializer \<Rightarrow> yaml_error + deserializer" where
  "get_token d = and_then (get_next_token (d_lexer d)) (\<lambda>(t, l). Inr (d\<lparr>cur_token := t, d_lexer := l\<rparr>))"

abbreviation lines_processed :: "deserializer \<Rightarrow> nat" where "lines_processed d \<equiv> m_last_token_begin_line (d_lexer d)"
abbreviation token_begin_pos :: "deserializer \<Rightarrow> nat" where "token_begin_pos d \<equiv> m_last_token_begin_pos (d_lexer d)"
abbreviation token_is :: "lexical_token_t \<Rightarrow> deserializer \<Rightarrow> bool" where "token_is t d \<equiv> token_type (cur_token d) = t"

definition take_position :: "deserializer \<Rightarrow> deserializer" where
  "take_position d = d\<lparr>cur_line := lines_processed d, cur_indent := token_begin_pos d\<rparr>"

text \<open>What \<^verbatim>\<open>mp_current_node\<close> points to, and an assignment to it.\<close>

definition current_node :: "deserializer \<Rightarrow> yaml_error + cell" where
  "current_node d = (case d_store d (mp_current_node d) of C_deleted \<Rightarrow> Inl Undefined | c \<Rightarrow> Inr c)"

definition drop_below :: "addr \<Rightarrow> deserializer \<Rightarrow> deserializer" where
  "drop_below a d = d\<lparr>d_store := fold (\<lambda>b h. h(b := C_deleted)) (below (d_next d) (d_store d) a) (d_store d)\<rparr>"

definition assign_current :: "cell \<Rightarrow> deserializer \<Rightarrow> yaml_error + deserializer" where
  "assign_current c d =
     and_then (current_node d) (\<lambda>_.
       let d = drop_below (mp_current_node d) d in Inr (d\<lparr>d_store := (d_store d)(mp_current_node d := c)\<rparr>))"

definition delete_node :: "addr \<Rightarrow> deserializer \<Rightarrow> deserializer" where
  "delete_node a d = (let d = drop_below a d in d\<lparr>d_store := (d_store d)(a := C_deleted)\<rparr>)"

text \<open>A new node, on the heap or as the last element of the current sequence; it becomes the current node.\<close>

definition new_node :: "cell \<Rightarrow> deserializer \<Rightarrow> deserializer" where
  "new_node c d = d\<lparr>d_store := (d_store d)(d_next d := c), d_next := d_next d + 1, mp_current_node := d_next d\<rparr>"

definition add_element :: "cell \<Rightarrow> deserializer \<Rightarrow> yaml_error + deserializer" where
  "add_element c d =
     and_then (current_node d) (\<lambda>s.
       case s of
         C_seq xs \<Rightarrow> Inr (new_node c (d\<lparr>d_store := (d_store d)(mp_current_node d := C_seq (xs @ [d_next d]))\<rparr>))
       | _ \<Rightarrow> Inl Node_type_error)"

definition push_context :: "nat \<Rightarrow> nat \<Rightarrow> context_state_t \<Rightarrow> deserializer \<Rightarrow> deserializer" where
  "push_context line ind state d =
     d\<lparr>m_context_stack := \<lparr>c_line = line, c_indent = ind, c_state = state, p_node = mp_current_node d\<rparr> # m_context_stack d\<rparr>"

definition back_context :: "deserializer \<Rightarrow> yaml_error + parse_context" where
  "back_context d = (case m_context_stack d of [] \<Rightarrow> Inl Undefined | c # _ \<Rightarrow> Inr c)"

text \<open>The last context, changed in place.\<close>

definition turn_context :: "nat \<Rightarrow> nat \<Rightarrow> context_state_t \<Rightarrow> deserializer \<Rightarrow> yaml_error + deserializer" where
  "turn_context line ind state d =
     (case m_context_stack d of
        [] \<Rightarrow> Inl Undefined
      | c # cs \<Rightarrow> Inr (d\<lparr>m_context_stack := c\<lparr>c_line := line, c_indent := ind, c_state := state\<rparr> # cs\<rparr>))"

text \<open>\<^verbatim>\<open>pop_back\<close> with the destructor of the context, which deletes the node of a key.\<close>

definition pop_context :: "deserializer \<Rightarrow> yaml_error + deserializer" where
  "pop_context d =
     (case m_context_stack d of
        [] \<Rightarrow> Inl Undefined
      | c # cs \<Rightarrow>
          let d = d\<lparr>m_context_stack := cs\<rparr> in
          Inr (if c_state c \<in> {BLOCK_MAPPING_EXPLICIT_KEY, FLOW_SEQUENCE_KEY, FLOW_MAPPING_KEY} then delete_node (p_node c) d else d))"

fun pop_contexts :: "nat \<Rightarrow> deserializer \<Rightarrow> yaml_error + deserializer" where
  "pop_contexts 0 d = Inr d"
| "pop_contexts (Suc n) d = and_then (pop_context d) (pop_contexts n)"

definition take_back :: "deserializer \<Rightarrow> yaml_error + deserializer" where
  "take_back d = and_then (back_context d) (\<lambda>c. Inr (d\<lparr>mp_current_node := p_node c\<rparr>))"

definition move_back :: "nat \<Rightarrow> deserializer \<Rightarrow> yaml_error + deserializer" where
  "move_back pop_num d = (if pop_num > 0 then and_then (pop_contexts pop_num d) take_back else Inr d)"

text \<open>All contexts but the first; on an empty stack the number wraps around.\<close>

definition move_to_root :: "deserializer \<Rightarrow> yaml_error + deserializer" where
  "move_to_root d =
     (if m_context_stack d = [] then Inl Undefined else move_back (length (m_context_stack d) - 1) d)"

text \<open>The search from the back for a context, with the number of contexts before it.\<close>

definition find_context :: "(parse_context \<Rightarrow> bool) \<Rightarrow> deserializer \<Rightarrow> nat" where
  "find_context P d = length (takeWhile (\<lambda>c. \<not> P c) (m_context_stack d))"

definition move_to_indent :: "(parse_context \<Rightarrow> bool) \<Rightarrow> deserializer \<Rightarrow> yaml_error + deserializer" where
  "move_to_indent P d =
     (if cur_indent d = 0 then move_to_root d
      else
        and_then (back_context d) (\<lambda>c.
          if cur_indent d \<le> c_indent c then
            let n = find_context (\<lambda>c. cur_indent d = c_indent c \<and> P c) d in
            if n = length (m_context_stack d) then emit_error ''Detected invalid indentation.'' else move_back n d
          else Inr d))"

section \<open>Node properties\<close>

definition apply_node_properties :: "deserializer \<Rightarrow> deserializer" where
  "apply_node_properties d = (if m_needs_tag_impl d then d\<lparr>m_needs_tag_impl := False, m_tag_name := []\<rparr> else d)"

definition property :: "deserializer \<Rightarrow> yaml_error + bool \<times> deserializer" where
  "property d =
     (if cur_line d < lines_processed d then Inr (False, d)
      else
        case token_type (cur_token d) of
          ANCHOR_PREFIX \<Rightarrow> Inl Not_modelled
        | TAG_PREFIX \<Rightarrow>
            if m_needs_tag_impl d then emit_error ''tag name cannot be specified more than once to the same node.''
            else
              and_then (get_token (take_position (d\<lparr>m_tag_name := token_str (cur_token d), m_needs_tag_impl := True\<rparr>)))
                (\<lambda>d. Inr (True, d))
        | _ \<Rightarrow> Inr (False, d))"

text \<open>The loop comes to a property at most once, as a second tag is an error.\<close>

definition deserialize_node_properties :: "deserializer \<Rightarrow> yaml_error + bool \<times> deserializer" where
  "deserialize_node_properties d =
     and_then (property (d\<lparr>m_needs_tag_impl := False\<rparr>)) (\<lambda>(more, d).
     and_then (if more then property d else Inr (False, d)) (\<lambda>(_, d).
       Inr (m_needs_tag_impl d, if m_needs_tag_impl d then d else take_position d)))"

definition tag_type :: "deserializer \<Rightarrow> yaml_error + tag_t" where
  "tag_type d = (if m_needs_tag_impl d then resolve_tag (m_tag_name d) (mp_meta d) else Inr TAG_NONE)"

section \<open>Keys and values\<close>

definition add_new_key :: "float_env \<Rightarrow> node \<Rightarrow> deserializer \<Rightarrow> yaml_error + deserializer" where
  "add_new_key env key d =
     and_then
       (if m_flow_context_depth d = 0 then move_to_indent (\<lambda>c. c_state c = BLOCK_MAPPING) d
        else if m_flow_token_state d \<noteq> NEEDS_VALUE_OR_SUFFIX then
          emit_error ''Flow mapping entry is found without separated with a comma.''
        else Inr d) (\<lambda>d.
     and_then (current_node d) (\<lambda>c.
     and_then
       (case c of
          C_seq _ \<Rightarrow> and_then (add_element mapping_node d) (\<lambda>d. Inr (push_context (cur_line d) (cur_indent d) BLOCK_MAPPING d))
        | _ \<Rightarrow> Inr d) (\<lambda>d.
     and_then (current_node d) (\<lambda>c.
     case c of
       C_map kvs \<Rightarrow>
         (case map_emplace (node_less env) key (d_next d) kvs of
            (kvs', _, False) \<Rightarrow> emit_error ''Detected duplication in mapping keys.''
          | (kvs', _, True) \<Rightarrow>
              let d = new_node null_node (d\<lparr>d_store := (d_store d)(mp_current_node d := C_map kvs')\<rparr>) in
              and_then (back_context d) (\<lambda>c. Inr (push_context (c_line c) (c_indent c) MAPPING_VALUE d)))
     | _ \<Rightarrow> Inl Node_type_error))))"

definition assign_node_value :: "node \<Rightarrow> deserializer \<Rightarrow> yaml_error + deserializer" where
  "assign_node_value node_value d =
     and_then (current_node d) (\<lambda>c.
     case c of
       C_seq xs \<Rightarrow>
         if m_flow_context_depth d > 0 \<and> m_flow_token_state d \<noteq> NEEDS_VALUE_OR_SUFFIX then
           emit_error ''flow sequence entry is found without separated with a comma.''
         else
           let d = (if m_flow_context_depth d > 0 then d\<lparr>m_flow_token_state := NEEDS_SEPARATOR_OR_SUFFIX\<rparr> else d) in
           and_then (add_element (C_scalar node_value) d) (\<lambda>d'. Inr (d'\<lparr>mp_current_node := mp_current_node d\<rparr>))
     | _ \<Rightarrow>
         and_then (assign_current (C_scalar node_value) d) (\<lambda>d.
         case m_context_stack d of
           [] \<Rightarrow> Inr d
         | c # _ \<Rightarrow>
             if m_flow_context_depth d > 0 \<or> c_state c \<noteq> BLOCK_MAPPING_EXPLICIT_KEY then
               and_then (pop_context d) (\<lambda>d.
               and_then (take_back d) (\<lambda>d.
                 Inr (if m_flow_context_depth d > 0 then d\<lparr>m_flow_token_state := NEEDS_SEPARATOR_OR_SUFFIX\<rparr> else d)))
             else Inr d))"

text \<open>The scalar was the first key of a block mapping: the node it would have become is a mapping.\<close>

definition begin_mapping :: "deserializer \<Rightarrow> yaml_error + deserializer" where
  "begin_mapping d =
     and_then (current_node d) (\<lambda>c.
     case c of
       C_scalar _ \<Rightarrow>
         and_then
           (case m_context_stack d of
              [] \<Rightarrow> Inr (push_context (cur_line d) (cur_indent d) BLOCK_MAPPING d)
            | c # _ \<Rightarrow>
                if c_state c \<in> {BLOCK_MAPPING_EXPLICIT_KEY, BLOCK_MAPPING_EXPLICIT_VALUE} then
                  Inr (push_context (cur_line d) (cur_indent d) BLOCK_MAPPING d)
                else if c_line c = cur_line d then emit_error ''Multiple mapping keys are specified on the same line.''
                else turn_context (cur_line d) (cur_indent d) BLOCK_MAPPING d)
           (assign_current mapping_node)
     | _ \<Rightarrow> Inr d)"

text \<open>The result says whether the next token has been read.\<close>

definition deserialize_scalar :: "float_env \<Rightarrow> node \<Rightarrow> deserializer \<Rightarrow> yaml_error + bool \<times> deserializer" where
  "deserialize_scalar env node d =
     and_then (current_node d) (\<lambda>c.
     case c of
       C_map _ \<Rightarrow> and_then (add_new_key env node d) (\<lambda>d. Inr (False, d))
     | _ \<Rightarrow>
         and_then (get_token d) (\<lambda>d.
         and_then
           (if token_is KEY_SEPARATOR d then
              if cur_line d \<noteq> lines_processed d then
                and_then (assign_node_value node d) (\<lambda>d.
                and_then (back_context d) (\<lambda>c.
                  if c_state c \<noteq> BLOCK_MAPPING_EXPLICIT_KEY then pop_context (d\<lparr>mp_current_node := p_node c\<rparr>) else Inr d))
              else and_then (begin_mapping d) (add_new_key env node)
            else assign_node_value node d)
           (\<lambda>d. Inr (True, take_position d))))"

section \<open>The cases of the loop\<close>

text \<open>A case breaks out of the switch, after which the next token is read, continues the loop with the token it has, or returns.\<close>

datatype jump = Break | Continue | Return

definition on_explicit_key :: "deserializer \<Rightarrow> yaml_error + jump \<times> deserializer" where
  "on_explicit_key d =
     and_then
       (if cur_indent d = 0 then move_to_root d
        else
          and_then (back_context d) (\<lambda>c.
            move_back (if cur_indent d < c_indent c then find_context (\<lambda>c. cur_indent d > c_indent c) d else 0) d)) (\<lambda>d.
     and_then (current_node d) (\<lambda>c.
     and_then (if c = null_node then assign_current mapping_node d else Inr d) (\<lambda>d.
     and_then (back_context d) (\<lambda>c.
     and_then
       (if c_state c = BLOCK_SEQUENCE then
          and_then (add_element mapping_node d) (\<lambda>d. Inr (push_context (cur_line d) (cur_indent d) BLOCK_MAPPING d))
        else Inr d) (\<lambda>d.
     and_then (get_token d) (\<lambda>d.
       if token_is SEQUENCE_BLOCK_PREFIX d then
         let d = push_context (cur_line d) (cur_indent d) BLOCK_MAPPING_EXPLICIT_KEY (new_node sequence_node d)
         in Inr (Break, push_context (lines_processed d) (token_begin_pos d) BLOCK_SEQUENCE d)
       else
         Inr (Continue,
           take_position (push_context (cur_line d) (cur_indent d) BLOCK_MAPPING_EXPLICIT_KEY (new_node null_node d)))))))))"

text \<open>A key separator with its value on a following line.\<close>

definition value_below :: "deserializer \<Rightarrow> yaml_error + deserializer" where
  "value_below d =
     and_then (tag_type d) (\<lambda>tag.
       if tag = TAG_MAPPING \<or> tag = TAG_CUSTOM then
         and_then (assign_current mapping_node d) (\<lambda>d.
           Inr (push_context (cur_line d) (cur_indent d) BLOCK_MAPPING (apply_node_properties d)))
       else if token_is SEQUENCE_BLOCK_PREFIX d then
         and_then (assign_current sequence_node d) (\<lambda>d.
         and_then (turn_context (cur_line d) (cur_indent d) BLOCK_SEQUENCE (apply_node_properties d)) (\<lambda>d.
         and_then (get_token d) (\<lambda>d.
         and_then (deserialize_node_properties (take_position d)) (\<lambda>(has_props, d).
           if has_props \<and> cur_line d \<noteq> lines_processed d then
             and_then (add_element mapping_node (take_position d)) (\<lambda>d.
               Inr (apply_node_properties (push_context (cur_line d) (cur_indent d) BLOCK_MAPPING d)))
           else Inr d))))
       else Inr d)"

text \<open>A key separator behind an explicit key.\<close>

fun pop_to_explicit_key :: "nat \<Rightarrow> deserializer \<Rightarrow> yaml_error + deserializer" where
  "pop_to_explicit_key 0 d = Inl Undefined"
| "pop_to_explicit_key (Suc n) d =
     and_then (back_context d) (\<lambda>c.
       if c_state c = BLOCK_MAPPING_EXPLICIT_KEY then Inr d else and_then (pop_context d) (pop_to_explicit_key n))"

definition explicit_value :: "float_env \<Rightarrow> deserializer \<Rightarrow> yaml_error + jump \<times> deserializer" where
  "explicit_value env d =
     and_then (pop_to_explicit_key (length (m_context_stack d) + 1) d) (\<lambda>d.
     and_then (back_context d) (\<lambda>c.
     let key_node = read_node (d_next d) (d_store d) (p_node c) in
     and_then (pop_context d) (\<lambda>d.
     and_then (take_back d) (\<lambda>d.
     and_then (current_node d) (\<lambda>m.
     case m of
       C_map kvs \<Rightarrow>
         let (kvs', a, inserted) = map_emplace (node_less env) key_node (d_next d) kvs;
             d = (if inserted then new_node null_node (d\<lparr>d_store := (d_store d)(mp_current_node d := C_map kvs')\<rparr>)
                  else d\<lparr>mp_current_node := a\<rparr>);
             d = push_context (cur_line d) (cur_indent d) BLOCK_MAPPING_EXPLICIT_VALUE d
         in if token_is SEQUENCE_BLOCK_PREFIX d then
              and_then (assign_current sequence_node d) (\<lambda>d.
                Inr (Break, push_context (cur_line d) (cur_indent d) BLOCK_SEQUENCE (apply_node_properties d)))
            else Inr (Continue, d)
     | _ \<Rightarrow> Inl Node_type_error)))))"

definition on_key_separator :: "float_env \<Rightarrow> deserializer \<Rightarrow> yaml_error + jump \<times> deserializer" where
  "on_key_separator env d =
     and_then (current_node d) (\<lambda>c.
     if c = sequence_node then emit_error ''sequence key should not be empty.''
     else
       let old_indent = cur_indent d; old_line = cur_line d in
       and_then (get_token d) (\<lambda>d.
       and_then (deserialize_node_properties (take_position d)) (\<lambda>(found_props, d).
         if found_props \<and> cur_line d = lines_processed d then Inr (Continue, d)
         else
           let d = take_position d in
           if m_flow_context_depth d > 0 then Inr (Continue, d)
           else if cur_line d = old_line \<and>
             (case m_context_stack d of [] \<Rightarrow> True | c # _ \<Rightarrow> old_indent > c_indent c) then Inr (Continue, d)
           else if cur_line d > old_line then and_then (value_below d) (\<lambda>d. Inr (Continue, d))
           else explicit_value env d)))"

definition on_block_sequence :: "deserializer \<Rightarrow> yaml_error + jump \<times> deserializer" where
  "on_block_sequence d =
     and_then (back_context d) (\<lambda>c.
       if c_indent c < cur_indent d then
         and_then (add_element sequence_node d) (\<lambda>d.
           Inr (Break, apply_node_properties (push_context (cur_line d) (cur_indent d) BLOCK_SEQUENCE d)))
       else
         let n = find_context (\<lambda>c. c_state c = BLOCK_SEQUENCE \<and> cur_indent d = c_indent c) d in
         and_then (pop_contexts n d) (\<lambda>d. and_then (take_back d) (\<lambda>d. Inr (Break, d))))"

text \<open>
  The beginning of a flow sequence or mapping: its cell, the states of its context and the message.  The two cases of the code
  differ in these only, and so do the two for the end.
\<close>

definition on_flow_begin ::
    "cell \<Rightarrow> context_state_t \<Rightarrow> context_state_t \<Rightarrow> string \<Rightarrow> deserializer \<Rightarrow> yaml_error + jump \<times> deserializer" where
  "on_flow_begin node state key_state msg d =
     and_then
       (if m_flow_context_depth d = 0 then
          move_to_indent (\<lambda>c. c_state c = BLOCK_MAPPING \<or> c_state c = MAPPING_VALUE) (d\<lparr>d_lexer := set_context_state True (d_lexer d)\<rparr>)
        else if m_flow_token_state d = NEEDS_SEPARATOR_OR_SUFFIX then emit_error msg
        else Inr d) (\<lambda>d.
     let d = d\<lparr>m_flow_context_depth := m_flow_context_depth d + 1\<rparr> in
     and_then (back_context d) (\<lambda>c.
     and_then
       (if c_state c = BLOCK_SEQUENCE \<or> c_state c = FLOW_SEQUENCE then
          and_then (add_element node d) (\<lambda>d. Inr (push_context (cur_line d) (cur_indent d) state d))
        else if c_state c = BLOCK_MAPPING \<or> c_state c = FLOW_MAPPING then
          Inr (push_context (cur_line d) (cur_indent d) key_state (new_node node d))
        else and_then (assign_current node d) (turn_context (cur_line d) (cur_indent d) state)) (\<lambda>d.
       Inr (Break, (apply_node_properties d)\<lparr>m_flow_token_state := NEEDS_VALUE_OR_SUFFIX\<rparr>))))"

definition on_flow_end ::
    "context_state_t \<Rightarrow> context_state_t \<Rightarrow> string \<Rightarrow> string \<Rightarrow> float_env \<Rightarrow> deserializer \<Rightarrow> yaml_error + jump \<times> deserializer" where
  "on_flow_end state key_state outside missing env d =
     (if m_flow_context_depth d = 0 then emit_error outside
      else
        let d = d\<lparr>m_flow_context_depth := m_flow_context_depth d - 1\<rparr>;
            d = (if m_flow_context_depth d = 0 then d\<lparr>d_lexer := set_context_state False (d_lexer d)\<rparr> else d)
        in case m_context_stack d of
             [] \<Rightarrow> emit_error missing
           | last_context # cs \<Rightarrow>
               if \<not> list_ex (\<lambda>c. c_state c = key_state \<or> c_state c = state) (last_context # cs) then emit_error missing
               else
                 let d = d\<lparr>mp_current_node := p_node last_context, cur_indent := c_indent last_context, m_context_stack := cs\<rparr> in
                 if cs \<noteq> [] \<and> c_state last_context = key_state then
                   and_then (current_node d) (\<lambda>_.
                   let key_node = read_node (d_next d) (d_store d) (mp_current_node d) in
                   and_then (take_back (delete_node (mp_current_node d) d)) (\<lambda>d.
                   and_then (add_new_key env key_node (d\<lparr>m_flow_token_state := NEEDS_VALUE_OR_SUFFIX\<rparr>)) (\<lambda>d. Inr (Break, d))))
                 else
                   and_then (get_token d) (\<lambda>d.
                   and_then
                     (if token_is KEY_SEPARATOR d then
                        let key_node = read_node (d_next d) (d_store d) (mp_current_node d) in
                        and_then (assign_current mapping_node d) (\<lambda>d.
                          add_new_key env key_node
                            ((push_context (cur_line d) (cur_indent d) BLOCK_MAPPING d)\<lparr>m_flow_token_state := NEEDS_VALUE_OR_SUFFIX\<rparr>))
                      else
                        let d = (case m_context_stack d of [] \<Rightarrow> d | c # _ \<Rightarrow> d\<lparr>mp_current_node := p_node c\<rparr>) in
                        Inr (if m_flow_context_depth d > 0 then d\<lparr>m_flow_token_state := NEEDS_SEPARATOR_OR_SUFFIX\<rparr> else d))
                     (\<lambda>d. Inr (Continue, take_position d))))"

definition on_sequence_flow_begin :: "deserializer \<Rightarrow> yaml_error + jump \<times> deserializer" where
  "on_sequence_flow_begin =
     on_flow_begin sequence_node FLOW_SEQUENCE FLOW_SEQUENCE_KEY ''Flow sequence beginning is found without separated with a comma.''"

definition on_mapping_flow_begin :: "deserializer \<Rightarrow> yaml_error + jump \<times> deserializer" where
  "on_mapping_flow_begin =
     on_flow_begin mapping_node FLOW_MAPPING FLOW_MAPPING_KEY ''Flow mapping beginning is found without separated with a comma.''"

definition on_sequence_flow_end :: "float_env \<Rightarrow> deserializer \<Rightarrow> yaml_error + jump \<times> deserializer" where
  "on_sequence_flow_end =
     on_flow_end FLOW_SEQUENCE FLOW_SEQUENCE_KEY ''Flow sequence ending is found outside the flow context.''
       ''No corresponding flow sequence beginning is found.''"

definition on_mapping_flow_end :: "float_env \<Rightarrow> deserializer \<Rightarrow> yaml_error + jump \<times> deserializer" where
  "on_mapping_flow_end =
     on_flow_end FLOW_MAPPING FLOW_MAPPING_KEY ''Flow mapping ending is found outside the flow context.''
       ''No corresponding flow mapping beginning is found.''"

definition on_flow_scalar :: "float_env \<Rightarrow> deserializer \<Rightarrow> yaml_error + jump \<times> deserializer" where
  "on_flow_scalar env d =
     and_then (tag_type d) (\<lambda>tag.
     and_then (parse_flow (from_chars env) (token_type (cur_token d)) tag (token_str (cur_token d))) (\<lambda>node.
     and_then (deserialize_scalar env node (apply_node_properties d)) (\<lambda>(do_continue, d).
       Inr (if do_continue then Continue else Break, d))))"

definition on_block_scalar :: "float_env \<Rightarrow> deserializer \<Rightarrow> yaml_error + jump \<times> deserializer" where
  "on_block_scalar env d =
     and_then (tag_type d) (\<lambda>tag.
     and_then (parse_block (from_chars env) (token_type (cur_token d)) tag (token_str (cur_token d))
       (m_block_scalar_header (d_lexer d))) (\<lambda>node.
     and_then (deserialize_scalar env node (apply_node_properties d)) (\<lambda>(_, d). Inr (Continue, d))))"

definition node_step :: "float_env \<Rightarrow> deserializer \<Rightarrow> yaml_error + jump \<times> deserializer" where
  "node_step env d =
     (case token_type (cur_token d) of
        EXPLICIT_KEY_PREFIX \<Rightarrow> on_explicit_key d
      | KEY_SEPARATOR \<Rightarrow> on_key_separator env d
      | ANCHOR_PREFIX \<Rightarrow> and_then (deserialize_node_properties d) (\<lambda>(_, d). Inr (Continue, d))
      | TAG_PREFIX \<Rightarrow> and_then (deserialize_node_properties d) (\<lambda>(_, d). Inr (Continue, d))
      | SEQUENCE_BLOCK_PREFIX \<Rightarrow> on_block_sequence d
      | SEQUENCE_FLOW_BEGIN \<Rightarrow> on_sequence_flow_begin d
      | SEQUENCE_FLOW_END \<Rightarrow> on_sequence_flow_end env d
      | MAPPING_FLOW_BEGIN \<Rightarrow> on_mapping_flow_begin d
      | MAPPING_FLOW_END \<Rightarrow> on_mapping_flow_end env d
      | VALUE_SEPARATOR \<Rightarrow>
          if m_flow_context_depth d = 0 then Inl Undefined
          else if m_flow_token_state d \<noteq> NEEDS_SEPARATOR_OR_SUFFIX then emit_error ''invalid value separator is found.''
          else Inr (Break, d\<lparr>m_flow_token_state := NEEDS_VALUE_OR_SUFFIX\<rparr>)
      | ALIAS_PREFIX \<Rightarrow> Inl Not_modelled
      | PLAIN_SCALAR \<Rightarrow> on_flow_scalar env d
      | SINGLE_QUOTED_SCALAR \<Rightarrow> on_flow_scalar env d
      | DOUBLE_QUOTED_SCALAR \<Rightarrow> on_flow_scalar env d
      | BLOCK_LITERAL_SCALAR \<Rightarrow> on_block_scalar env d
      | BLOCK_FOLDED_SCALAR \<Rightarrow> on_block_scalar env d
      | END_OF_BUFFER \<Rightarrow> Inr (Return, d)
      | END_OF_DIRECTIVES \<Rightarrow> Inr (Return, d)
      | END_OF_DOCUMENT \<Rightarrow> Inr (Return, d)
      | _ \<Rightarrow> Inl Undefined)"

text \<open>The step of the loop with what follows the switch; \<open>Return\<close> also when the loop ends.\<close>

definition node_pass :: "float_env \<Rightarrow> deserializer \<Rightarrow> yaml_error + bool \<times> deserializer" where
  "node_pass env d =
     and_then (node_step env d) (\<lambda>(j, d).
     and_then (if j = Break then and_then (get_token d) (\<lambda>d. Inr (take_position d)) else Inr d) (\<lambda>d.
       Inr (j = Return \<or> token_is END_OF_BUFFER d, d)))"

text \<open>The loop, for a number of passes; \<open>None\<close> when they are not enough.\<close>

fun node_loop :: "nat \<Rightarrow> float_env \<Rightarrow> deserializer \<Rightarrow> (yaml_error + deserializer) option" where
  "node_loop 0 env d = None"
| "node_loop (Suc n) env d =
     (case node_pass env d of
        Inl e \<Rightarrow> Some (Inl e)
      | Inr (True, d) \<Rightarrow> Some (Inr d)
      | Inr (False, d) \<Rightarrow> node_loop n env d)"

definition deserialize_node :: "nat \<Rightarrow> float_env \<Rightarrow> deserializer \<Rightarrow> (yaml_error + deserializer) option" where
  "deserialize_node n env d = node_loop n env (take_position d)"

section \<open>Documents\<close>

definition convert_yaml_version :: "string \<Rightarrow> yaml_version_type" where
  "convert_yaml_version version_str = (if version_str = ''1.1'' then VERSION_1_1 else VERSION_1_2)"

definition tag_directive :: "deserializer \<Rightarrow> yaml_error + deserializer" where
  "tag_directive d =
     (let tag_handle = m_tag_handle (d_lexer d); tag_prefix = m_tag_prefix (d_lexer d); meta = mp_meta d in
      if length tag_handle = 1 then
        if primary_handle_prefix meta \<noteq> [] then emit_error ''Primary handle cannot be specified more than once.''
        else Inr (d\<lparr>mp_meta := meta\<lparr>primary_handle_prefix := tag_prefix\<rparr>\<rparr>)
      else if length tag_handle = 2 then
        if secondary_handle_prefix meta \<noteq> [] then emit_error ''Secondary handle cannot be specified more than once.''
        else Inr (d\<lparr>mp_meta := meta\<lparr>secondary_handle_prefix := tag_prefix\<rparr>\<rparr>)
      else if named_handle_map meta tag_handle \<noteq> None then
        emit_error ''The same named handle cannot be specified more than once.''
      else Inr (d\<lparr>mp_meta := meta\<lparr>named_handle_map := (named_handle_map meta)(tag_handle \<mapsto> tag_prefix)\<rparr>\<rparr>))"

definition version_directive :: "deserializer \<Rightarrow> yaml_error + deserializer" where
  "version_directive d =
     (if is_version_specified (mp_meta d) then emit_error ''YAML version cannot be specified more than once.''
      else Inr (d\<lparr>mp_meta := (mp_meta d)\<lparr>version := convert_yaml_version (m_yaml_version (d_lexer d)), is_version_specified := True\<rparr>\<rparr>))"

fun directives_loop :: "nat \<Rightarrow> bool \<Rightarrow> deserializer \<Rightarrow> (yaml_error + deserializer) option" where
  "directives_loop 0 lacks_end_of_directives_marker d = None"
| "directives_loop (Suc n) lacks_end_of_directives_marker d =
     (case get_token d of
        Inl e \<Rightarrow> Some (Inl e)
      | Inr d \<Rightarrow>
          (case token_type (cur_token d) of
             YAML_VER_DIRECTIVE \<Rightarrow>
               (case version_directive d of Inl e \<Rightarrow> Some (Inl e) | Inr d \<Rightarrow> directives_loop n True d)
           | TAG_DIRECTIVE \<Rightarrow>
               (case tag_directive d of Inl e \<Rightarrow> Some (Inl e) | Inr d \<Rightarrow> directives_loop n True d)
           | INVALID_DIRECTIVE \<Rightarrow> directives_loop n lacks_end_of_directives_marker d
           | END_OF_DIRECTIVES \<Rightarrow> directives_loop n False d
           | _ \<Rightarrow>
               Some (if lacks_end_of_directives_marker
                     then emit_error ''The end of directives marker (---) is missing after directives.''
                     else Inr (d\<lparr>d_lexer := set_document_state False (d_lexer d)\<rparr>))))"

definition deserialize_directives :: "nat \<Rightarrow> deserializer \<Rightarrow> (yaml_error + deserializer) option" where
  "deserialize_directives n d = directives_loop n False (d\<lparr>d_lexer := set_document_state True (d_lexer d)\<rparr>)"

text \<open>The root node, as the first token of the document has it, with its context.\<close>

definition begin_document :: "bool \<Rightarrow> deserializer \<Rightarrow> yaml_error + deserializer" where
  "begin_document found_props d =
     (let begin_root = (\<lambda>node state d.
            and_then (assign_current node d) (\<lambda>d. Inr (push_context (lines_processed d) (token_begin_pos d) state d)));
          enter_flow = d\<lparr>m_flow_context_depth := m_flow_context_depth d + 1, d_lexer := set_context_state True (d_lexer d)\<rparr>
      in case token_type (cur_token d) of
           SEQUENCE_BLOCK_PREFIX \<Rightarrow>
             and_then (begin_root sequence_node BLOCK_SEQUENCE (if found_props then apply_node_properties d else d)) get_token
         | SEQUENCE_FLOW_BEGIN \<Rightarrow> and_then (begin_root sequence_node FLOW_SEQUENCE (apply_node_properties enter_flow)) get_token
         | MAPPING_FLOW_BEGIN \<Rightarrow> and_then (begin_root mapping_node FLOW_MAPPING (apply_node_properties enter_flow)) get_token
         | EXPLICIT_KEY_PREFIX \<Rightarrow> begin_root mapping_node BLOCK_MAPPING (apply_node_properties d)
         | _ \<Rightarrow>
             Inr (if token_type (cur_token d) \<in> {PLAIN_SCALAR, SINGLE_QUOTED_SCALAR, DOUBLE_QUOTED_SCALAR, ALIAS_PREFIX}
                    \<and> found_props \<and> cur_line d < lines_processed d
                  then apply_node_properties d else d))"

definition deserialize_document :: "nat \<Rightarrow> float_env \<Rightarrow> deserializer \<Rightarrow> (yaml_error + deserializer) option" where
  "deserialize_document n env d =
     (case deserialize_directives n d of
        None \<Rightarrow> None
      | Some (Inl e) \<Rightarrow> Some (Inl e)
      | Some (Inr d) \<Rightarrow>
          (case and_then (deserialize_node_properties (take_position d)) (\<lambda>(found_props, d). begin_document found_props d) of
             Inl e \<Rightarrow> Some (Inl e)
           | Inr d \<Rightarrow> deserialize_node n env d))"

text \<open>\<^verbatim>\<open>deserialize\<close> on the text of the input, and on a stream.\<close>

definition deserialize_text :: "nat \<Rightarrow> float_env \<Rightarrow> string \<Rightarrow> (yaml_error + node) option" where
  "deserialize_text n env text =
     map_option (\<lambda>r. and_then r (\<lambda>d. Inr (read_node (d_next d) (d_store d) 0)))
       (deserialize_document n env (deserializer_new (lexer_new text)))"

definition deserialize :: "float_env \<Rightarrow> bytes \<Rightarrow> yaml_error + node" where
  "deserialize env file =
     and_then (read_input True file) (\<lambda>view. the (deserialize_text (2 * length view + 2) env (chars_of view)))"

end
