(* ===== verification/Pw_YamlDocuments.thy ===== *)
theory Pw_YamlDocuments
  imports Pw_YamlParser
begin

text \<open>
  The parser of \<^verbatim>\<open>src/libs/fkyaml/node.hpp\<close> comes to an end on every input.  A step that does not fail has read a token, and so moved
  the lexical analyser on (\<open>took\<close>), or is one of two that only prepare the next one (\<open>idles\<close>); \<open>yields\<close> says what a
  computation ends with if it does not fail, and the lemmas follow the calls of the code.
\<close>

section \<open>The parser comes to an end\<close>

text \<open>What a computation ends with, when it does not fail.\<close>

definition yields :: "('a \<Rightarrow> bool) \<Rightarrow> yaml_error + 'a \<Rightarrow> bool" where
  "yields P m \<longleftrightarrow> (case m of Inl e \<Rightarrow> True | Inr x \<Rightarrow> P x)"

lemma yields_simps [simp]: "yields P (Inl e)" "yields P (Inr x) = P x" "yields P (emit_error msg)"
  by (simp_all add: yields_def emit_error_def)

lemma yields_mono: "yields P m \<Longrightarrow> (\<And>x. P x \<Longrightarrow> Q x) \<Longrightarrow> yields Q m"
  by (cases m) simp_all

lemma yieldsD: "yields P m \<Longrightarrow> m = Inr x \<Longrightarrow> P x"
  by simp

lemma yields_and_then: "yields P m \<Longrightarrow> (\<And>x. P x \<Longrightarrow> yields Q (f x)) \<Longrightarrow> yields Q (and_then m f)"
  by (cases m) simp_all

lemma yields_bind:
  fixes m :: "yaml_error + 'a"
  shows "(\<And>x. m = Inr x \<Longrightarrow> yields Q (f x)) \<Longrightarrow> yields Q (and_then m f)"
  by (cases m) simp_all

lemma and_then_assoc [simp]: "and_then (and_then m f) g = and_then m (\<lambda>x. and_then (f x) g)"
  by (cases m) simp_all

lemma and_then_if [simp]: "and_then (if b then m else m') f = (if b then and_then m f else and_then m' f)"
  by simp

lemma and_then_error [simp]: "and_then (emit_error msg) f = emit_error msg"
  by (simp add: emit_error_def)

text \<open>What does not change the state.\<close>

lemmas yields_value_bind = yields_bind [where 'a = cell] yields_bind [where 'a = parse_context] yields_bind [where 'a = tag_t]
  yields_bind [where 'a = node]

text \<open>Where the parser is in its input.\<close>

type_synonym reading = "lexer \<times> lexical_token"

definition reading :: "deserializer \<Rightarrow> reading" where "reading d = (d_lexer d, cur_token d)"

lemma reading_upd [simp]:
  "reading (e\<lparr>d_store := h\<rparr>) = reading e" "reading (e\<lparr>d_next := a\<rparr>) = reading e"
  "reading (e\<lparr>mp_current_node := a\<rparr>) = reading e" "reading (e\<lparr>m_context_stack := cs\<rparr>) = reading e"
  "reading (e\<lparr>m_flow_token_state := fs\<rparr>) = reading e" "reading (e\<lparr>cur_line := n\<rparr>) = reading e"
  "reading (e\<lparr>cur_indent := n\<rparr>) = reading e" "reading (e\<lparr>m_flow_context_depth := n\<rparr>) = reading e"
  "reading (e\<lparr>m_needs_tag_impl := b\<rparr>) = reading e" "reading (e\<lparr>m_tag_name := s\<rparr>) = reading e"
  "reading (e\<lparr>mp_meta := meta\<rparr>) = reading e"
  by (simp_all add: reading_def)

lemma reading_simple [simp]:
  "reading (take_position e) = reading e" "reading (new_node c e) = reading e" "reading (push_context n i st e) = reading e"
  "reading (drop_below a e) = reading e" "reading (delete_node a e) = reading e" "reading (apply_node_properties e) = reading e"
  by (simp_all add: take_position_def new_node_def push_context_def drop_below_def delete_node_def apply_node_properties_def Let_def)

text \<open>Operations on the nodes and on the stack leave the input and the token alone.\<close>

abbreviation quiet :: "deserializer \<Rightarrow> deserializer \<Rightarrow> bool" where "quiet d d' \<equiv> reading d' = reading d"

lemma yields_calm_bind:
  "yields (quiet d) m \<Longrightarrow> (\<And>x. quiet d x \<Longrightarrow> yields Q (f x)) \<Longrightarrow> yields Q (and_then m f)"
  by (rule yields_and_then)

lemma quiet_stack:
  "yields (quiet d) (assign_current c d)" "yields (quiet d) (add_element c d)" "yields (quiet d) (turn_context n i st d)"
  "yields (quiet d) (pop_context d)" "yields (quiet d) (take_back d)"
  by (auto simp: assign_current_def add_element_def turn_context_def pop_context_def take_back_def Let_def
      intro!: yields_value_bind split: cell.splits list.splits)

lemmas calm_stack = quiet_stack [THEN yields_calm_bind]

lemma quiet_from: "yields (quiet e) m \<Longrightarrow> quiet d e \<Longrightarrow> yields (quiet d) m"
  by simp

lemmas quiet_stack_from [simp] = quiet_stack [THEN quiet_from]

lemma quiet_pops: "yields (quiet d) (pop_contexts n d)"
proof (induction n arbitrary: d)
  case (Suc n)
  show ?case by (auto intro!: calm_stack quiet_from [OF Suc.IH])
qed simp

lemma quiet_moves:
  "yields (quiet d) (move_back n d)" "yields (quiet d) (move_to_root d)" "yields (quiet d) (move_to_indent P d)"
  by (auto simp: move_back_def move_to_root_def move_to_indent_def Let_def
      intro!: yields_value_bind quiet_pops [THEN yields_calm_bind])

lemmas calm_moves = quiet_pops [THEN yields_calm_bind] quiet_moves [THEN yields_calm_bind]
lemmas quiet_moves_from [simp] = quiet_pops [THEN quiet_from] quiet_moves [THEN quiet_from]

lemma quiet_to_explicit_key: "yields (quiet d) (pop_to_explicit_key n d)"
proof (induction n arbitrary: d)
  case (Suc n)
  show ?case by (auto intro!: yields_value_bind calm_stack quiet_from [OF Suc.IH])
qed simp

lemma quiet_add_new_key: "yields (quiet d) (add_new_key env key d)"
  by (auto simp: add_new_key_def Let_def intro!: yields_value_bind calm_stack calm_moves
      split: cell.splits prod.splits bool.splits)

lemma quiet_values: "yields (quiet d) (assign_node_value v d)" "yields (quiet d) (begin_mapping d)"
  by (auto simp: assign_node_value_def begin_mapping_def Let_def intro!: yields_value_bind calm_stack
      split: cell.splits list.splits)

lemmas calm_values = quiet_to_explicit_key [THEN yields_calm_bind] quiet_add_new_key [THEN yields_calm_bind]
  quiet_values [THEN yields_calm_bind]
lemmas quiet_values_from [simp] = quiet_to_explicit_key [THEN quiet_from] quiet_add_new_key [THEN quiet_from]
  quiet_values [THEN quiet_from]

text \<open>
  A token read: the cursor has moved on, or the input is at its end.  An operation that \<open>reads\<close> has read tokens or left the one
  it found.
\<close>

definition took :: "reading \<Rightarrow> reading \<Rightarrow> bool" where
  "took r r' \<longleftrightarrow> (lexer_ok (fst r) \<longrightarrow>
     lexer_ok (fst r') \<and> m_input_buffer (fst r') = m_input_buffer (fst r) \<and> m_cur_itr (fst r) \<le> m_cur_itr (fst r') \<and>
     (token_type (snd r') = END_OF_BUFFER \<or> m_cur_itr (fst r) < m_cur_itr (fst r')))"

definition stays :: "reading \<Rightarrow> reading \<Rightarrow> bool" where
  "stays r r' \<longleftrightarrow> lexer_ok (fst r') = lexer_ok (fst r) \<and> m_input_buffer (fst r') = m_input_buffer (fst r) \<and>
     m_cur_itr (fst r') = m_cur_itr (fst r) \<and> m_last_token_begin_line (fst r') = m_last_token_begin_line (fst r) \<and> snd r' = snd r"

definition reads :: "reading \<Rightarrow> reading \<Rightarrow> bool" where "reads r r' \<longleftrightarrow> stays r r' \<or> took r r'"

lemma stays_refl [simp]: "stays r r" "reads r r"
  by (simp_all add: stays_def reads_def)

lemma took_trans [trans]: "took r s \<Longrightarrow> took s t \<Longrightarrow> took r t" "stays r s \<Longrightarrow> took s t \<Longrightarrow> took r t"
  "took r s \<Longrightarrow> stays s t \<Longrightarrow> took r t" "stays r s \<Longrightarrow> stays s t \<Longrightarrow> stays r t"
  by (auto simp: stays_def took_def)

lemma reads_trans [trans]: "reads r s \<Longrightarrow> reads s t \<Longrightarrow> reads r t" "reads r s \<Longrightarrow> took s t \<Longrightarrow> took r t"
  "took r s \<Longrightarrow> reads s t \<Longrightarrow> took r t" "took r s \<Longrightarrow> reads s t \<Longrightarrow> reads r t"
  by (auto simp: reads_def intro: took_trans)

lemma lexer_ok_state [simp]: "lexer_ok (l\<lparr>m_state := s\<rparr>) = lexer_ok l"
  by (simp add: lexer_ok_def)

lemma reading_lexer [simp]: "reading (d\<lparr>d_lexer := l\<rparr>) = (l, cur_token d)" "(d_lexer d, cur_token d) = reading d"
  by (simp_all add: reading_def)

lemma context_state_stays [simp]:
  "stays r (set_context_state b l, t) = stays r (l, t)" "took r (set_context_state b l, t) = took r (l, t)"
  "stays (set_context_state b l, t) r = stays (l, t) r" "took (set_context_state b l, t) r = took (l, t) r"
  by (simp_all add: stays_def took_def set_context_state_def Let_def)

lemma took_get_token: "yields (\<lambda>d'. took (reading d) (reading d')) (get_token d)"
proof (cases "get_next_token (d_lexer d)")
  case (Inr x)
  obtain t l where x: "x = (t, l)" by (cases x)
  show ?thesis
    using next_token [of "d_lexer d" t l] Inr
    by (auto simp: get_token_def x took_def reading_def simp del: reading_lexer split: if_splits)
qed (simp add: get_token_def)

lemma took_get_token_from [simp]: "reads r (reading d) \<Longrightarrow> yields (\<lambda>d'. took r (reading d')) (get_token d)"
  by (rule yields_mono [OF took_get_token]) (rule reads_trans)

lemma yields_took_bind: "(\<And>x. took (reading d) (reading x) \<Longrightarrow> yields Q (f x)) \<Longrightarrow> yields Q (and_then (get_token d) f)"
  by (rule yields_and_then [OF took_get_token])

lemmas calm = yields_value_bind calm_stack calm_moves calm_values yields_took_bind

lemma yields_pair_bind:
  "yields (\<lambda>(_, y). P y) m \<Longrightarrow> (\<And>b y. P y \<Longrightarrow> yields Q (f (b, y))) \<Longrightarrow> yields Q (and_then m f)"
  by (cases m) (auto simp: split_beta)

lemma property_reads: "yields (\<lambda>(_, d'). reads (reading d) (reading d')) (property d)"
  unfolding property_def by (auto intro!: calm simp: reads_def split: lexical_token_t.splits)

lemma property_tag:
  "\<not> cur_line d < lines_processed d \<Longrightarrow> token_is TAG_PREFIX d \<Longrightarrow> yields (\<lambda>(_, d'). took (reading d) (reading d')) (property d)"
  unfolding property_def by (auto intro!: calm)

lemma node_properties_reads:
  "yields (\<lambda>(_, d'). if cur_line d < lines_processed d then stays (reading d) (reading d') \<and> cur_line d' = lines_processed d'
     else if token_is TAG_PREFIX d then took (reading d) (reading d')
     else \<not> token_is ANCHOR_PREFIX d \<and> stays (reading d) (reading d')) (deserialize_node_properties d)"
proof -
  let ?d = "d\<lparr>m_needs_tag_impl := False\<rparr>"
  consider (stale) "cur_line d < lines_processed d" | (tag) "\<not> cur_line d < lines_processed d" "token_is TAG_PREFIX d"
    | (other) "\<not> cur_line d < lines_processed d" "\<not> token_is TAG_PREFIX d" by blast
  then show ?thesis
  proof cases
    case stale
    then show ?thesis by (simp add: deserialize_node_properties_def property_def take_position_def reading_def stays_def del: reading_lexer)
  next
    case tag
    then have p: "yields (\<lambda>(_, d'). took (reading d) (reading d')) (property ?d)" using property_tag [of ?d] by simp
    have "yields (\<lambda>(_, d'). took (reading d) (reading d')) (deserialize_node_properties d)"
      unfolding deserialize_node_properties_def
      by (rule yields_pair_bind [OF p], auto intro!: yields_pair_bind [OF property_reads]) (blast intro: reads_trans)+
    then show ?thesis using tag by simp
  next
    case other
    then show ?thesis
      by (auto simp: deserialize_node_properties_def property_def split: lexical_token_t.splits)
  qed
qed

lemma node_properties_read:
  "yields (\<lambda>(_, d'). reads (reading d) (reading d')) (deserialize_node_properties d)"
  by (rule yields_mono [OF node_properties_reads]) (auto simp: reads_def split: if_splits)

lemma yields_properties_bind:
  "(\<And>b x. reads (reading d) (reading x) \<Longrightarrow> yields Q (f (b, x))) \<Longrightarrow> yields Q (and_then (deserialize_node_properties d) f)"
  by (rule yields_and_then [OF node_properties_read]) auto

text \<open>The cases of the loop: those that continue it have taken a token.\<close>

lemma explicit_key_took: "yields (\<lambda>(_, d'). took (reading d) (reading d')) (on_explicit_key d)"
  unfolding on_explicit_key_def by (auto intro!: calm simp: Let_def)

lemma value_below_reads: "yields (\<lambda>d'. reads (reading d) (reading d')) (value_below d)"
  unfolding value_below_def
  by (auto intro!: calm yields_properties_bind simp: Let_def) (blast intro: reads_trans)+

lemma explicit_value_quiet: "yields (\<lambda>(_, d'). quiet d d') (explicit_value env d)"
  unfolding explicit_value_def
  by (auto intro!: calm simp: Let_def split: cell.splits prod.splits)

lemma key_separator_took: "yields (\<lambda>(_, d'). took (reading d) (reading d')) (on_key_separator env d)"
  unfolding on_key_separator_def
  by (auto intro!: calm yields_properties_bind yields_and_then [OF value_below_reads] yields_mono [OF explicit_value_quiet]
      simp: Let_def split: list.splits) (blast intro: reads_trans)+

lemma block_sequence_quiet: "yields (\<lambda>(j, d'). quiet d d' \<and> j = Break) (on_block_sequence d)"
  unfolding on_block_sequence_def by (auto intro!: calm simp: Let_def)

lemma flow_begin_stays: "yields (\<lambda>(j, d'). stays (reading d) (reading d') \<and> j = Break) (on_flow_begin node st key_st msg d)"
  unfolding on_flow_begin_def by (auto intro!: calm simp: Let_def)

lemma flow_end_reads:
  "yields (\<lambda>(j, d'). if j = Break then stays (reading d) (reading d') else took (reading d) (reading d'))
     (on_flow_end st key_st outside missing env d)"
  unfolding on_flow_end_def by (auto intro!: calm simp: Let_def split: list.splits)

lemma add_new_key_null:
  "yields (\<lambda>d'. quiet d d' \<and> d_store d' (mp_current_node d') = null_node) (add_new_key env key d)"
  by (auto simp: add_new_key_def Let_def new_node_def push_context_def intro!: yields_value_bind calm_stack calm_moves
      split: cell.splits prod.splits bool.splits)

lemma scalar_reads:
  "yields (\<lambda>(b, d'). if b then took (reading d) (reading d')
     else quiet d d' \<and> (\<exists>kvs. current_node d = Inr (C_map kvs)) \<and> d_store d' (mp_current_node d') = null_node)
   (deserialize_scalar env v d)"
  unfolding deserialize_scalar_def
  by (auto intro!: yields_and_then [OF add_new_key_null] yields_value_bind calm_stack quiet_values [THEN yields_calm_bind]
      yields_took_bind simp: Let_def split: cell.splits list.splits)

text \<open>
  The two passes that take no token, behind which one comes that does: a tag on a line below the one of the last position, and
  a block scalar where a key is expected.
\<close>

definition again :: "deserializer \<Rightarrow> bool" where
  "again d \<longleftrightarrow> token_type (cur_token d) \<in> {ANCHOR_PREFIX, TAG_PREFIX} \<and> cur_line d < lines_processed d
     \<or> token_type (cur_token d) \<in> {BLOCK_LITERAL_SCALAR, BLOCK_FOLDED_SCALAR} \<and> (\<exists>kvs. current_node d = Inr (C_map kvs))"

definition idles :: "deserializer \<Rightarrow> deserializer \<Rightarrow> bool" where
  "idles d d' \<longleftrightarrow> stays (reading d) (reading d') \<and> again d \<and> \<not> again d'"

lemma stays_token: "stays (reading d) (reading d') \<Longrightarrow> cur_token d' = cur_token d \<and> lines_processed d' = lines_processed d"
  by (simp add: stays_def reading_def del: reading_lexer)

lemma quiet_token: "quiet d d' \<Longrightarrow> cur_token d' = cur_token d \<and> d_lexer d' = d_lexer d"
  by (simp add: reading_def del: reading_lexer)

lemma null_current: "d_store d (mp_current_node d) = null_node \<Longrightarrow> current_node d = Inr (C_scalar N_null)"
  by (simp add: current_node_def null_node_def)

lemma properties_step:
  assumes "token_type (cur_token d) \<in> {ANCHOR_PREFIX, TAG_PREFIX}"
  shows "yields (\<lambda>(_, d'). took (reading d) (reading d') \<or> idles d d') (deserialize_node_properties d)"
  by (rule yields_mono [OF node_properties_reads])
    (use assms in \<open>auto simp: idles_def again_def dest: stays_token split: if_splits\<close>)

lemma block_scalar_step:
  assumes "token_type (cur_token d) \<in> {BLOCK_LITERAL_SCALAR, BLOCK_FOLDED_SCALAR}"
  shows "yields (\<lambda>(_, d'). took (reading d) (reading d') \<or> idles d d') (on_block_scalar env d)"
proof -
  let ?d = "apply_node_properties d"
  have c: "current_node ?d = current_node d" by (simp add: current_node_def apply_node_properties_def)
  have "yields (\<lambda>(_, d'). took (reading d) (reading d') \<or> idles d d') (deserialize_scalar env v ?d)" for v
    using assms
    by (intro yields_mono [OF scalar_reads])
      (auto simp: idles_def again_def c dest: null_current quiet_token split: if_splits)
  then show ?thesis
    unfolding on_block_scalar_def by (auto intro!: yields_value_bind yields_and_then)
qed

lemma flow_scalar_step:
  "yields (\<lambda>(j, d'). if j = Break then stays (reading d) (reading d') else took (reading d) (reading d')) (on_flow_scalar env d)"
  unfolding on_flow_scalar_def
  by (auto intro!: yields_value_bind yields_and_then [OF scalar_reads] split: if_splits)

lemma node_step_reads:
  "yields (\<lambda>(j, d'). reads (reading d) (reading d') \<and> (j = Continue \<longrightarrow> took (reading d) (reading d') \<or> idles d d')) (node_step env d)"
proof -
  let ?P = "\<lambda>(j, d'). reads (reading d) (reading d') \<and> (j = Continue \<longrightarrow> took (reading d) (reading d') \<or> idles d d')"
  have k: "yields ?P (on_explicit_key d)" "yields ?P (on_key_separator env d)" "yields ?P (on_block_sequence d)"
    "yields ?P (on_flow_begin node st key_st msg d)" "yields ?P (on_flow_end st key_st outside msg env d)"
    "yields ?P (on_flow_scalar env d)" for node st key_st outside msg
    by (rule yields_mono [OF explicit_key_took] yields_mono [OF key_separator_took] yields_mono [OF block_sequence_quiet]
        yields_mono [OF flow_begin_stays] yields_mono [OF flow_end_reads] yields_mono [OF flow_scalar_step],
        auto simp: reads_def split: if_splits)+
  have p: "yields ?P (and_then (deserialize_node_properties d) (\<lambda>(_, d). Inr (Continue, d)))"
    if "token_type (cur_token d) \<in> {ANCHOR_PREFIX, TAG_PREFIX}"
    by (rule yields_and_then [OF properties_step [OF that]]) (auto simp: reads_def idles_def)
  have b: "yields ?P (on_block_scalar env d)"
    if "token_type (cur_token d) \<in> {BLOCK_LITERAL_SCALAR, BLOCK_FOLDED_SCALAR}"
    by (rule yields_mono [OF block_scalar_step [OF that]]) (auto simp: reads_def idles_def)
  show ?thesis
    unfolding node_step_def on_sequence_flow_begin_def on_mapping_flow_begin_def on_sequence_flow_end_def on_mapping_flow_end_def
    using k p b by (auto split: lexical_token_t.split)
qed

definition weight :: "deserializer \<Rightarrow> nat" where
  "weight d = 2 * (length (m_input_buffer (d_lexer d)) - m_cur_itr (d_lexer d)) + (if again d then 1 else 0)"

lemma node_pass_progress:
  assumes "lexer_ok (d_lexer d)" "node_pass env d = Inr (False, d')"
  shows "lexer_ok (d_lexer d') \<and> weight d' < weight d"
proof -
  have "yields (\<lambda>(b, d'). b \<or> took (reading d) (reading d') \<and> \<not> token_is END_OF_BUFFER d' \<or> idles d d') (node_pass env d)"
    unfolding node_pass_def
    by (rule yields_and_then [OF node_step_reads])
      (auto intro!: yields_took_bind, (blast intro: reads_trans jump.exhaust)+)
  then have "took (reading d) (reading d') \<and> \<not> token_is END_OF_BUFFER d' \<or> idles d d'" using assms(2) by simp
  then show ?thesis
  proof
    assume t: "took (reading d) (reading d') \<and> \<not> token_is END_OF_BUFFER d'"
    then have o: "lexer_ok (d_lexer d')" "m_input_buffer (d_lexer d') = m_input_buffer (d_lexer d)"
      "m_cur_itr (d_lexer d) < m_cur_itr (d_lexer d')"
      using assms(1) by (auto simp: took_def reading_def simp del: reading_lexer)
    moreover from o have "m_cur_itr (d_lexer d') \<le> length (m_input_buffer (d_lexer d))" by (simp add: lexer_ok_def)
    ultimately show ?thesis by (auto simp: weight_def)
  next
    assume "idles d d'"
    then show ?thesis
      using assms(1) by (auto simp: idles_def stays_def weight_def reading_def simp del: reading_lexer)
  qed
qed

lemma node_loop_ends: "lexer_ok (d_lexer d) \<Longrightarrow> weight d < n \<Longrightarrow> node_loop n env d \<noteq> None"
proof (induction n arbitrary: d)
  case (Suc n)
  show ?case
  proof (cases "node_pass env d")
    case (Inr x)
    then show ?thesis
      using node_pass_progress [OF Suc.prems(1), of env] Suc.IH [of "snd x"] Suc.prems(2)
      by (cases x) (auto split: bool.split)
  qed simp
qed simp

lemma node_loop_more: "node_loop n env d = Some r \<Longrightarrow> node_loop (n + k) env d = Some r"
  by (induction n env d rule: node_loop.induct) (auto split: sum.splits prod.splits bool.splits)

lemma set_document_ok [simp]: "lexer_ok (set_document_state b l) = lexer_ok l"
  "m_input_buffer (set_document_state b l) = m_input_buffer l" "m_cur_itr (set_document_state b l) = m_cur_itr l"
  by (simp_all add: set_document_state_def Let_def)

lemma directives_loop_ends:
  assumes "lexer_ok (d_lexer d)" "length (m_input_buffer (d_lexer d)) - m_cur_itr (d_lexer d) < n"
  shows "\<exists>r. directives_loop n b d = Some r \<and>
    yields (\<lambda>d'. lexer_ok (d_lexer d') \<and> m_input_buffer (d_lexer d') = m_input_buffer (d_lexer d)) r"
  using assms
proof (induction n arbitrary: b d)
  case (Suc n)
  show ?case
  proof (cases "get_token d")
    case (Inr e)
    then have e: "lexer_ok (d_lexer e)" "m_input_buffer (d_lexer e) = m_input_buffer (d_lexer d)"
      "token_is END_OF_BUFFER e \<or> m_cur_itr (d_lexer d) < m_cur_itr (d_lexer e)" "m_cur_itr (d_lexer e) \<le> length (m_input_buffer (d_lexer e))"
      using took_get_token [of d] Suc.prems(1) by (auto simp: took_def reading_def lexer_ok_def simp del: reading_lexer)
    let ?P = "\<lambda>d'. lexer_ok (d_lexer d') \<and> m_input_buffer (d_lexer d') = m_input_buffer (d_lexer d)"
    have more: "\<exists>r. directives_loop n b' f = Some r \<and> yields ?P r"
      if "d_lexer f = d_lexer e" "\<not> token_is END_OF_BUFFER e" for b' f
      using Suc.IH [of f b'] Suc.prems(2) that e by (auto simp: that)
    have keeps: "yields (\<lambda>f. d_lexer f = d_lexer e) (version_directive e)" "yields (\<lambda>f. d_lexer f = d_lexer e) (tag_directive e)"
      by (auto simp: version_directive_def tag_directive_def Let_def)
    have directive: "\<exists>r. (case m of Inl e \<Rightarrow> Some (Inl e) | Inr f \<Rightarrow> directives_loop n True f) = Some r \<and> yields ?P r"
      if "yields (\<lambda>f. d_lexer f = d_lexer e) m" "\<not> token_is END_OF_BUFFER e" for m
      using that more by (cases m) auto
    have "\<exists>r. directives_loop (Suc n) b d = Some r \<and> yields ?P r"
      using e directive [OF keeps(1)] directive [OF keeps(2)] more [of e] Inr
      by (cases "token_type (cur_token e)") auto
    then show ?thesis .
  qed simp
qed simp

lemma directives_loop_more: "directives_loop n b d = Some r \<Longrightarrow> directives_loop (n + k) b d = Some r"
proof (induction n arbitrary: b d)
  case (Suc n)
  show ?case
  proof (cases "get_token d")
    case (Inr e)
    have step: "(case m of Inl e \<Rightarrow> Some (Inl e) | Inr f \<Rightarrow> directives_loop (n + k) True f) = Some r"
      if "(case m of Inl e \<Rightarrow> Some (Inl e) | Inr f \<Rightarrow> directives_loop n True f) = Some r" for m
      using that Suc.IH by (cases m) auto
    show ?thesis
      using Suc.prems Inr Suc.IH step by (cases "token_type (cur_token e)") simp_all
  next
    case (Inl a)
    then have "r = Inl a" using Suc.prems by auto
    with Inl show ?thesis by simp
  qed
qed simp

declare node_loop.simps [simp del] directives_loop.simps [simp del]

lemma got_reads [simp]: "reads r (reading d) \<Longrightarrow> yields (\<lambda>d'. reads r (reading d')) (get_token d)"
  by (rule yields_mono [OF took_get_token]) (auto intro: reads_trans simp: reads_def [of "reading d"])

lemma context_state_reads [simp]: "reads r (set_context_state b l, t) = reads r (l, t)"
  by (simp add: reads_def)

lemma begin_document_reads: "yields (\<lambda>d'. reads (reading d) (reading d')) (begin_document b d)"
  unfolding begin_document_def
  by (auto intro!: calm simp: Let_def split: lexical_token_t.split)

lemma reads_ok:
  "reads (reading d) (reading d') \<Longrightarrow> lexer_ok (d_lexer d) \<Longrightarrow>
   lexer_ok (d_lexer d') \<and> m_input_buffer (d_lexer d') = m_input_buffer (d_lexer d)"
  by (auto simp: reads_def stays_def took_def reading_def simp del: reading_lexer)

lemma node_part_ends:
  fixes m :: "yaml_error + deserializer"
  assumes "yields (\<lambda>d. lexer_ok (d_lexer d) \<and> length (m_input_buffer (d_lexer d)) = n) m"
  shows "\<exists>r. (case m of Inl e \<Rightarrow> Some (Inl e) | Inr d \<Rightarrow> deserialize_node (2 * n + 2) env d) = Some r
    \<and> (case m of Inl e \<Rightarrow> Some (Inl e) | Inr d \<Rightarrow> deserialize_node (2 * n + 2 + k) env d) = Some r"
proof (cases m)
  case (Inr d)
  have w: "weight (take_position d) < 2 * n + 2" using assms Inr by (auto simp: weight_def take_position_def)
  moreover have "lexer_ok (d_lexer (take_position d))" using assms Inr by (simp add: take_position_def)
  ultimately obtain r where r: "node_loop (2 * n + 2) env (take_position d) = Some r" using node_loop_ends by blast
  show ?thesis using Inr r node_loop_more [OF r] by (simp add: deserialize_node_def)
qed simp

lemma document_ends:
  assumes "lexer_ok (d_lexer d)" "length (m_input_buffer (d_lexer d)) = n"
  shows "\<exists>r. deserialize_document (2 * n + 2) env d = Some r \<and> deserialize_document (2 * n + 2 + k) env d = Some r"
proof -
  let ?d = "d\<lparr>d_lexer := set_document_state True (d_lexer d)\<rparr>"
  have "length (m_input_buffer (d_lexer ?d)) - m_cur_itr (d_lexer ?d) < 2 * n + 2" "lexer_ok (d_lexer ?d)"
    using assms by auto
  from directives_loop_ends [OF this(2,1), of False]
  obtain r where r: "directives_loop (2 * n + 2) False ?d = Some r"
    and y: "yields (\<lambda>d'. lexer_ok (d_lexer d') \<and> m_input_buffer (d_lexer d') = m_input_buffer (d_lexer d)) r"
    by auto
  note r_more = directives_loop_more [OF r, of k]
  show ?thesis
  proof (cases r)
    case (Inr d0)
    then have d0: "lexer_ok (d_lexer d0)" "length (m_input_buffer (d_lexer d0)) = n" using y assms(2) by auto
    have "yields (\<lambda>d'. reads (reading d0) (reading d'))
        (and_then (deserialize_node_properties (take_position d0)) (\<lambda>(found_props, d). begin_document found_props d))"
      by (rule yields_pair_bind [OF node_properties_read])
        (auto intro: yields_mono [OF begin_document_reads] reads_trans)
    then have "yields (\<lambda>d. lexer_ok (d_lexer d) \<and> length (m_input_buffer (d_lexer d)) = n)
        (and_then (deserialize_node_properties (take_position d0)) (\<lambda>(found_props, d). begin_document found_props d))"
      by (rule yields_mono) (use d0 reads_ok in auto)
    from node_part_ends [OF this, of env k] show ?thesis
      unfolding deserialize_document_def deserialize_directives_def r r_more Inr option.case sum.case .
  next
    case (Inl e)
    then show ?thesis using r r_more by (simp add: deserialize_document_def deserialize_directives_def)
  qed
qed


end
