(* ===== verification/Pw_YamlBlocks.thy ===== *)
theory Pw_YamlBlocks
  imports Pw_YamlDocuments
begin

text \<open>
  The steps of the lexical analyser and of the parser (\<^verbatim>\<open>src/libs/fkyaml/node.hpp\<close>) over a document in block style: which token is read from
  a text, and where, and what one pass of the loop of \<^verbatim>\<open>deserialize_node\<close> does with a key, with the value behind it, with the beginning
  of a sequence and with its elements.
\<close>

section \<open>Tokens of a block document\<close>

lemma next_scan:
  assumes "lexer_ok l"
  defines "p \<equiv> m_cur_itr l + gap_length (input_left l)"
  shows "\<exists>k. (if p < length (m_input_buffer l) then get_next_token l = scan_token k
      else get_next_token l = Inr (\<lparr>token_type = END_OF_BUFFER, token_str = []\<rparr>, k)) \<and>
    m_cur_itr k = p \<and> m_token_begin_itr k = p \<and> m_input_buffer k = m_input_buffer l \<and> m_state k = m_state l"
  using assms(1) unfolding p_def
proof (induction l rule: get_next_token.induct)
  case (1 l)
  let ?b = "begin_token l"
  let ?n = "length (takeWhile (\<lambda>c. blank c \<or> c = newline_char) (input_left l))"
  note b = begin_token_ok [OF "1.prems"(1)]
  note g = gap_length_step [OF refl refl, of l]
  have len: "length (input_left l) = length (m_input_buffer l) - m_cur_itr l" "m_cur_itr l \<le> length (m_input_buffer l)"
    using "1.prems"(1) by (simp_all add: input_left_def lexer_ok_def)
  have left: "input_left ?b = drop ?n (input_left l)" using b(2) by (simp add: input_left_def add.commute)
  show ?case
  proof (cases "m_cur_itr ?b < length (m_input_buffer l)")
    case False
    then have "?n = length (input_left l)" using b(2) len length_takeWhile_le [of _ "input_left l"] by (simp add: le_antisym)
    then show ?thesis using False b g(1) len lexer_pos(5) [of l] by (intro exI [of _ ?b]) (simp add: get_next_token.simps [of l])
  next
    case True
    then have n: "?n < length (input_left l)" using b(2) len by simp
    have c: "char_at ?b (m_cur_itr ?b) = input_left l ! ?n" using True b(2) len by (simp add: char_at_def input_left_def)
    show ?thesis
    proof (cases "input_left l ! ?n = CHR ''#''")
      case False
      then have "get_next_token l = scan_token ?b" using True c by (simp add: get_next_token.simps [of l])
      then show ?thesis using b True g(2) [OF n False] by (intro exI [of _ ?b]) simp
    next
      case comment: True
      let ?k = "skip_until_line_end ?b"
      have e: "get_next_token l = get_next_token ?k" using True c comment by (simp add: get_next_token.simps [of l])
      have ok: "lexer_ok ?k" using skip_line_end_ok [OF b(1)] True by simp
      have ih: "\<not> \<not> m_cur_itr ?b < length (m_input_buffer ?b)" "char_at ?b (m_cur_itr ?b) = CHR ''#''" using True c comment by simp_all
      let ?m = "length (takeWhile (\<lambda>c. c \<noteq> newline_char) (drop ?n (input_left l)))"
      let ?j = "if ?n + ?m < length (input_left l) then ?n + ?m + 1 else ?n + ?m"
      have k: "m_cur_itr ?k = m_cur_itr l + ?j" "m_input_buffer ?k = m_input_buffer l" "m_state ?k = m_state l"
        using b(2,6) len left n takeWhile_left [of "\<lambda>c. c \<noteq> newline_char" ?b]
        by (auto simp: skip_until_line_end_def at_end_def Let_def)
      have "gap_length (input_left l) = ?j + gap_length (drop ?j (input_left l))" using g(3) [OF n comment] by (simp only: Let_def)
      moreover have "input_left ?k = drop ?j (input_left l)" by (simp add: input_left_def k add.commute)
      ultimately have p: "m_cur_itr ?k + gap_length (input_left ?k) = m_cur_itr l + gap_length (input_left l)" by (simp add: k(1))
      show ?thesis using "1.IH" [OF refl ih ok] unfolding p k(2,3) e .
    qed
  qed
qed

text \<open>
  The analyser between two tokens, outside flow: \<open>u\<close> has been read or is to be passed over, and \<open>s\<close> is to come.
\<close>

definition at_text :: "lexer \<Rightarrow> string \<Rightarrow> string \<Rightarrow> bool" where
  "at_text l u s \<longleftrightarrow> lexer_ok l \<and> \<not> in_flow l \<and> m_input_buffer l = u @ s \<and>
     m_cur_itr l + gap_length (input_left l) = length u + gap_length s"

definition line_after :: "string \<Rightarrow> nat" where "line_after u = line_of u (length u)"
definition column_after :: "string \<Rightarrow> nat" where "column_after u = column_of u (length u)"

lemma in_flow_bit: "in_flow l \<longleftrightarrow> bit (m_state l) 0"
  by (simp add: in_flow_def flow_context_bit_def and_one_eq bit_0 odd_iff_mod_2_eq_one)

lemma at_text_state [simp]: "at_text (set_document_state b l) u s = at_text l u s"
proof -
  have two: "\<not> bit (2 :: u32) 0" by (simp add: bit_0)
  have "bit (x AND NOT 2) 0 = bit x 0" "bit (x AND NOT 2 OR 2) 0 = bit x 0" for x :: u32
    using two by (simp_all only: bit_or_iff bit_and_iff bit_not_iff) (auto simp: bit_imp_le_length)
  then have "in_flow (set_document_state b l) = in_flow l"
    unfolding in_flow_bit set_document_state_def document_directive_bit_def Let_def by (cases b) simp_all
  then show ?thesis by (simp add: at_text_def)
qed

lemma at_text_begin: "at_text (lexer_new s) [] s"
  using lexer_new_ok [of s] by (simp add: at_text_def in_flow_def lexer_new_def input_left_def)

lemma at_text_gap: "at_text l u (g @ s) \<Longrightarrow> gap_length (g @ s) = length g + gap_length s \<Longrightarrow> at_text l (u @ g) s"
  by (simp add: at_text_def)

lemma token_at:
  assumes l: "at_text l u (w @ s)" and w: "w \<noteq> []" "gap_length (w @ s) = 0"
    and t: "\<And>k. m_cur_itr k = length u \<Longrightarrow> m_token_begin_itr k = length u \<Longrightarrow> m_input_buffer k = u @ w @ s \<Longrightarrow> \<not> in_flow k \<Longrightarrow>
      \<exists>k'. scan_token k = Inr (t, k') \<and> m_cur_itr k' = length u + length w"
  shows "\<exists>l'. get_next_token l = Inr (t, l') \<and> m_last_token_begin_line l' = line_after u \<and>
    m_last_token_begin_pos l' = column_after u \<and> at_text l' (u @ w) s"
proof -
  have ok: "lexer_ok l" and buf: "m_input_buffer l = u @ w @ s" and p: "m_cur_itr l + gap_length (input_left l) = length u"
    and fl: "\<not> in_flow l" using l w by (auto simp: at_text_def)
  have "length u < length (m_input_buffer l)" using buf w by simp
  with next_scan [OF ok] p obtain k where k: "get_next_token l = scan_token k" "m_cur_itr k = length u"
    "m_token_begin_itr k = length u" "m_input_buffer k = u @ w @ s" "m_state k = m_state l" by (auto simp: buf)
  have "\<not> in_flow k" using fl k(5) by (simp add: in_flow_def)
  from t [OF k(2-4) this] obtain k' where k': "get_next_token l = Inr (t, k')" "m_cur_itr k' = length u + length w"
    using k(1) by auto
  from next_token [OF ok k'(1)] p
  have "lexer_ok k'" "m_input_buffer k' = u @ w @ s" "m_state k' = m_state l" "m_last_token_begin_pos k' = column_of (u @ w @ s) (length u)"
    "m_last_token_begin_line k' = line_of (u @ w @ s) (length u)" by (auto simp: buf)
  then show ?thesis
    using k' fl by (auto simp: at_text_def in_flow_def line_after_def column_after_def line_of_def column_of_def input_left_def)
qed

lemma end_at:
  assumes "at_text l u g" "gap_length g = length g"
  shows "\<exists>l'. get_next_token l = Inr (\<lparr>token_type = END_OF_BUFFER, token_str = []\<rparr>, l')"
  using next_scan [of l] assms by (auto simp: at_text_def)

text \<open>What is passed over before a token, whatever follows.\<close>

definition skips :: "string \<Rightarrow> bool" where "skips g \<longleftrightarrow> (\<forall>s. gap_length (g @ s) = length g + gap_length s)"

lemma gap_first: "\<not> blank c \<Longrightarrow> c \<noteq> newline_char \<Longrightarrow> c \<noteq> CHR ''#'' \<Longrightarrow> gap_length (c # s) = 0"
  by (subst gap_length.simps) simp

lemma gap_nil [simp]: "gap_length [] = 0"
  by (subst gap_length.simps) simp

lemma skips_char: "blank c \<or> c = newline_char \<Longrightarrow> skips [c]"
  unfolding skips_def
  by (subst gap_length.simps, subst gap_length.simps) (auto simp: Let_def split: list.split)

lemma skips_append: "skips g \<Longrightarrow> skips h \<Longrightarrow> skips (g @ h)"
  by (simp add: skips_def)

lemma skips_nil: "skips []"
  by (simp add: skips_def)

lemma skips_spaces: "skips (replicate n (CHR '' ''))"
proof (induction n)
  case (Suc n)
  from skips_append [OF skips_char [of "CHR '' ''"] Suc] show ?case by simp
qed (simp add: skips_nil)

lemma skips_comment: "newline_char \<notin> set c \<Longrightarrow> skips (CHR ''#'' # c @ [newline_char])"
proof -
  assume "newline_char \<notin> set c"
  then have "takeWhile (\<lambda>d. d \<noteq> newline_char) (c @ newline_char # s) = c" for s by (induction c) auto
  then show ?thesis
    unfolding skips_def by (subst gap_length.simps) (auto simp: Let_def blank_def)
qed

definition plain_word :: "string \<Rightarrow> bool" where
  "plain_word w \<longleftrightarrow> w \<noteq> [] \<and> alnum (hd w) \<and> list_all (\<lambda>c. 32 < (of_char c :: nat)) w \<and> last w \<noteq> CHR '':''"

definition plain_stop :: "string \<Rightarrow> bool" where
  "plain_stop s \<longleftrightarrow> (case s of [] \<Rightarrow> True | c # r \<Rightarrow> plain_ends False c r)"

lemma plain_length_word:
  "list_all (\<lambda>c. 32 < (of_char c :: nat)) w \<Longrightarrow> w \<noteq> [] \<longrightarrow> last w \<noteq> CHR '':'' \<Longrightarrow> plain_stop s \<Longrightarrow> plain_length False (w @ s) = length w"
proof (induction w)
  case Nil
  then show ?case by (cases s) (simp_all add: plain_stop_def)
next
  case (Cons c w)
  have "\<not> plain_ends False c (w @ s)"
    using Cons.prems by (cases w) (auto simp: plain_ends_def)
  then show ?case using Cons by (cases "w = []") auto
qed

lemma alnum_plain:
  assumes "alnum c"
  shows "c \<noteq> CHR ''?''" "c \<noteq> CHR '':''" "c \<noteq> CHR '',''" "c \<noteq> CHR ''&''" "c \<noteq> CHR ''*''" "c \<noteq> CHR ''!''" "c \<noteq> CHR ''%''"
    "c \<noteq> CHR ''-''" "c \<noteq> CHR ''[''" "c \<noteq> CHR '']''" "c \<noteq> CHR ''{''" "c \<noteq> CHR ''}''" "c \<noteq> CHR ''@''" "c \<noteq> CHR 0x60"
    "c \<noteq> CHR 0x22" "c \<noteq> CHR 0x27" "c \<noteq> CHR ''.''" "c \<noteq> CHR ''|''" "c \<noteq> CHR ''>''" "c \<noteq> CHR ''#''" "c \<noteq> newline_char" "\<not> blank c"
  using assms by (auto simp: alnum_def blank_def)

lemma char_at_text: "m_input_buffer k = u @ s \<Longrightarrow> m_cur_itr k = length u \<Longrightarrow>
    char_at k (m_cur_itr k) = (if s = [] then CHR 0x00 else hd s) \<and> input_left k = s
    \<and> char_at k (m_cur_itr k + 1) = (if length s < 2 then CHR 0x00 else s ! 1)"
  by (auto simp: char_at_def input_left_def nth_append hd_conv_nth)

lemma word_at:
  assumes "at_text l u (w @ s)" "plain_word w" "plain_stop s"
  shows "\<exists>l'. get_next_token l = Inr (\<lparr>token_type = PLAIN_SCALAR, token_str = w\<rparr>, l') \<and> m_last_token_begin_line l' = line_after u \<and>
    m_last_token_begin_pos l' = column_after u \<and> at_text l' (u @ w) s"
proof (rule token_at [OF assms(1)])
  obtain c w' where w: "w = c # w'" "alnum c" using assms(2) by (cases w) (auto simp: plain_word_def)
  note c = alnum_plain [OF w(2)]
  show "w \<noteq> []" using w by simp
  show "gap_length (w @ s) = 0" using w c by (simp add: gap_first)
  fix k assume k: "m_cur_itr k = length u" "m_token_begin_itr k = length u" "m_input_buffer k = u @ w @ s" "\<not> in_flow k"
  have "scan_token k = scan_plain k"
    using char_at_text [OF k(3,1)] w c unfolding scan_token_def by (simp add: Let_def)
  moreover have "plain_length False (w @ s) = length w"
    using plain_length_word assms(2,3) by (auto simp: plain_word_def)
  moreover have "check_scalar_content w"
    using assms(2) by (auto simp: check_scalar_content_def plain_word_def list_all_iff Let_def)
  ultimately show "\<exists>k'. scan_token k = Inr (\<lparr>token_type = PLAIN_SCALAR, token_str = w\<rparr>, k') \<and> m_cur_itr k' = length u + length w"
    using k by (simp add: scan_plain_def determine_plain_scalar_range_def token_text_def)
qed

lemma colon_at:
  assumes "at_text l u (CHR '':'' # s)" "s \<noteq> []" "hd s = CHR '' '' \<or> hd s = newline_char"
  shows "\<exists>l'. get_next_token l = Inr (\<lparr>token_type = KEY_SEPARATOR, token_str = []\<rparr>, l') \<and> m_last_token_begin_line l' = line_after u \<and>
    m_last_token_begin_pos l' = column_after u \<and> at_text l' (u @ '':'') s"
proof (rule token_at)
  show "at_text l u ('':'' @ s)" "'':'' \<noteq> []" "gap_length ('':'' @ s) = 0" using assms(1) by (simp_all add: gap_first blank_def)
  fix k assume k: "m_cur_itr k = length u" "m_token_begin_itr k = length u" "m_input_buffer k = u @ '':'' @ s" "\<not> in_flow k"
  show "\<exists>k'. scan_token k = Inr (\<lparr>token_type = KEY_SEPARATOR, token_str = []\<rparr>, k') \<and> m_cur_itr k' = length u + length '':''"
    using char_at_text [OF k(3,1)] k(1) assms(2,3)
    by (cases s) (auto simp: scan_token_def indicator_def Let_def)
qed

lemma dash_at:
  assumes "at_text l u (''- '' @ s)"
  shows "\<exists>l'. get_next_token l = Inr (\<lparr>token_type = SEQUENCE_BLOCK_PREFIX, token_str = []\<rparr>, l') \<and> m_last_token_begin_line l' = line_after u \<and>
    m_last_token_begin_pos l' = column_after u \<and> at_text l' (u @ ''- '') s"
proof (rule token_at [OF assms])
  show "''- '' \<noteq> []" "gap_length (''- '' @ s) = 0" by (simp_all add: gap_first blank_def)
  fix k assume k: "m_cur_itr k = length u" "m_token_begin_itr k = length u" "m_input_buffer k = u @ ''- '' @ s" "\<not> in_flow k"
  show "\<exists>k'. scan_token k = Inr (\<lparr>token_type = SEQUENCE_BLOCK_PREFIX, token_str = []\<rparr>, k') \<and> m_cur_itr k' = length u + length ''- ''"
    using char_at_text [OF k(3,1)] k(1) by (simp add: scan_token_def indicator_def Let_def)
qed

section \<open>Passes over a block document\<close>

definition plain_token :: "string \<Rightarrow> lexical_token" where "plain_token w = \<lparr>token_type = PLAIN_SCALAR, token_str = w\<rparr>"
definition colon :: lexical_token where "colon = \<lparr>token_type = KEY_SEPARATOR, token_str = []\<rparr>"
definition dash :: lexical_token where "dash = \<lparr>token_type = SEQUENCE_BLOCK_PREFIX, token_str = []\<rparr>"

lemma token_simps [simp]:
  "token_type (plain_token w) = PLAIN_SCALAR" "token_str (plain_token w) = w" "token_type colon = KEY_SEPARATOR"
  "token_type dash = SEQUENCE_BLOCK_PREFIX"
  by (simp_all add: plain_token_def colon_def dash_def)

text \<open>Outside flow, without a pending tag.\<close>

definition calm_state :: "deserializer \<Rightarrow> bool" where
  "calm_state d \<longleftrightarrow> m_flow_context_depth d = 0 \<and> \<not> m_needs_tag_impl d"

definition str_scalar :: "float_env \<Rightarrow> string \<Rightarrow> bool" where
  "str_scalar env w \<longleftrightarrow> parse_flow (from_chars env) PLAIN_SCALAR TAG_NONE w = Inr (N_str w)"

definition fetch :: "lexical_token \<Rightarrow> lexer \<Rightarrow> deserializer \<Rightarrow> deserializer" where
  "fetch t l d = d\<lparr>cur_token := t, d_lexer := l, cur_line := m_last_token_begin_line l, cur_indent := m_last_token_begin_pos l\<rparr>"

abbreviation map_ctx :: "nat \<Rightarrow> nat \<Rightarrow> addr \<Rightarrow> parse_context" where
  "map_ctx n i a \<equiv> \<lparr>c_line = n, c_indent = i, c_state = BLOCK_MAPPING, p_node = a\<rparr>"
abbreviation value_ctx :: "nat \<Rightarrow> nat \<Rightarrow> addr \<Rightarrow> parse_context" where
  "value_ctx n i a \<equiv> \<lparr>c_line = n, c_indent = i, c_state = MAPPING_VALUE, p_node = a\<rparr>"
abbreviation seq_ctx :: "nat \<Rightarrow> nat \<Rightarrow> addr \<Rightarrow> parse_context" where
  "seq_ctx n i a \<equiv> \<lparr>c_line = n, c_indent = i, c_state = BLOCK_SEQUENCE, p_node = a\<rparr>"

text \<open>The state behind a key: the null node for its value is the current one.\<close>

definition keyed :: "(node \<times> addr) list \<Rightarrow> nat \<Rightarrow> nat \<Rightarrow> addr \<Rightarrow> parse_context list \<Rightarrow> deserializer \<Rightarrow> deserializer" where
  "keyed kvs n i a cs d = d\<lparr>d_store := (d_store d)(a := C_map kvs, d_next d := null_node), d_next := Suc (d_next d), mp_current_node := d_next d,
     m_context_stack := value_ctx n i (d_next d) # map_ctx n i a # cs\<rparr>"

lemma below_scalar [simp]: "h a = C_scalar v \<Longrightarrow> below n h a = []"
  by (cases n) simp_all

lemmas first_key_defs = node_pass_def node_step_def on_flow_scalar_def str_scalar_def deserialize_scalar_def current_node_def
  get_token_def begin_mapping_def turn_context_def assign_current_def add_new_key_def move_to_indent_def move_to_root_def
  move_back_def find_context_def back_context_def push_context_def new_node_def drop_below_def take_position_def Let_def
  null_node_def mapping_node_def calm_state_def apply_node_properties_def tag_type_def

lemma first_key_pass:
  assumes d: "calm_state d" "cur_token d = plain_token k" "str_scalar env k"
    and a: "mp_current_node d = a" "d_store d a = null_node" "a < d_next d"
    and stack: "m_context_stack d = value_ctx n j a # cs \<and> n \<noteq> cur_line d \<and> 0 < cur_indent d \<or> m_context_stack d = [] \<and> cs = [] \<and> cur_indent d = 0"
    and l: "get_next_token (d_lexer d) = Inr (colon, l)" "m_last_token_begin_line l = cur_line d"
  shows "node_pass env d = Inr (False, fetch colon l (keyed [(N_str k, d_next d)] (cur_line d) (cur_indent d) a cs d))"
  using stack
proof
  assume s: "m_context_stack d = value_ctx n j a # cs \<and> n \<noteq> cur_line d \<and> 0 < cur_indent d"
  then show ?thesis
    using d a l
    by (simp add: first_key_defs) (simp add: keyed_def fetch_def fun_upd_twist null_node_def)
next
  assume s: "m_context_stack d = [] \<and> cs = [] \<and> cur_indent d = 0"
  then show ?thesis
    using d a l
    by (simp add: first_key_defs) (simp add: keyed_def fetch_def fun_upd_twist null_node_def)
qed
text \<open>Contexts of finished nodes, deeper than an indentation; they go when a key with that indentation comes.\<close>

definition finished :: "nat \<Rightarrow> parse_context list \<Rightarrow> bool" where
  "finished i junk \<longleftrightarrow> (\<forall>c \<in> set junk. i < c_indent c \<and> c_state c \<in> {BLOCK_MAPPING, BLOCK_SEQUENCE})"

lemma pop_finished:
  "finished i junk \<Longrightarrow> pop_contexts (length junk) (d\<lparr>m_context_stack := junk @ cs\<rparr>) = Inr (d\<lparr>m_context_stack := cs\<rparr>)"
proof (induction junk)
  case (Cons c junk)
  then have "pop_context (d\<lparr>m_context_stack := (c # junk) @ cs\<rparr>) = Inr (d\<lparr>m_context_stack := junk @ cs\<rparr>)"
    by (auto simp: pop_context_def finished_def)
  then show ?case using Cons by (simp add: finished_def)
qed simp

lemma pop_finished_stack:
  "finished i junk \<Longrightarrow> m_context_stack d = junk @ cs \<Longrightarrow> pop_contexts (length junk) d = Inr (d\<lparr>m_context_stack := cs\<rparr>)"
  using pop_finished [where i = i and junk = junk and d = d and cs = cs] by (cases d) auto

lemma move_to_key:
  assumes "m_context_stack d = junk @ map_ctx n (cur_indent d) a # cs" "finished (cur_indent d) junk" "cur_indent d = 0 \<Longrightarrow> cs = []"
    "junk = [] \<Longrightarrow> mp_current_node d = a"
  shows "move_to_indent (\<lambda>c. c_state c = BLOCK_MAPPING) d = Inr (d\<lparr>mp_current_node := a, m_context_stack := map_ctx n (cur_indent d) a # cs\<rparr>)"
proof (cases "junk = []")
  case True
  then show ?thesis
    using assms by (auto simp: move_to_indent_def move_to_root_def move_back_def back_context_def find_context_def)
next
  case False
  then obtain c junk' where j: "junk = c # junk'" by (cases junk) auto
  have bk: "move_back (length junk) d = Inr (d\<lparr>mp_current_node := a, m_context_stack := map_ctx n (cur_indent d) a # cs\<rparr>)"
    using j pop_finished_stack [OF assms(2,1)] by (simp add: move_back_def take_back_def back_context_def)
  show ?thesis
  proof (cases "cur_indent d = 0")
    case True
    then show ?thesis using bk assms(1,3) by (simp add: move_to_indent_def move_to_root_def)
  next
    case i: False
    have "takeWhile (\<lambda>c. \<not> (cur_indent d = c_indent c \<and> c_state c = BLOCK_MAPPING)) (junk @ map_ctx n (cur_indent d) a # cs) = junk"
      using assms(2) by (subst takeWhile_append2) (auto simp: finished_def)
    then have "find_context (\<lambda>c. cur_indent d = c_indent c \<and> c_state c = BLOCK_MAPPING) d = length junk"
      by (simp add: find_context_def assms(1))
    moreover have "cur_indent d \<le> c_indent c" using assms(2) j by (simp add: finished_def)
    ultimately show ?thesis using bk assms(1) i j by (simp add: move_to_indent_def back_context_def)
  qed
qed

lemma next_key_pass:
  assumes d: "calm_state d" "cur_token d = plain_token k" "str_scalar env k"
    and stack: "m_context_stack d = junk @ map_ctx n (cur_indent d) a # cs" "finished (cur_indent d) junk" "cur_indent d = 0 \<Longrightarrow> cs = []"
    "junk = [] \<Longrightarrow> mp_current_node d = a"
    and a: "d_store d a = C_map m" "a < d_next d" "map_emplace (node_less env) (N_str k) (d_next d) m = (m', x, True)"
    and current: "(\<exists>kvs. d_store d (mp_current_node d) = C_map kvs) \<or> (\<exists>xs. d_store d (mp_current_node d) = C_seq xs)"
    and l: "get_next_token (d_lexer d) = Inr (colon, l)" "m_last_token_begin_line l = cur_line d"
  shows "node_pass env d = Inr (False, fetch colon l (keyed m' n (cur_indent d) a cs d))"
  using current
proof
  assume "\<exists>kvs. d_store d (mp_current_node d) = C_map kvs"
  then show ?thesis
    using d a l move_to_key [OF stack]
    by (auto simp: node_pass_def node_step_def on_flow_scalar_def str_scalar_def deserialize_scalar_def current_node_def
      get_token_def add_new_key_def back_context_def push_context_def new_node_def take_position_def Let_def
      null_node_def calm_state_def apply_node_properties_def tag_type_def keyed_def fetch_def fun_upd_twist)
next
  let ?d = "d\<lparr>cur_token := colon, d_lexer := l\<rparr>"
  have m: "move_to_indent (\<lambda>c. c_state c = BLOCK_MAPPING) ?d = Inr (?d\<lparr>mp_current_node := a, m_context_stack := map_ctx n (cur_indent d) a # cs\<rparr>)"
    using move_to_key [of ?d junk n a cs] stack by simp
  assume "\<exists>xs. d_store d (mp_current_node d) = C_seq xs"
  then show ?thesis
    using d a l m
    by (auto simp: node_pass_def node_step_def on_flow_scalar_def str_scalar_def deserialize_scalar_def current_node_def
      get_token_def begin_mapping_def add_new_key_def back_context_def push_context_def new_node_def take_position_def Let_def
      null_node_def calm_state_def apply_node_properties_def tag_type_def keyed_def fetch_def fun_upd_twist)
qed
lemma tag_off: "\<not> m_needs_tag_impl d \<Longrightarrow> d\<lparr>m_needs_tag_impl := False\<rparr> = d"
  by (cases d) simp

lemma properties_none:
  assumes "calm_state d" "token_type (cur_token d) \<noteq> TAG_PREFIX" "token_type (cur_token d) \<noteq> ANCHOR_PREFIX"
  shows "deserialize_node_properties d = Inr (False, take_position d)"
  using assms
  by (cases "token_type (cur_token d)") (auto simp: deserialize_node_properties_def property_def tag_off calm_state_def)

lemma fetch_simps [simp]:
  "cur_token (fetch t l d) = t" "d_lexer (fetch t l d) = l" "calm_state (fetch t l d) = calm_state d"
  "cur_line (fetch t l d) = m_last_token_begin_line l" "cur_indent (fetch t l d) = m_last_token_begin_pos l"
  "d_store (fetch t l d) = d_store d" "d_next (fetch t l d) = d_next d" "mp_current_node (fetch t l d) = mp_current_node d"
  "m_context_stack (fetch t l d) = m_context_stack d" "take_position (fetch t l d) = fetch t l d"
  by (simp_all add: fetch_def calm_state_def take_position_def)

lemma take_fetched: "take_position (d\<lparr>cur_token := t, d_lexer := l\<rparr>) = fetch t l d"
  by (simp add: fetch_def take_position_def)

lemma separator_pass:
  assumes d: "calm_state d" "cur_token d = colon" "current_node d = Inr null_node"
    and stack: "m_context_stack d = c # cs" "c_indent c < cur_indent d"
    and l: "get_next_token (d_lexer d) = Inr (plain_token w, l)" "cur_line d \<le> m_last_token_begin_line l"
  shows "node_pass env d = Inr (False, fetch (plain_token w) l d)"
proof -
  have f: "m_flow_context_depth (fetch (plain_token w) l d) = 0" using d(1) by (simp add: calm_state_def fetch_def)
  have p: "deserialize_node_properties (fetch (plain_token w) l d) = Inr (False, fetch (plain_token w) l d)"
    using d(1) by (subst properties_none) simp_all
  have v: "value_below (fetch (plain_token w) l d) = Inr (fetch (plain_token w) l d)"
    using d(1) by (simp add: value_below_def tag_type_def calm_state_def fetch_def)
  show ?thesis
    using d stack l p v f
    by (auto simp: node_pass_def node_step_def on_key_separator_def get_token_def take_fetched null_node_def sequence_node_def Let_def)
qed

definition seq_begun :: "nat \<Rightarrow> nat \<Rightarrow> addr \<Rightarrow> parse_context list \<Rightarrow> deserializer \<Rightarrow> deserializer" where
  "seq_begun n i b cs d = d\<lparr>d_store := (d_store d)(b := C_seq []), m_context_stack := seq_ctx n i b # cs\<rparr>"

lemma sequence_pass:
  assumes d: "calm_state d" "cur_token d = colon" "mp_current_node d = b" "d_store d b = null_node"
    and stack: "m_context_stack d = value_ctx n i b # cs"
    and l: "get_next_token (d_lexer d) = Inr (dash, l)" "cur_line d < m_last_token_begin_line l" "get_next_token l = Inr (plain_token w, l')"
  shows "node_pass env d = Inr (False, fetch (plain_token w) l' (seq_begun (m_last_token_begin_line l) (m_last_token_begin_pos l) b cs d))"
proof -
  let ?e = "fetch dash l d"
  let ?s = "seq_begun (m_last_token_begin_line l) (m_last_token_begin_pos l) b cs ?e"
  have f: "m_flow_context_depth ?e = 0" using d(1) by (simp add: calm_state_def fetch_def)
  have p: "deserialize_node_properties ?e = Inr (False, ?e)" using d(1) by (subst properties_none) simp_all
  have s: "calm_state ?s" "cur_token ?s = dash" "d_lexer ?s = l" using d(1) by (simp_all add: seq_begun_def calm_state_def fetch_def)
  have p': "deserialize_node_properties (fetch (plain_token w) l' ?s) = Inr (False, fetch (plain_token w) l' ?s)"
    using s(1) by (subst properties_none) simp_all
  have "assign_current sequence_node ?e = Inr (?e\<lparr>d_store := (d_store d)(b := C_seq [])\<rparr>)"
    using d by (simp add: assign_current_def current_node_def drop_below_def Let_def null_node_def sequence_node_def)
  then have v: "value_below ?e = Inr (fetch (plain_token w) l' ?s)"
    using d(1) stack l(3) p' s
    by (simp add: value_below_def tag_type_def calm_state_def fetch_def turn_context_def apply_node_properties_def
      get_token_def take_position_def seq_begun_def)
  have "current_node d = Inr null_node" using d by (simp add: current_node_def null_node_def)
  then have "on_key_separator env d = Inr (Continue, fetch (plain_token w) l' ?s)"
    using d(2) l p v f stack by (auto simp: on_key_separator_def get_token_def take_fetched null_node_def sequence_node_def Let_def)
  moreover have "fetch (plain_token w) l' ?s = fetch (plain_token w) l' (seq_begun (m_last_token_begin_line l) (m_last_token_begin_pos l) b cs d)"
    by (simp add: fetch_def seq_begun_def)
  ultimately show ?thesis using d(2) by (simp add: node_pass_def node_step_def)
qed

lemma value_pass:
  assumes d: "calm_state d" "cur_token d = plain_token w" "str_scalar env w" "mp_current_node d = b" "d_store d b = null_node"
    and stack: "m_context_stack d = value_ctx n i b # map_ctx n i a # cs"
    and l: "get_next_token (d_lexer d) = Inr (t, l)" "token_type t \<noteq> KEY_SEPARATOR"
  shows "node_pass env d = Inr (token_type t = END_OF_BUFFER,
    fetch t l (d\<lparr>d_store := (d_store d)(b := C_scalar (N_str w)), mp_current_node := a, m_context_stack := map_ctx n i a # cs\<rparr>))"
  using d stack l
  by (simp add: node_pass_def node_step_def on_flow_scalar_def str_scalar_def deserialize_scalar_def current_node_def
      get_token_def assign_node_value_def assign_current_def drop_below_def pop_context_def take_back_def back_context_def Let_def
      null_node_def calm_state_def apply_node_properties_def tag_type_def fetch_def take_position_def)

lemma element_pass:
  assumes d: "calm_state d" "cur_token d = plain_token w" "str_scalar env w" "mp_current_node d = b" "d_store d b = C_seq xs" "b < d_next d"
    and l: "get_next_token (d_lexer d) = Inr (t, l)" "token_type t \<noteq> KEY_SEPARATOR"
  shows "node_pass env d = Inr (token_type t = END_OF_BUFFER,
    fetch t l (d\<lparr>d_store := (d_store d)(b := C_seq (xs @ [d_next d]), d_next d := C_scalar (N_str w)), d_next := Suc (d_next d)\<rparr>))"
  using d l
  by (simp add: node_pass_def node_step_def on_flow_scalar_def str_scalar_def deserialize_scalar_def current_node_def
      get_token_def assign_node_value_def add_element_def new_node_def Let_def
      calm_state_def apply_node_properties_def tag_type_def fetch_def take_position_def)

lemma dash_pass:
  assumes d: "calm_state d" "cur_token d = dash" "m_context_stack d = seq_ctx n i b # cs" "cur_indent d = i" "mp_current_node d = b"
    and l: "get_next_token (d_lexer d) = Inr (plain_token w, l)"
  shows "node_pass env d = Inr (False, fetch (plain_token w) l d)"
  using d l
  by (simp add: node_pass_def node_step_def on_block_sequence_def back_context_def find_context_def Let_def
      take_back_def get_token_def fetch_def take_position_def)

end
