(* ===== verification/Pw_YamlReadBack.thy ===== *)
theory Pw_YamlReadBack
  imports Pw_YamlBlocks
begin

text \<open>
  Documents in block style are read back: nested mappings and sequences of plain words, as the ping lists of the program are
  written, with comments and blank lines at the line ends.  The tree of nodes is found again in the store of the
  parser (\<open>rep\<close>); the values of a mapping lie at the addresses behind its own, so that a value that is read leaves the earlier
  ones alone.
\<close>

section \<open>Documents\<close>

datatype block = B_scalar string | B_seq "string list" | B_map "(string \<times> block) list"

abbreviation spaces :: "nat \<Rightarrow> string" where "spaces n \<equiv> replicate n (CHR '' '')"

text \<open>The end of a line: a comment, if any, and lines that are blank or hold a comment.\<close>

type_synonym trailer = "string \<times> (nat \<times> string) list"

definition blank_line :: "nat \<times> string \<Rightarrow> string" where
  "blank_line l = spaces (fst l) @ (if snd l = [] then [] else CHR ''#'' # snd l) @ [newline_char]"

definition line_end :: "trailer \<Rightarrow> string" where
  "line_end t = (if fst t = [] then [] else '' # '' @ fst t) @ newline_char # concat (map blank_line (snd t))"

definition trailer_ok :: "trailer \<Rightarrow> bool" where
  "trailer_ok t \<longleftrightarrow> newline_char \<notin> set (fst t) \<and> list_all (\<lambda>l. newline_char \<notin> set (snd l)) (snd t)"

text \<open>A block document with comments behind its words.\<close>

definition render_element :: "(string \<Rightarrow> trailer) \<Rightarrow> nat \<Rightarrow> string \<Rightarrow> string" where
  "render_element cmt i x = spaces i @ ''- '' @ x @ line_end (cmt x)"

fun render_value :: "(string \<Rightarrow> trailer) \<Rightarrow> nat \<Rightarrow> string \<Rightarrow> block \<Rightarrow> string"
  and render_pairs :: "(string \<Rightarrow> trailer) \<Rightarrow> nat \<Rightarrow> (string \<times> block) list \<Rightarrow> string" where
  "render_value cmt i k (B_scalar s) = '' '' @ s @ line_end (cmt s)"
| "render_value cmt i k (B_seq xs) = line_end (cmt k) @ concat (map (render_element cmt (i + 2)) xs)"
| "render_value cmt i k (B_map kvs) = line_end (cmt k) @ render_pairs cmt (i + 2) kvs"
| "render_pairs cmt i [] = []"
| "render_pairs cmt i ((k, v) # kvs) = spaces i @ k @ '':'' @ render_value cmt i k v @ render_pairs cmt i kvs"

fun block_node :: "float_env \<Rightarrow> block \<Rightarrow> node"
  and put_all :: "float_env \<Rightarrow> (string \<times> block) list \<Rightarrow> (node \<times> node) list \<Rightarrow> (node \<times> node) list" where
  "block_node env (B_scalar s) = N_str s"
| "block_node env (B_seq xs) = N_seq (map N_str xs)"
| "block_node env (B_map kvs) = N_map (put_all env kvs [])"
| "put_all env [] m = m"
| "put_all env ((k, v) # kvs) m = put_all env kvs (fst (map_emplace (node_less env) (N_str k) (block_node env v) m))"

definition word_ok :: "float_env \<Rightarrow> string \<Rightarrow> bool" where "word_ok env w \<longleftrightarrow> plain_word w \<and> str_scalar env w"

fun good_value :: "float_env \<Rightarrow> block \<Rightarrow> bool"
  and good_pairs :: "float_env \<Rightarrow> (string \<times> block) list \<Rightarrow> bool" where
  "good_value env (B_scalar s) = word_ok env s"
| "good_value env (B_seq xs) = (xs \<noteq> [] \<and> list_all (word_ok env) xs)"
| "good_value env (B_map kvs) = (kvs \<noteq> [] \<and> distinct (map fst kvs) \<and> good_pairs env kvs)"
| "good_pairs env [] = True"
| "good_pairs env ((k, v) # kvs) = (word_ok env k \<and> good_value env v \<and> good_pairs env kvs)"

lemma line_after_append [simp]: "line_after (u @ v) = line_after u + line_after v"
  by (simp add: line_after_def line_of_def)

lemma line_after_Cons [simp]: "line_after (c # w) = (if c = newline_char then 1 else 0) + line_after w"
  by (simp add: line_after_def line_of_def)

lemma line_after_none: "newline_char \<notin> set w \<Longrightarrow> line_after w = 0"
  by (simp add: line_after_def line_of_def filter_empty_conv) (metis)

lemma column_after_none: "newline_char \<notin> set w \<Longrightarrow> column_after (u @ w) = column_after u + length w"
proof -
  assume "newline_char \<notin> set w"
  then have "takeWhile (\<lambda>c. c \<noteq> newline_char) (rev w @ r) = rev w @ takeWhile (\<lambda>c. c \<noteq> newline_char) r" for r
    by (intro takeWhile_append2) auto
  then show ?thesis by (simp add: column_after_def column_of_def)
qed

lemma column_after_line [simp]: "w \<noteq> [] \<Longrightarrow> last w = newline_char \<Longrightarrow> column_after w = 0" "column_after [] = 0"
  by (cases w rule: rev_cases) (simp_all add: column_after_def column_of_def)

lemma blank_lines_last: "ls \<noteq> [] \<Longrightarrow> concat (map blank_line ls) \<noteq> [] \<and> last (concat (map blank_line ls)) = newline_char"
  by (induction ls rule: rev_induct) (simp_all add: blank_line_def)

lemma line_end_last [simp]: "line_end t \<noteq> []" "last (line_end t) = newline_char"
proof -
  show "line_end t \<noteq> []" by (simp add: line_end_def)
  show "last (line_end t) = newline_char"
    using blank_lines_last [of "snd t"] by (cases "snd t = []") (simp_all add: line_end_def del: concat_eq_Nil_conv)
qed

lemma line_end_counts [simp]: "0 < line_after (line_end t)" "line_after (line_end t) \<noteq> 0"
  by (auto simp: line_after_def line_of_def line_end_def)

lemma line_end_head [simp]: "hd (line_end t @ s) = CHR '' '' \<or> hd (line_end t @ s) = newline_char"
  by (simp add: line_end_def)

lemma column_after_spaces [simp]: "column_after (u @ spaces n) = column_after u + n" "line_after (spaces n) = 0"
  by (subst column_after_none) (auto simp: line_after_none)

lemma column_elements: "column_after u = 0 \<Longrightarrow> column_after (u @ concat (map (render_element cmt i) xs)) = 0"
proof (induction xs arbitrary: u)
  case (Cons x xs)
  have "column_after (u @ render_element cmt i x) = 0" by (simp add: render_element_def)
  from Cons.IH [OF this] show ?case by simp
qed simp

lemma column_render:
  shows "column_after (u @ render_value cmt i k v) = 0"
    and "column_after u = 0 \<Longrightarrow> column_after (u @ render_pairs cmt i kvs) = 0"
proof (induction cmt i k v and cmt i kvs arbitrary: u and u rule: render_value_render_pairs.induct)
  case (2 cmt i k xs)
  then show ?case using column_elements [of "u @ line_end (cmt k)" cmt "i + 2" xs] by simp
next
  case (3 cmt i k kvs)
  then show ?case using "3.IH" [of "u @ line_end (cmt k)"] by simp
next
  case (5 cmt i k v kvs)
  have "column_after ((u @ spaces i @ k @ '':'') @ render_value cmt i k v) = 0" by (rule "5.IH"(1))
  from "5.IH"(2) [OF this] show ?case by simp
qed simp_all

lemma skips_lines: "list_all (\<lambda>l. newline_char \<notin> set (snd l)) ls \<Longrightarrow> skips (concat (map blank_line ls))"
proof (induction ls)
  case (Cons l ls)
  have "skips ((if snd l = [] then [] else CHR ''#'' # snd l) @ [newline_char])"
    using Cons.prems skips_comment [of "snd l"] by (auto intro: skips_char)
  then have "skips (blank_line l)" unfolding blank_line_def by (rule skips_append [OF skips_spaces])
  then show ?case using Cons by (simp add: skips_append)
qed (simp add: skips_nil)

lemma skips_line_end: "trailer_ok t \<Longrightarrow> skips (line_end t)"
proof -
  assume t: "trailer_ok t"
  have "skips ([CHR '' ''] @ CHR ''#'' # ('' '' @ fst t) @ [newline_char])"
    using t by (intro skips_append skips_char skips_comment) (simp_all add: blank_def trailer_ok_def)
  then have "skips ((if fst t = [] then [] else '' # '' @ fst t) @ [newline_char])" by (simp add: skips_char)
  from skips_append [OF this skips_lines [of "snd t"]] t show ?thesis by (simp add: line_end_def trailer_ok_def)
qed

lemma plain_stop_line_end: "plain_stop (line_end c @ s)"
  by (simp add: plain_stop_def line_end_def plain_ends_def)

section \<open>Nodes in the store\<close>

text \<open>A tree at an address, with all its nodes at addresses from there to a bound.\<close>

inductive rep :: "store \<Rightarrow> nat \<Rightarrow> addr \<Rightarrow> node \<Rightarrow> bool" for h b where
  rep_scalar: "a < b \<Longrightarrow> h a = C_scalar v \<Longrightarrow> rep h b a v"
| rep_seq: "a < b \<Longrightarrow> h a = C_seq xs \<Longrightarrow> list_all2 (\<lambda>x v. a < x \<and> rep h b x v) xs vs \<Longrightarrow> rep h b a (N_seq vs)"
| rep_map: "a < b \<Longrightarrow> h a = C_map kxs \<Longrightarrow> list_all2 (\<lambda>p q. fst p = fst q \<and> a < snd p \<and> rep h b (snd p) (snd q)) kxs kvs \<Longrightarrow> rep h b a (N_map kvs)"
monos list_all2_mono

definition entries :: "store \<Rightarrow> nat \<Rightarrow> addr \<Rightarrow> (node \<times> addr) list \<Rightarrow> (node \<times> node) list \<Rightarrow> bool" where
  "entries h b a kxs kvs \<longleftrightarrow> list_all2 (\<lambda>p q. fst p = fst q \<and> a < snd p \<and> rep h b (snd p) (snd q)) kxs kvs"

lemma rep_frame: "rep h b a v \<Longrightarrow> (\<forall>x. a \<le> x \<and> x < b \<longrightarrow> h' x = h x) \<Longrightarrow> b \<le> b' \<Longrightarrow> rep h' b' a v"
proof (induction rule: rep.induct)
  case (rep_seq a xs vs)
  have "list_all2 (\<lambda>x v. a < x \<and> rep h' b' x v) xs vs"
    by (rule list_all2_mono [OF rep_seq.IH]) (use rep_seq.prems in auto)
  then show ?case using rep_seq by (intro rep.rep_seq) auto
next
  case (rep_map a kxs kvs)
  have "list_all2 (\<lambda>p q. fst p = fst q \<and> a < snd p \<and> rep h' b' (snd p) (snd q)) kxs kvs"
    by (rule list_all2_mono [OF rep_map.IH]) (use rep_map.prems in auto)
  then show ?case using rep_map by (intro rep.rep_map) auto
qed (auto intro: rep.rep_scalar)

lemma entries_frame:
  "entries h b a m mv \<Longrightarrow> (\<forall>x. a < x \<and> x < b \<longrightarrow> h' x = h x) \<Longrightarrow> b \<le> b' \<Longrightarrow> entries h' b' a m mv"
  unfolding entries_def by (erule list_all2_mono) (auto intro!: rep_frame [where h = h and b = b])

lemma rep_read: "rep h b a v \<Longrightarrow> b - a \<le> n \<Longrightarrow> read_node n h a = v"
proof (induction arbitrary: n rule: rep.induct)
  case (rep_scalar a v)
  then show ?case by (cases n) simp_all
next
  case (rep_seq a xs vs)
  then obtain m where n: "n = Suc m" by (cases n) simp_all
  have "list_all2 (\<lambda>x v. read_node m h x = v) xs vs"
    by (rule list_all2_mono [OF rep_seq.IH]) (use rep_seq.prems n in auto)
  then have "map (read_node m h) xs = vs" by (auto simp: list_all2_conv_all_nth intro: nth_equalityI)
  then show ?case using rep_seq.hyps n by simp
next
  case (rep_map a kxs kvs)
  then obtain m where n: "n = Suc m" by (cases n) simp_all
  have "list_all2 (\<lambda>p q. fst p = fst q \<and> read_node m h (snd p) = snd q) kxs kvs"
    by (rule list_all2_mono [OF rep_map.IH]) (use rep_map.prems n in auto)
  then have "map (\<lambda>(k, x). (k, read_node m h x)) kxs = kvs" by (auto simp: list_all2_conv_all_nth split_beta prod_eq_iff intro!: nth_equalityI)
  then show ?case using rep_map.hyps n by simp
qed

text \<open>Keys that are strings are ordered, so that a new one finds its place.\<close>

lemma str_less_total: "a \<noteq> b \<Longrightarrow> str_less a b \<or> str_less b a"
proof (induction a b rule: str_less.induct)
  case (3 c s d t)
  have "c = d" if "\<not> (of_char c :: nat) < of_char d" "\<not> (of_char d :: nat) < of_char c"
    using that by (metis of_char_eq_iff linorder_neqE_nat)
  then show ?case using 3 by auto
next
  case (1 s)
  then show ?case by (cases s) simp_all
qed simp

definition string_keys :: "(node \<times> 'a) list \<Rightarrow> bool" where "string_keys m \<longleftrightarrow> (\<forall>k \<in> fst ` set m. \<exists>s. k = N_str s)"

lemma emplace_new:
  "string_keys m \<Longrightarrow> N_str k \<notin> fst ` set m \<Longrightarrow>
   \<exists>m'. map_emplace (node_less env) (N_str k) v m = (m', v, True) \<and> fst ` set m' = insert (N_str k) (fst ` set m)"
proof (induction m)
  case (Cons p m)
  obtain l w where p: "p = (N_str l, w)" using Cons.prems(1) by (cases p) (auto simp: string_keys_def)
  have "k \<noteq> l" using Cons.prems(2) p by auto
  then have "str_less k l \<or> str_less l k" by (rule str_less_total)
  moreover have "string_keys m" "N_str k \<notin> fst ` set m" using Cons.prems by (auto simp: string_keys_def)
  ultimately show ?case using Cons.IH p by auto
qed (simp add: string_keys_def)

lemma emplace_entries:
  assumes "entries h b a m mv" "a < x" "rep h b x v" "string_keys m" "N_str k \<notin> fst ` set m"
  shows "entries h b a (fst (map_emplace (node_less env) (N_str k) x m)) (fst (map_emplace (node_less env) (N_str k) v mv))"
  using assms
proof (induction m arbitrary: mv)
  case (Cons p m)
  obtain l y where p: "p = (N_str l, y)" using Cons.prems(4) by (cases p) (auto simp: string_keys_def)
  from Cons.prems(1) p obtain w mv' where mv: "mv = (N_str l, w) # mv'" and e: "entries h b a m mv'" "a < y" "rep h b y w"
    by (cases mv) (auto simp: entries_def)
  have "entries h b a (fst (map_emplace (node_less env) (N_str k) x m)) (fst (map_emplace (node_less env) (N_str k) v mv'))"
    by (rule Cons.IH [OF e(1)]) (use Cons.prems in \<open>auto simp: string_keys_def\<close>)
  then show ?case using e Cons.prems(2,3) by (auto simp: p mv entries_def split: prod.splits)
qed (auto simp: entries_def)

lemma entries_keys: "entries h b a m mv \<Longrightarrow> map fst m = map fst mv"
  by (auto simp: entries_def list_all2_conv_all_nth intro!: nth_equalityI)

section \<open>Runs\<close>

inductive runs :: "float_env \<Rightarrow> deserializer \<Rightarrow> deserializer \<Rightarrow> bool" for env where
  runs_refl: "runs env d d"
| runs_step: "\<not> token_is END_OF_BUFFER d \<Longrightarrow> node_pass env d = Inr (token_is END_OF_BUFFER e, e) \<Longrightarrow> runs env e f \<Longrightarrow> runs env d f"

lemma runs_trans: "runs env d e \<Longrightarrow> runs env e f \<Longrightarrow> runs env d f"
  by (induction rule: runs.induct) (auto intro: runs.intros)

lemma runs_loop:
  "runs env d e \<Longrightarrow> \<not> token_is END_OF_BUFFER d \<Longrightarrow> token_is END_OF_BUFFER e \<Longrightarrow> \<exists>n. node_loop n env d = Some (Inr e)"
proof (induction rule: runs.induct)
  case (runs_step d e f)
  show ?case
  proof (cases "token_is END_OF_BUFFER e")
    case True
    with runs_step.hyps(3) have "e = f" by (cases rule: runs.cases) simp_all
    then show ?thesis using runs_step.hyps True by (intro exI [of _ "Suc 0"]) (simp add: node_loop.simps)
  next
    case False
    then obtain n where "node_loop n env e = Some (Inr f)" using runs_step by blast
    then show ?thesis using runs_step.hyps False by (intro exI [of _ "Suc n"]) (simp add: node_loop.simps)
  qed
qed simp

text \<open>The token behind \<open>u\<close>, which begins behind \<open>u1\<close>, and what has been read and what is left then.\<close>

definition follows :: "string \<Rightarrow> string \<Rightarrow> lexical_token \<Rightarrow> string \<Rightarrow> string \<Rightarrow> string \<Rightarrow> bool" where
  "follows u s t u1 v1 s1 \<longleftrightarrow> (\<forall>l. at_text l u s \<longrightarrow> (\<exists>l'. get_next_token l = Inr (t, l') \<and> m_last_token_begin_line l' = line_after u1 \<and>
     m_last_token_begin_pos l' = column_after u1 \<and> (token_type t = END_OF_BUFFER \<or> at_text l' v1 s1)))"

definition reading_at :: "deserializer \<Rightarrow> lexical_token \<Rightarrow> string \<Rightarrow> string \<Rightarrow> string \<Rightarrow> bool" where
  "reading_at d t u1 v1 s1 \<longleftrightarrow> calm_state d \<and> cur_token d = t \<and> cur_line d = line_after u1 \<and> cur_indent d = column_after u1 \<and>
     (token_type t = END_OF_BUFFER \<or> at_text (d_lexer d) v1 s1)"

lemma follows_gap: "skips g \<Longrightarrow> follows (u @ g) s t u1 v1 s1 \<Longrightarrow> follows u (g @ s) t u1 v1 s1"
  unfolding follows_def skips_def using at_text_gap by blast

lemma follows_word: "plain_word w \<Longrightarrow> plain_stop s \<Longrightarrow> follows u (w @ s) (plain_token w) u (u @ w) s"
  unfolding follows_def plain_token_def using word_at by blast

lemma follows_colon: "s \<noteq> [] \<Longrightarrow> hd s = CHR '' '' \<or> hd s = newline_char \<Longrightarrow> follows u ('':'' @ s) colon u (u @ '':'') s"
  unfolding follows_def colon_def using colon_at by auto

lemma follows_dash: "follows u (''- '' @ s) dash u (u @ ''- '') s"
  unfolding follows_def dash_def using dash_at by blast

lemma follows_end: "follows u [] \<lparr>token_type = END_OF_BUFFER, token_str = []\<rparr> u u []"
  unfolding follows_def
proof (intro allI impI)
  fix l assume l: "at_text l u []"
  then obtain l' where l': "get_next_token l = Inr (\<lparr>token_type = END_OF_BUFFER, token_str = []\<rparr>, l')" using end_at by fastforce
  with next_token [of l _ l'] l
  show "\<exists>l'. get_next_token l = Inr (\<lparr>token_type = END_OF_BUFFER, token_str = []\<rparr>, l') \<and> m_last_token_begin_line l' = line_after u \<and>
      m_last_token_begin_pos l' = column_after u \<and>
      (token_type \<lparr>token_type = END_OF_BUFFER, token_str = []\<rparr> = END_OF_BUFFER \<or> at_text l' u [])"
    by (auto simp: at_text_def line_after_def column_after_def)
qed

text \<open>The state when a map at an indentation has got its values: what is above it on the stack is finished.\<close>

definition opened :: "nat \<Rightarrow> nat \<Rightarrow> addr \<Rightarrow> parse_context list \<Rightarrow> deserializer \<Rightarrow> bool" where
  "opened n i a cs d \<longleftrightarrow> (\<exists>junk. m_context_stack d = junk @ map_ctx n i a # cs \<and> finished i junk \<and> (junk = [] \<longrightarrow> mp_current_node d = a) \<and>
     ((\<exists>kvs. d_store d (mp_current_node d) = C_map kvs) \<or> (\<exists>xs. d_store d (mp_current_node d) = C_seq xs)))"

definition value_at :: "nat \<Rightarrow> nat \<Rightarrow> addr \<Rightarrow> addr \<Rightarrow> parse_context list \<Rightarrow> deserializer \<Rightarrow> bool" where
  "value_at n i a b cs d \<longleftrightarrow> mp_current_node d = b \<and> d_store d b = null_node \<and> m_context_stack d = value_ctx n i b # map_ctx n i a # cs \<and>
     d_next d = Suc b \<and> a < b \<and> (\<exists>kvs. d_store d a = C_map kvs) \<and> n \<le> cur_line d \<and> i < cur_indent d"

definition value_done :: "nat \<Rightarrow> nat \<Rightarrow> addr \<Rightarrow> addr \<Rightarrow> parse_context list \<Rightarrow> node \<Rightarrow> deserializer \<Rightarrow> deserializer \<Rightarrow> bool" where
  "value_done n i a b cs v d d' \<longleftrightarrow> opened n i a cs d' \<and> rep (d_store d') (d_next d') b v \<and> (\<forall>x < b. d_store d' x = d_store d x) \<and> b < d_next d'"

lemma scalar_value:
  assumes w: "word_ok env w" "trailer_ok c"
    and d: "reading_at d colon U (U @ '':'') ('' '' @ w @ line_end c @ rst)" "value_at n i a b cs d"
    and t: "follows (U @ '':'' @ '' '' @ w @ line_end c) rst t u1 v1 s1" "token_type t \<noteq> KEY_SEPARATOR"
  shows "\<exists>d'. runs env d d' \<and> reading_at d' t u1 v1 s1 \<and> value_done n i a b cs (N_str w) d d'"
proof -
  have "follows (U @ '':'') ('' '' @ w @ line_end c @ rst) (plain_token w) (U @ '':'' @ '' '') ((U @ '':'' @ '' '') @ w) (line_end c @ rst)"
    using follows_word [of w "line_end c @ rst" "U @ '':'' @ '' ''"] w plain_stop_line_end
    by (intro follows_gap [of "'' ''"]) (auto simp: word_ok_def intro: skips_char)
  then obtain l where l: "get_next_token (d_lexer d) = Inr (plain_token w, l)" "m_last_token_begin_line l = line_after U"
    "at_text l ((U @ '':'' @ '' '') @ w) (line_end c @ rst)"
    using d(1) by (auto simp: follows_def reading_at_def line_after_none)
  let ?e = "fetch (plain_token w) l d"
  have p1: "node_pass env d = Inr (False, ?e)"
    using d l by (intro separator_pass [where c = "value_ctx n i b" and cs = "map_ctx n i a # cs"])
      (auto simp: reading_at_def value_at_def current_node_def null_node_def)
  have "follows ((U @ '':'' @ '' '') @ w) (line_end c @ rst) t u1 v1 s1"
    using t(1) w(2) skips_line_end by (intro follows_gap [of "line_end c"]) auto
  then obtain l' where l': "get_next_token l = Inr (t, l')" "m_last_token_begin_line l' = line_after u1"
    "m_last_token_begin_pos l' = column_after u1" "token_type t = END_OF_BUFFER \<or> at_text l' v1 s1"
    using l(3) by (auto simp: follows_def)
  let ?f = "fetch t l' (?e\<lparr>d_store := (d_store ?e)(b := C_scalar (N_str w)), mp_current_node := a, m_context_stack := map_ctx n i a # cs\<rparr>)"
  have p2: "node_pass env ?e = Inr (token_type t = END_OF_BUFFER, ?f)"
    using d w l' t(2) by (intro value_pass) (auto simp: reading_at_def value_at_def word_ok_def)
  have "runs env d ?f"
    using p1 p2 d(1) by (intro runs_step [of d env ?e] runs_step [of ?e env ?f] runs_refl) (simp_all add: reading_at_def)
  moreover have "reading_at ?f t u1 v1 s1" using l' d(1) by (simp add: reading_at_def calm_state_def fetch_def)
  moreover have "value_done n i a b cs (N_str w) d ?f"
    using d(2) by (auto simp: value_done_def opened_def value_at_def finished_def fetch_def intro: rep_scalar)
  ultimately show ?thesis by blast
qed

definition seq_at :: "nat \<Rightarrow> nat \<Rightarrow> addr \<Rightarrow> parse_context list \<Rightarrow> node list \<Rightarrow> deserializer \<Rightarrow> bool" where
  "seq_at n j b cs vs d \<longleftrightarrow> mp_current_node d = b \<and> m_context_stack d = seq_ctx n j b # cs \<and> b < d_next d \<and>
     (\<exists>ys. d_store d b = C_seq ys \<and> list_all2 (\<lambda>y v. b < y \<and> y < d_next d \<and> d_store d y = C_scalar v) ys vs)"

lemma seq_at_rep: "seq_at n j b cs vs d \<Longrightarrow> rep (d_store d) (d_next d) b (N_seq vs)"
  unfolding seq_at_def by (auto intro!: rep_seq elim!: list_all2_mono intro: rep_scalar)

lemma seq_at_add:
  assumes "seq_at n j b cs vs d" "d_store d b = C_seq xs"
  shows "seq_at n j b cs (vs @ [N_str w]) (fetch t l (d\<lparr>d_store := (d_store d)(b := C_seq (xs @ [d_next d]), d_next d := C_scalar (N_str w)), d_next := Suc (d_next d)\<rparr>))"
proof -
  have "list_all2 (\<lambda>y v. b < y \<and> y < d_next d \<and> d_store d y = C_scalar v) xs vs" "b < d_next d" using assms by (auto simp: seq_at_def)
  then have "list_all2 (\<lambda>y v. b < y \<and> y < Suc (d_next d) \<and>
      ((d_store d)(b := C_seq (xs @ [d_next d]), d_next d := C_scalar (N_str w))) y = C_scalar v) (xs @ [d_next d]) (vs @ [N_str w])"
    by (intro list_all2_appendI) (auto elim!: list_all2_mono)
  then show ?thesis using assms by (simp add: seq_at_def fetch_def)
qed

lemma elements_run:
  assumes "word_ok env x" "list_all (word_ok env) xs" "\<And>w. trailer_ok (cmt w)"
    and "reading_at d (plain_token x) u0 V (line_end (cmt x) @ concat (map (render_element cmt j) xs) @ rst)" "seq_at n j b cs vs d"
    and t: "follows (V @ line_end (cmt x) @ concat (map (render_element cmt j) xs)) rst t u1 v1 s1" "token_type t \<noteq> KEY_SEPARATOR"
  shows "\<exists>d'. runs env d d' \<and> reading_at d' t u1 v1 s1 \<and> seq_at n j b cs (vs @ map N_str (x # xs)) d' \<and> (\<forall>z < b. d_store d' z = d_store d z)"
  using assms
proof (induction xs arbitrary: x d u0 V vs)
  case Nil
  then obtain ys where ys: "d_store d b = C_seq ys" "b < d_next d" by (auto simp: seq_at_def)
  have "follows V (line_end (cmt x) @ rst) t u1 v1 s1"
    using Nil.prems by (intro follows_gap [of "line_end (cmt x)"] skips_line_end) simp_all
  then obtain l where l: "get_next_token (d_lexer d) = Inr (t, l)" "m_last_token_begin_line l = line_after u1"
    "m_last_token_begin_pos l = column_after u1" "token_type t = END_OF_BUFFER \<or> at_text l v1 s1"
    using Nil.prems(4) by (auto simp: follows_def reading_at_def)
  let ?f = "fetch t l (d\<lparr>d_store := (d_store d)(b := C_seq (ys @ [d_next d]), d_next d := C_scalar (N_str x)), d_next := Suc (d_next d)\<rparr>)"
  have p: "node_pass env d = Inr (token_type t = END_OF_BUFFER, ?f)"
    using Nil.prems ys l by (intro element_pass) (auto simp: reading_at_def seq_at_def word_ok_def)
  have "runs env d ?f"
    using p Nil.prems(4) by (intro runs_step [of d env ?f] runs_refl) (simp_all add: reading_at_def)
  moreover have "reading_at ?f t u1 v1 s1" using l Nil.prems(4) by (simp add: reading_at_def calm_state_def fetch_def)
  moreover have "seq_at n j b cs (vs @ [N_str x]) ?f" by (rule seq_at_add [OF Nil.prems(5) ys(1)])
  moreover have "\<forall>z < b. d_store ?f z = d_store d z" using ys(2) by simp
  ultimately show ?case by auto
next
  case (Cons y xs)
  then obtain ys where ys: "d_store d b = C_seq ys" "b < d_next d" by (auto simp: seq_at_def)
  let ?rest = "concat (map (render_element cmt j) xs) @ rst"
  let ?U = "V @ line_end (cmt x) @ spaces j"
  have col: "column_after ?U = j" using column_after_spaces(1) [of "V @ line_end (cmt x)" j] by simp
  have "follows V ((line_end (cmt x) @ spaces j) @ ''- '' @ y @ line_end (cmt y) @ ?rest) dash ?U (?U @ ''- '') (y @ line_end (cmt y) @ ?rest)"
    using follows_dash [of ?U "y @ line_end (cmt y) @ ?rest"] Cons.prems(3)
    by (intro follows_gap [of "line_end (cmt x) @ spaces j"] skips_append skips_line_end skips_spaces) simp_all
  then obtain l where l: "get_next_token (d_lexer d) = Inr (dash, l)" "m_last_token_begin_pos l = j"
    "m_last_token_begin_line l = line_after ?U" "at_text l (?U @ ''- '') (y @ line_end (cmt y) @ ?rest)"
    using Cons.prems(4) col by (auto simp: follows_def reading_at_def render_element_def [of cmt j y])
  let ?e = "fetch dash l (d\<lparr>d_store := (d_store d)(b := C_seq (ys @ [d_next d]), d_next d := C_scalar (N_str x)), d_next := Suc (d_next d)\<rparr>)"
  have p1: "node_pass env d = Inr (False, ?e)"
    using Cons.prems ys l element_pass [of d x env b ys dash l] by (auto simp: reading_at_def seq_at_def word_ok_def)
  have s: "seq_at n j b cs (vs @ [N_str x]) ?e" by (rule seq_at_add [OF Cons.prems(5) ys(1)])
  have "follows (?U @ ''- '') (y @ line_end (cmt y) @ ?rest) (plain_token y) (?U @ ''- '') ((?U @ ''- '') @ y) (line_end (cmt y) @ ?rest)"
    using Cons.prems(2) by (intro follows_word plain_stop_line_end) (simp_all add: word_ok_def)
  then obtain l' where l': "get_next_token l = Inr (plain_token y, l')" "m_last_token_begin_line l' = line_after (?U @ ''- '')"
    "m_last_token_begin_pos l' = column_after (?U @ ''- '')" "at_text l' ((?U @ ''- '') @ y) (line_end (cmt y) @ ?rest)"
    using l(4) unfolding follows_def by auto
  let ?f = "fetch (plain_token y) l' ?e"
  have p2: "node_pass env ?e = Inr (False, ?f)"
    using s Cons.prems(4) l(2) l'(1) by (intro dash_pass [where n = n and i = j and b = b and cs = cs])
      (auto simp: seq_at_def reading_at_def calm_state_def fetch_def)
  have r: "reading_at ?f (plain_token y) (?U @ ''- '') ((?U @ ''- '') @ y) (line_end (cmt y) @ ?rest)"
    using l' Cons.prems(4) by (simp add: reading_at_def calm_state_def fetch_def)
  have s': "seq_at n j b cs (vs @ [N_str x]) ?f" using s by (simp add: seq_at_def)
  have f: "follows (((?U @ ''- '') @ y) @ line_end (cmt y) @ concat (map (render_element cmt j) xs)) rst t u1 v1 s1"
    using Cons.prems(6) by (simp add: render_element_def [of cmt j y])
  have "word_ok env y" "list_all (word_ok env) xs" using Cons.prems(2) by simp_all
  from Cons.IH [OF this Cons.prems(3) r s' f Cons.prems(7)] obtain d' where
    d': "runs env ?f d'" "reading_at d' t u1 v1 s1" "seq_at n j b cs ((vs @ [N_str x]) @ map N_str (y # xs)) d'"
      "\<forall>z < b. d_store d' z = d_store ?f z" by blast
  have "runs env d d'"
    using p1 p2 d'(1) Cons.prems(4) by (intro runs_step [of d env ?e] runs_step [of ?e env ?f]) (simp_all add: reading_at_def)
  then show ?case using d' ys(2) by (intro exI [of _ d']) auto
qed

lemma seq_value:
  assumes w: "xs \<noteq> []" "list_all (word_ok env) xs" "\<And>w. trailer_ok (cmt w)"
    and d: "reading_at d colon U (U @ '':'') (render_value cmt i k (B_seq xs) @ rst)" "value_at n i a b cs d"
    and t: "follows (U @ '':'' @ render_value cmt i k (B_seq xs)) rst t u1 v1 s1" "token_type t \<noteq> KEY_SEPARATOR"
  shows "\<exists>d'. runs env d d' \<and> reading_at d' t u1 v1 s1 \<and> value_done n i a b cs (N_seq (map N_str xs)) d d'"
proof -
  obtain x xs' where xs: "xs = x # xs'" using w(1) by (cases xs) auto
  obtain j where j: "j = i + 2" by simp
  have tx: "render_value cmt i k (B_seq xs) = line_end (cmt k) @ spaces j @ ''- '' @ x @ line_end (cmt x) @ concat (map (render_element cmt j) xs')"
    by (simp add: xs j render_element_def [of cmt _ x])
  let ?rest = "line_end (cmt x) @ concat (map (render_element cmt j) xs') @ rst"
  let ?V = "U @ '':'' @ line_end (cmt k) @ spaces j"
  note dx = d(1) [unfolded tx append_assoc append_Cons append_Nil] and t1 = t(1) [unfolded tx append_assoc append_Cons append_Nil]
  have col: "column_after ?V = j" using column_after_spaces(1) [of "U @ '':'' @ line_end (cmt k)" j] by simp
  have nl: "line_after U < line_after ?V" by simp
  have "follows (U @ '':'') ((line_end (cmt k) @ spaces j) @ ''- '' @ x @ ?rest) dash ?V (?V @ ''- '') (x @ ?rest)"
    using follows_dash [of ?V "x @ ?rest"] w(3)
    by (intro follows_gap [of "line_end (cmt k) @ spaces j"] skips_append skips_line_end skips_spaces) simp_all
  then obtain l where l: "get_next_token (d_lexer d) = Inr (dash, l)" "m_last_token_begin_pos l = j"
    "m_last_token_begin_line l = line_after ?V" "at_text l (?V @ ''- '') (x @ ?rest)"
    using dx col by (auto simp: follows_def reading_at_def)
  have "follows (?V @ ''- '') (x @ ?rest) (plain_token x) (?V @ ''- '') ((?V @ ''- '') @ x) ?rest"
    using w(2) by (intro follows_word plain_stop_line_end) (simp_all add: word_ok_def xs)
  then obtain l' where l': "get_next_token l = Inr (plain_token x, l')" "m_last_token_begin_line l' = line_after (?V @ ''- '')"
    "m_last_token_begin_pos l' = column_after (?V @ ''- '')" "at_text l' ((?V @ ''- '') @ x) ?rest"
    using l(4) unfolding follows_def by auto
  let ?e = "fetch (plain_token x) l' (seq_begun (m_last_token_begin_line l) j b (map_ctx n i a # cs) d)"
  have p: "node_pass env d = Inr (False, ?e)"
    using d l l'(1) nl sequence_pass [of d b n i "map_ctx n i a # cs" l x l' env]
    by (simp add: reading_at_def value_at_def)
  have r: "reading_at ?e (plain_token x) (?V @ ''- '') ((?V @ ''- '') @ x) ?rest"
    using l' d(1) by (simp add: reading_at_def calm_state_def fetch_def seq_begun_def)
  have s: "seq_at (m_last_token_begin_line l) j b (map_ctx n i a # cs) [] ?e"
    using d(2) by (simp add: seq_at_def value_at_def fetch_def seq_begun_def)
  have wx: "word_ok env x" "list_all (word_ok env) xs'" using w(2) xs by simp_all
  have fx: "follows (((?V @ ''- '') @ x) @ line_end (cmt x) @ concat (map (render_element cmt j) xs')) rst t u1 v1 s1"
    using t1 by simp
  from elements_run [OF wx w(3) r s fx t(2)] obtain d' where d': "runs env ?e d'" "reading_at d' t u1 v1 s1"
      "seq_at (m_last_token_begin_line l) j b (map_ctx n i a # cs) (map N_str xs) d'" "\<forall>z < b. d_store d' z = d_store ?e z"
    unfolding append_Nil xs [symmetric] by blast
  have "runs env d d'" using p d'(1) d(1) by (intro runs_step [of d env ?e]) (simp_all add: reading_at_def)
  moreover have "value_done n i a b cs (N_seq (map N_str xs)) d d'"
    unfolding value_done_def
  proof (intro conjI)
    show "opened n i a cs d'"
      using d'(3) unfolding opened_def
      by (intro exI [of _ "[seq_ctx (m_last_token_begin_line l) j b]"]) (auto simp: seq_at_def finished_def j)
    show "rep (d_store d') (d_next d') b (N_seq (map N_str xs))" by (rule seq_at_rep [OF d'(3)])
    show "\<forall>x < b. d_store d' x = d_store d x" using d'(4) by (simp add: seq_begun_def)
    show "b < d_next d'" using d'(3) by (simp add: seq_at_def)
  qed
  ultimately show ?thesis using d'(2) by blast
qed

text \<open>The first or the next key of a map is what the parser is at.\<close>

definition key_at :: "float_env \<Rightarrow> nat \<Rightarrow> nat \<Rightarrow> addr \<Rightarrow> parse_context list \<Rightarrow> (node \<times> node) list \<Rightarrow> string \<Rightarrow> deserializer \<Rightarrow> bool" where
  "key_at env n i a cs mv k d \<longleftrightarrow> a < d_next d \<and> n \<le> cur_line d \<and>
     (\<exists>m. entries (d_store d) (d_next d) a m mv \<and> string_keys m \<and>
       (\<forall>l. get_next_token (d_lexer d) = Inr (colon, l) \<and> m_last_token_begin_line l = cur_line d \<longrightarrow>
          node_pass env d = Inr (False, fetch colon l (keyed (fst (map_emplace (node_less env) (N_str k) (d_next d) m)) n i a cs d))))"

lemma first_key_at:
  assumes "reading_at d (plain_token k) u1 v1 s1" "word_ok env k" "mp_current_node d = a" "d_store d a = null_node" "a < d_next d"
    and "m_context_stack d = value_ctx n j a # cs \<and> n \<noteq> cur_line d \<and> 0 < cur_indent d \<or> m_context_stack d = [] \<and> cs = [] \<and> cur_indent d = 0"
  shows "key_at env (cur_line d) (cur_indent d) a cs [] k d"
  unfolding key_at_def
  using first_key_pass [OF _ _ _ assms(3-6)] assms
  by (intro conjI exI [of _ "[]"]) (auto simp: entries_def string_keys_def reading_at_def word_ok_def)

lemma next_key_at:
  assumes "reading_at d (plain_token k) u1 v1 s1" "word_ok env k" "opened n (cur_indent d) a cs d" "cur_indent d = 0 \<longrightarrow> cs = []" "n \<le> cur_line d"
    and "d_store d a = C_map m" "a < d_next d" "entries (d_store d) (d_next d) a m mv" "string_keys m" "N_str k \<notin> fst ` set m"
  shows "key_at env n (cur_indent d) a cs mv k d"
proof -
  from assms(3) obtain junk where j: "m_context_stack d = junk @ map_ctx n (cur_indent d) a # cs" "finished (cur_indent d) junk"
    "junk = [] \<longrightarrow> mp_current_node d = a"
    "(\<exists>kvs. d_store d (mp_current_node d) = C_map kvs) \<or> (\<exists>xs. d_store d (mp_current_node d) = C_seq xs)"
    unfolding opened_def by blast
  from emplace_new [OF assms(9,10)] obtain m' where m': "map_emplace (node_less env) (N_str k) (d_next d) m = (m', d_next d, True)" by blast
  have "node_pass env d = Inr (False, fetch colon l (keyed m' n (cur_indent d) a cs d))"
    if "get_next_token (d_lexer d) = Inr (colon, l)" "m_last_token_begin_line l = cur_line d" for l
    using assms j m' that by (intro next_key_pass) (auto simp: reading_at_def word_ok_def)
  then show ?thesis
    unfolding key_at_def using assms m' by auto
qed

definition value_runs :: "float_env \<Rightarrow> (string \<Rightarrow> trailer) \<Rightarrow> nat \<Rightarrow> string \<Rightarrow> block \<Rightarrow> bool" where
  "value_runs env cmt i k v \<longleftrightarrow> (\<forall>d U rst t u1 v1 s1 n a b cs.
     reading_at d colon U (U @ '':'') (render_value cmt i k v @ rst) \<longrightarrow> value_at n i a b cs d \<longrightarrow>
     follows (U @ '':'' @ render_value cmt i k v) rst t u1 v1 s1 \<longrightarrow> token_type t \<noteq> KEY_SEPARATOR \<longrightarrow>
     (\<exists>d'. runs env d d' \<and> reading_at d' t u1 v1 s1 \<and> value_done n i a b cs (block_node env v) d d'))"

definition pairs_done :: "nat \<Rightarrow> nat \<Rightarrow> addr \<Rightarrow> parse_context list \<Rightarrow> (node \<times> node) list \<Rightarrow> deserializer \<Rightarrow> deserializer \<Rightarrow> bool" where
  "pairs_done n i a cs mv d d' \<longleftrightarrow> opened n i a cs d' \<and>
     (\<exists>m. d_store d' a = C_map m \<and> string_keys m \<and> entries (d_store d') (d_next d') a m mv) \<and>
     (\<forall>x < d_next d. x \<noteq> a \<longrightarrow> d_store d' x = d_store d x) \<and> a < d_next d \<and> d_next d < d_next d'"

definition put :: "float_env \<Rightarrow> string \<Rightarrow> node \<Rightarrow> (node \<times> node) list \<Rightarrow> (node \<times> node) list" where
  "put env k v m = fst (map_emplace (node_less env) (N_str k) v m)"

lemma line_after_word: "plain_word w \<Longrightarrow> line_after w = 0 \<and> column_after (u @ w) = column_after u + length w \<and> 0 < length w"
  by (auto simp: plain_word_def list_all_iff intro!: line_after_none column_after_none)

lemma pair_run:
  assumes v: "value_runs env cmt i k v" and k: "word_ok env k" "N_str k \<notin> fst ` set mv"
    and d: "reading_at d (plain_token k) (u @ spaces i) (u @ spaces i @ k) ('':'' @ render_value cmt i k v @ rst)" "column_after u = 0"
    "key_at env n i a cs mv k d"
    and t: "follows (u @ spaces i @ k @ '':'' @ render_value cmt i k v) rst t u1 v1 s1" "token_type t \<noteq> KEY_SEPARATOR"
    and hd: "render_value cmt i k v \<noteq> []" "hd (render_value cmt i k v) = CHR '' '' \<or> hd (render_value cmt i k v) = newline_char"
  shows "\<exists>d'. runs env d d' \<and> reading_at d' t u1 v1 s1 \<and> pairs_done n i a cs (put env k (block_node env v) mv) d d'"
proof -
  let ?U = "u @ spaces i @ k"
  let ?s = "render_value cmt i k v @ rst"
  have "follows ?U ('':'' @ ?s) colon ?U (?U @ '':'') ?s" using hd by (intro follows_colon) simp_all
  moreover have kl: "line_after ?U = line_after (u @ spaces i)" "column_after ?U = i + length k" "0 < length k"
    using k(1) d(2) line_after_word [of k "u @ spaces i"] by (simp_all add: word_ok_def)
  ultimately obtain l where l: "get_next_token (d_lexer d) = Inr (colon, l)" "m_last_token_begin_line l = cur_line d"
    "m_last_token_begin_pos l = i + length k" "at_text l (?U @ '':'') ?s"
    using d(1) by (auto simp: follows_def reading_at_def)
  from d(3) l obtain m where m: "a < d_next d" "n \<le> cur_line d" "entries (d_store d) (d_next d) a m mv" "string_keys m"
    "node_pass env d = Inr (False, fetch colon l (keyed (fst (map_emplace (node_less env) (N_str k) (d_next d) m)) n i a cs d))"
    unfolding key_at_def by blast
  have fresh: "N_str k \<notin> fst ` set m" using k(2) entries_keys [OF m(3)] by (metis image_set)
  from emplace_new [OF m(4) fresh] obtain m' where m': "map_emplace (node_less env) (N_str k) (d_next d) m = (m', d_next d, True)"
    "fst ` set m' = insert (N_str k) (fst ` set m)" by blast
  let ?b = "d_next d"
  let ?e = "fetch colon l (keyed m' n i a cs d)"
  have e: "reading_at ?e colon ?U (?U @ '':'') (render_value cmt i k v @ rst)"
    using d(1) l kl by (simp add: reading_at_def calm_state_def fetch_def keyed_def)
  have va: "value_at n i a ?b cs ?e"
    using m(1,2) kl l by (simp add: value_at_def keyed_def)
  have "follows (?U @ '':'' @ render_value cmt i k v) rst t u1 v1 s1" using t(1) by simp
  with v e va t(2) obtain d' where d': "runs env ?e d'" "reading_at d' t u1 v1 s1" "value_done n i a ?b cs (block_node env v) ?e d'"
    unfolding value_runs_def by blast
  have "runs env d d'" using m(5) m' d'(1) d(1) by (intro runs_step [of d env ?e]) (simp_all add: reading_at_def)
  moreover have "pairs_done n i a cs (put env k (block_node env v) mv) d d'"
  proof -
    from d'(3) have o: "opened n i a cs d'" "rep (d_store d') (d_next d') ?b (block_node env v)" "\<forall>x < ?b. d_store d' x = d_store ?e x" "?b < d_next d'"
      by (simp_all add: value_done_def)
    have a: "d_store d' a = C_map m'" using o(3) m(1) by (simp add: keyed_def)
    have "\<forall>x. a < x \<and> x < ?b \<longrightarrow> d_store d' x = d_store d x" using o(3) by (simp add: keyed_def)
    then have "entries (d_store d') (d_next d') a m mv" using entries_frame [OF m(3)] o(4) by simp
    from emplace_entries [OF this m(1) o(2) m(4) fresh, of env]
    have "entries (d_store d') (d_next d') a m' (put env k (block_node env v) mv)" by (simp add: m' put_def)
    moreover have "string_keys m'" using m(4) m'(2) by (auto simp: string_keys_def)
    moreover have "\<forall>x < ?b. x \<noteq> a \<longrightarrow> d_store d' x = d_store d x" using o(3) by (simp add: keyed_def)
    ultimately show ?thesis using o(1,4) a m(1) by (auto simp: pairs_done_def)
  qed
  ultimately show ?thesis using d'(2) by blast
qed

lemma value_head: "good_value env v \<Longrightarrow>
  render_value cmt i k v \<noteq> [] \<and> (hd (render_value cmt i k v) = CHR '' '' \<or> hd (render_value cmt i k v) = newline_char)"
  by (cases v) (use line_end_head in auto)

lemma put_all_put: "put_all env ((k, v) # kvs) m = put_all env kvs (put env k (block_node env v) m)"
  by (simp add: put_def)

lemma follows_key: "word_ok env k \<Longrightarrow> hd s = CHR '' '' \<or> hd s = newline_char \<Longrightarrow> s \<noteq> [] \<Longrightarrow>
   follows u (spaces i @ k @ '':'' @ s) (plain_token k) (u @ spaces i) (u @ spaces i @ k) ('':'' @ s)"
  using follows_word [of k "'':'' @ s" "u @ spaces i"]
  by (intro follows_gap [of "spaces i"] skips_spaces) (cases s; auto simp: word_ok_def plain_stop_def plain_ends_def)

definition pairs_run :: "float_env \<Rightarrow> (string \<Rightarrow> trailer) \<Rightarrow> nat \<Rightarrow> string \<Rightarrow> block \<Rightarrow> (string \<times> block) list \<Rightarrow> bool" where
  "pairs_run env cmt i k v kvs \<longleftrightarrow> (\<forall>d u rst t u1 v1 s1 n a cs mv.
     reading_at d (plain_token k) (u @ spaces i) (u @ spaces i @ k) ('':'' @ render_value cmt i k v @ render_pairs cmt i kvs @ rst) \<longrightarrow>
     column_after u = 0 \<longrightarrow> key_at env n i a cs mv k d \<longrightarrow> (i = 0 \<longrightarrow> cs = []) \<longrightarrow>
     (\<forall>x \<in> insert k (fst ` set kvs). N_str x \<notin> fst ` set mv) \<longrightarrow>
     follows (u @ render_pairs cmt i ((k, v) # kvs)) rst t u1 v1 s1 \<longrightarrow> token_type t \<noteq> KEY_SEPARATOR \<longrightarrow>
     (\<exists>d'. runs env d d' \<and> reading_at d' t u1 v1 s1 \<and> pairs_done n i a cs (put_all env ((k, v) # kvs) mv) d d'))"

lemma emplace_keys: "string_keys m \<Longrightarrow> N_str k \<notin> fst ` set m \<Longrightarrow> fst ` set (put env k x m) = insert (N_str k) (fst ` set m)"
  using emplace_new [of m k env x] by (metis fst_conv put_def)

lemma pairs_run_one:
  assumes "value_runs env cmt i k v" "word_ok env k" "good_value env v"
  shows "pairs_run env cmt i k v []"
  unfolding pairs_run_def
proof (intro allI impI)
  fix d u rst t u1 v1 s1 n a cs mv
  assume d: "reading_at d (plain_token k) (u @ spaces i) (u @ spaces i @ k) ('':'' @ render_value cmt i k v @ render_pairs cmt i [] @ rst)"
    and u: "column_after u = 0" and key: "key_at env n i a cs mv k d"
    and fresh: "\<forall>x \<in> insert k (fst ` set ([] :: (string \<times> block) list)). N_str x \<notin> fst ` set mv"
    and t: "follows (u @ render_pairs cmt i [(k, v)]) rst t u1 v1 s1" "token_type t \<noteq> KEY_SEPARATOR"
  have "N_str k \<notin> fst ` set mv" "reading_at d (plain_token k) (u @ spaces i) (u @ spaces i @ k) ('':'' @ render_value cmt i k v @ rst)"
    "follows (u @ spaces i @ k @ '':'' @ render_value cmt i k v) rst t u1 v1 s1" using d fresh t(1) by simp_all
  from pair_run [OF assms(1,2) this(1,2) u key this(3) t(2)] value_head [OF assms(3), of cmt i k]
  show "\<exists>d'. runs env d d' \<and> reading_at d' t u1 v1 s1 \<and> pairs_done n i a cs (put_all env [(k, v)] mv) d d'"
    by (simp add: put_def)
qed

lemma entries_fst: "entries h b a m mv \<Longrightarrow> fst ` set m = fst ` set mv"
  using entries_keys [of h b a m mv] by (metis image_set)

lemma pairs_run_more:
  assumes v: "value_runs env cmt i k v" "word_ok env k" "good_value env v"
    and nx: "pairs_run env cmt i k' v' kvs" "word_ok env k'" "good_value env v'"
    and "distinct (k # k' # map fst kvs)"
  shows "pairs_run env cmt i k v ((k', v') # kvs)"
  unfolding pairs_run_def
proof (intro allI impI)
  fix d u rst t u1 v1 s1 n a cs mv
  let ?s = "render_value cmt i k' v' @ render_pairs cmt i kvs @ rst"
  let ?u = "u @ spaces i @ k @ '':'' @ render_value cmt i k v"
  assume d: "reading_at d (plain_token k) (u @ spaces i) (u @ spaces i @ k)
      ('':'' @ render_value cmt i k v @ render_pairs cmt i ((k', v') # kvs) @ rst)"
    and u: "column_after u = 0" and key: "key_at env n i a cs mv k d" and i: "i = 0 \<longrightarrow> cs = []"
    and fresh: "\<forall>x \<in> insert k (fst ` set ((k', v') # kvs)). N_str x \<notin> fst ` set mv"
    and t: "follows (u @ render_pairs cmt i ((k, v) # (k', v') # kvs)) rst t u1 v1 s1" "token_type t \<noteq> KEY_SEPARATOR"
  note hd = value_head [OF v(3), of cmt i k] and hd' = value_head [OF nx(3), of cmt i k']
  have f: "follows ?u (spaces i @ k' @ '':'' @ ?s) (plain_token k') (?u @ spaces i) (?u @ spaces i @ k') ('':'' @ ?s)"
    using hd' by (intro follows_key [OF nx(2)]) auto
  have "N_str k \<notin> fst ` set mv" using fresh by simp
  from pair_run [OF v(1,2) this _ u key f] hd d obtain e where
    e: "runs env d e" "reading_at e (plain_token k') (?u @ spaces i) (?u @ spaces i @ k') ('':'' @ ?s)"
      "pairs_done n i a cs (put env k (block_node env v) mv) d e" by auto
  from e(3) obtain m where m: "opened n i a cs e" "d_store e a = C_map m" "string_keys m"
    "entries (d_store e) (d_next e) a m (put env k (block_node env v) mv)"
    "\<forall>x < d_next d. x \<noteq> a \<longrightarrow> d_store e x = d_store d x" "a < d_next d" "d_next d < d_next e" by (auto simp: pairs_done_def)
  have keys: "fst ` set m = insert (N_str k) (fst ` set mv)"
  proof -
    obtain m0 where m0: "entries (d_store d) (d_next d) a m0 mv" "string_keys m0" using key by (auto simp: key_at_def)
    have "string_keys mv" using entries_fst [OF m0(1)] m0(2) by (simp add: string_keys_def)
    with entries_fst [OF m(4)] emplace_keys [of mv k env] fresh show ?thesis by simp
  qed
  have col: "column_after ?u = 0" using column_render(1) [of "u @ spaces i @ k @ '':''" cmt i k v] by simp
  have pos: "cur_indent e = i" "n \<le> cur_line e"
    using e(2) col column_after_spaces(1) [of ?u i] key d by (auto simp: reading_at_def key_at_def)
  have "key_at env n (cur_indent e) a cs (put env k (block_node env v) mv) k' e"
    by (rule next_key_at [OF e(2) nx(2)]) (use m pos i keys fresh assms(7) in auto)
  then have ka: "key_at env n i a cs (put env k (block_node env v) mv) k' e" using pos by simp
  have fr: "\<forall>x \<in> insert k' (fst ` set kvs). N_str x \<notin> fst ` set (put env k (block_node env v) mv)"
    using fresh keys entries_fst [OF m(4)] assms(7) by auto
  have tf: "follows (?u @ render_pairs cmt i ((k', v') # kvs)) rst t u1 v1 s1" using t(1) by simp
  from nx(1) e(2) col ka i fr tf t(2) obtain d' where
    d': "runs env e d'" "reading_at d' t u1 v1 s1" "pairs_done n i a cs (put_all env ((k', v') # kvs) (put env k (block_node env v) mv)) e d'"
    unfolding pairs_run_def by blast
  have "pairs_done n i a cs (put_all env ((k, v) # (k', v') # kvs) mv) d d'"
    using d'(3) m(5-7) by (auto simp: pairs_done_def put_def)
  with runs_trans [OF e(1) d'(1)] d'(2)
  show "\<exists>d'. runs env d d' \<and> reading_at d' t u1 v1 s1 \<and> pairs_done n i a cs (put_all env ((k, v) # (k', v') # kvs) mv) d d'" by blast
qed

lemma map_value:
  assumes p: "pairs_run env cmt (i + 2) k v kvs" "word_ok env k" "good_value env v" and c: "\<And>w. trailer_ok (cmt w)"
  shows "value_runs env cmt i key (B_map ((k, v) # kvs))"
  unfolding value_runs_def
proof (intro allI impI)
  fix d U rst t u1 v1 s1 n a b cs
  assume d: "reading_at d colon U (U @ '':'') (render_value cmt i key (B_map ((k, v) # kvs)) @ rst)" "value_at n i a b cs d"
    and t: "follows (U @ '':'' @ render_value cmt i key (B_map ((k, v) # kvs))) rst t u1 v1 s1" "token_type t \<noteq> KEY_SEPARATOR"
  obtain j where j: "j = i + 2" by simp
  let ?s = "render_value cmt j k v @ render_pairs cmt j kvs @ rst"
  let ?u = "U @ '':'' @ line_end (cmt key)"
  have tx: "render_value cmt i key (B_map ((k, v) # kvs)) = line_end (cmt key) @ spaces j @ k @ '':'' @ render_value cmt j k v @ render_pairs cmt j kvs"
    by (simp add: j)
  note dx = d(1) [unfolded tx append_assoc append_Cons append_Nil]
  note hd = value_head [OF p(3), of cmt j k]
  have nl: "line_after U < line_after (?u @ spaces j)" by simp
  have "follows ?u (spaces j @ k @ '':'' @ ?s) (plain_token k) (?u @ spaces j) (?u @ spaces j @ k) ('':'' @ ?s)"
    using hd by (intro follows_key [OF p(2)]) auto
  then have "follows (U @ '':'') (line_end (cmt key) @ spaces j @ k @ '':'' @ ?s) (plain_token k) (?u @ spaces j) (?u @ spaces j @ k) ('':'' @ ?s)"
    using c by (intro follows_gap [of "line_end (cmt key)"] skips_line_end) simp_all
  moreover have col: "column_after ?u = 0" by simp
  ultimately obtain l where l: "get_next_token (d_lexer d) = Inr (plain_token k, l)" "m_last_token_begin_line l = line_after (?u @ spaces j)"
    "m_last_token_begin_pos l = j" "at_text l (?u @ spaces j @ k) ('':'' @ ?s)"
    using dx column_after_spaces(1) [of ?u j] by (auto simp: follows_def reading_at_def)
  let ?e = "fetch (plain_token k) l d"
  have p1: "node_pass env d = Inr (False, ?e)"
    using d l nl by (intro separator_pass [where c = "value_ctx n i b" and cs = "map_ctx n i a # cs"])
      (auto simp: reading_at_def value_at_def current_node_def null_node_def)
  have r: "reading_at ?e (plain_token k) (?u @ spaces j) (?u @ spaces j @ k) ('':'' @ ?s)"
    using l d(1) column_after_spaces(1) [of ?u j] col by (simp add: reading_at_def)
  have "key_at env (cur_line ?e) (cur_indent ?e) b (map_ctx n i a # cs) [] k ?e"
    using d nl l j by (intro first_key_at [OF r p(2), where n = n and j = i]) (auto simp: value_at_def reading_at_def)
  then have ka: "key_at env (cur_line ?e) j b (map_ctx n i a # cs) [] k ?e" using l by simp
  have tf: "follows (?u @ render_pairs cmt j ((k, v) # kvs)) rst t u1 v1 s1" using t(1) [unfolded tx] by simp
  have r': "reading_at ?e (plain_token k) (?u @ spaces j) (?u @ spaces j @ k) ('':'' @ render_value cmt j k v @ render_pairs cmt j kvs @ rst)"
    using r by simp
  from p(1) [folded j, unfolded pairs_run_def, rule_format, OF r' col ka _ _ tf t(2)] j
  obtain d' where d': "runs env ?e d'" "reading_at d' t u1 v1 s1" "pairs_done (cur_line ?e) j b (map_ctx n i a # cs) (put_all env ((k, v) # kvs) []) ?e d'"
    by auto
  have "runs env d d'" using p1 d'(1) d(1) by (intro runs_step [of d env ?e]) (simp_all add: reading_at_def)
  moreover have "value_done n i a b cs (block_node env (B_map ((k, v) # kvs))) d d'"
  proof -
    from d'(3) obtain junk m where o: "m_context_stack d' = junk @ map_ctx (cur_line ?e) j b # map_ctx n i a # cs" "finished j junk"
      "(\<exists>kvs. d_store d' (mp_current_node d') = C_map kvs) \<or> (\<exists>xs. d_store d' (mp_current_node d') = C_seq xs)"
      "d_store d' b = C_map m" "entries (d_store d') (d_next d') b m (put_all env ((k, v) # kvs) [])"
      "\<forall>x < d_next d. x \<noteq> b \<longrightarrow> d_store d' x = d_store d x" "b < d_next d'"
      by (auto simp: pairs_done_def opened_def)
    have "opened n i a cs d'"
      unfolding opened_def
      by (rule exI [of _ "junk @ [map_ctx (cur_line ?e) j b]"]) (use o(1-3) j in \<open>auto simp: finished_def\<close>)
    moreover have "rep (d_store d') (d_next d') b (N_map (put_all env ((k, v) # kvs) []))"
      by (rule rep_map [where kxs = m]) (use o(4,5,7) in \<open>simp_all add: entries_def\<close>)
    moreover have "\<forall>x < b. d_store d' x = d_store d x" using o(6) d(2) by (simp add: value_at_def)
    ultimately show ?thesis using o(7) by (simp add: value_done_def)
  qed
  ultimately show "\<exists>d'. runs env d d' \<and> reading_at d' t u1 v1 s1 \<and> value_done n i a b cs (block_node env (B_map ((k, v) # kvs))) d d'"
    using d'(2) by blast
qed

lemma blocks_run:
  shows "\<forall>w. trailer_ok (cmt w) \<Longrightarrow> good_value env v \<Longrightarrow> value_runs env cmt i k v"
    and "\<forall>w. trailer_ok (cmt w) \<Longrightarrow> good_pairs env kvs \<Longrightarrow> distinct (map fst kvs) \<Longrightarrow>
      case kvs of [] \<Rightarrow> True | (k, v) # kvs \<Rightarrow> pairs_run env cmt i k v kvs"
proof (induction cmt i k v and cmt i kvs rule: render_value_render_pairs.induct)
  case (1 cmt i k s)
  then show ?case using scalar_value [of env s "cmt s"] by (simp add: value_runs_def)
next
  case (2 cmt i k xs)
  then show ?case unfolding value_runs_def using seq_value [of xs env cmt] by (metis block_node.simps(2) good_value.simps(2))
next
  case (3 cmt i k kvs)
  then obtain k' v' kvs' where kvs: "kvs = (k', v') # kvs'" by (cases kvs) auto
  have "pairs_run env cmt (i + 2) k' v' kvs'" using 3 by (simp add: kvs)
  then show ?case using map_value [of env cmt i k' v' kvs'] 3 by (simp add: kvs)
next
  case (5 cmt i k v kvs)
  have v: "value_runs env cmt i k v" "word_ok env k" "good_value env v" using 5 by simp_all
  show ?case
  proof (cases kvs)
    case Nil
    then show ?thesis using pairs_run_one [OF v] by simp
  next
    case (Cons p kvs')
    obtain k' v' where p: "p = (k', v')" by (cases p)
    have "pairs_run env cmt i k' v' kvs'" using 5 Cons p by simp
    then show ?thesis using pairs_run_more [OF v, of k' v' kvs'] 5 Cons p by simp
  qed
qed simp

lemma document_run:
  assumes "good_pairs env kvs" "distinct (map fst kvs)" "kvs \<noteq> []" "\<forall>w. trailer_ok (cmt w)"
  shows "\<exists>n. deserialize_text n env (render_pairs cmt 0 kvs) = Some (Inr (N_map (put_all env kvs [])))"
proof -
  obtain k v kvs' where kvs: "kvs = (k, v) # kvs'" using assms(3) by (cases kvs) auto
  have w: "word_ok env k" "good_value env v" using assms(1) by (simp_all add: kvs)
  note hd = value_head [OF w(2), of cmt 0 k]
  let ?tx = "render_pairs cmt 0 kvs"
  let ?s = "render_value cmt 0 k v @ render_pairs cmt 0 kvs' @ []"
  let ?d = "deserializer_new (lexer_new ?tx)"
  have tx: "?tx = spaces 0 @ k @ '':'' @ ?s" by (simp add: kvs)
  have "follows [] ?tx (plain_token k) ([] @ spaces 0) ([] @ spaces 0 @ k) ('':'' @ ?s)"
    unfolding tx using hd by (intro follows_key [OF w(1)]) auto
  moreover have "at_text (set_document_state True (lexer_new ?tx)) [] ?tx" using at_text_begin by simp
  ultimately obtain l where l: "get_next_token (set_document_state True (lexer_new ?tx)) = Inr (plain_token k, l)"
    "m_last_token_begin_line l = 0" "m_last_token_begin_pos l = 0" "at_text l ([] @ spaces 0 @ k) ('':'' @ ?s)"
    by (auto simp: follows_def line_after_none simp del: at_text_state)
  let ?l = "set_document_state False l"
  let ?e = "fetch (plain_token k) ?l ?d"
  have l': "m_last_token_begin_line ?l = 0" "m_last_token_begin_pos ?l = 0"
    using l by (simp_all add: set_document_state_def Let_def)
  have calm: "calm_state ?d" by (simp add: calm_state_def deserializer_new_def)
  have r: "reading_at ?e (plain_token k) ([] @ spaces 0) ([] @ spaces 0 @ k) ('':'' @ ?s)"
    using l(4) l' calm by (simp add: reading_at_def line_after_none)
  have init: "mp_current_node ?d = 0" "d_store ?d 0 = null_node" "d_next ?d = 1" "m_context_stack ?d = []"
    by (simp_all add: deserializer_new_def)
  have "key_at env (cur_line ?e) (cur_indent ?e) 0 [] [] k ?e"
    using init l' by (intro first_key_at [OF r w(1)]) simp_all
  then have ka: "key_at env 0 0 0 [] [] k ?e" using l' by simp
  let ?t = "\<lparr>token_type = END_OF_BUFFER, token_str = []\<rparr>"
  have p: "pairs_run env cmt 0 k v kvs'" using blocks_run(2) [OF assms(4,1,2)] by (simp add: kvs)
  have fe: "follows ([] @ render_pairs cmt 0 ((k, v) # kvs')) [] ?t ([] @ render_pairs cmt 0 ((k, v) # kvs')) ([] @ render_pairs cmt 0 ((k, v) # kvs')) []"
    by (rule follows_end)
  from p [unfolded pairs_run_def, rule_format, OF r column_after_line(2) ka _ _ fe] obtain d' where
    d': "runs env ?e d'" "cur_token d' = ?t" "pairs_done 0 0 0 [] (put_all env kvs []) ?e d'"
    by (auto simp: reading_at_def kvs)
  obtain n where n: "node_loop n env ?e = Some (Inr d')" using runs_loop [OF d'(1)] d'(2) by auto
  then obtain n' where n': "n = Suc n'" by (cases n) (simp_all add: node_loop.simps)
  have dir: "deserialize_directives n ?d = Some (Inr (?d\<lparr>cur_token := plain_token k, d_lexer := ?l\<rparr>))"
    using l(1) by (simp add: deserialize_directives_def n' directives_loop.simps get_token_def deserializer_new_def)
  have props: "deserialize_node_properties ?e = Inr (False, ?e)"
    using calm by (subst properties_none) simp_all
  have doc: "deserialize_document n env ?d = Some (Inr d')"
    using n by (simp add: deserialize_document_def dir take_fetched props begin_document_def deserialize_node_def)
  from d'(3) obtain m where m: "d_store d' 0 = C_map m" "entries (d_store d') (d_next d') 0 m (put_all env kvs [])" "0 < d_next d'"
    by (auto simp: pairs_done_def)
  have "rep (d_store d') (d_next d') 0 (N_map (put_all env kvs []))"
    by (rule rep_map [where kxs = m]) (use m in \<open>simp_all add: entries_def\<close>)
  then have "read_node (d_next d') (d_store d') 0 = N_map (put_all env kvs [])" by (rule rep_read) simp
  then show ?thesis using doc by (intro exI [of _ n]) (simp add: deserialize_text_def)
qed

lemma document_more: "deserialize_document n env d = Some r \<Longrightarrow> deserialize_document (n + k) env d = Some r"
  by (auto simp: deserialize_document_def deserialize_directives_def deserialize_node_def
      split: option.splits sum.splits dest!: directives_loop_more [of n _ _ _ k] node_loop_more [of n _ _ _ k])

lemma block_text:
  assumes "good_pairs env kvs" "distinct (map fst kvs)" "kvs \<noteq> []" "\<forall>w. trailer_ok (cmt w)"
  defines "tx \<equiv> render_pairs cmt 0 kvs"
  shows "deserialize_text (2 * length tx + 2) env tx = Some (Inr (N_map (put_all env kvs [])))"
proof -
  let ?d = "deserializer_new (lexer_new tx)"
  let ?m = "2 * length tx + 2"
  have "lexer_ok (d_lexer ?d)" "length (m_input_buffer (d_lexer ?d)) = length tx"
    by (simp_all add: deserializer_new_def lexer_new_ok) (simp add: lexer_new_def)
  note ends = document_ends [OF this, of env]
  from document_run [OF assms(1-4)] obtain n where "deserialize_text n env tx = Some (Inr (N_map (put_all env kvs [])))" unfolding tx_def by blast
  then obtain r where r: "deserialize_document n env ?d = Some r"
    "and_then r (\<lambda>d. Inr (read_node (d_next d) (d_store d) 0)) = Inr (N_map (put_all env kvs []))"
    by (auto simp: deserialize_text_def)
  obtain r' where r': "deserialize_document ?m env ?d = Some r'" "deserialize_document (?m + n) env ?d = Some r'" using ends [of n] by blast
  have "deserialize_document (n + ?m) env ?d = Some r" by (rule document_more [OF r(1)])
  then have "r' = r" using r'(2) by (simp add: add.commute)
  then show ?thesis using r' r(2) by (simp add: deserialize_text_def)
qed

lemma chars_of_ascii: "\<forall>c \<in> set s. (of_char c :: nat) < 128 \<Longrightarrow> chars_of (utf8_text (map of_char s)) = s"
  by (induction s) (auto simp: utf8_text_def utf8_encode_def chars_of_def unat_of_nat)

lemma view_length_ascii: "\<forall>c \<in> set s. (of_char c :: nat) < 128 \<Longrightarrow> length (utf8_text (map of_char s)) = length s"
  by (induction s) (auto simp: utf8_text_def utf8_encode_def)

lemma ascii_file:
  assumes "\<forall>c \<in> set tx. 0 < (of_char c :: nat) \<and> (of_char c :: nat) < 128" "tx \<noteq> []"
    and "filter (\<lambda>c. c \<noteq> 13) cs = map of_char tx" "m = bom enc \<or> m = []"
  shows "read_input True (m @ encode_text enc cs) = Inr (utf8_text (map of_char tx))"
proof -
  have c: "0 < c \<and> c < 128" if "c \<in> set cs" for c
  proof (cases "c = 13")
    case False
    then have "c \<in> set (map of_char tx)" using that assms(3) [symmetric] by simp
    then show ?thesis using assms(1) by auto
  qed simp
  have ne: "cs \<noteq> []" using assms(2,3) by auto
  have "m = bom enc \<or> m = [] \<and> cs \<noteq> [] \<and> hd cs < 0x80" using assms(4) ne c [of "hd cs"] by auto
  moreover have "\<forall>c \<in> set cs. scalar c \<and> c \<noteq> 0"
  proof
    fix x assume "x \<in> set cs"
    from c [OF this] show "scalar x \<and> x \<noteq> 0" by (simp add: scalar_def)
  qed
  moreover have "\<not> 0x10000 \<le> last (map of_char tx :: nat list)" using assms(2) bspec [OF assms(1) last_in_set [OF assms(2)]] by (simp add: last_map)
  ultimately show ?thesis
    using detect_text [of cs m enc] view_text [of cs enc] assms(2,3) by (simp add: read_input_def input_adapter_def Let_def)
qed

lemma block_file:
  assumes "good_value env (B_map kvs)" "\<forall>w. trailer_ok (cmt w)"
    and "\<forall>c \<in> set (render_pairs cmt 0 kvs). 0 < (of_char c :: nat) \<and> (of_char c :: nat) < 128"
    and "filter (\<lambda>c. c \<noteq> 13) cs = map of_char (render_pairs cmt 0 kvs)" "m = bom enc \<or> m = []"
  shows "deserialize env (m @ encode_text enc cs) = Inr (block_node env (B_map kvs))"
proof -
  let ?tx = "render_pairs cmt 0 kvs"
  have ne: "?tx \<noteq> []" using assms(1) by (cases kvs) auto
  have "deserialize_text (2 * length ?tx + 2) env ?tx = Some (Inr (block_node env (B_map kvs)))"
    using block_text [of env kvs cmt] assms(1,2) by simp
  then show ?thesis
    using ascii_file [OF assms(3) ne assms(4,5)] chars_of_ascii [of ?tx] view_length_ascii [of ?tx] assms(3)
    by (simp add: deserialize_def)
qed


definition yaml_env :: float_env where "yaml_env = \<lparr>from_chars = (\<lambda>_. False), float_less = (\<lambda>_ _. False)\<rparr>"

definition sample_block :: "(string \<times> block) list" where
  "sample_block = [(''mesh'', B_map [(''udp'', B_map [(''g1'', B_seq [''10.0.0.1'', ''fe80::1''])])]), (''arrow'', B_scalar ''none'')]"

definition sample_comment :: "string \<Rightarrow> trailer" where
  "sample_comment w = (if w = ''10.0.0.1'' then (''terra'', [(0, []), (2, ''mare'')]) else ([], []))"

lemma sample_block_ok: "good_value yaml_env (B_map sample_block)"
  by code_simp


section \<open>Malformed documents\<close>

definition ascii_bytes :: "string \<Rightarrow> bytes" where "ascii_bytes s = map of_char s"
definition newline :: string where "newline = [newline_char]"


end
