(* ===== verification/Pw_Scheduler.thy ===== *)
theory Pw_Scheduler
  imports Pw_Yaml Pw_Ini
begin

text \<open>
  Which host to ping next, and when: \<^verbatim>\<open>MsgScheduler\<close>, \<^verbatim>\<open>RdmaMsgScheduler\<close> and
  \<^verbatim>\<open>TcpUdpMsgScheduler\<close> (\<^verbatim>\<open>src/src/scheduler.hpp\<close>, \<^verbatim>\<open>rdma_scheduler.hpp\<close>,
  \<^verbatim>\<open>tcpudp_scheduler.hpp\<close>).  Both derived classes have the same \<^verbatim>\<open>next\<close> but for the time to sleep
  when they have no address; they differ in how they build the addresses from the ping list.
  The parsed YAML documents are arguments (\<open>None\<close> where reading throws).

  A loop over nodes returns the state it has reached and the exception that ended it, because
  the code keeps what it collected before an exception.  An outer \<open>None\<close> is an access to a
  sequence outside its bounds.
\<close>

section \<open>State\<close>

record 'a MsgScheduler =
  ipaddr :: string
  protocol :: string
  addr_idx :: nat
  load_config_interval_sec :: int
  last_ping_time :: time_point
  last_load_time :: time_point
  inter_ping_interval_us :: u64
  interval_send_ping_microsec :: int
  load_yaml_retry_cnt :: int
  addressInfo :: "'a list"

type_synonym rdma_address = "string \<times> string \<times> u32 \<times> u32"

definition MAX_RETRY_LOAD_YAML :: int where "MAX_RETRY_LOAD_YAML = 3"

text \<open>The constructor; \<open>None\<close> is its \<^verbatim>\<open>exit(1)\<close> on an unknown protocol.\<close>

definition interval_param :: "string \<Rightarrow> string" where
  "interval_param prot = ''interval_send_ping_'' @ prot @ ''_microsec''"

definition MsgScheduler_new ::
    "string option \<Rightarrow> time_point \<Rightarrow> time_point \<Rightarrow> string \<Rightarrow> string \<Rightarrow> 'a MsgScheduler option" where
  "MsgScheduler_new ini t_ping t_load ip prot =
     (if prot \<notin> set TARGET_PROTOCOLS then None
      else
        let (r1, v1) = get_int_param_from_ini ini 0 (interval_param prot);
            (r2, v2) = get_int_param_from_ini ini 0 ''interval_sync_pinglist_sec''
        in Some
             \<lparr>ipaddr = ip, protocol = prot, addr_idx = 0,
              load_config_interval_sec = (if IS_FAILURE r2 then 10 else v2),
              last_ping_time = t_ping, last_load_time = t_load, inter_ping_interval_us = 1000,
              interval_send_ping_microsec = (if IS_FAILURE r1 then 1000000 else v1),
              load_yaml_retry_cnt = 0, addressInfo = []\<rparr>)"

section \<open>Reading the ping list\<close>

text \<open>Push the strings of a group; \<open>add\<close> is what the class does with one address.\<close>

fun push_all :: "(string \<Rightarrow> 's \<Rightarrow> 's) \<Rightarrow> node list \<Rightarrow> 's \<Rightarrow> 's \<times> exn option" where
  "push_all add [] s = (s, None)"
| "push_all add (n # ns) s =
     (case get_str n of Inl e \<Rightarrow> (s, Some e) | Inr ip \<Rightarrow> push_all add ns (add ip s))"

text \<open>Look for the own address in a group, and push the whole group when it is found.\<close>

fun scan_group :: "string \<Rightarrow> (string \<Rightarrow> 's \<Rightarrow> 's) \<Rightarrow> node list \<Rightarrow> node list \<Rightarrow> 's \<Rightarrow> 's \<times> exn option" where
  "scan_group me add grp [] s = (s, None)"
| "scan_group me add grp (n # ns) s =
     (case get_str n of
        Inl e \<Rightarrow> (s, Some e)
      | Inr ip \<Rightarrow> if ip = me then push_all add grp s else scan_group me add grp ns s)"

text \<open>A loop over nodes, left at the first exception.\<close>

fun each :: "(node \<Rightarrow> 's \<Rightarrow> 's \<times> exn option) \<Rightarrow> node list \<Rightarrow> 's \<Rightarrow> 's \<times> exn option" where
  "each body [] s = (s, None)"
| "each body (n # ns) s =
     (case body n s of (s', Some e) \<Rightarrow> (s', Some e) | (s', None) \<Rightarrow> each body ns s')"

definition mesh_group :: "string \<Rightarrow> (string \<Rightarrow> 's \<Rightarrow> 's) \<Rightarrow> node \<Rightarrow> 's \<Rightarrow> 's \<times> exn option" where
  "mesh_group me add g s =
     (case elements g of Inl e \<Rightarrow> (s, Some e) | Inr ips \<Rightarrow> scan_group me add ips ips s)"

fun src_has :: "string \<Rightarrow> node list \<Rightarrow> exn + bool" where
  "src_has me [] = Inr False"
| "src_has me (n # ns) =
     (case get_str n of Inl e \<Rightarrow> Inl e | Inr ip \<Rightarrow> if ip = me then Inr True else src_has me ns)"

definition arrow_group :: "string \<Rightarrow> (string \<Rightarrow> 's \<Rightarrow> 's) \<Rightarrow> node \<Rightarrow> 's \<Rightarrow> 's \<times> exn option" where
  "arrow_group me add g s =
     (if \<not> contains g ''src'' \<or> \<not> contains g ''dst'' then (s, None)
      else
        (case at_key g ''src'' of Inl e \<Rightarrow> (s, Some e) | Inr src \<Rightarrow>
         case elements src of Inl e \<Rightarrow> (s, Some e) | Inr srcs \<Rightarrow>
         case src_has me srcs of Inl e \<Rightarrow> (s, Some e) | Inr check_ip_in_src_list \<Rightarrow>
         if \<not> check_ip_in_src_list then (s, None)
         else
           (case at_key g ''dst'' of Inl e \<Rightarrow> (s, Some e) | Inr dst \<Rightarrow>
            case elements dst of Inl e \<Rightarrow> (s, Some e) | Inr dsts \<Rightarrow> push_all add dsts s)))"

text \<open>The frame around both: the category and the protocol must be there and not be null.\<close>

definition category :: "(node \<Rightarrow> 's \<Rightarrow> 's \<times> exn option) \<Rightarrow> node \<Rightarrow> string \<Rightarrow> string \<Rightarrow> 's \<Rightarrow> 's \<times> exn option" where
  "category body pinglist cat prot s =
     (if contains pinglist cat then
        (case at_key pinglist cat of Inl e \<Rightarrow> (s, Some e) | Inr c \<Rightarrow>
         if contains c prot then
           (case at_key c prot of Inl e \<Rightarrow> (s, Some e) | Inr g \<Rightarrow>
            if g = N_null then (s, None)
            else (case elements g of Inl e \<Rightarrow> (s, Some e) | Inr gs \<Rightarrow> each body gs s))
         else (s, None))
      else (s, None))"

section \<open>Renewing the addresses\<close>

definition note_failure :: "'a MsgScheduler \<Rightarrow> 'a MsgScheduler" where
  "note_failure s =
     (let s1 = s\<lparr>load_yaml_retry_cnt := load_yaml_retry_cnt s + 1\<rparr> in
      if load_yaml_retry_cnt s1 \<ge> MAX_RETRY_LOAD_YAML
      then s1\<lparr>addressInfo := [], load_yaml_retry_cnt := 0\<rparr>
      else s1)"

text \<open>\<^verbatim>\<open>int\<close> divided by \<^verbatim>\<open>size_t\<close>: both operands are 64-bit unsigned.\<close>

definition renew :: "'a list \<Rightarrow> bool \<Rightarrow> 'a MsgScheduler \<Rightarrow> 'a MsgScheduler" where
  "renew infos failed s =
     (let s1 = s\<lparr>addressInfo := infos, load_yaml_retry_cnt := 0,
                 inter_ping_interval_us :=
                   (if infos \<noteq> [] then word_of_int (interval_send_ping_microsec s) div of_nat (length infos)
                    else 1000000)\<rparr>
      in if \<not> failed then s1 else note_failure s1)"

subsection \<open>TCP and UDP\<close>

text \<open>The pair of \<^verbatim>\<open>addressInfoNew\<close> and \<^verbatim>\<open>addressIpNew\<close>.\<close>

definition add_new :: "string \<Rightarrow> string list \<times> string set \<Rightarrow> string list \<times> string set" where
  "add_new ip s = (if ip \<notin> snd s then (fst s @ [ip], insert ip (snd s)) else s)"

definition tu_addresses :: "string \<Rightarrow> string \<Rightarrow> node \<Rightarrow> (string list \<times> string set) \<times> bool" where
  "tu_addresses me prot pinglist =
     (let (s1, x1) = category (mesh_group me add_new) pinglist ''mesh'' prot ([], {});
          (s2, x2) = category (arrow_group me add_new) pinglist ''arrow'' prot s1
      in (s2, x1 \<noteq> None \<or> x2 \<noteq> None))"

definition tcpudp_load_address_info :: "node option \<Rightarrow> string MsgScheduler \<Rightarrow> string MsgScheduler" where
  "tcpudp_load_address_info doc s =
     (let s0 = s\<lparr>addr_idx := 0\<rparr> in
      case doc of
        None \<Rightarrow> note_failure s0
      | Some pinglist \<Rightarrow>
          let (new, failed) = tu_addresses (ipaddr s) (protocol s) pinglist
          in renew (fst new) failed s0)"

subsection \<open>RDMA\<close>

text \<open>
  One pass over the address store: entries of relevant addresses, each address once.  The state is
  again \<^verbatim>\<open>addressInfoNew\<close> and \<^verbatim>\<open>addressIpNew\<close>; an address is marked before its members are read.
\<close>

definition read_entry :: "node \<Rightarrow> string \<Rightarrow> (exn + rdma_address) option" where
  "read_entry it ip =
     (case at_index it 1 of None \<Rightarrow> None | Some (Inl e) \<Rightarrow> Some (Inl e) | Some (Inr n1) \<Rightarrow>
      case get_str n1 of Inl e \<Rightarrow> Some (Inl e) | Inr g \<Rightarrow>
      case at_index it 2 of None \<Rightarrow> None | Some (Inl e) \<Rightarrow> Some (Inl e) | Some (Inr n2) \<Rightarrow>
      case get_int n2 of Inl e \<Rightarrow> Some (Inl e) | Inr lid \<Rightarrow>
      case at_index it 3 of None \<Rightarrow> None | Some (Inl e) \<Rightarrow> Some (Inl e) | Some (Inr n3) \<Rightarrow>
      case get_int n3 of Inl e \<Rightarrow> Some (Inl e) | Inr qpn \<Rightarrow>
      Some (Inr (ip, g, word_of_int lid, word_of_int qpn)))"

fun pick_addresses :: "string list \<Rightarrow> node list \<Rightarrow> rdma_address list \<times> string set
    \<Rightarrow> ((rdma_address list \<times> string set) \<times> exn option) option" where
  "pick_addresses relevantIps [] s = Some (s, None)"
| "pick_addresses relevantIps (it # its) (infos, ips) =
     (case at_index it 0 of None \<Rightarrow> None | Some (Inl e) \<Rightarrow> Some ((infos, ips), Some e) | Some (Inr n0) \<Rightarrow>
      case get_str n0 of Inl e \<Rightarrow> Some ((infos, ips), Some e) | Inr ip \<Rightarrow>
      if ip \<in> set relevantIps \<and> ip \<notin> ips then
        (case read_entry it ip of
           None \<Rightarrow> None
         | Some (Inl e) \<Rightarrow> Some ((infos, insert ip ips), Some e)
         | Some (Inr a) \<Rightarrow> pick_addresses relevantIps its (infos @ [a], insert ip ips))
      else pick_addresses relevantIps its (infos, ips))"

text \<open>One \<^verbatim>\<open>try\<close> block: the relevant addresses of a category, then the pass over the store.\<close>

definition rdma_part ::
    "(node \<Rightarrow> string list \<Rightarrow> string list \<times> exn option) \<Rightarrow> string \<Rightarrow> string \<Rightarrow> node \<Rightarrow> node
     \<Rightarrow> rdma_address list \<times> string set \<Rightarrow> ((rdma_address list \<times> string set) \<times> exn option) option" where
  "rdma_part body cat prot pinglist addressStore s =
     (case category body pinglist cat prot [] of
        (_, Some e) \<Rightarrow> Some (s, Some e)
      | (relevantIps, None) \<Rightarrow>
          (case elements addressStore of
             Inl e \<Rightarrow> Some (s, Some e)
           | Inr its \<Rightarrow> pick_addresses relevantIps its s))"

definition push_back :: "string \<Rightarrow> string list \<Rightarrow> string list" where
  "push_back ip s = s @ [ip]"

definition rdma_load_address_info ::
    "node option \<Rightarrow> node option \<Rightarrow> rdma_address MsgScheduler \<Rightarrow> rdma_address MsgScheduler option" where
  "rdma_load_address_info doc store s =
     (let s0 = s\<lparr>addr_idx := 0\<rparr> in
      case doc of None \<Rightarrow> Some (note_failure s0) | Some pinglist \<Rightarrow>
      case store of None \<Rightarrow> Some (note_failure s0) | Some addressStore \<Rightarrow>
      case rdma_part (mesh_group (ipaddr s) push_back) ''mesh'' (protocol s) pinglist addressStore ([], {}) of
        None \<Rightarrow> None
      | Some (s1, x1) \<Rightarrow>
          (case rdma_part (arrow_group (ipaddr s) push_back) ''arrow'' (protocol s) pinglist addressStore s1 of
             None \<Rightarrow> None
           | Some (s2, x2) \<Rightarrow> Some (renew (fst s2) (x1 \<noteq> None \<or> x2 \<noteq> None) s0)))"

section \<open>Choosing the next address\<close>

text \<open>
  The second half of \<^verbatim>\<open>next\<close>, from the second clock reading on: the result code, the address, and
  the time to sleep.  The elapsed time is compared with the interval as unsigned numbers.
\<close>

definition pick_next :: "u64 \<Rightarrow> time_point \<Rightarrow> 'a MsgScheduler \<Rightarrow> (int \<times> 'a option \<times> u64) \<times> 'a MsgScheduler" where
  "pick_next idle_us ping_now s =
     (let ping_elapsed_time_us = (word_of_int (duration_cast ns_per_us (ping_now - last_ping_time s)) :: u64) in
      if ping_elapsed_time_us \<ge> inter_ping_interval_us s then
        let s1 = s\<lparr>last_ping_time := ping_now\<rparr> in
        if addressInfo s1 \<noteq> [] then
          ((PINGWEAVE_SUCCESS, Some (addressInfo s1 ! (addr_idx s1 mod length (addressInfo s1))), 0),
           s1\<lparr>addr_idx := (addr_idx s1 + 1) mod length (addressInfo s1)\<rparr>)
        else ((PINGWEAVE_FAILURE, None, idle_us), s1)
      else ((PINGWEAVE_FAILURE, None, inter_ping_interval_us s - ping_elapsed_time_us), s))"

definition load_due :: "time_point \<Rightarrow> 'a MsgScheduler \<Rightarrow> bool" where
  "load_due load_now s \<longleftrightarrow>
     duration_cast ns_per_s (load_now - last_load_time s) > load_config_interval_sec s"

definition tcpudp_next :: "node option \<Rightarrow> time_point \<Rightarrow> time_point \<Rightarrow> string MsgScheduler
    \<Rightarrow> (int \<times> string option \<times> u64) \<times> string MsgScheduler" where
  "tcpudp_next doc load_now ping_now s =
     (let s1 = (if load_due load_now s
                then (tcpudp_load_address_info doc s)\<lparr>last_load_time := load_now\<rparr> else s)
      in pick_next 100000 ping_now s1)"

definition rdma_next :: "node option \<Rightarrow> node option \<Rightarrow> time_point \<Rightarrow> time_point \<Rightarrow> rdma_address MsgScheduler
    \<Rightarrow> ((int \<times> rdma_address option \<times> u64) \<times> rdma_address MsgScheduler) option" where
  "rdma_next doc store load_now ping_now s =
     (if load_due load_now s then
        (case rdma_load_address_info doc store s of
           None \<Rightarrow> None
         | Some s1 \<Rightarrow> Some (pick_next 1000000 ping_now (s1\<lparr>last_load_time := load_now\<rparr>)))
      else Some (pick_next 1000000 ping_now s))"

section \<open>Loops keep what the addition keeps\<close>

lemma push_all_inv: "(\<And>ip s. P s \<Longrightarrow> P (add ip s)) \<Longrightarrow> P s \<Longrightarrow> P (fst (push_all add ns s))"
  by (induction ns arbitrary: s) (auto split: sum.split)

lemma scan_group_inv: "(\<And>ip s. P s \<Longrightarrow> P (add ip s)) \<Longrightarrow> P s \<Longrightarrow> P (fst (scan_group me add g ns s))"
  by (induction ns arbitrary: s) (auto split: sum.split intro: push_all_inv)

lemma mesh_group_inv: "(\<And>ip s. P s \<Longrightarrow> P (add ip s)) \<Longrightarrow> P s \<Longrightarrow> P (fst (mesh_group me add g s))"
  by (simp add: mesh_group_def scan_group_inv split: sum.split)

lemma arrow_group_inv: "(\<And>ip s. P s \<Longrightarrow> P (add ip s)) \<Longrightarrow> P s \<Longrightarrow> P (fst (arrow_group me add g s))"
  by (simp add: arrow_group_def push_all_inv split: sum.split)

lemma each_inv: "(\<And>n s. P s \<Longrightarrow> P (fst (body n s))) \<Longrightarrow> P s \<Longrightarrow> P (fst (each body ns s))"
proof (induction ns arbitrary: s)
  case (Cons n ns)
  obtain s' x where b: "body n s = (s', x)" by (cases "body n s")
  then have "P s'" using Cons.prems(1) [OF Cons.prems(2), of n] by simp
  then show ?case using Cons.IH [OF Cons.prems(1)] b by (simp split: option.split)
qed simp

lemma category_inv:
  "(\<And>n s. P s \<Longrightarrow> P (fst (body n s))) \<Longrightarrow> P s \<Longrightarrow> P (fst (category body n cat prot s))"
  by (simp add: category_def each_inv split: sum.split)

lemma tu_addresses_distinct: "distinct (fst (fst (tu_addresses me prot n)))"
proof -
  define P where "P = (\<lambda>s :: string list \<times> string set. distinct (fst s) \<and> set (fst s) = snd s)"
  have add: "P s \<Longrightarrow> P (add_new ip s)" for ip s by (auto simp: P_def add_new_def)
  have M: "P (fst (category (mesh_group me add_new) n cat prot s))" if "P s" for cat s
    by (rule category_inv [where P = P, OF mesh_group_inv [where P = P and add = add_new] that]) (rule add)
  have A: "P (fst (category (arrow_group me add_new) n cat prot s))" if "P s" for cat s
    by (rule category_inv [where P = P, OF arrow_group_inv [where P = P and add = add_new] that]) (rule add)
  obtain s1 x1 where m: "category (mesh_group me add_new) n ''mesh'' prot ([], {}) = (s1, x1)"
    by (cases "category (mesh_group me add_new) n ''mesh'' prot ([], {})")
  obtain s2 x2 where a: "category (arrow_group me add_new) n ''arrow'' prot s1 = (s2, x2)"
    by (cases "category (arrow_group me add_new) n ''arrow'' prot s1")
  have "P ([], {})" by (simp add: P_def)
  then have "P s1" using M [of "([], {})" "''mesh''"] m by simp
  then have "P s2" using A [of s1 "''arrow''"] a by simp
  then show ?thesis by (simp add: tu_addresses_def m a P_def)
qed

definition picked_ok :: "rdma_address list \<times> string set \<Rightarrow> bool" where
  "picked_ok s \<longleftrightarrow> distinct (map fst (fst s)) \<and> set (map fst (fst s)) \<subseteq> snd s"

lemma read_entry_ip: "read_entry it ip = Some (Inr a) \<Longrightarrow> fst a = ip"
  by (auto simp: read_entry_def split: option.splits sum.splits)

lemma pick_addresses_ok:
  "picked_ok s \<Longrightarrow> pick_addresses ips its s = Some (s', x) \<Longrightarrow> picked_ok s'"
proof (induction ips its s arbitrary: s' x rule: pick_addresses.induct)
  case (2 ips it its infos seen)
  have mark: "picked_ok (infos, insert ip seen)" for ip using "2.prems"(1) by (auto simp: picked_ok_def)
  have new: "picked_ok (infos @ [a], insert ip seen)" if "ip \<notin> seen" "read_entry it ip = Some (Inr a)" for ip a
    using "2.prems"(1) that read_entry_ip [OF that(2)] by (auto simp: picked_ok_def)
  show ?case
  proof (cases "at_index it 0")
    case (Some r)
    show ?thesis
    proof (cases r)
      case (Inr n0)
      note at = Some [unfolded Inr]
      show ?thesis
      proof (cases "get_str n0")
        case (Inr ip)
        show ?thesis
        proof (cases "ip \<in> set ips \<and> ip \<notin> seen")
          case True
          then show ?thesis
          proof (cases "read_entry it ip")
            case (Some q)
            then show ?thesis
              using "2.prems"(2) True at Inr mark new [of ip] "2.IH"(1) [OF at refl Inr True Some]
              by (cases q) auto
          qed (use "2.prems"(2) True at Inr in simp)
        next
          case False
          then have "pick_addresses ips its (infos, seen) = Some (s', x)"
            using "2.prems"(2) at Inr by auto
          then show ?thesis by (rule "2.IH"(2) [OF at refl Inr False "2.prems"(1)])
        qed
      qed (use "2.prems" at in simp)
    qed (use "2.prems" Some in simp)
  qed (use "2.prems" in simp)
qed simp

lemma rdma_part_ok: "picked_ok s \<Longrightarrow> rdma_part body cat prot n st s = Some (s', x) \<Longrightarrow> picked_ok s'"
  by (auto simp: rdma_part_def split: prod.splits option.splits sum.splits intro: pick_addresses_ok)

lemma note_failure_view [simp]:
  "addr_idx (note_failure s) = addr_idx s" "ipaddr (note_failure s) = ipaddr s"
  "addressInfo (note_failure s) = (if load_yaml_retry_cnt s + 1 \<ge> MAX_RETRY_LOAD_YAML then [] else addressInfo s)"
  by (simp_all add: note_failure_def Let_def)

lemma renew_view [simp]:
  "addr_idx (renew infos failed s) = addr_idx s"
  "addressInfo (renew infos failed s) = infos"
  by (simp_all add: renew_def Let_def MAX_RETRY_LOAD_YAML_def)

section \<open>The contract between loading and choosing\<close>

text \<open>
  \<open>sched_next\<close> is \<^verbatim>\<open>next\<close> over any way to load the addresses.  Whatever loads them must start a
  new round and must not give an address twice.
\<close>

definition sched_next :: "('e \<Rightarrow> 'a MsgScheduler \<Rightarrow> 'a MsgScheduler option) \<Rightarrow> u64 \<Rightarrow> 'e \<Rightarrow> time_point \<Rightarrow> time_point
    \<Rightarrow> 'a MsgScheduler \<Rightarrow> ((int \<times> 'a option \<times> u64) \<times> 'a MsgScheduler) option" where
  "sched_next loader idle env load_now ping_now s =
     (if load_due load_now s then
        map_option (\<lambda>s1. pick_next idle ping_now (s1\<lparr>last_load_time := load_now\<rparr>)) (loader env s)
      else Some (pick_next idle ping_now s))"

definition sched_ok :: "('a \<Rightarrow> string) \<Rightarrow> 'a MsgScheduler \<Rightarrow> bool" where
  "sched_ok key s \<longleftrightarrow> distinct (map key (addressInfo s))
     \<and> (addressInfo s \<noteq> [] \<longrightarrow> addr_idx s < length (addressInfo s))"

locale address_loader =
  fixes loader :: "'e \<Rightarrow> 'a MsgScheduler \<Rightarrow> 'a MsgScheduler option"
    and key :: "'a \<Rightarrow> string"
  assumes load_distinct: "loader env s = Some s' \<Longrightarrow> distinct (map key (addressInfo s)) \<Longrightarrow>
      distinct (map key (addressInfo s'))"
    and load_restarts: "loader env s = Some s' \<Longrightarrow> addr_idx s' = 0"
begin

lemma pick_ok: "sched_ok key s \<Longrightarrow> sched_ok key (snd (pick_next idle now s))"
  by (auto simp: pick_next_def sched_ok_def Let_def)

lemma pick_result:
  assumes "sched_ok key s" and "pick_next idle now s = ((r, a, t), s')"
  shows "(IS_SUCCESS r \<longleftrightarrow> a \<noteq> None) \<and> (\<forall>x. a = Some x \<longrightarrow> x \<in> set (addressInfo s'))"
  using assms by (auto simp: pick_next_def Let_def split: if_splits)

lemma next_ok:
  assumes "sched_ok key s" and "sched_next loader idle env load_now ping_now s = Some (r, s')"
  shows "sched_ok key s'"
proof (cases "load_due load_now s")
  case True
  then obtain s1 where l: "loader env s = Some s1"
    and n: "(r, s') = pick_next idle ping_now (s1\<lparr>last_load_time := load_now\<rparr>)"
    using assms(2) by (auto simp: sched_next_def)
  have "distinct (map key (addressInfo s1))" using load_distinct [OF l] assms(1) by (simp add: sched_ok_def)
  moreover have "addr_idx s1 = 0" by (rule load_restarts [OF l])
  ultimately have "sched_ok key (s1\<lparr>last_load_time := load_now\<rparr>)" by (simp add: sched_ok_def)
  from pick_ok [OF this, of idle ping_now] n show ?thesis by (metis snd_conv)
next
  case False
  then show ?thesis using assms pick_ok [OF assms(1), of idle ping_now] by (simp add: sched_next_def)
qed

end

interpretation tu_sched: address_loader "\<lambda>doc s. Some (tcpudp_load_address_info doc s)" "\<lambda>ip. ip"
proof
  fix doc s s'
  assume l: "Some (tcpudp_load_address_info doc s) = Some s'"
  show "distinct (map (\<lambda>ip. ip) (addressInfo s)) \<Longrightarrow> distinct (map (\<lambda>ip. ip) (addressInfo s'))"
    using l tu_addresses_distinct
    by (auto simp: tcpudp_load_address_info_def Let_def case_prod_beta split: option.splits)
  show "addr_idx s' = 0"
    using l by (auto simp: tcpudp_load_address_info_def Let_def case_prod_beta split: option.splits)
qed

interpretation rdma_sched: address_loader "\<lambda>(doc, store) s. rdma_load_address_info doc store s" fst
proof
  fix env s s'
  assume l: "(case env of (doc, store) \<Rightarrow> rdma_load_address_info doc store) s = Some s'"
  obtain doc store where env: "env = (doc, store)" by (cases env)
  have r: "distinct (map fst (addressInfo s')) \<and> addr_idx s' = 0"
    if h: "distinct (map fst (addressInfo s))"
  proof (cases "doc = None \<or> store = None")
    case True
    then show ?thesis
      using l h by (auto simp: env rdma_load_address_info_def Let_def split: option.splits)
  next
    case False
    then obtain n st where ns: "doc = Some n" "store = Some st" by auto
    obtain s1 x1 s2 x2 where p1: "rdma_part (mesh_group (ipaddr s) push_back) ''mesh'' (protocol s) n st ([], {}) = Some (s1, x1)"
      and p2: "rdma_part (arrow_group (ipaddr s) push_back) ''arrow'' (protocol s) n st s1 = Some (s2, x2)"
      and s': "s' = renew (fst s2) (x1 \<noteq> None \<or> x2 \<noteq> None) (s\<lparr>addr_idx := 0\<rparr>)"
      using l by (auto simp: env ns rdma_load_address_info_def Let_def split: option.splits)
    have "picked_ok s1" by (rule rdma_part_ok [OF _ p1]) (simp add: picked_ok_def)
    from rdma_part_ok [OF this p2] show ?thesis by (simp add: s' picked_ok_def)
  qed
  show "distinct (map fst (addressInfo s)) \<Longrightarrow> distinct (map fst (addressInfo s'))" using r by simp
  show "addr_idx s' = 0"
    using l by (auto simp: env rdma_load_address_info_def Let_def split: option.splits)
qed

lemma tcpudp_next_eq:
  "sched_next (\<lambda>doc s. Some (tcpudp_load_address_info doc s)) 100000 doc load_now ping_now s =
   Some (tcpudp_next doc load_now ping_now s)"
  by (simp add: sched_next_def tcpudp_next_def)

lemma rdma_next_eq:
  "sched_next (\<lambda>(doc, store) s. rdma_load_address_info doc store s) 1000000 (doc, store) load_now ping_now s =
   rdma_next doc store load_now ping_now s"
  by (simp add: sched_next_def rdma_next_def split: option.split)

section \<open>Round robin and pacing\<close>

text \<open>The successful calls among calls at given times, with no load in between: time and address.\<close>

fun pick_run :: "u64 \<Rightarrow> time_point list \<Rightarrow> 'a MsgScheduler \<Rightarrow> (time_point \<times> 'a) list \<times> 'a MsgScheduler" where
  "pick_run idle [] s = ([], s)"
| "pick_run idle (t # ts) s =
     (let ((_, a, _), s1) = pick_next idle t s; (hits, s2) = pick_run idle ts s1
      in (case a of None \<Rightarrow> hits | Some x \<Rightarrow> (t, x) # hits, s2))"

lemma pick_next_cases:
  assumes "addressInfo s \<noteq> []"
  shows "pick_next idle t s =
    (let el = (word_of_int (duration_cast ns_per_us (t - last_ping_time s)) :: u64) in
     if el \<ge> inter_ping_interval_us s then
       ((PINGWEAVE_SUCCESS, Some (addressInfo s ! (addr_idx s mod length (addressInfo s))), 0),
        s\<lparr>last_ping_time := t, addr_idx := (addr_idx s + 1) mod length (addressInfo s)\<rparr>)
     else ((PINGWEAVE_FAILURE, None, inter_ping_interval_us s - el), s))"
  using assms by (simp add: pick_next_def Let_def)

lemma pick_run_round:
  assumes "addressInfo s = infos" and "infos \<noteq> []"
  shows "map snd (fst (pick_run idle ts s)) =
    map (\<lambda>i. infos ! ((addr_idx s + i) mod length infos)) [0..<length (fst (pick_run idle ts s))]"
  using assms(1)
proof (induction ts arbitrary: s)
  case (Cons t ts)
  let ?n = "length infos"
  let ?s = "s\<lparr>last_ping_time := t, addr_idx := (addr_idx s + 1) mod ?n\<rparr>"
  note P = pick_next_cases [of s idle t, unfolded Cons.prems, OF assms(2)]
  show ?case
  proof (cases "(word_of_int (duration_cast ns_per_us (t - last_ping_time s)) :: u64) \<ge> inter_ping_interval_us s")
    case True
    have "map snd (fst (pick_run idle ts ?s)) =
        map (\<lambda>i. infos ! ((addr_idx ?s + i) mod ?n)) [0..<length (fst (pick_run idle ts ?s))]"
      using Cons.IH [of ?s] Cons.prems by simp
    moreover have "(((addr_idx s + 1) mod ?n) + i) mod ?n = (addr_idx s + Suc i) mod ?n" for i
      by (simp add: mod_add_left_eq)
    ultimately show ?thesis
      using True Cons.prems
      by (simp add: P Let_def case_prod_beta upt_conv_Cons map_Suc_upt [symmetric] comp_def del: upt_Suc)
  next
    case False
    then show ?thesis using Cons.IH [OF Cons.prems] by (simp add: P Let_def case_prod_beta)
  qed
qed simp

lemma elapsed_ge:
  assumes "u \<le> t" and "(word_of_int (duration_cast ns_per_us (t - u)) :: u64) \<ge> w"
  shows "uint w * ns_per_us \<le> t - u"
proof -
  let ?d = "duration_cast ns_per_us (t - u)"
  have d: "?d = (t - u) div ns_per_us" using assms(1) by (simp add: duration_cast_nonneg ns_per_us_def)
  then have nn: "0 \<le> ?d" using assms(1) by (simp add: ns_per_us_def pos_imp_zdiv_nonneg_iff)
  have "uint w \<le> uint (word_of_int ?d :: u64)" using assms(2) by (simp add: word_le_def)
  also have "\<dots> = ?d mod 2 ^ 64" by (simp add: uint_word_of_int)
  also have "\<dots> \<le> ?d" using nn by (simp add: zmod_le_nonneg_dividend)
  finally have "uint w \<le> (t - u) div ns_per_us" using d by simp
  then have "uint w * ns_per_us \<le> ((t - u) div ns_per_us) * ns_per_us"
    by (simp add: ns_per_us_def)
  also have "\<dots> \<le> t - u" by (simp add: ns_per_us_def)
  finally show ?thesis .
qed

lemma pick_run_paced:
  assumes "sorted (last_ping_time s # ts)"
  shows "(\<forall>i < length (fst (pick_run idle ts s)).
      last_ping_time s + int (Suc i) * (uint (inter_ping_interval_us s) * ns_per_us)
        \<le> fst (fst (pick_run idle ts s) ! i))"
  using assms
proof (induction ts arbitrary: s)
  case (Cons t ts)
  let ?w = "uint (inter_ping_interval_us s) * ns_per_us"
  obtain r a sl s1 where p: "pick_next idle t s = ((r, a, sl), s1)" by (metis surj_pair)
  have same: "inter_ping_interval_us s1 = inter_ping_interval_us s"
    using p by (auto simp: pick_next_def Let_def split: if_splits)
  have w0: "0 \<le> ?w" by (simp add: ns_per_us_def)
  have last: "last_ping_time s1 = last_ping_time s \<and> a = None
      \<or> last_ping_time s1 = t \<and> last_ping_time s + ?w \<le> t"
    using p elapsed_ge [of "last_ping_time s" t "inter_ping_interval_us s"] Cons.prems
    by (auto simp: pick_next_def Let_def split: if_splits)
  have srt: "sorted (last_ping_time s1 # ts)" using Cons.prems last by auto
  note IH = Cons.IH [OF srt, unfolded same]
  have step: "last_ping_time s + int (Suc i) * ?w \<le> fst (fst (pick_run idle ts s1) ! i)"
    if "i < length (fst (pick_run idle ts s1))" for i
    using IH [rule_format, OF that] last w0 by auto
  show ?case
  proof (cases a)
    case None
    then show ?thesis using step by (simp add: p case_prod_beta)
  next
    case (Some x)
    have t: "last_ping_time s1 = t" "last_ping_time s + ?w \<le> t" using last Some by auto
    show ?thesis
    proof (intro allI impI)
      fix i
      assume i: "i < length (fst (pick_run idle (t # ts) s))"
      show "last_ping_time s + int (Suc i) * ?w \<le> fst (fst (pick_run idle (t # ts) s) ! i)"
      proof (cases i)
        case 0
        then show ?thesis using t by (simp add: p Some case_prod_beta)
      next
        case (Suc j)
        then have "j < length (fst (pick_run idle ts s1))" using i by (simp add: p Some case_prod_beta)
        from IH [rule_format, OF this] have "t + int (Suc j) * ?w \<le> fst (fst (pick_run idle ts s1) ! j)"
          by (simp add: t(1))
        then show ?thesis using t(2) Suc by (simp add: p Some case_prod_beta algebra_simps)
      qed
    qed
  qed
qed simp

section \<open>Properties of the schedulers\<close>

text \<open>
  C20: round robin.  Between two loads, the successful calls of \<^verbatim>\<open>next\<close> give the addresses in cyclic
  order from the current index on, whatever the times of the calls; so any \<open>n\<close> successive successes
  over \<open>n\<close> addresses give each address once.
\<close>

theorem scheduler_round_robin:
  assumes "addressInfo s = infos" and "infos \<noteq> []" and "fst (pick_run idle ts s) = hits"
  shows "map snd hits = map (\<lambda>i. infos ! ((addr_idx s + i) mod length infos)) [0..<length hits]
    \<and> (length hits = length infos \<and> addr_idx s < length infos \<longrightarrow> map snd hits = rotate (addr_idx s) infos)"
proof -
  have a: "map snd hits = map (\<lambda>i. infos ! ((addr_idx s + i) mod length infos)) [0..<length hits]"
    using pick_run_round [OF assms(1,2), of idle ts] assms(3) by simp
  moreover have "map (\<lambda>i. infos ! ((addr_idx s + i) mod length infos)) [0..<length infos] = rotate (addr_idx s) infos"
    by (rule nth_equalityI) (simp_all add: nth_rotate add.commute)
  ultimately show ?thesis by simp
qed

definition sample_sched :: "string MsgScheduler" where
  "sample_sched = \<lparr>ipaddr = ''a'', protocol = ''udp'', addr_idx = 1, load_config_interval_sec = 10,
     last_ping_time = 0, last_load_time = 0, inter_ping_interval_us = 1, interval_send_ping_microsec = 3,
     load_yaml_retry_cnt = 0, addressInfo = [''a'', ''b'', ''c'']\<rparr>"

lemma sample_sched_run:
  "fst (pick_run 5 [1000, 1500, 2000, 3000] sample_sched) = [(1000, ''b''), (2000, ''c''), (3000, ''a'')]"
  by (simp add: sample_sched_def pick_next_def Let_def duration_cast_def ns_per_us_def signed_divide_int_def)

theorem scheduler_round_robin_witness:
  "map snd (fst (pick_run 5 [1000, 1500, 2000, 3000] sample_sched)) = rotate 1 [''a'', ''b'', ''c'']"
  using scheduler_round_robin [of sample_sched "[''a'', ''b'', ''c'']" 5 "[1000, 1500, 2000, 3000]", OF _ _ refl]
  unfolding sample_sched_run by (simp add: sample_sched_def)



section \<open>What a well-formed ping list means\<close>

text \<open>
  A ping list with mesh groups and with arrow groups of sources and destinations, for one
  protocol, and the YAML document that says it.
\<close>

definition strs :: "string list \<Rightarrow> node" where "strs xs = N_seq (map N_str xs)"

definition arrow_node :: "string list \<times> string list \<Rightarrow> node" where
  "arrow_node a = N_map [(N_str ''src'', strs (fst a)), (N_str ''dst'', strs (snd a))]"

definition pinglist_doc :: "string \<Rightarrow> string list list \<Rightarrow> (string list \<times> string list) list \<Rightarrow> node" where
  "pinglist_doc prot mesh arrows =
     N_map [(N_str ''mesh'', N_map [(N_str prot, N_seq (map strs mesh))]),
            (N_str ''arrow'', N_map [(N_str prot, N_seq (map arrow_node arrows))])]"

definition mesh_wanted :: "string \<Rightarrow> string list list \<Rightarrow> string list" where
  "mesh_wanted me mesh = concat (filter (\<lambda>g. me \<in> set g) mesh)"

definition arrow_wanted :: "string \<Rightarrow> (string list \<times> string list) list \<Rightarrow> string list" where
  "arrow_wanted me arrows = concat (map snd (filter (\<lambda>a. me \<in> set (fst a)) arrows))"

lemma push_all_strs: "push_all add (map N_str xs) s = (fold add xs s, None)"
  by (induction xs arbitrary: s) simp_all

lemma scan_group_strs:
  "scan_group me add (map N_str g) (map N_str xs) s =
   (if me \<in> set xs then (fold add g s, None) else (s, None))"
  by (induction xs) (auto simp: push_all_strs)

lemma src_has_strs: "src_has me (map N_str xs) = Inr (me \<in> set xs)"
  by (induction xs) auto

lemma mesh_group_strs: "mesh_group me add (strs g) s = (if me \<in> set g then fold add g s else s, None)"
  by (simp add: mesh_group_def strs_def scan_group_strs)

lemma arrow_group_strs:
  "arrow_group me add (arrow_node a) s = (if me \<in> set (fst a) then fold add (snd a) s else s, None)"
  by (simp add: arrow_group_def arrow_node_def strs_def src_has_strs push_all_strs)

lemma each_mesh: "each (mesh_group me add) (map strs mesh) s = (fold add (mesh_wanted me mesh) s, None)"
  by (induction mesh arbitrary: s) (simp_all add: mesh_group_strs mesh_wanted_def)

lemma each_arrow: "each (arrow_group me add) (map arrow_node arrows) s = (fold add (arrow_wanted me arrows) s, None)"
  by (induction arrows arbitrary: s) (simp_all add: arrow_group_strs arrow_wanted_def)

lemma category_doc:
  "category (mesh_group me add) (pinglist_doc prot mesh arrows) ''mesh'' prot s =
     (fold add (mesh_wanted me mesh) s, None)"
  "category (arrow_group me add) (pinglist_doc prot mesh arrows) ''arrow'' prot s =
     (fold add (arrow_wanted me arrows) s, None)"
  by (simp_all add: category_def pinglist_doc_def each_mesh each_arrow)

lemma fold_add_new:
  "distinct (fst s) \<Longrightarrow> set (fst s) = snd s \<Longrightarrow>
   distinct (fst (fold add_new xs s)) \<and> set (fst (fold add_new xs s)) = snd s \<union> set xs
     \<and> snd (fold add_new xs s) = snd s \<union> set xs"
proof (induction xs arbitrary: s)
  case (Cons x xs)
  have "distinct (fst (add_new x s))" "set (fst (add_new x s)) = snd (add_new x s)"
    "snd (add_new x s) = insert x (snd s)"
    using Cons.prems by (auto simp: add_new_def)
  with Cons.IH [of "add_new x s"] show ?case by simp
qed simp

text \<open>
  The TCP and UDP schedulers ping whom the list says.  From a well-formed ping list the addresses
  after a load are, each exactly once, the members of the mesh groups that contain the own address
  and the destinations of the arrows whose sources contain it; the interval between pings is the
  configured round time divided by their number.
\<close>

theorem tcpudp_load_wanted:
  assumes "doc = pinglist_doc (protocol s) mesh arrows" and "s' = tcpudp_load_address_info (Some doc) s"
  shows "distinct (addressInfo s')
    \<and> set (addressInfo s') = {ip. (\<exists>g \<in> set mesh. ipaddr s \<in> set g \<and> ip \<in> set g)
         \<or> (\<exists>a \<in> set arrows. ipaddr s \<in> set (fst a) \<and> ip \<in> set (snd a))}
    \<and> addr_idx s' = 0 \<and> load_yaml_retry_cnt s' = 0
    \<and> (addressInfo s' \<noteq> [] \<longrightarrow> inter_ping_interval_us s' =
          word_of_int (interval_send_ping_microsec s) div of_nat (length (addressInfo s')))"
proof -
  let ?m = "fold add_new (mesh_wanted (ipaddr s) mesh) ([], {})"
  let ?a = "fold add_new (arrow_wanted (ipaddr s) arrows) ?m"
  have ta: "tu_addresses (ipaddr s) (protocol s) doc = (?a, False)"
    by (simp add: tu_addresses_def assms(1) category_doc)
  have s': "s' = renew (fst ?a) False (s\<lparr>addr_idx := 0\<rparr>)"
    by (simp add: assms(2) tcpudp_load_address_info_def ta)
  have m: "distinct (fst ?m) \<and> set (fst ?m) = set (mesh_wanted (ipaddr s) mesh) \<and> snd ?m = set (mesh_wanted (ipaddr s) mesh)"
    using fold_add_new [of "([], {})" "mesh_wanted (ipaddr s) mesh"] by simp
  have a: "distinct (fst ?a)" "set (fst ?a) = set (mesh_wanted (ipaddr s) mesh) \<union> set (arrow_wanted (ipaddr s) arrows)"
    using fold_add_new [of ?m "arrow_wanted (ipaddr s) arrows"] m by auto
  show ?thesis
    using a unfolding s' by (auto simp: mesh_wanted_def arrow_wanted_def renew_def Let_def)
qed

theorem tcpudp_load_wanted_witness:
  "addressInfo (tcpudp_load_address_info
      (Some (pinglist_doc ''udp'' [[''b'', ''c''], [''a'', ''b'']] [([''a''], [''d'', ''b'']), ([''b''], [''e''])]))
      sample_sched) = [''a'', ''b'', ''d'']
   \<and> distinct (addressInfo (tcpudp_load_address_info
      (Some (pinglist_doc ''udp'' [[''b'', ''c''], [''a'', ''b'']] [([''a''], [''d'', ''b'']), ([''b''], [''e''])]))
      sample_sched))"
proof -
  let ?d = "pinglist_doc ''udp'' [[''b'', ''c''], [''a'', ''b'']] [([''a''], [''d'', ''b'']), ([''b''], [''e''])]"
  have "addressInfo (tcpudp_load_address_info (Some ?d) sample_sched) = [''a'', ''b'', ''d'']"
    by (simp add: tcpudp_load_address_info_def tu_addresses_def category_doc sample_sched_def
        mesh_wanted_def arrow_wanted_def add_new_def)
  moreover have "protocol sample_sched = ''udp''" by (simp add: sample_sched_def)
  ultimately show ?thesis
    using tcpudp_load_wanted [of ?d sample_sched "[[''b'', ''c''], [''a'', ''b'']]"
        "[([''a''], [''d'', ''b'']), ([''b''], [''e''])]", OF _ refl] by simp
qed

subsection \<open>The address store of RDMA\<close>

definition entry_node :: "string \<times> string \<times> int \<times> int \<Rightarrow> node" where
  "entry_node e = (case e of (ip, g, lid, qpn) \<Rightarrow> N_seq [N_str ip, N_str g, N_int lid, N_int qpn])"

definition entry_addr :: "string \<times> string \<times> int \<times> int \<Rightarrow> rdma_address" where
  "entry_addr e = (case e of (ip, g, lid, qpn) \<Rightarrow> (ip, g, word_of_int lid, word_of_int qpn))"

definition store_doc :: "(string \<times> string \<times> string \<times> int \<times> int) list \<Rightarrow> node" where
  "store_doc rows = N_map (map (\<lambda>(k, e). (N_str k, entry_node e)) rows)"

lemma pick_entry:
  "pick_addresses ips (entry_node e # its) (infos, seen) =
   (if fst e \<in> set ips \<and> fst e \<notin> seen
    then pick_addresses ips its (infos @ [entry_addr e], insert (fst e) seen)
    else pick_addresses ips its (infos, seen))"
  by (cases e) (simp add: entry_node_def entry_addr_def read_entry_def at_index_def)

lemma pick_addresses_rows:
  assumes "picked_ok s" and "snd s = set (map fst (fst s))"
  shows "\<exists>s'. pick_addresses ips (map entry_node es) s = Some (s', None) \<and> picked_ok s'
    \<and> snd s' = set (map fst (fst s')) \<and> set (fst s') \<subseteq> set (fst s) \<union> entry_addr ` set es
    \<and> snd s' = snd s \<union> (set ips \<inter> fst ` set es)"
  using assms
proof (induction es arbitrary: s)
  case (Cons e es)
  obtain infos seen where s: "s = (infos, seen)" by (cases s)
  have fe: "fst (entry_addr e) = fst e" by (cases e) (simp add: entry_addr_def)
  show ?case
  proof (cases "fst e \<in> set ips \<and> fst e \<notin> seen")
    case True
    let ?s = "(infos @ [entry_addr e], insert (fst e) seen)"
    have "picked_ok ?s" "snd ?s = set (map fst (fst ?s))"
      using Cons.prems True fe by (auto simp: picked_ok_def s)
    from Cons.IH [OF this] obtain s' where s':
      "pick_addresses ips (map entry_node es) ?s = Some (s', None)" "picked_ok s'"
      "snd s' = set (map fst (fst s'))" "set (fst s') \<subseteq> set (fst ?s) \<union> entry_addr ` set es"
      "snd s' = snd ?s \<union> (set ips \<inter> fst ` set es)" by blast
    have "pick_addresses ips (map entry_node (e # es)) s = Some (s', None)"
      using True by (simp only: s list.map pick_entry s'(1)) simp
    then show ?thesis using s' True by (intro exI [of _ s']) (auto simp: s)
  next
    case False
    have "pick_addresses ips (map entry_node (e # es)) s = pick_addresses ips (map entry_node es) s"
      using False by (simp only: s list.map pick_entry) auto
    then show ?thesis using Cons.IH [OF Cons.prems] False by (auto simp: s)
  qed
qed simp

lemma fold_push_back: "fold push_back xs s = s @ xs"
  by (induction xs arbitrary: s) (simp_all add: push_back_def)

text \<open>
  C22: the RDMA scheduler pings whom the list says and the store knows.  From a well-formed ping list and
  address store a load has no error and no access outside a node; the addresses are one entry of
  the store for each address that a mesh group or an arrow wants and the store has.
\<close>

theorem rdma_load_wanted:
  assumes "doc = pinglist_doc (protocol s) mesh arrows"
    and "rdma_load_address_info (Some doc) (Some (store_doc rows)) s = r"
  shows "\<exists>s'. r = Some s' \<and> distinct (map fst (addressInfo s'))
    \<and> set (addressInfo s') \<subseteq> entry_addr ` snd ` set rows
    \<and> set (map fst (addressInfo s')) =
        (set (mesh_wanted (ipaddr s) mesh) \<union> set (arrow_wanted (ipaddr s) arrows)) \<inter> (\<lambda>x. fst (snd x)) ` set rows"
proof -
  let ?es = "map snd rows"
  have el: "elements (store_doc rows) = Inr (map entry_node ?es)"
    by (auto simp: store_doc_def elements_def)
  have part: "rdma_part (mesh_group (ipaddr s) push_back) ''mesh'' (protocol s) doc (store_doc rows) x =
      pick_addresses (mesh_wanted (ipaddr s) mesh) (map entry_node ?es) x"
    "rdma_part (arrow_group (ipaddr s) push_back) ''arrow'' (protocol s) doc (store_doc rows) x =
      pick_addresses (arrow_wanted (ipaddr s) arrows) (map entry_node ?es) x" for x
    unfolding rdma_part_def assms(1) category_doc by (simp_all add: fold_push_back el del: map_map)
  have init: "picked_ok ([], {})" "snd ([], {}) = set (map fst (fst ([] :: rdma_address list, {} :: string set)))"
    by (simp_all add: picked_ok_def)
  obtain s1 where s1: "pick_addresses (mesh_wanted (ipaddr s) mesh) (map entry_node ?es) ([], {}) = Some (s1, None)"
    "picked_ok s1" "snd s1 = set (map fst (fst s1))" "set (fst s1) \<subseteq> entry_addr ` set ?es"
    "snd s1 = set (mesh_wanted (ipaddr s) mesh) \<inter> fst ` set ?es"
    using pick_addresses_rows [OF init, of "mesh_wanted (ipaddr s) mesh" ?es]
    unfolding fst_conv snd_conv list.set Un_empty_left by blast
  obtain s2 where s2: "pick_addresses (arrow_wanted (ipaddr s) arrows) (map entry_node ?es) s1 = Some (s2, None)"
    "picked_ok s2" "snd s2 = set (map fst (fst s2))" "set (fst s2) \<subseteq> set (fst s1) \<union> entry_addr ` set ?es"
    "snd s2 = snd s1 \<union> (set (arrow_wanted (ipaddr s) arrows) \<inter> fst ` set ?es)"
    using pick_addresses_rows [OF s1(2,3), of "arrow_wanted (ipaddr s) arrows" ?es] by blast
  have r: "r = Some (renew (fst s2) False (s\<lparr>addr_idx := 0\<rparr>))"
    unfolding assms(2) [symmetric] rdma_load_address_info_def Let_def
    by (simp add: part s1(1) s2(1) del: map_map)
  have "set (map fst (fst s2)) =
      (set (mesh_wanted (ipaddr s) mesh) \<union> set (arrow_wanted (ipaddr s) arrows)) \<inter> fst ` set ?es"
    unfolding s2(3) [symmetric] s2(5) s1(5) by blast
  moreover have "fst ` set ?es = (\<lambda>x. fst (snd x)) ` set rows" by (simp add: image_image)
  moreover have "set (fst s2) \<subseteq> entry_addr ` snd ` set rows" using s1(4) s2(4) by auto
  ultimately show ?thesis using s2(2) r by (auto simp: picked_ok_def)
qed

definition sample_rdma_sched :: "rdma_address MsgScheduler" where
  "sample_rdma_sched = \<lparr>ipaddr = ''a'', protocol = ''ib'', addr_idx = 0, load_config_interval_sec = 10,
     last_ping_time = 0, last_load_time = 0, inter_ping_interval_us = 1, interval_send_ping_microsec = 3,
     load_yaml_retry_cnt = 0, addressInfo = []\<rparr>"

theorem rdma_load_wanted_witness:
  "\<exists>s'. rdma_load_address_info (Some (pinglist_doc ''ib'' [[''a'', ''b'']] []))
         (Some (store_doc [(''k'', ''b'', ''g'', 1, 2)])) sample_rdma_sched = Some s'
     \<and> set (map fst (addressInfo s')) = {''b''}"
proof -
  have p: "protocol sample_rdma_sched = ''ib''" "ipaddr sample_rdma_sched = ''a''"
    by (simp_all add: sample_rdma_sched_def)
  have "\<exists>s'. rdma_load_address_info (Some (pinglist_doc ''ib'' [[''a'', ''b'']] []))
         (Some (store_doc [(''k'', ''b'', ''g'', 1, 2)])) sample_rdma_sched = Some s'
     \<and> set (map fst (addressInfo s')) =
        (set (mesh_wanted ''a'' [[''a'', ''b'']]) \<union> set (arrow_wanted ''a'' [])) \<inter>
          (\<lambda>x. fst (snd x)) ` set [(''k'', ''b'', ''g'', 1 :: int, 2 :: int)]"
    using rdma_load_wanted [OF refl refl, of sample_rdma_sched "[[''a'', ''b'']]" "[]"
        "[(''k'', ''b'', ''g'', 1, 2)]"] unfolding p by blast
  then show ?thesis by (simp add: mesh_wanted_def arrow_wanted_def)
qed

section \<open>Unreadable and malformed lists\<close>

fun load_fails :: "nat \<Rightarrow> string MsgScheduler \<Rightarrow> string MsgScheduler" where
  "load_fails 0 s = s"
| "load_fails (Suc k) s = load_fails k (tcpudp_load_address_info None s)"

text \<open>
  Addresses survive two failed reads of the ping list and not a third.  From a state without failed
  reads, two loads of an unreadable file keep the addresses and the third clears them and starts
  to count again; a readable file between them, even a malformed one, resets the count.
\<close>

theorem unreadable_list_cleared:
  assumes "load_yaml_retry_cnt s = 0"
  shows "addressInfo (load_fails 1 s) = addressInfo s \<and> addressInfo (load_fails 2 s) = addressInfo s
    \<and> addressInfo (load_fails 3 s) = [] \<and> load_yaml_retry_cnt (load_fails 3 s) = 0
    \<and> (\<forall>doc. load_yaml_retry_cnt (tcpudp_load_address_info (Some doc) (load_fails 2 s)) \<le> 1)"
proof -
  have r: "load_yaml_retry_cnt (renew infos failed x) \<le> 1" for infos failed and x :: "string MsgScheduler"
    by (simp add: renew_def note_failure_def Let_def MAX_RETRY_LOAD_YAML_def)
  show ?thesis
    using assms
    by (simp add: numeral_2_eq_2 numeral_3_eq_3 tcpudp_load_address_info_def note_failure_def
        MAX_RETRY_LOAD_YAML_def Let_def case_prod_beta r)
qed

theorem unreadable_list_cleared_witness:
  "addressInfo (load_fails 2 sample_sched) = [''a'', ''b'', ''c''] \<and> addressInfo (load_fails 3 sample_sched) = []"
  using unreadable_list_cleared [of sample_sched] by (simp add: sample_sched_def)

text \<open>
  A malformed list never clears the addresses.  A list that parses but whose mesh or arrow part has
  the wrong type fails in every load; yet the count of failures is back at one after each, so that
  after any number of loads the addresses are those that could be read before the error, and not
  cleared as after three unreadable files.
\<close>

theorem malformed_list_never_clears:
  assumes "snd (tu_addresses (ipaddr s) (protocol s) doc) = True"
  shows "addressInfo (((tcpudp_load_address_info (Some doc)) ^^ Suc k) s) =
      fst (fst (tu_addresses (ipaddr s) (protocol s) doc))
    \<and> load_yaml_retry_cnt (((tcpudp_load_address_info (Some doc)) ^^ Suc k) s) = 1"
proof -
  have step: "addressInfo (tcpudp_load_address_info (Some doc) x) = fst (fst (tu_addresses (ipaddr s) (protocol s) doc))
      \<and> load_yaml_retry_cnt (tcpudp_load_address_info (Some doc) x) = 1
      \<and> ipaddr (tcpudp_load_address_info (Some doc) x) = ipaddr s
      \<and> protocol (tcpudp_load_address_info (Some doc) x) = protocol s"
    if "ipaddr x = ipaddr s" "protocol x = protocol s" for x
    using that assms
    by (simp add: tcpudp_load_address_info_def renew_def note_failure_def Let_def case_prod_beta
        MAX_RETRY_LOAD_YAML_def)
  have "ipaddr (((tcpudp_load_address_info (Some doc)) ^^ k) s) = ipaddr s
      \<and> protocol (((tcpudp_load_address_info (Some doc)) ^^ k) s) = protocol s"
    by (induction k) (simp_all add: step)
  then show ?thesis by (simp add: step)
qed

definition malformed_doc :: node where
  "malformed_doc = N_map [(N_str ''mesh'', N_map [(N_str ''udp'', N_int 5)])]"

theorem malformed_list_never_clears_witness:
  "addressInfo (((tcpudp_load_address_info (Some malformed_doc)) ^^ 5) sample_sched) = []
   \<and> load_yaml_retry_cnt (((tcpudp_load_address_info (Some malformed_doc)) ^^ 5) sample_sched) = 1"
proof -
  have d: "tu_addresses (ipaddr sample_sched) (protocol sample_sched) malformed_doc = (([], {}), True)"
    by (simp add: tu_addresses_def category_def malformed_doc_def sample_sched_def elements_def)
  show ?thesis using malformed_list_never_clears [of sample_sched malformed_doc 4] d
    by (simp add: numeral_eq_Suc)
qed

end
