(* ===== verification/Pw_PinglistFile.thy ===== *)
theory Pw_PinglistFile
  imports Pw_YamlReadBack Pw_Scheduler
begin

text \<open>
  From the file of a ping list (\<^verbatim>\<open>src/config/pinglist.yaml\<close>) to the addresses of a scheduler: the parser of
  \<^verbatim>\<open>src/libs/fkyaml/node.hpp\<close> and \<^verbatim>\<open>load_address_info\<close> of \<^verbatim>\<open>src/src/tcpudp_scheduler.hpp\<close> together.
\<close>

section \<open>Ping lists\<close>

type_synonym mesh_groups = "(string \<times> string list) list"
type_synonym arrow_groups = "(string \<times> string list \<times> string list) list"

definition mesh_blocks :: "mesh_groups \<Rightarrow> (string \<times> block) list" where
  "mesh_blocks gs = map (\<lambda>(g, ips). (g, B_seq ips)) gs"

definition arrow_blocks :: "arrow_groups \<Rightarrow> (string \<times> block) list" where
  "arrow_blocks gs = map (\<lambda>(g, src, dst). (g, B_map [(''src'', B_seq src), (''dst'', B_seq dst)])) gs"

definition category_blocks :: "string \<Rightarrow> ('g \<Rightarrow> (string \<times> block) list) \<Rightarrow> (string \<times> 'g) list \<Rightarrow> (string \<times> block) list" where
  "category_blocks cat groups ps = (if ps = [] then [] else [(cat, B_map (map (\<lambda>(prot, gs). (prot, B_map (groups gs))) ps))])"

definition pinglist_blocks :: "(string \<times> mesh_groups) list \<Rightarrow> (string \<times> arrow_groups) list \<Rightarrow> (string \<times> block) list" where
  "pinglist_blocks mesh arrows = category_blocks ''mesh'' mesh_blocks mesh @ category_blocks ''arrow'' arrow_blocks arrows"

text \<open>The entries of the map of a block mapping, in whatever order.\<close>

lemma emplace_set:
  assumes "string_keys m" "N_str k \<notin> fst ` set m" "distinct (map fst m)"
  shows "set (put env k v m) = insert (N_str k, v) (set m) \<and> distinct (map fst (put env k v m)) \<and> string_keys (put env k v m)"
  using assms
proof (induction m)
  case (Cons p m)
  obtain l w where p: "p = (N_str l, w)" using Cons.prems(1) by (cases p) (auto simp: string_keys_def)
  have m: "string_keys m" "N_str k \<notin> fst ` set m" "distinct (map fst m)" using Cons.prems by (auto simp: string_keys_def)
  have kl: "k \<noteq> l" using Cons.prems(2) p by auto
  then have "str_less k l \<or> str_less l k" by (rule str_less_total)
  moreover have "fst ` set (put env k v m) = insert (N_str k) (fst ` set m)" by (rule emplace_keys [OF m(1,2)])
  ultimately show ?case
    using Cons.IH [OF m] Cons.prems kl by (auto simp: p put_def string_keys_def split: prod.splits)
qed (simp add: put_def string_keys_def)

lemma put_all_set:
  assumes "string_keys m" "distinct (map fst m)" "distinct (map fst kvs)" "\<forall>k \<in> fst ` set kvs. N_str k \<notin> fst ` set m"
  shows "set (put_all env kvs m) = (\<lambda>(k, v). (N_str k, block_node env v)) ` set kvs \<union> set m \<and> distinct (map fst (put_all env kvs m))"
  using assms
proof (induction kvs arbitrary: m)
  case (Cons p kvs)
  obtain k v where p: "p = (k, v)" by (cases p)
  have k: "N_str k \<notin> fst ` set m" using Cons.prems(4) p by simp
  note e = emplace_set [OF Cons.prems(1) k Cons.prems(2), of env "block_node env v"]
  have "\<forall>x \<in> fst ` set kvs. N_str x \<notin> fst ` set (put env k (block_node env v) m)" using Cons.prems e p by auto
  from Cons.IH [OF _ _ _ this] e Cons.prems(3) p show ?case by (simp only: p put_all_put) auto
qed simp

lemma put_all_map_of:
  assumes "distinct (map fst kvs)"
  shows "map_of (put_all env kvs []) (N_str k) = map_option (block_node env) (map_of kvs k)"
proof -
  have s: "set (put_all env kvs []) = (\<lambda>(k, v). (N_str k, block_node env v)) ` set kvs" "distinct (map fst (put_all env kvs []))"
    using put_all_set [of "[]" kvs env] assms by (auto simp: string_keys_def)
  show ?thesis
  proof (cases "map_of kvs k")
    case None
    then have "N_str k \<notin> fst ` set (put_all env kvs [])" using s(1) by (force simp: map_of_eq_None_iff)
    then have "map_of (put_all env kvs []) (N_str k) = None" by (simp add: map_of_eq_None_iff)
    then show ?thesis using None by simp
  next
    case (Some v)
    then have "(N_str k, block_node env v) \<in> set (put_all env kvs [])" using s(1) by (force dest: map_of_SomeD)
    then show ?thesis using Some s(2) by simp
  qed
qed

lemma put_all_values: "distinct (map fst kvs) \<Longrightarrow> set (map snd (put_all env kvs [])) = block_node env ` snd ` set kvs"
  using put_all_set [of "[]" kvs env] by (force simp: string_keys_def)

text \<open>A category of the ping list.\<close>

lemma list_of_image: "set xs \<subseteq> f ` A \<Longrightarrow> \<exists>ys. xs = map f ys \<and> set ys \<subseteq> A"
proof (induction xs)
  case (Cons x xs)
  then obtain y ys where "x = f y" "y \<in> A" "xs = map f ys" "set ys \<subseteq> A" by auto
  then show ?case by (intro exI [of _ "y # ys"]) simp
qed simp

lemma node_of_category:
  assumes "distinct (map fst ps)"
  shows "map_of (put_all env (map (\<lambda>(prot, gs). (prot, B_map (f gs))) ps) []) (N_str prot) =
    map_option (\<lambda>gs. N_map (put_all env (f gs) [])) (map_of ps prot)"
proof -
  have d: "distinct (map fst (map (\<lambda>(prot, gs). (prot, B_map (f gs))) ps))" using assms by (simp add: comp_def case_prod_beta)
  have "map_of (map (\<lambda>(prot, gs). (prot, B_map (f gs))) ps) prot = map_option (\<lambda>gs. B_map (f gs)) (map_of ps prot)"
    by (induction ps) auto
  then show ?thesis unfolding put_all_map_of [OF d] by (simp add: option.map_comp comp_def)
qed

lemma category_at:
  assumes "map_of P (N_str cat) = (if ps = [] then None else Some (N_map (put_all env (map (\<lambda>(prot, gs). (prot, B_map (f gs))) ps) [])))"
    and "distinct (map fst ps)"
  shows "category body (N_map P) cat prot s =
    (case map_of ps prot of None \<Rightarrow> (s, None) | Some gs \<Rightarrow> each body (map snd (put_all env (f gs) [])) s)"
  using assms node_of_category [OF assms(2), of env f prot]
  by (auto simp: category_def node_defs split: option.split)

definition sorted_arrow :: "string list \<times> string list \<Rightarrow> node" where
  "sorted_arrow a = N_map [(N_str ''dst'', strs (snd a)), (N_str ''src'', strs (fst a))]"

lemma sorted_arrow_group:
  "arrow_group me add (sorted_arrow a) s = (if me \<in> set (fst a) then fold add (snd a) s else s, None)"
  by (simp add: arrow_group_def sorted_arrow_def strs_def src_has_strs push_all_strs)

lemma each_sorted_arrow: "each (arrow_group me add) (map sorted_arrow arrows) s = (fold add (arrow_wanted me arrows) s, None)"
  by (induction arrows arbitrary: s) (simp_all add: sorted_arrow_group arrow_wanted_def)

lemma mesh_values:
  assumes "distinct (map fst gs)"
  shows "\<exists>L. map snd (put_all env (mesh_blocks gs) []) = map strs L \<and> set L = snd ` set gs"
proof -
  have d: "distinct (map fst (mesh_blocks gs))" using assms by (simp add: mesh_blocks_def comp_def case_prod_beta)
  have v: "set (map snd (put_all env (mesh_blocks gs) [])) = strs ` snd ` set gs"
    unfolding put_all_values [OF d] by (force simp: mesh_blocks_def strs_def image_iff)
  then obtain L where L: "map snd (put_all env (mesh_blocks gs) []) = map strs L" "set L \<subseteq> snd ` set gs"
    using list_of_image [of "map snd (put_all env (mesh_blocks gs) [])" strs "snd ` set gs"] by auto
  have "inj strs" by (auto simp: inj_def strs_def inj_map_eq_map [OF injI])
  moreover have "strs ` set L = strs ` snd ` set gs" using v L(1) by (metis list.set_map)
  ultimately show ?thesis using L(1) by (auto simp: inj_image_eq_iff)
qed

lemma arrow_values:
  assumes "distinct (map fst gs)"
  shows "\<exists>L. map snd (put_all env (arrow_blocks gs) []) = map sorted_arrow L \<and> set L = snd ` set gs"
proof -
  have d: "distinct (map fst (arrow_blocks gs))" using assms by (simp add: arrow_blocks_def comp_def case_prod_beta)
  have v: "set (map snd (put_all env (arrow_blocks gs) [])) = sorted_arrow ` snd ` set gs"
    unfolding put_all_values [OF d] by (force simp: arrow_blocks_def sorted_arrow_def strs_def image_iff)
  then obtain L where L: "map snd (put_all env (arrow_blocks gs) []) = map sorted_arrow L" "set L \<subseteq> snd ` set gs"
    using list_of_image [of "map snd (put_all env (arrow_blocks gs) [])" sorted_arrow "snd ` set gs"] by auto
  have "inj sorted_arrow" by (auto simp: inj_def sorted_arrow_def strs_def inj_map_eq_map [OF injI])
  moreover have "sorted_arrow ` set L = sorted_arrow ` snd ` set gs" using v L(1) by (metis list.set_map)
  ultimately show ?thesis using L(1) by (auto simp: inj_image_eq_iff)
qed

lemma good_pairs_member: "good_pairs env kvs \<Longrightarrow> (k, v) \<in> set kvs \<Longrightarrow> good_value env v"
  by (induction kvs) auto

lemma good_category:
  assumes "good_pairs env (category_blocks cat f ps)"
  shows "distinct (map fst ps)" "map_of ps prot = Some gs \<Longrightarrow> distinct (map fst (f gs))"
proof -
  have g: "ps = [] \<or> distinct (map fst ps) \<and> good_pairs env (map (\<lambda>(prot, gs). (prot, B_map (f gs))) ps)"
    using assms by (auto simp: category_blocks_def comp_def case_prod_beta)
  show "distinct (map fst ps)" using g by auto
  assume "map_of ps prot = Some gs"
  then have "ps \<noteq> []" "(prot, gs) \<in> set ps" by (auto dest: map_of_SomeD)
  then have "(prot, B_map (f gs)) \<in> set (map (\<lambda>(prot, gs). (prot, B_map (f gs))) ps)" by force
  with good_pairs_member [of env _ prot] g \<open>ps \<noteq> []\<close> have "good_value env (B_map (f gs))" by blast
  then show "distinct (map fst (f gs))" by simp
qed

lemma good_pairs_append: "good_pairs env (xs @ ys) = (good_pairs env xs \<and> good_pairs env ys)"
  by (induction xs) auto

text \<open>Whom a host pings for a protocol, by the groups of the list.\<close>

definition mesh_peers :: "string \<Rightarrow> string \<Rightarrow> (string \<times> mesh_groups) list \<Rightarrow> string set" where
  "mesh_peers me prot mesh = {ip. \<exists>gs g ips. map_of mesh prot = Some gs \<and> (g, ips) \<in> set gs \<and> me \<in> set ips \<and> ip \<in> set ips}"

definition arrow_peers :: "string \<Rightarrow> string \<Rightarrow> (string \<times> arrow_groups) list \<Rightarrow> string set" where
  "arrow_peers me prot arrows = {ip. \<exists>gs g src dst. map_of arrows prot = Some gs \<and> (g, src, dst) \<in> set gs \<and> me \<in> set src \<and> ip \<in> set dst}"

lemma pinglist_categories:
  assumes good: "good_value env (B_map (pinglist_blocks mesh arrows))"
  defines "P \<equiv> put_all env (pinglist_blocks mesh arrows) []"
  shows "\<exists>mp. set mp = mesh_peers me prot mesh \<and> (\<forall>s. category (mesh_group me add) (N_map P) ''mesh'' prot s = (fold add mp s, None))"
    and "\<exists>ap. set ap = arrow_peers me prot arrows \<and> (\<forall>s. category (arrow_group me add) (N_map P) ''arrow'' prot s = (fold add ap s, None))"
proof -
  have gp: "good_pairs env (category_blocks ''mesh'' mesh_blocks mesh)" "good_pairs env (category_blocks ''arrow'' arrow_blocks arrows)"
    using good by (simp_all add: pinglist_blocks_def good_pairs_append)
  have d: "distinct (map fst (pinglist_blocks mesh arrows))" using good by simp
  have m: "map_of P (N_str ''mesh'') = (if mesh = [] then None
      else Some (N_map (put_all env (map (\<lambda>(prot, gs). (prot, B_map (mesh_blocks gs))) mesh) [])))"
    and a: "map_of P (N_str ''arrow'') = (if arrows = [] then None
      else Some (N_map (put_all env (map (\<lambda>(prot, gs). (prot, B_map (arrow_blocks gs))) arrows) [])))"
    unfolding P_def put_all_map_of [OF d] by (simp_all add: pinglist_blocks_def category_blocks_def)
  note cm = category_at [OF m good_category(1) [OF gp(1)]] and ca = category_at [OF a good_category(1) [OF gp(2)]]
  show "\<exists>mp. set mp = mesh_peers me prot mesh \<and> (\<forall>s. category (mesh_group me add) (N_map P) ''mesh'' prot s = (fold add mp s, None))"
  proof (cases "map_of mesh prot")
    case None
    then show ?thesis by (intro exI [of _ "[]"]) (simp add: mesh_peers_def cm)
  next
    case (Some gs)
    have "distinct (map fst gs)" using good_category(2) [OF gp(1) Some] by (simp add: mesh_blocks_def comp_def case_prod_beta)
    from mesh_values [OF this, of env] obtain L where L: "map snd (put_all env (mesh_blocks gs) []) = map strs L" "set L = snd ` set gs" by blast
    have "set (mesh_wanted me L) = mesh_peers me prot mesh" using L(2) Some by (force simp: mesh_wanted_def mesh_peers_def)
    then show ?thesis using Some L(1) by (intro exI [of _ "mesh_wanted me L"]) (simp add: each_mesh cm)
  qed
  show "\<exists>ap. set ap = arrow_peers me prot arrows \<and> (\<forall>s. category (arrow_group me add) (N_map P) ''arrow'' prot s = (fold add ap s, None))"
  proof (cases "map_of arrows prot")
    case None
    then show ?thesis by (intro exI [of _ "[]"]) (simp add: arrow_peers_def ca)
  next
    case (Some gs)
    have "distinct (map fst gs)" using good_category(2) [OF gp(2) Some] by (simp add: arrow_blocks_def comp_def case_prod_beta)
    from arrow_values [OF this, of env] obtain L where L: "map snd (put_all env (arrow_blocks gs) []) = map sorted_arrow L" "set L = snd ` set gs" by blast
    have "set (arrow_wanted me L) = arrow_peers me prot arrows" using L(2) Some by (force simp: arrow_wanted_def arrow_peers_def)
    then show ?thesis using Some L(1) by (intro exI [of _ "arrow_wanted me L"]) (simp add: each_sorted_arrow ca)
  qed
qed

lemma pinglist_loaded:
  assumes "good_value env (B_map (pinglist_blocks mesh arrows))"
    and "s' = tcpudp_load_address_info (Some (block_node env (B_map (pinglist_blocks mesh arrows)))) s"
  shows "distinct (addressInfo s') \<and> addr_idx s' = 0 \<and> load_yaml_retry_cnt s' = 0
    \<and> set (addressInfo s') = mesh_peers (ipaddr s) (protocol s) mesh \<union> arrow_peers (ipaddr s) (protocol s) arrows"
proof -
  note cats = pinglist_categories [OF assms(1), where me = "ipaddr s" and prot = "protocol s" and add = add_new]
  let ?P = "N_map (put_all env (pinglist_blocks mesh arrows) [])"
  from cats(1) obtain mp where mp: "set mp = mesh_peers (ipaddr s) (protocol s) mesh"
    "category (mesh_group (ipaddr s) add_new) ?P ''mesh'' (protocol s) x = (fold add_new mp x, None)" for x by blast
  from cats(2) obtain ap where ap: "set ap = arrow_peers (ipaddr s) (protocol s) arrows"
    "category (arrow_group (ipaddr s) add_new) ?P ''arrow'' (protocol s) x = (fold add_new ap x, None)" for x by blast
  have ta: "tu_addresses (ipaddr s) (protocol s) (block_node env (B_map (pinglist_blocks mesh arrows)))
      = (fold add_new ap (fold add_new mp ([], {})), False)"
    by (simp add: tu_addresses_def mp(2) ap(2))
  let ?m = "fold add_new mp ([], {})" and ?a = "fold add_new ap (fold add_new mp ([], {}))"
  have s': "s' = renew (fst ?a) False (s\<lparr>addr_idx := 0\<rparr>)"
    by (simp add: assms(2) tcpudp_load_address_info_def ta del: block_node.simps)
  have m: "distinct (fst ?m) \<and> set (fst ?m) = set mp \<and> snd ?m = set mp" using fold_add_new [of "([], {})" mp] by simp
  have "distinct (fst ?a)" "set (fst ?a) = set mp \<union> set ap" using fold_add_new [of ?m ap] m by auto
  then show ?thesis unfolding s' by (auto simp: renew_def Let_def mp(1) ap(1))
qed


definition sample_mesh :: "(string \<times> mesh_groups) list" where
  "sample_mesh = [(''udp'', [(''g1'', [''10.0.0.1'', ''10.0.0.2''])]), (''tcp'', [(''g2'', [''10.0.0.3''])])]"

definition sample_arrows :: "(string \<times> arrow_groups) list" where
  "sample_arrows = [(''udp'', [(''g3'', [''10.0.0.1''], [''10.0.0.4''])])]"

definition sample_scheduler :: "string MsgScheduler" where
  "sample_scheduler = sample_sched\<lparr>ipaddr := ''10.0.0.1''\<rparr>"

lemma sample_pinglist_ok: "good_value yaml_env (B_map (pinglist_blocks sample_mesh sample_arrows))"
  by code_simp


end
