(* ===== verification/Pw_Result.thy ===== *)
theory Pw_Result
  imports Pw_Common Pw_Ini Pw_Format Pw_Ipc
begin

text \<open>
  The result threads of the three clients: \<^verbatim>\<open>udp_client_result_thread\<close> (\<^verbatim>\<open>src/src/udp_client.cpp\<close>), its
  copy in \<^verbatim>\<open>tcp_client.cpp\<close>, and \<^verbatim>\<open>rdma_client_result_thread\<close> (\<^verbatim>\<open>rdma_client.cpp\<close>), with the result
  windows of \<^verbatim>\<open>format.hpp\<close> and the CSV lines of \<^verbatim>\<open>tcpudp_common.cpp\<close> and \<^verbatim>\<open>rdma_common.cpp\<close>.  A thread
  takes results from its queue, keeps one window per destination, and writes a report to the
  shared-memory queue at each interval.  The iteration order of the hash map of windows is a
  parameter of a report.
\<close>

section \<open>Windows of results\<close>

record tcpudp_result_info_t =
  tri_n_success :: u32
  tri_n_failure :: u32
  tri_n_weird :: u32
  tri_ts_start :: u64
  tri_ts_end :: u64
  tri_network_delays :: "u64 list"

record rdma_result_info_t =
  rri_n_success :: u32
  rri_n_failure :: u32
  rri_n_weird :: u32
  rri_ts_start :: u64
  rri_ts_end :: u64
  rri_server_delays :: "u64 list"
  rri_network_delays :: "u64 list"
  rri_client_delays :: "u64 list"

definition tcpudp_result_info_new :: tcpudp_result_info_t where
  "tcpudp_result_info_new =
     \<lparr>tri_n_success = 0, tri_n_failure = 0, tri_n_weird = 0, tri_ts_start = 0, tri_ts_end = 0,
      tri_network_delays = []\<rparr>"

definition rdma_result_info_new :: rdma_result_info_t where
  "rdma_result_info_new =
     \<lparr>rri_n_success = 0, rri_n_failure = 0, rri_n_weird = 0, rri_ts_start = 0, rri_ts_end = 0,
      rri_server_delays = [], rri_network_delays = [], rri_client_delays = []\<rparr>"

text \<open>
  What one message does to the window of its destination.  The second component is false for an
  unknown kind of result, where the loop body ends with \<^verbatim>\<open>continue\<close>.
\<close>

definition tcpudp_note :: "tcpudp_result_msg_t \<Rightarrow> tcpudp_result_info_t \<Rightarrow> tcpudp_result_info_t \<times> bool" where
  "tcpudp_note m info0 =
     (let info1 = (if tri_ts_start info0 = 0 then info0\<lparr>tri_ts_start := tr_time_ping_send m\<rparr> else info0);
          info = info1\<lparr>tri_ts_end := tr_time_ping_send m\<rparr>
      in if tr_result m = PINGWEAVE_RESULT_SUCCESS then
           (info\<lparr>tri_n_success := tri_n_success info + 1,
                 tri_network_delays := tri_network_delays info @ [tr_network_delay m]\<rparr>, True)
         else if tr_result m = PINGWEAVE_RESULT_FAILURE then
           (info\<lparr>tri_n_failure := tri_n_failure info + 1\<rparr>, True)
         else if tr_result m = PINGWEAVE_RESULT_WEIRD then
           (info\<lparr>tri_n_weird := tri_n_weird info + 1\<rparr>, True)
         else (info, False))"

definition rdma_note :: "rdma_result_msg_t \<Rightarrow> rdma_result_info_t \<Rightarrow> rdma_result_info_t \<times> bool" where
  "rdma_note m info0 =
     (let info1 = (if rri_ts_start info0 = 0 then info0\<lparr>rri_ts_start := rr_time_ping_send m\<rparr> else info0);
          info = info1\<lparr>rri_ts_end := rr_time_ping_send m\<rparr>
      in if rr_result m = PINGWEAVE_RESULT_SUCCESS then
           (info\<lparr>rri_n_success := rri_n_success info + 1,
                 rri_client_delays := rri_client_delays info @ [rr_client_delay m],
                 rri_network_delays := rri_network_delays info @ [rr_network_delay m],
                 rri_server_delays := rri_server_delays info @ [rr_server_delay m]\<rparr>, True)
         else if rr_result m = PINGWEAVE_RESULT_FAILURE then
           (info\<lparr>rri_n_failure := rri_n_failure info + 1\<rparr>, True)
         else if rr_result m = PINGWEAVE_RESULT_WEIRD then
           (info\<lparr>rri_n_weird := rri_n_weird info + 1\<rparr>, True)
         else (info, False))"

section \<open>Lines of a report\<close>

definition stat_fields :: "result_stat_t \<Rightarrow> string list" where
  "stat_fields st = map (\<lambda>w. show_nat (unat w))
     [mean st, max_delay st, percentile_50 st, percentile_95 st, percentile_99 st]"

definition show_u32 :: "u32 \<Rightarrow> string" where "show_u32 w = show_nat (unat w)"

definition convert_tcpudp_result_to_str ::
    "(int \<Rightarrow> string) \<Rightarrow> string \<Rightarrow> string \<Rightarrow> tcpudp_result_info_t \<Rightarrow> result_stat_t \<Rightarrow> string" where
  "convert_tcpudp_result_to_str local_time srcip dstip result_info network_stat =
     join_with (CHR '','')
       ([srcip, dstip,
         timestamp_ns_to_string local_time (tri_ts_start result_info),
         timestamp_ns_to_string local_time (tri_ts_end result_info),
         show_u32 (tri_n_success result_info), show_u32 (tri_n_failure result_info),
         show_u32 (tri_n_weird result_info), ''network''] @ stat_fields network_stat)"

definition convert_rdma_result_to_str ::
    "(int \<Rightarrow> string) \<Rightarrow> string \<Rightarrow> string \<Rightarrow> rdma_result_info_t \<Rightarrow> result_stat_t \<Rightarrow> result_stat_t \<Rightarrow> result_stat_t \<Rightarrow> string" where
  "convert_rdma_result_to_str local_time srcip dstip result_info client_stat network_stat server_stat =
     join_with (CHR '','')
       ([srcip, dstip,
         timestamp_ns_to_string local_time (rri_ts_start result_info),
         timestamp_ns_to_string local_time (rri_ts_end result_info),
         show_u32 (rri_n_success result_info), show_u32 (rri_n_failure result_info),
         show_u32 (rri_n_weird result_info)]
        @ ''client'' # stat_fields client_stat @ ''network'' # stat_fields network_stat
        @ ''server'' # stat_fields server_stat)"

text \<open>One line of the aggregated report.\<close>

definition tcpudp_line :: "(int \<Rightarrow> string) \<Rightarrow> string \<Rightarrow> u32 \<Rightarrow> tcpudp_result_info_t \<Rightarrow> string" where
  "tcpudp_line local_time ipv4 dstip result_info =
     convert_tcpudp_result_to_str local_time ipv4 (uint2ip dstip) result_info
       (calc_result_stats (tri_network_delays result_info))"

definition rdma_line :: "(int \<Rightarrow> string) \<Rightarrow> string \<Rightarrow> u32 \<Rightarrow> rdma_result_info_t \<Rightarrow> string" where
  "rdma_line local_time ipv4 dstip result_info =
     convert_rdma_result_to_str local_time ipv4 (uint2ip dstip) result_info
       (calc_result_stats (rri_client_delays result_info))
       (calc_result_stats (rri_network_delays result_info))
       (calc_result_stats (rri_server_delays result_info))"

section \<open>The loop of a result thread\<close>

record ('m, 'i) result_thread =
  rt_ipv4 :: string
  rt_interval_ms :: int
  rt_result_msg :: 'm
  rt_dstip2result :: "u32 \<rightharpoonup> 'i"
  rt_ipc_producer :: ProducerQueue
  rt_last_report_time :: time_point

text \<open>\<^verbatim>\<open>dstip2result[dstip]\<close> makes a new window where there is none.\<close>

definition window_of :: "'i \<Rightarrow> (u32 \<rightharpoonup> 'i) \<Rightarrow> u32 \<Rightarrow> 'i" where
  "window_of fresh t d = (case t d of Some i \<Rightarrow> i | None \<Rightarrow> fresh)"

definition absorb :: "('m \<Rightarrow> u32) \<Rightarrow> ('m \<Rightarrow> 'i \<Rightarrow> 'i \<times> bool) \<Rightarrow> 'i \<Rightarrow> 'm \<Rightarrow> (u32 \<rightharpoonup> 'i) \<Rightarrow> (u32 \<rightharpoonup> 'i) \<times> bool" where
  "absorb dst enter fresh m t =
     (let (info, known) = enter m (window_of fresh t (dst m)) in (t(dst m \<mapsto> info), known))"

definition newline :: char where "newline = CHR 0x0A"

definition agg_result :: "(u32 \<Rightarrow> 'i \<Rightarrow> string) \<Rightarrow> u32 list \<Rightarrow> (u32 \<rightharpoonup> 'i) \<Rightarrow> string" where
  "agg_result line order t = concat (map (\<lambda>d. line d (the (t d)) @ [newline]) order)"

text \<open>The second half of the loop body, with the clock reading and the order of the map.\<close>

definition report_due :: "time_point \<Rightarrow> ('m, 'i) result_thread \<Rightarrow> bool" where
  "report_due current_time s \<longleftrightarrow>
     duration_cast ns_per_ms (current_time - rt_last_report_time s) \<ge> rt_interval_ms s"

definition send_report :: "(u32 \<Rightarrow> 'i \<Rightarrow> string) \<Rightarrow> u32 list \<Rightarrow> time_point \<Rightarrow> ('m, 'i) result_thread \<Rightarrow> ('m, 'i) result_thread" where
  "send_report line order current_time s =
     s\<lparr>rt_ipc_producer := snd (writeMessage (rt_ipc_producer s) (agg_result line order (rt_dstip2result s))),
       rt_dstip2result := Map.empty,
       rt_last_report_time := current_time\<rparr>"

text \<open>The first half: a message, or none within the waiting time.  The flag is false at \<^verbatim>\<open>continue\<close>.\<close>

definition result_take ::
    "('m \<Rightarrow> u32) \<Rightarrow> ('m \<Rightarrow> 'i \<Rightarrow> 'i \<times> bool) \<Rightarrow> 'i \<Rightarrow> 'm BlockingReaderWriterQueue \<Rightarrow> ('m, 'i) result_thread
     \<Rightarrow> 'm BlockingReaderWriterQueue \<times> ('m, 'i) result_thread \<times> bool" where
  "result_take dst enter fresh q s =
     (case brwq_wait_dequeue_timed q of
        (None, q1) \<Rightarrow> (q1, s, True)
      | (Some r, q1) \<Rightarrow>
          let m = (case r of Some x \<Rightarrow> x | None \<Rightarrow> rt_result_msg s);
              (t, known) = absorb dst enter fresh m (rt_dstip2result s)
          in (q1, s\<lparr>rt_result_msg := m, rt_dstip2result := t\<rparr>, known))"

definition result_step ::
    "('m \<Rightarrow> u32) \<Rightarrow> ('m \<Rightarrow> 'i \<Rightarrow> 'i \<times> bool) \<Rightarrow> 'i \<Rightarrow> (string \<Rightarrow> u32 \<Rightarrow> 'i \<Rightarrow> string) \<Rightarrow> u32 list \<Rightarrow> time_point
     \<Rightarrow> 'm BlockingReaderWriterQueue \<Rightarrow> ('m, 'i) result_thread \<Rightarrow> 'm BlockingReaderWriterQueue \<times> ('m, 'i) result_thread" where
  "result_step dst enter fresh line order current_time q s =
     (let (q1, s1, go_on) = result_take dst enter fresh q s
      in (q1, if go_on \<and> report_due current_time s1
              then send_report (line (rt_ipv4 s1)) order current_time s1 else s1))"

definition tcpudp_result_step ::
    "(int \<Rightarrow> string) \<Rightarrow> u32 list \<Rightarrow> time_point \<Rightarrow> TcpUdpClientQueue \<Rightarrow> (tcpudp_result_msg_t, tcpudp_result_info_t) result_thread
     \<Rightarrow> TcpUdpClientQueue \<times> (tcpudp_result_msg_t, tcpudp_result_info_t) result_thread" where
  "tcpudp_result_step local_time = result_step tr_dstip tcpudp_note tcpudp_result_info_new (tcpudp_line local_time)"

definition rdma_result_step ::
    "(int \<Rightarrow> string) \<Rightarrow> u32 list \<Rightarrow> time_point \<Rightarrow> RdmaClientQueue \<Rightarrow> (rdma_result_msg_t, rdma_result_info_t) result_thread
     \<Rightarrow> RdmaClientQueue \<times> (rdma_result_msg_t, rdma_result_info_t) result_thread" where
  "rdma_result_step local_time = result_step rr_dstip rdma_note rdma_result_info_new (rdma_line local_time)"

text \<open>
  The part before the loop.  \<^verbatim>\<open>throw;\<close> outside a handler ends the process; so does an exception of
  the constructor of the producer queue, which is outside the \<^verbatim>\<open>try\<close> block.  \<open>uninit\<close> is the content
  of \<^verbatim>\<open>result_msg\<close> before the first message.
\<close>

definition result_thread_start ::
    "string option \<Rightarrow> (exn + ProducerQueue) \<Rightarrow> 'm \<Rightarrow> time_point \<Rightarrow> string \<Rightarrow> ('m, 'i) result_thread option" where
  "result_thread_start ini producer uninit now ipv4 =
     (let (r, v) = get_int_param_from_ini ini 10000 ''interval_report_ping_result_millisec'';
          report_interval_ms = (if IS_FAILURE r then 10000 else v);
          (rc, _, _) = get_controller_info_from_ini ini [] 0
      in if IS_FAILURE rc then None
         else case producer of
                Inl _ \<Rightarrow> None
              | Inr p \<Rightarrow> Some \<lparr>rt_ipv4 = ipv4, rt_interval_ms = report_interval_ms, rt_result_msg = uninit,
                              rt_dstip2result = Map.empty, rt_ipc_producer = p, rt_last_report_time = now\<rparr>)"
section \<open>Runs of a result thread\<close>

text \<open>
  A run interleaves arrivals at the queue with iterations of the loop.  It gives the messages the
  queue accepted and the windows of each report.
\<close>

datatype 'm rt_event = Arrive 'm | Iterate "u32 list" time_point

fun result_run ::
    "('m \<Rightarrow> u32) \<Rightarrow> ('m \<Rightarrow> 'i \<Rightarrow> 'i \<times> bool) \<Rightarrow> 'i \<Rightarrow> (string \<Rightarrow> u32 \<Rightarrow> 'i \<Rightarrow> string) \<Rightarrow> 'm rt_event list
     \<Rightarrow> 'm BlockingReaderWriterQueue \<Rightarrow> ('m, 'i) result_thread
     \<Rightarrow> 'm list \<times> (u32 \<rightharpoonup> 'i) list \<times> 'm BlockingReaderWriterQueue \<times> ('m, 'i) result_thread" where
  "result_run dst enter fresh line [] q s = ([], [], q, s)"
| "result_run dst enter fresh line (Arrive m # es) q s =
     (let (ok, q1) = brwq_try_enqueue q m;
          (acc, reps, q2, s2) = result_run dst enter fresh line es q1 s
      in (if ok then m # acc else acc, reps, q2, s2))"
| "result_run dst enter fresh line (Iterate order now # es) q s =
     (let (_, s0, go_on) = result_take dst enter fresh q s;
          (q1, s1) = result_step dst enter fresh line order now q s;
          (acc, reps, q2, s2) = result_run dst enter fresh line es q1 s1
      in (acc, if go_on \<and> report_due now s0 then rt_dstip2result s0 # reps else reps, q2, s2))"

text \<open>The table of windows that a list of messages means: one summary per destination heard of.\<close>

definition tabulate :: "('m \<Rightarrow> u32) \<Rightarrow> ('m list \<Rightarrow> 'i) \<Rightarrow> 'm list \<Rightarrow> u32 \<rightharpoonup> 'i" where
  "tabulate dst summary ms d =
     (let own = filter (\<lambda>m. dst m = d) ms in if own = [] then None else Some (summary own))"

text \<open>
  What a result thread needs of its bookkeeping: noting a message extends a summary by it.
\<close>

locale result_window =
  fixes dst :: "'m \<Rightarrow> u32" and enter :: "'m \<Rightarrow> 'i \<Rightarrow> 'i \<times> bool" and fresh :: 'i and summary :: "'m list \<Rightarrow> 'i"
  assumes summary_Nil: "summary [] = fresh"
    and enter_summary: "fst (enter m (summary ms)) = summary (ms @ [m])"
begin

lemma absorb_tabulate:
  "fst (absorb dst enter fresh m (tabulate dst summary ms)) = tabulate dst summary (ms @ [m])"
proof -
  have w: "window_of fresh (tabulate dst summary ms) (dst m) = summary (filter (\<lambda>x. dst x = dst m) ms)"
    by (simp add: window_of_def tabulate_def summary_Nil Let_def)
  show ?thesis
    by (rule ext) (auto simp: absorb_def w enter_summary tabulate_def Let_def split: prod.split
        dest: arg_cong [where f = fst])
qed

lemma take_tabulate:
  assumes q: "brwq_inv q" and t: "rt_dstip2result s = tabulate dst summary ms"
    and r: "result_take dst enter fresh q s = (q1, s1, go_on)"
  shows "\<exists>got. brwq_inv q1 \<and> brwq_pending q = got @ brwq_pending q1
    \<and> rt_dstip2result s1 = tabulate dst summary (ms @ got)"
proof -
  obtain x q' where d: "brwq_wait_dequeue_timed q = (x, q')" by (cases "brwq_wait_dequeue_timed q")
  note D = brwq_dequeue_spec [OF q d]
  show ?thesis
  proof (cases "brwq_pending q")
    case Nil
    with D have "x = None" "brwq_pending q' = []" "brwq_inv q'" by auto
    with r d have "q1 = q'" "s1 = s" by (auto simp: result_take_def)
    then show ?thesis using Nil t \<open>brwq_pending q' = []\<close> \<open>brwq_inv q'\<close> by simp
  next
    case (Cons m rest)
    with D have x: "x = Some (Some m)" and q': "brwq_pending q' = rest" "brwq_inv q'" by auto
    from r have "q1 = q'" "rt_dstip2result s1 = fst (absorb dst enter fresh m (tabulate dst summary ms))"
      by (auto simp: result_take_def d x t Let_def split: prod.splits)
    then show ?thesis using Cons q' by (intro exI [of _ "[m]"]) (simp add: absorb_tabulate)
  qed
qed

lemma run_partition:
  assumes "brwq_inv q" and "rt_dstip2result s = tabulate dst summary ms"
    and "result_run dst enter fresh line es q s = (acc, reps, q', s')"
  shows "\<exists>windows rest. ms @ brwq_pending q @ acc = concat windows @ rest @ brwq_pending q'
    \<and> reps = map (tabulate dst summary) windows \<and> rt_dstip2result s' = tabulate dst summary rest \<and> brwq_inv q'"
  using assms
proof (induction es arbitrary: q s ms acc reps q' s')
  case Nil
  then have "ms @ brwq_pending q @ acc = concat [] @ ms @ brwq_pending q'
    \<and> reps = map (tabulate dst summary) [] \<and> rt_dstip2result s' = tabulate dst summary ms \<and> brwq_inv q'"
    by simp
  then show ?case by blast
next
  case (Cons e es)
  show ?case
  proof (cases e)
    case (Arrive m)
    obtain ok q1 where e: "brwq_try_enqueue q m = (ok, q1)" by (cases "brwq_try_enqueue q m")
    obtain acc1 reps1 q2 s2 where r: "result_run dst enter fresh line es q1 s = (acc1, reps1, q2, s2)"
      by (cases "result_run dst enter fresh line es q1 s")
    note E = brwq_enqueue_spec [OF Cons.prems(1) e]
    have R: "acc = (if ok then m # acc1 else acc1)" "reps = reps1" "q' = q2" "s' = s2"
      using Cons.prems(3) by (auto simp: Arrive e r)
    have "brwq_pending q1 @ acc1 = brwq_pending q @ acc" using E R(1) by (auto split: if_splits)
    then show ?thesis using Cons.IH [OF _ Cons.prems(2) r] E R by simp
  next
    case (Iterate order now)
    obtain q1 s0 go_on where t: "result_take dst enter fresh q s = (q1, s0, go_on)"
      by (cases "result_take dst enter fresh q s")
    let ?rep = "go_on \<and> report_due now s0"
    define s1 where "s1 = (if ?rep then send_report (line (rt_ipv4 s0)) order now s0 else s0)"
    obtain acc1 reps1 q2 s2 where r: "result_run dst enter fresh line es q1 s1 = (acc1, reps1, q2, s2)"
      by (cases "result_run dst enter fresh line es q1 s1")
    have R: "acc = acc1" "reps = (if ?rep then rt_dstip2result s0 # reps1 else reps1)" "q' = q2" "s' = s2"
      using Cons.prems(3) r by (auto simp: Iterate t result_step_def s1_def [symmetric])
    obtain got where G: "brwq_inv q1" "brwq_pending q = got @ brwq_pending q1"
      "rt_dstip2result s0 = tabulate dst summary (ms @ got)"
      using take_tabulate [OF Cons.prems(1,2) t] by blast
    show ?thesis
    proof (cases ?rep)
      case True
      then have "rt_dstip2result s1 = tabulate dst summary []"
        by (auto simp: s1_def send_report_def tabulate_def)
      from Cons.IH [OF G(1) this r] obtain windows rest where
        "brwq_pending q1 @ acc1 = concat windows @ rest @ brwq_pending q2"
        "reps1 = map (tabulate dst summary) windows" "rt_dstip2result s2 = tabulate dst summary rest" "brwq_inv q2"
        by auto
      then show ?thesis using True R G
        by (intro exI [of _ "(ms @ got) # windows"] exI [of _ rest]) simp
    next
      case False
      then have "rt_dstip2result s1 = tabulate dst summary (ms @ got)" by (auto simp: s1_def G)
      from Cons.IH [OF G(1) this r] show ?thesis using False R G by auto
    qed
  qed
qed

end

section \<open>Summaries\<close>

text \<open>What a window holds, in terms of the messages of its destination.\<close>

definition first_nonzero :: "u64 list \<Rightarrow> u64" where
  "first_nonzero ts = (case dropWhile (\<lambda>t. t = 0) ts of [] \<Rightarrow> 0 | t # _ \<Rightarrow> t)"

definition last_or_zero :: "u64 list \<Rightarrow> u64" where
  "last_or_zero ts = (if ts = [] then 0 else last ts)"

definition count_of :: "('m \<Rightarrow> int) \<Rightarrow> int \<Rightarrow> 'm list \<Rightarrow> u32" where
  "count_of res r ms = of_nat (length (filter (\<lambda>m. res m = r) ms))"

definition of_success :: "('m \<Rightarrow> int) \<Rightarrow> ('m \<Rightarrow> u64) \<Rightarrow> 'm list \<Rightarrow> u64 list" where
  "of_success res f ms = map f (filter (\<lambda>m. res m = PINGWEAVE_RESULT_SUCCESS) ms)"

definition tcpudp_summary :: "tcpudp_result_msg_t list \<Rightarrow> tcpudp_result_info_t" where
  "tcpudp_summary ms =
     \<lparr>tri_n_success = count_of tr_result PINGWEAVE_RESULT_SUCCESS ms,
      tri_n_failure = count_of tr_result PINGWEAVE_RESULT_FAILURE ms,
      tri_n_weird = count_of tr_result PINGWEAVE_RESULT_WEIRD ms,
      tri_ts_start = first_nonzero (map tr_time_ping_send ms),
      tri_ts_end = last_or_zero (map tr_time_ping_send ms),
      tri_network_delays = of_success tr_result tr_network_delay ms\<rparr>"

definition rdma_summary :: "rdma_result_msg_t list \<Rightarrow> rdma_result_info_t" where
  "rdma_summary ms =
     \<lparr>rri_n_success = count_of rr_result PINGWEAVE_RESULT_SUCCESS ms,
      rri_n_failure = count_of rr_result PINGWEAVE_RESULT_FAILURE ms,
      rri_n_weird = count_of rr_result PINGWEAVE_RESULT_WEIRD ms,
      rri_ts_start = first_nonzero (map rr_time_ping_send ms),
      rri_ts_end = last_or_zero (map rr_time_ping_send ms),
      rri_server_delays = of_success rr_result rr_server_delay ms,
      rri_network_delays = of_success rr_result rr_network_delay ms,
      rri_client_delays = of_success rr_result rr_client_delay ms\<rparr>"

lemma first_nonzero_snoc: "first_nonzero (ts @ [t]) = (if first_nonzero ts = 0 then t else first_nonzero ts)"
proof (cases "\<forall>x \<in> set ts. x = 0")
  case True
  then have d: "dropWhile (\<lambda>t. t = 0) ts = []" by (simp add: dropWhile_eq_Nil_conv)
  with True show ?thesis by (simp add: first_nonzero_def dropWhile_append2 d)
next
  case False
  then obtain x where x: "x \<in> set ts" "x \<noteq> 0" by blast
  then have n: "dropWhile (\<lambda>t. t = 0) ts \<noteq> []" by (auto simp: dropWhile_eq_Nil_conv)
  with x show ?thesis
    using hd_dropWhile [OF n] by (auto simp: first_nonzero_def dropWhile_append1 split: list.splits)
qed

lemmas summary_steps = first_nonzero_snoc last_or_zero_def count_of_def of_success_def

interpretation tcpudp_window: result_window tr_dstip tcpudp_note tcpudp_result_info_new tcpudp_summary
proof
  show "tcpudp_summary [] = tcpudp_result_info_new"
    by (simp add: tcpudp_summary_def tcpudp_result_info_new_def summary_steps first_nonzero_def)
  show "fst (tcpudp_note m (tcpudp_summary ms)) = tcpudp_summary (ms @ [m])" for m ms
    by (simp add: tcpudp_note_def tcpudp_summary_def summary_steps Let_def)
qed

interpretation rdma_window: result_window rr_dstip rdma_note rdma_result_info_new rdma_summary
proof
  show "rdma_summary [] = rdma_result_info_new"
    by (simp add: rdma_summary_def rdma_result_info_new_def summary_steps first_nonzero_def)
  show "fst (rdma_note m (rdma_summary ms)) = rdma_summary (ms @ [m])" for m ms
    by (simp add: rdma_note_def rdma_summary_def summary_steps Let_def)
qed

text \<open>A run with one message and one iteration, for the witnesses.\<close>

lemma run_one:
  fixes m :: 'm
  assumes "absorb dst enter fresh m (rt_dstip2result s) = (t, True)"
    and "report_due now (s\<lparr>rt_result_msg := m, rt_dstip2result := t\<rparr>)"
  shows "\<exists>q' s'. result_run dst enter fresh line [Arrive m, Iterate order now] (brwq_new MSG_QUEUE_SIZE) s
    = ([m], [t], q', s') \<and> brwq_pending q' = []"
proof -
  obtain ok q1 where e: "brwq_try_enqueue (brwq_new MSG_QUEUE_SIZE) m = (ok, q1)"
    by (cases "brwq_try_enqueue (brwq_new MSG_QUEUE_SIZE) m")
  have E: "ok \<and> brwq_inv q1 \<and> brwq_pending q1 = [m]"
    using brwq_enqueue_spec [OF brwq_new_inv(1) e] brwq_new_inv(2,3) [where 'a = 'm]
    by (auto simp: MSG_QUEUE_SIZE_def split: if_splits)
  obtain r q2 where d: "brwq_wait_dequeue_timed q1 = (r, q2)" by (cases "brwq_wait_dequeue_timed q1")
  have "r = Some (Some m)" "brwq_pending q2 = []" using brwq_dequeue_spec [OF _ d] E by auto
  then show ?thesis using E assms by (simp add: e d result_take_def result_step_def)
qed

section \<open>Properties of the result threads\<close>

text \<open>
  The reports partition the results.  Whatever the interleaving of arrivals and iterations, the
  messages accepted by the queue split, in order, into the windows of the reports, what is kept for
  the next report, and what is still queued: no result is lost or counted twice between reports.
  The windows of a report are the counts, the first and last times and the delays of its messages.
\<close>

theorem tcpudp_reports_partition:
  assumes "result_run tr_dstip tcpudp_note tcpudp_result_info_new (tcpudp_line lt) es (brwq_new MSG_QUEUE_SIZE) s
      = (accepted, reports, q', s')"
    and "rt_dstip2result s = Map.empty"
  shows "\<exists>windows rest. accepted = concat windows @ rest @ brwq_pending q'
    \<and> reports = map (tabulate tr_dstip tcpudp_summary) windows
    \<and> rt_dstip2result s' = tabulate tr_dstip tcpudp_summary rest"
proof -
  have "rt_dstip2result s = tabulate tr_dstip tcpudp_summary []" using assms(2) by (auto simp: tabulate_def)
  from tcpudp_window.run_partition [OF brwq_new_inv(1) this assms(1)] show ?thesis
    by (auto simp: brwq_new_inv(2))
qed

definition sample_tcpudp_msg :: tcpudp_result_msg_t where
  "sample_tcpudp_msg = \<lparr>tr_pingid = 1, tr_dstip = 7, tr_time_ping_send = 5, tr_network_delay = 9,
     tr_result = PINGWEAVE_RESULT_SUCCESS\<rparr>"

definition sample_tcpudp_thread :: "(tcpudp_result_msg_t, tcpudp_result_info_t) result_thread" where
  "sample_tcpudp_thread =
     \<lparr>rt_ipv4 = ''10.0.0.1'', rt_interval_ms = 10000, rt_result_msg = sample_tcpudp_msg,
      rt_dstip2result = Map.empty,
      rt_ipc_producer = \<lparr>shm_fd = 3, shdata = Some (ring_init (\<lambda>_. [])), prefix_name = ''p'', shm_name = ''s'', n_dropped_msgs = 0\<rparr>,
      rt_last_report_time = 0\<rparr>"

theorem tcpudp_reports_partition_witness:
  "\<exists>q' s'. result_run tr_dstip tcpudp_note tcpudp_result_info_new (tcpudp_line (\<lambda>_. ''t''))
       [Arrive sample_tcpudp_msg, Iterate [7] 10000000000] (brwq_new MSG_QUEUE_SIZE) sample_tcpudp_thread
     = ([sample_tcpudp_msg], [[7 \<mapsto> tcpudp_summary [sample_tcpudp_msg]]], q', s')
     \<and> (\<exists>windows rest. [sample_tcpudp_msg] = concat windows @ rest @ brwq_pending q'
          \<and> [[7 \<mapsto> tcpudp_summary [sample_tcpudp_msg]]] = map (tabulate tr_dstip tcpudp_summary) windows
          \<and> rt_dstip2result s' = tabulate tr_dstip tcpudp_summary rest)"
proof -
  have a: "absorb tr_dstip tcpudp_note tcpudp_result_info_new sample_tcpudp_msg (rt_dstip2result sample_tcpudp_thread)
    = ([7 \<mapsto> tcpudp_summary [sample_tcpudp_msg]], True)"
    by (simp add: absorb_def window_of_def sample_tcpudp_thread_def tcpudp_note_def tcpudp_result_info_new_def
        tcpudp_summary_def sample_tcpudp_msg_def summary_steps first_nonzero_def result_codes Let_def)
  have b: "report_due 10000000000 (sample_tcpudp_thread\<lparr>rt_result_msg := sample_tcpudp_msg,
      rt_dstip2result := [7 \<mapsto> tcpudp_summary [sample_tcpudp_msg]]\<rparr>)"
    by (simp add: report_due_def sample_tcpudp_thread_def duration_cast_def ns_per_ms_def signed_divide_int_def)
  have c: "rt_dstip2result sample_tcpudp_thread = Map.empty" by (simp add: sample_tcpudp_thread_def)
  obtain q' s' where r: "result_run tr_dstip tcpudp_note tcpudp_result_info_new (tcpudp_line (\<lambda>_. ''t''))
       [Arrive sample_tcpudp_msg, Iterate [7] 10000000000] (brwq_new MSG_QUEUE_SIZE) sample_tcpudp_thread
     = ([sample_tcpudp_msg], [[7 \<mapsto> tcpudp_summary [sample_tcpudp_msg]]], q', s')"
    using run_one [OF a b] by blast
  show ?thesis by (rule exI [of _ q'], rule exI [of _ s'], rule conjI [OF r tcpudp_reports_partition [OF r c]])
qed

text \<open>C23: the same for the RDMA client, with the delays of the client, the network and the server.\<close>

theorem rdma_reports_partition:
  assumes "result_run rr_dstip rdma_note rdma_result_info_new (rdma_line lt) es (brwq_new MSG_QUEUE_SIZE) s
      = (accepted, reports, q', s')"
    and "rt_dstip2result s = Map.empty"
  shows "\<exists>windows rest. accepted = concat windows @ rest @ brwq_pending q'
    \<and> reports = map (tabulate rr_dstip rdma_summary) windows
    \<and> rt_dstip2result s' = tabulate rr_dstip rdma_summary rest"
proof -
  have "rt_dstip2result s = tabulate rr_dstip rdma_summary []" using assms(2) by (auto simp: tabulate_def)
  from rdma_window.run_partition [OF brwq_new_inv(1) this assms(1)] show ?thesis
    by (auto simp: brwq_new_inv(2))
qed

definition sample_rdma_msg :: rdma_result_msg_t where
  "sample_rdma_msg = \<lparr>rr_pingid = 1, rr_dstip = 7, rr_time_ping_send = 5, rr_client_delay = 3, rr_network_delay = 9,
     rr_server_delay = 2, rr_result = PINGWEAVE_RESULT_SUCCESS\<rparr>"

definition sample_rdma_thread :: "(rdma_result_msg_t, rdma_result_info_t) result_thread" where
  "sample_rdma_thread =
     \<lparr>rt_ipv4 = ''10.0.0.1'', rt_interval_ms = 10000, rt_result_msg = sample_rdma_msg,
      rt_dstip2result = Map.empty,
      rt_ipc_producer = \<lparr>shm_fd = 3, shdata = Some (ring_init (\<lambda>_. [])), prefix_name = ''p'', shm_name = ''s'', n_dropped_msgs = 0\<rparr>,
      rt_last_report_time = 0\<rparr>"

theorem rdma_reports_partition_witness:
  "\<exists>q' s'. result_run rr_dstip rdma_note rdma_result_info_new (rdma_line (\<lambda>_. ''t''))
       [Arrive sample_rdma_msg, Iterate [7] 10000000000] (brwq_new MSG_QUEUE_SIZE) sample_rdma_thread
     = ([sample_rdma_msg], [[7 \<mapsto> rdma_summary [sample_rdma_msg]]], q', s')
     \<and> (\<exists>windows rest. [sample_rdma_msg] = concat windows @ rest @ brwq_pending q'
          \<and> [[7 \<mapsto> rdma_summary [sample_rdma_msg]]] = map (tabulate rr_dstip rdma_summary) windows
          \<and> rt_dstip2result s' = tabulate rr_dstip rdma_summary rest)"
proof -
  have a: "absorb rr_dstip rdma_note rdma_result_info_new sample_rdma_msg (rt_dstip2result sample_rdma_thread)
    = ([7 \<mapsto> rdma_summary [sample_rdma_msg]], True)"
    by (simp add: absorb_def window_of_def sample_rdma_thread_def rdma_note_def rdma_result_info_new_def
        rdma_summary_def sample_rdma_msg_def summary_steps first_nonzero_def result_codes Let_def)
  have b: "report_due 10000000000 (sample_rdma_thread\<lparr>rt_result_msg := sample_rdma_msg,
      rt_dstip2result := [7 \<mapsto> rdma_summary [sample_rdma_msg]]\<rparr>)"
    by (simp add: report_due_def sample_rdma_thread_def duration_cast_def ns_per_ms_def signed_divide_int_def)
  have c: "rt_dstip2result sample_rdma_thread = Map.empty" by (simp add: sample_rdma_thread_def)
  obtain q' s' where r: "result_run rr_dstip rdma_note rdma_result_info_new (rdma_line (\<lambda>_. ''t''))
       [Arrive sample_rdma_msg, Iterate [7] 10000000000] (brwq_new MSG_QUEUE_SIZE) sample_rdma_thread
     = ([sample_rdma_msg], [[7 \<mapsto> rdma_summary [sample_rdma_msg]]], q', s')"
    using run_one [OF a b] by blast
  show ?thesis by (rule exI [of _ q'], rule exI [of _ s'], rule conjI [OF r rdma_reports_partition [OF r c]])
qed

section \<open>Reading a report back\<close>

text \<open>Text that ends neither a field nor a line nor a C string.\<close>

definition plain :: "string \<Rightarrow> bool" where
  "plain s \<longleftrightarrow> CHR '','' \<notin> set s \<and> newline \<notin> set s \<and> nul \<notin> set s"

lemma plain_append [simp]: "plain (a @ b) \<longleftrightarrow> plain a \<and> plain b"
  by (auto simp: plain_def)

lemma plain_Cons [simp]: "plain (c # s) \<longleftrightarrow> c \<noteq> CHR '','' \<and> c \<noteq> CHR 0x0A \<and> c \<noteq> CHR 0x00 \<and> plain s"
  by (auto simp: plain_def newline_def nul_def)

lemma plain_Nil [simp]: "plain []"
  by (simp add: plain_def)

lemma plain_take: "plain s \<Longrightarrow> plain (take n s)"
  by (auto simp: plain_def dest: in_set_takeD)

lemma plain_show_nat [simp]: "plain (show_nat n)"
  by (simp add: plain_def newline_def nul_def show_nat_def digits_no_sep is_digit_def digit_val_def)

lemma plain_pad0 [simp]: "plain (pad0 w (show_nat n))"
proof -
  have "plain (replicate k (CHR ''0''))" for k by (induction k) auto
  then show ?thesis by (simp add: pad0_def)
qed

lemma plain_timestamp [simp]: "(\<And>t. plain (lt t)) \<Longrightarrow> plain (timestamp_ns_to_string lt ts)"
  by (simp add: timestamp_ns_to_string_eq plain_take del: take_append)

lemma plain_join: "c \<noteq> CHR 0x0A \<Longrightarrow> c \<noteq> CHR 0x00 \<Longrightarrow> \<forall>x \<in> set xs. plain x \<Longrightarrow>
   newline \<notin> set (join_with c xs) \<and> nul \<notin> set (join_with c xs) \<and> (c \<noteq> CHR '','' \<longrightarrow> plain (join_with c xs))"
  by (induction c xs rule: join_with.induct) (auto simp: plain_def newline_def nul_def)

lemma plain_uint2ip [simp]: "plain (uint2ip d)"
  using plain_join [of "CHR ''.''"] by (simp add: uint2ip_def inet_ntop4_def)

lemma split_join_plain:
  "\<forall>x \<in> set xs. plain x \<Longrightarrow> xs \<noteq> [] \<Longrightarrow> split_on (CHR '','') (join_with (CHR '','') xs) = xs"
  by (rule split_on_join) (auto simp: plain_def)

lemma split_agg_result:
  "\<forall>d \<in> set order. newline \<notin> set (line d (the (t d))) \<Longrightarrow>
   split_on newline (agg_result line order t) = map (\<lambda>d. line d (the (t d))) order @ [[]]"
  by (induction order) (auto simp: agg_result_def split_on_append)

text \<open>The numbers of a record, as a reader of the lines sees them.\<close>

definition stat_values :: "result_stat_t \<Rightarrow> nat list" where
  "stat_values st = map unat [mean st, max_delay st, percentile_50 st, percentile_95 st, percentile_99 st]"

definition field_nums :: "string list \<Rightarrow> nat list \<Rightarrow> nat list" where
  "field_nums f is = map (\<lambda>i. read_base 10 (f ! i)) is"

definition tcpudp_record :: "string \<Rightarrow> string \<times> string \<times> nat list \<times> nat list" where
  "tcpudp_record line =
     (let f = split_on (CHR '','') line
      in (f ! 0, f ! 1, field_nums f [4, 5, 6], field_nums f [8, 9, 10, 11, 12]))"

definition rdma_record :: "string \<Rightarrow> string \<times> string \<times> nat list \<times> nat list \<times> nat list \<times> nat list" where
  "rdma_record line =
     (let f = split_on (CHR '','') line
      in (f ! 0, f ! 1, field_nums f [4, 5, 6], field_nums f [8, 9, 10, 11, 12],
          field_nums f [14, 15, 16, 17, 18], field_nums f [20, 21, 22, 23, 24]))"

definition records :: "(string \<Rightarrow> 'r) \<Rightarrow> string \<Rightarrow> 'r list" where
  "records rec msg = map rec (butlast (split_on newline msg))"

lemma plain_stat_fields: "\<forall>x \<in> set (stat_fields st). plain x"
  by (simp add: stat_fields_def)

lemmas line_defs = convert_tcpudp_result_to_str_def convert_rdma_result_to_str_def tcpudp_line_def rdma_line_def
lemmas field_defs = field_nums_def stat_fields_def stat_values_def show_u32_def

lemma tcpudp_line_split:
  assumes "plain ip" and "\<And>t. plain (lt t)"
  shows "split_on (CHR '','') (tcpudp_line lt ip d i) =
      [ip, uint2ip d, timestamp_ns_to_string lt (tri_ts_start i), timestamp_ns_to_string lt (tri_ts_end i),
       show_u32 (tri_n_success i), show_u32 (tri_n_failure i), show_u32 (tri_n_weird i), ''network'']
      @ stat_fields (calc_result_stats (tri_network_delays i))"
    and "newline \<notin> set (tcpudp_line lt ip d i) \<and> nul \<notin> set (tcpudp_line lt ip d i)"
proof -
  let ?fs = "[ip, uint2ip d, timestamp_ns_to_string lt (tri_ts_start i), timestamp_ns_to_string lt (tri_ts_end i),
     show_u32 (tri_n_success i), show_u32 (tri_n_failure i), show_u32 (tri_n_weird i), ''network'']
     @ stat_fields (calc_result_stats (tri_network_delays i))"
  have l: "tcpudp_line lt ip d i = join_with (CHR '','') ?fs" by (simp only: line_defs)
  have p: "\<forall>x \<in> set ?fs. plain x" using assms plain_stat_fields by (auto simp: show_u32_def)
  then show "newline \<notin> set (tcpudp_line lt ip d i) \<and> nul \<notin> set (tcpudp_line lt ip d i)"
    unfolding l using plain_join [of "CHR '',''" ?fs] by auto
  show "split_on (CHR '','') (tcpudp_line lt ip d i) = ?fs" unfolding l by (rule split_join_plain [OF p]) simp
qed

lemma tcpudp_line_plain:
  assumes "plain ip" and "\<And>t. plain (lt t)"
  shows "newline \<notin> set (tcpudp_line lt ip d i) \<and> nul \<notin> set (tcpudp_line lt ip d i)"
    and "tcpudp_record (tcpudp_line lt ip d i) =
      (ip, uint2ip d, map unat [tri_n_success i, tri_n_failure i, tri_n_weird i],
       stat_values (calc_result_stats (tri_network_delays i)))"
  using tcpudp_line_split [OF assms]
  by (simp_all add: tcpudp_record_def field_defs show_nat_def del: append_Cons) (simp add: show_nat_def)

lemma rdma_line_split:
  assumes "plain ip" and "\<And>t. plain (lt t)"
  shows "split_on (CHR '','') (rdma_line lt ip d i) =
      [ip, uint2ip d, timestamp_ns_to_string lt (rri_ts_start i), timestamp_ns_to_string lt (rri_ts_end i),
       show_u32 (rri_n_success i), show_u32 (rri_n_failure i), show_u32 (rri_n_weird i)]
      @ ''client'' # stat_fields (calc_result_stats (rri_client_delays i))
      @ ''network'' # stat_fields (calc_result_stats (rri_network_delays i))
      @ ''server'' # stat_fields (calc_result_stats (rri_server_delays i))"
    and "newline \<notin> set (rdma_line lt ip d i) \<and> nul \<notin> set (rdma_line lt ip d i)"
proof -
  let ?fs = "[ip, uint2ip d, timestamp_ns_to_string lt (rri_ts_start i), timestamp_ns_to_string lt (rri_ts_end i),
     show_u32 (rri_n_success i), show_u32 (rri_n_failure i), show_u32 (rri_n_weird i)]
     @ ''client'' # stat_fields (calc_result_stats (rri_client_delays i))
     @ ''network'' # stat_fields (calc_result_stats (rri_network_delays i))
     @ ''server'' # stat_fields (calc_result_stats (rri_server_delays i))"
  have l: "rdma_line lt ip d i = join_with (CHR '','') ?fs" by (simp only: line_defs)
  have p: "\<forall>x \<in> set ?fs. plain x" using assms plain_stat_fields by (auto simp: show_u32_def)
  then show "newline \<notin> set (rdma_line lt ip d i) \<and> nul \<notin> set (rdma_line lt ip d i)"
    unfolding l using plain_join [of "CHR '',''" ?fs] by auto
  show "split_on (CHR '','') (rdma_line lt ip d i) = ?fs" unfolding l by (rule split_join_plain [OF p]) simp
qed

lemma rdma_line_plain:
  assumes "plain ip" and "\<And>t. plain (lt t)"
  shows "newline \<notin> set (rdma_line lt ip d i) \<and> nul \<notin> set (rdma_line lt ip d i)"
    and "rdma_record (rdma_line lt ip d i) =
      (ip, uint2ip d, map unat [rri_n_success i, rri_n_failure i, rri_n_weird i],
       stat_values (calc_result_stats (rri_client_delays i)),
       stat_values (calc_result_stats (rri_network_delays i)),
       stat_values (calc_result_stats (rri_server_delays i)))"
proof -
  define c n v where "c = calc_result_stats (rri_client_delays i)"
    and "n = calc_result_stats (rri_network_delays i)" and "v = calc_result_stats (rri_server_delays i)"
  note S = rdma_line_split [OF assms, where d = d and i = i, folded c_def n_def v_def]
  show "newline \<notin> set (rdma_line lt ip d i) \<and> nul \<notin> set (rdma_line lt ip d i)" by (rule S(2))
  have "rdma_record (rdma_line lt ip d i) =
      (ip, uint2ip d, map unat [rri_n_success i, rri_n_failure i, rri_n_weird i],
       stat_values c, stat_values n, stat_values v)"
    using S(1) by (simp add: rdma_record_def field_defs show_nat_def del: append_Cons) (simp add: show_nat_def)
  then show "rdma_record (rdma_line lt ip d i) =
      (ip, uint2ip d, map unat [rri_n_success i, rri_n_failure i, rri_n_weird i],
       stat_values (calc_result_stats (rri_client_delays i)),
       stat_values (calc_result_stats (rri_network_delays i)),
       stat_values (calc_result_stats (rri_server_delays i)))"
    by (simp add: c_def n_def v_def)
qed

lemma agg_result_records:
  assumes "\<And>d i. newline \<notin> set (line d i) \<and> nul \<notin> set (line d i)"
  shows "nul \<notin> set (agg_result line order t)"
    and "records rec (agg_result line order t) = map (\<lambda>d. rec (line d (the (t d)))) order"
proof -
  show "nul \<notin> set (agg_result line order t)" using assms by (auto simp: agg_result_def newline_def nul_def)
  have "split_on newline (agg_result line order t) = map (\<lambda>d. line d (the (t d))) order @ [[]]"
    using assms by (intro split_agg_result) auto
  then show "records rec (agg_result line order t) = map (\<lambda>d. rec (line d (the (t d)))) order"
    by (simp add: records_def)
qed

text \<open>A report written to a ring with room is the next message the reader takes from it.\<close>

lemma send_report_read:
  assumes d: "shdata (rt_ipc_producer s) = Some d" "ring_inv d" "length (ring_pending d) < IPC_BUFFER_SIZE - 1"
    and m: "agg_result line order (rt_dstip2result s) = msg" "order \<noteq> []" "nul \<notin> set msg" "length msg < IPC_MESSAGE_SIZE"
  shows "fst (read_messages IPC_BUFFER_SIZE (the (shdata (rt_ipc_producer (send_report line order now s)))))
    = ring_pending d @ [msg]"
proof -
  obtain ok d' where w: "ring_write d msg = (ok, d')" by (cases "ring_write d msg")
  have n: "msg \<noteq> []" using m(1,2) by (cases order) (auto simp: agg_result_def)
  note W = ring_write_spec [OF d(2) n w]
  have ok: ok using W(3) d(3) by auto
  have "ipc_stored msg = msg" using m(3,4) by (simp add: ipc_stored_def c_str_no_nul)
  then have p: "ring_pending d' = ring_pending d @ [msg]" using W(2) ok by simp
  have "the (shdata (rt_ipc_producer (send_report line order now s))) = d'"
    using ok by (simp add: send_report_def writeMessage_def d(1) m(1) w)
  moreover have "fst (read_messages IPC_BUFFER_SIZE d') = ring_pending d'"
    using read_messages_drains [OF W(1) length_ring_pending] by (cases "read_messages IPC_BUFFER_SIZE d'") auto
  ultimately show ?thesis using p by simp
qed

subsection \<open>How many lines fit a slot\<close>

lemma length_show_nat: "n < 10 ^ k \<Longrightarrow> 0 < k \<Longrightarrow> length (show_nat n) \<le> k"
  unfolding show_nat_def by (rule length_show_base) auto

lemma length_show_u64: "length (show_nat (unat (w :: u64))) \<le> 20"
  using unat_bound [of w] by (intro length_show_nat) simp_all

lemma length_show_u32: "length (show_u32 w) \<le> 10"
  unfolding show_u32_def using unat_bound [of w] by (intro length_show_nat) simp_all

lemma length_timestamp: "length (timestamp_ns_to_string lt ts) \<le> 41"
proof -
  have "length (show_nat (unat ts mod 1000000000)) \<le> 9" by (intro length_show_nat) simp_all
  then show ?thesis by (simp add: timestamp_ns_to_string_eq)
qed

lemma length_join_with:
  "xs \<noteq> [] \<Longrightarrow> length (join_with c xs) + 1 = sum_list (map length xs) + length xs"
  by (induction c xs rule: join_with.induct) auto

lemma length_uint2ip: "length (uint2ip d) \<le> 15"
proof -
  have "\<exists>a b c e. xs = [a, b, c, e]" if "length xs = 4" for xs :: bytes
    using that by (auto simp: length_Suc_conv eval_nat_numeral)
  then obtain a b c e where bs: "le_encode 4 (unat d) = [a, b, c, e]" using length_le_encode by blast
  have "length (show_nat (unat (x :: u8))) \<le> 3" for x
    using unat_bound [of x] by (intro length_show_nat) simp_all
  from this [of a] this [of b] this [of c] this [of e] show ?thesis by (simp add: uint2ip_def inet_ntop4_def bs)
qed

lemma length_stat_fields: "sum_list (map length (stat_fields st)) \<le> 100" "length (stat_fields st) = 5"
proof -
  note L = length_show_u64 [of "mean st"] length_show_u64 [of "max_delay st"] length_show_u64 [of "percentile_50 st"]
    length_show_u64 [of "percentile_95 st"] length_show_u64 [of "percentile_99 st"]
  show "sum_list (map length (stat_fields st)) \<le> 100" using L by (simp add: stat_fields_def)
  show "length (stat_fields st) = 5" by (simp add: stat_fields_def)
qed

lemma length_tcpudp_line:
  assumes "length ip \<le> 15"
  shows "length (tcpudp_line lt ip d i) \<le> 261"
proof -
  let ?st = "calc_result_stats (tri_network_delays i)"
  let ?fs = "[ip, uint2ip d, timestamp_ns_to_string lt (tri_ts_start i), timestamp_ns_to_string lt (tri_ts_end i),
     show_u32 (tri_n_success i), show_u32 (tri_n_failure i), show_u32 (tri_n_weird i), ''network''] @ stat_fields ?st"
  have l: "tcpudp_line lt ip d i = join_with (CHR '','') ?fs" by (simp only: line_defs)
  have "sum_list (map length ?fs) \<le> 249" and "length ?fs = 13"
    using assms length_stat_fields [of ?st] length_uint2ip [of d] length_timestamp [of lt "tri_ts_start i"]
      length_timestamp [of lt "tri_ts_end i"] length_show_u32 [of "tri_n_success i"]
      length_show_u32 [of "tri_n_failure i"] length_show_u32 [of "tri_n_weird i"] by simp_all
  with length_join_with [of ?fs "CHR '',''"] show ?thesis unfolding l by simp
qed

lemma length_rdma_line:
  assumes "length ip \<le> 15"
  shows "length (rdma_line lt ip d i) \<le> 485"
proof -
  let ?c = "calc_result_stats (rri_client_delays i)" and ?n = "calc_result_stats (rri_network_delays i)"
    and ?v = "calc_result_stats (rri_server_delays i)"
  let ?fs = "[ip, uint2ip d, timestamp_ns_to_string lt (rri_ts_start i), timestamp_ns_to_string lt (rri_ts_end i),
     show_u32 (rri_n_success i), show_u32 (rri_n_failure i), show_u32 (rri_n_weird i)]
     @ ''client'' # stat_fields ?c @ ''network'' # stat_fields ?n @ ''server'' # stat_fields ?v"
  have l: "rdma_line lt ip d i = join_with (CHR '','') ?fs" by (simp only: line_defs)
  have "sum_list (map length ?fs) \<le> 461" and "length ?fs = 25"
    using assms length_stat_fields [of ?c] length_stat_fields [of ?n] length_stat_fields [of ?v]
      length_uint2ip [of d] length_timestamp [of lt "rri_ts_start i"] length_timestamp [of lt "rri_ts_end i"]
      length_show_u32 [of "rri_n_success i"] length_show_u32 [of "rri_n_failure i"]
      length_show_u32 [of "rri_n_weird i"] by simp_all
  with length_join_with [of ?fs "CHR '',''"] show ?thesis unfolding l by simp
qed

lemma length_agg_result:
  "(\<And>d i. length (line d i) \<le> k) \<Longrightarrow> length (agg_result line order t) \<le> length order * (k + 1)"
proof (induction order)
  case (Cons d order)
  have "length (line d (the (t d))) \<le> k" by (rule Cons.prems)
  then show ?case using Cons.IH [OF Cons.prems] by (simp add: agg_result_def)
qed (simp add: agg_result_def)

text \<open>
  A report reaches the agent.  When the ring has room, the reader of the
  shared memory finds the report behind what was waiting, and cutting it at line ends and commas
  gives, for each destination of the window, the addresses, the three counters, and the statistics of the delays.
  A report of up to 8004 destinations always fits a slot.  The text of a date is only assumed to have
  no comma, line end or NUL.
\<close>

theorem tcpudp_report_delivered:
  assumes "shdata (rt_ipc_producer s) = Some d" and "ring_inv d" and "length (ring_pending d) < IPC_BUFFER_SIZE - 1"
    and "rt_dstip2result s = t" and "order \<noteq> []" and "length order \<le> 8004"
    and "agg_result (tcpudp_line lt ip) order t = msg"
    and "plain ip" and "length ip \<le> 15" and "\<And>x. plain (lt x)"
  shows "fst (read_messages IPC_BUFFER_SIZE (the (shdata (rt_ipc_producer (send_report (tcpudp_line lt ip) order now s)))))
      = ring_pending d @ [msg]
    \<and> records tcpudp_record msg = map (\<lambda>a. let i = the (t a) in
        (ip, uint2ip a, map unat [tri_n_success i, tri_n_failure i, tri_n_weird i],
         stat_values (calc_result_stats (tri_network_delays i)))) order"
proof -
  note L = tcpudp_line_plain [OF assms(8,10)]
  note R = agg_result_records [of "tcpudp_line lt ip", OF L(1)]
  have "nul \<notin> set msg" using R(1) assms(7) by blast
  moreover have "length msg \<le> length order * (261 + 1)"
    unfolding assms(7) [symmetric] by (rule length_agg_result) (rule length_tcpudp_line [OF assms(9)])
  then have "length msg < IPC_MESSAGE_SIZE" using assms(6) by (simp add: IPC_MESSAGE_SIZE_def)
  ultimately have "fst (read_messages IPC_BUFFER_SIZE (the (shdata (rt_ipc_producer (send_report (tcpudp_line lt ip) order now s)))))
      = ring_pending d @ [msg]"
    using send_report_read [OF assms(1-3) _ assms(5)] assms(4,7) by blast
  then
  show ?thesis using R(2) [of tcpudp_record order t] assms(7) by (simp add: L(2) Let_def)
qed

theorem tcpudp_report_delivered_witness:
  "\<exists>msg. fst (read_messages IPC_BUFFER_SIZE (the (shdata (rt_ipc_producer
        (send_report (tcpudp_line (\<lambda>_. ''now'') ''10.0.0.1'') [7] 5
          (sample_tcpudp_thread\<lparr>rt_dstip2result := [7 \<mapsto> tcpudp_summary [sample_tcpudp_msg]]\<rparr>)))))) = [msg]
     \<and> map (\<lambda>r. fst (snd (snd r))) (records tcpudp_record msg) = [[1, 0, 0]]"
proof -
  let ?s = "sample_tcpudp_thread\<lparr>rt_dstip2result := [7 \<mapsto> tcpudp_summary [sample_tcpudp_msg]]\<rparr>"
  have r: "shdata (rt_ipc_producer ?s) = Some (ring_init (\<lambda>_. []))" by (simp add: sample_tcpudp_thread_def)
  have t: "rt_dstip2result ?s = [7 \<mapsto> tcpudp_summary [sample_tcpudp_msg]]" by simp
  have ip: "plain ''10.0.0.1''" "plain ''now''" by simp_all
  note D = tcpudp_report_delivered [OF r ring_init_facts(1) _ t _ _ refl ip(1) _ ip(2), of "[7]" 5]
  then show ?thesis
    by (simp add: ring_init_facts IPC_BUFFER_SIZE_def tcpudp_summary_def sample_tcpudp_msg_def count_of_def
        result_codes Let_def)
qed

text \<open>The same for the RDMA client, whose lines carry the statistics of the three delays; up to 4315
  destinations always fit a slot.\<close>

theorem rdma_report_delivered:
  assumes "shdata (rt_ipc_producer s) = Some d" and "ring_inv d" and "length (ring_pending d) < IPC_BUFFER_SIZE - 1"
    and "rt_dstip2result s = t" and "order \<noteq> []" and "length order \<le> 4315"
    and "agg_result (rdma_line lt ip) order t = msg"
    and "plain ip" and "length ip \<le> 15" and "\<And>x. plain (lt x)"
  shows "fst (read_messages IPC_BUFFER_SIZE (the (shdata (rt_ipc_producer (send_report (rdma_line lt ip) order now s)))))
      = ring_pending d @ [msg]
    \<and> records rdma_record msg = map (\<lambda>a. let i = the (t a) in
        (ip, uint2ip a, map unat [rri_n_success i, rri_n_failure i, rri_n_weird i],
         stat_values (calc_result_stats (rri_client_delays i)),
         stat_values (calc_result_stats (rri_network_delays i)),
         stat_values (calc_result_stats (rri_server_delays i)))) order"
proof -
  note L = rdma_line_plain [OF assms(8,10)]
  note R = agg_result_records [of "rdma_line lt ip", OF L(1)]
  have "nul \<notin> set msg" using R(1) assms(7) by blast
  moreover have "length msg \<le> length order * (485 + 1)"
    unfolding assms(7) [symmetric] by (rule length_agg_result) (rule length_rdma_line [OF assms(9)])
  then have "length msg < IPC_MESSAGE_SIZE" using assms(6) by (simp add: IPC_MESSAGE_SIZE_def)
  ultimately have "fst (read_messages IPC_BUFFER_SIZE (the (shdata (rt_ipc_producer (send_report (rdma_line lt ip) order now s)))))
      = ring_pending d @ [msg]"
    using send_report_read [OF assms(1-3) _ assms(5)] assms(4,7) by blast
  then
  show ?thesis using R(2) [of rdma_record order t] assms(7) by (simp add: L(2) Let_def)
qed

theorem rdma_report_delivered_witness:
  "\<exists>msg. fst (read_messages IPC_BUFFER_SIZE (the (shdata (rt_ipc_producer
        (send_report (rdma_line (\<lambda>_. ''now'') ''10.0.0.1'') [7] 5
          (sample_rdma_thread\<lparr>rt_dstip2result := [7 \<mapsto> rdma_summary [sample_rdma_msg]]\<rparr>)))))) = [msg]
     \<and> map (\<lambda>r. fst (snd (snd r))) (records rdma_record msg) = [[1, 0, 0]]"
proof -
  let ?s = "sample_rdma_thread\<lparr>rt_dstip2result := [7 \<mapsto> rdma_summary [sample_rdma_msg]]\<rparr>"
  have r: "shdata (rt_ipc_producer ?s) = Some (ring_init (\<lambda>_. []))" by (simp add: sample_rdma_thread_def)
  have t: "rt_dstip2result ?s = [7 \<mapsto> rdma_summary [sample_rdma_msg]]" by simp
  have ip: "plain ''10.0.0.1''" "plain ''now''" by simp_all
  note D = rdma_report_delivered [OF r ring_init_facts(1) _ t _ _ refl ip(1) _ ip(2), of "[7]" 5]
  then show ?thesis
    by (simp add: ring_init_facts IPC_BUFFER_SIZE_def rdma_summary_def sample_rdma_msg_def count_of_def
        result_codes Let_def)
qed

end
