(* ===== verification/Pw_Collector.thy ===== *)
theory Pw_Collector
  imports Pw_Result
begin

text \<open>
  The Python side of a report: the loop of the agent that takes messages from the shared memory and sends them
  (\<^verbatim>\<open>thread_process_messages\<close> of \<^verbatim>\<open>agent_sender.py\<close>) and the controller that stores them
  (\<^verbatim>\<open>process_collected_message\<close> of \<^verbatim>\<open>common.py\<close>, called by both collectors).  The Redis server is a map from keys to
  values and a list of stream entries; \<^verbatim>\<open>datetime.strptime\<close> with the format of the program is a parameter that maps a text
  to a time or to nothing, where the code has an exception.

  The theory proves that the store has the newest result of each pair of hosts whatever the order of arrival, and that a
  report of a client is stored line by line under the keys and with the alarms its counters ask for.
\<close>

section \<open>Python's text functions\<close>

text \<open>\<^verbatim>\<open>str.strip\<close> on ASCII text, and \<^verbatim>\<open>int\<close> of a text: a sign, digits, single underscores between digits.\<close>

definition py_space :: "char \<Rightarrow> bool" where
  "py_space c \<longleftrightarrow> (let k = of_char c :: nat in 9 \<le> k \<and> k \<le> 13 \<or> 28 \<le> k \<and> k \<le> 32)"

definition py_strip :: "string \<Rightarrow> string" where
  "py_strip s = rev (dropWhile py_space (rev (dropWhile py_space s)))"

definition py_digits :: "string \<Rightarrow> nat option" where
  "py_digits s =
     (let groups = split_on (CHR ''_'') s in
      if list_all (\<lambda>g. g \<noteq> [] \<and> list_all (is_digit 10) g) groups then Some (read_base 10 (concat groups)) else None)"

definition py_int :: "string \<Rightarrow> int option" where
  "py_int s =
     (case py_strip s of
        [] \<Rightarrow> None
      | c # cs \<Rightarrow>
          if c = CHR ''-'' then map_option (\<lambda>n. - int n) (py_digits cs)
          else if c = CHR ''+'' then map_option int (py_digits cs)
          else map_option int (py_digits (c # cs)))"

section \<open>The store of the controller\<close>

record redis =
  store :: "string \<rightharpoonup> string"
  stream :: "(string \<times> string) list"

definition REDIS_THRES_N_FAILURE :: int where "REDIS_THRES_N_FAILURE = 0"

definition REDIS_THRES_AVG_NETWORK_LAT_NS :: "string \<Rightarrow> int" where "REDIS_THRES_AVG_NETWORK_LAT_NS protocol = 0"

definition REDIS_STREAM_PREFIX :: string where "REDIS_STREAM_PREFIX = ''redis_pingweave''"

text \<open>The time in a field; \<open>None\<close> is an \<^verbatim>\<open>IndexError\<close> or the \<^verbatim>\<open>ValueError\<close> of \<^verbatim>\<open>strptime\<close>.\<close>

definition field_time :: "(string \<Rightarrow> 't option) \<Rightarrow> string list \<Rightarrow> nat \<Rightarrow> 't option" where
  "field_time strptime row i = (if i < length row then strptime (take 26 (row ! i)) else None)"

definition field_int :: "string list \<Rightarrow> nat \<Rightarrow> int option" where
  "field_int row i = (if i < length row then py_int (row ! i) else None)"

text \<open>The field with the mean network latency.\<close>

definition latency_field :: "string \<Rightarrow> nat option" where
  "latency_field protocol =
     (if protocol \<in> {''roce'', ''ib''} then Some 14 else if protocol \<in> {''tcp'', ''udp''} then Some 8 else None)"

text \<open>The body of the loop over the lines; the flag says that it raised an exception, which leaves the loop.\<close>

definition process_line ::
    "(string \<Rightarrow> 't::linorder option) \<Rightarrow> 't \<Rightarrow> string \<Rightarrow> string \<Rightarrow> redis \<Rightarrow> bool \<times> redis" where
  "process_line strptime datetime_min protocol line r =
     (let row = split_on (CHR '','') (py_strip line) in
      if length row < 3 then (False, r)
      else
        let key = protocol @ '','' @ join_with (CHR '','') (take 2 row);
            val = join_with (CHR '','') (drop 2 row);
            curr = (case store r key of
                None \<Rightarrow> Some datetime_min
              | Some raw \<Rightarrow> if raw = [] then Some datetime_min else field_time strptime (split_on (CHR '','') raw) 1)
        in case (curr, field_time strptime row 3) of
             (Some curr_ts_end, Some new_ts_end) \<Rightarrow>
               let r1 = (if curr_ts_end < new_ts_end then r\<lparr>store := (store r)(key \<mapsto> val)\<rparr> else r) in
               (case field_int row 5 of
                  None \<Rightarrow> (True, r1)
                | Some n_failure \<Rightarrow>
                    (case latency_field protocol of
                       None \<Rightarrow> (False, r1)
                     | Some i \<Rightarrow>
                         (case field_int row i of
                            None \<Rightarrow> (True, r1)
                          | Some network_mean_lat \<Rightarrow>
                              if n_failure > REDIS_THRES_N_FAILURE
                                 \<or> network_mean_lat > REDIS_THRES_AVG_NETWORK_LAT_NS protocol
                              then (False, r1\<lparr>stream := stream r1 @ [(REDIS_STREAM_PREFIX @ ''_'' @ protocol, line)]\<rparr>)
                              else (False, r1))))
           | _ \<Rightarrow> (True, r))"

fun process_collected_message ::
    "(string \<Rightarrow> 't::linorder option) \<Rightarrow> 't \<Rightarrow> string list \<Rightarrow> string \<Rightarrow> redis \<Rightarrow> redis" where
  "process_collected_message strptime datetime_min [] protocol r = r"
| "process_collected_message strptime datetime_min (line # results) protocol r =
     (case process_line strptime datetime_min protocol line r of
        (True, r') \<Rightarrow> r'
      | (False, r') \<Rightarrow> process_collected_message strptime datetime_min results protocol r')"

text \<open>What a collector does with the body of a message.\<close>

definition collect :: "(string \<Rightarrow> 't::linorder option) \<Rightarrow> 't \<Rightarrow> string \<Rightarrow> string \<Rightarrow> redis \<Rightarrow> redis" where
  "collect strptime datetime_min protocol msg r =
     process_collected_message strptime datetime_min (split_on newline (py_strip msg)) protocol r"

section \<open>The sending thread of the agent\<close>

text \<open>
  One pass of the loop of \<^verbatim>\<open>thread_process_messages\<close> over the messages it has read: each is sent, and the latency of the sending
  compared with a second.  A sending that failed has the latency \<^verbatim>\<open>None\<close>, whose comparison raises a \<^verbatim>\<open>TypeError\<close>
  that ends the thread.  The result is what was sent and whether the thread goes on.
\<close>

fun send_messages :: "(string \<Rightarrow> int option) \<Rightarrow> string list \<Rightarrow> string list \<times> bool" where
  "send_messages send [] = ([], True)"
| "send_messages send (m # msgs) =
     (case send m of
        None \<Rightarrow> ([], False)
      | Some send_latency \<Rightarrow> (let (sent, alive) = send_messages send msgs in (m # sent, alive)))"

definition sender_pass :: "(string \<Rightarrow> int option) \<Rightarrow> SharedData \<Rightarrow> (string list \<times> bool) \<times> SharedData" where
  "sender_pass send d = (let (msgs, d') = read_messages IPC_BUFFER_SIZE d in (send_messages send msgs, d'))"
section \<open>The newest result wins\<close>

text \<open>
  A line the collector takes: its fields have a time and numbers where the code looks for them.  Its key, its value and the time it
  is compared by.
\<close>

definition line_fields :: "string \<Rightarrow> string list" where "line_fields line = split_on (CHR '','') (py_strip line)"

definition line_key :: "string \<Rightarrow> string \<Rightarrow> string" where
  "line_key protocol line = protocol @ '','' @ join_with (CHR '','') (take 2 (line_fields line))"

definition line_value :: "string \<Rightarrow> string" where "line_value line = join_with (CHR '','') (drop 2 (line_fields line))"

definition line_time :: "(string \<Rightarrow> 't option) \<Rightarrow> string \<Rightarrow> 't" where
  "line_time strptime line = the (field_time strptime (line_fields line) 3)"

definition taken_line :: "(string \<Rightarrow> 't::linorder option) \<Rightarrow> 't \<Rightarrow> string \<Rightarrow> string \<Rightarrow> bool" where
  "taken_line strptime datetime_min protocol line \<longleftrightarrow>
     (\<exists>t. field_time strptime (line_fields line) 3 = Some t \<and> datetime_min < t)
   \<and> field_int (line_fields line) 5 \<noteq> None
   \<and> (\<exists>i. latency_field protocol = Some i \<and> field_int (line_fields line) i \<noteq> None)"

definition alarming :: "string \<Rightarrow> string \<Rightarrow> bool" where
  "alarming protocol line \<longleftrightarrow> 0 < the (field_int (line_fields line) 5)
     \<or> 0 < the (field_int (line_fields line) (the (latency_field protocol)))"

text \<open>What is in the store was a value of such a line.\<close>

definition stored_time :: "(string \<Rightarrow> 't option) \<Rightarrow> string \<Rightarrow> 't option" where
  "stored_time strptime v = field_time strptime (split_on (CHR '','') v) 1"

definition newest :: "(string \<Rightarrow> 't::linorder option) \<Rightarrow> string \<Rightarrow> string list \<Rightarrow> (string \<rightharpoonup> string) \<Rightarrow> bool" where
  "newest strptime protocol lines m \<longleftrightarrow>
     (\<forall>k. case m k of
        None \<Rightarrow> \<forall>l \<in> set lines. line_key protocol l \<noteq> k
      | Some v \<Rightarrow> \<exists>l \<in> set lines. line_key protocol l = k \<and> line_value l = v
          \<and> (\<forall>l' \<in> set lines. line_key protocol l' = k \<longrightarrow> line_time strptime l' \<le> line_time strptime l))"

lemma value_split:
  assumes "field_time strptime (line_fields l) 3 = Some t"
  shows "split_on (CHR '','') (line_value l) = drop 2 (line_fields l)" "line_value l \<noteq> []" "3 \<le> length (line_fields l)"
    "stored_time strptime (line_value l) = Some t"
proof -
  have n: "3 < length (line_fields l)" using assms by (auto simp: field_time_def split: if_splits)
  have "CHR '','' \<notin> set p" if "p \<in> set (line_fields l)" for p using that split_on_pieces by (auto simp: line_fields_def)
  then have "\<forall>x \<in> set (drop 2 (line_fields l)). CHR '','' \<notin> set x" by (auto dest: in_set_dropD)
  then show s: "split_on (CHR '','') (line_value l) = drop 2 (line_fields l)"
    unfolding line_value_def by (rule split_on_join) (use n in simp)
  show "line_value l \<noteq> []"
  proof
    assume "line_value l = []"
    then have "drop 2 (line_fields l) = [[]]" using s by simp
    then have "length (drop 2 (line_fields l)) = 1" by simp
    then show False using n by simp
  qed
  show "3 \<le> length (line_fields l)" using n by simp
  show "stored_time strptime (line_value l) = Some t"
    using assms n unfolding stored_time_def s by (auto simp: field_time_def numeral_eq_Suc)
qed

lemma process_line_taken:
  assumes l: "taken_line strptime datetime_min protocol l"
    and st: "\<And>k v. store r k = Some v \<Longrightarrow> v \<noteq> [] \<and> stored_time strptime v \<noteq> None"
  shows "process_line strptime datetime_min protocol l r = (False, r\<lparr>
      store := (if case store r (line_key protocol l) of None \<Rightarrow> True
                   | Some v \<Rightarrow> the (stored_time strptime v) < line_time strptime l
                then (store r)(line_key protocol l \<mapsto> line_value l) else store r),
      stream := stream r @ (if alarming protocol l then [(REDIS_STREAM_PREFIX @ ''_'' @ protocol, l)] else [])\<rparr>)"
proof -
  obtain t n i m where t: "field_time strptime (line_fields l) 3 = Some t" "datetime_min < t"
    and n: "field_int (line_fields l) 5 = Some n" and i: "latency_field protocol = Some i"
    and m: "field_int (line_fields l) i = Some m"
    using l by (auto simp: taken_line_def)
  note V = value_split [OF t(1)]
  show ?thesis
  proof (cases "store r (line_key protocol l)")
    case None
    then show ?thesis using t n i m V(3)
      by (simp add: process_line_def Let_def alarming_def line_key_def line_value_def line_time_def
          REDIS_THRES_N_FAILURE_def REDIS_THRES_AVG_NETWORK_LAT_NS_def flip: line_fields_def)
  next
    case (Some v)
    obtain c where c: "stored_time strptime v = Some c" "v \<noteq> []" using st [OF Some] by auto
    then show ?thesis using t n i m V(3) Some
      by (simp add: process_line_def Let_def alarming_def line_key_def line_value_def line_time_def stored_time_def
          REDIS_THRES_N_FAILURE_def REDIS_THRES_AVG_NETWORK_LAT_NS_def flip: line_fields_def)
  qed
qed

lemma newest_step:
  assumes new: "newest strptime protocol ls m" and l: "field_time strptime (line_fields l) 3 = Some t"
    and ls: "\<And>x. x \<in> set ls \<Longrightarrow> field_time strptime (line_fields x) 3 \<noteq> None"
    and m': "m' = (if case m (line_key protocol l) of None \<Rightarrow> True | Some v \<Rightarrow> the (stored_time strptime v) < line_time strptime l
                then m(line_key protocol l \<mapsto> line_value l) else m)"
  shows "newest strptime protocol (ls @ [l]) m'"
  unfolding newest_def
proof
  fix k
  let ?k = "line_key protocol l"
  have mk: "case m k of None \<Rightarrow> \<forall>x \<in> set ls. line_key protocol x \<noteq> k
      | Some v \<Rightarrow> \<exists>x \<in> set ls. line_key protocol x = k \<and> line_value x = v
          \<and> (\<forall>x' \<in> set ls. line_key protocol x' = k \<longrightarrow> line_time strptime x' \<le> line_time strptime x)"
    using new by (simp add: newest_def)
  show "case m' k of None \<Rightarrow> \<forall>x \<in> set (ls @ [l]). line_key protocol x \<noteq> k
      | Some v \<Rightarrow> \<exists>x \<in> set (ls @ [l]). line_key protocol x = k \<and> line_value x = v
          \<and> (\<forall>x' \<in> set (ls @ [l]). line_key protocol x' = k \<longrightarrow> line_time strptime x' \<le> line_time strptime x)"
  proof (cases "k = ?k")
    case False
    then show ?thesis using mk by (cases "m k") (auto simp: m')
  next
    case True
    show ?thesis
    proof (cases "m k")
      case None
      then show ?thesis using mk True by (auto simp: m')
    next
      case (Some v)
      then obtain x where x: "x \<in> set ls" "line_key protocol x = k" "line_value x = v"
        "\<forall>x' \<in> set ls. line_key protocol x' = k \<longrightarrow> line_time strptime x' \<le> line_time strptime x"
        using mk by auto
      obtain tx where tx: "field_time strptime (line_fields x) 3 = Some tx" using ls [OF x(1)] by auto
      have "the (stored_time strptime v) = line_time strptime x" using value_split(4) [OF tx] tx x(3) by (simp add: line_time_def)
      then show ?thesis using Some x True by (cases "line_time strptime x < line_time strptime l") (fastforce simp: m')+
    qed
  qed
qed

lemma newest_stored:
  assumes "newest strptime protocol ls m" and "\<And>x. x \<in> set ls \<Longrightarrow> field_time strptime (line_fields x) 3 \<noteq> None" and "m k = Some v"
  shows "v \<noteq> [] \<and> stored_time strptime v \<noteq> None"
proof -
  have "case m k of None \<Rightarrow> \<forall>l \<in> set ls. line_key protocol l \<noteq> k
      | Some v \<Rightarrow> \<exists>l \<in> set ls. line_key protocol l = k \<and> line_value l = v
          \<and> (\<forall>l' \<in> set ls. line_key protocol l' = k \<longrightarrow> line_time strptime l' \<le> line_time strptime l)"
    using assms(1) by (simp only: newest_def)
  then obtain x where x: "x \<in> set ls" "line_value x = v" using assms(3) by auto
  then obtain t where "field_time strptime (line_fields x) 3 = Some t" using assms(2) by fastforce
  from value_split [OF this] show ?thesis using x(2) by simp
qed

lemma collected_newest:
  assumes "newest strptime protocol ls (store r)"
    and "\<And>x. x \<in> set (ls @ lines) \<Longrightarrow> taken_line strptime datetime_min protocol x"
  shows "newest strptime protocol (ls @ lines) (store (process_collected_message strptime datetime_min lines protocol r))
    \<and> stream (process_collected_message strptime datetime_min lines protocol r)
      = stream r @ map (\<lambda>l. (REDIS_STREAM_PREFIX @ ''_'' @ protocol, l)) (filter (alarming protocol) lines)"
  using assms
proof (induction lines arbitrary: ls r)
  case (Cons l lines)
  have ft: "field_time strptime (line_fields x) 3 \<noteq> None" if "x \<in> set ls" for x
    using Cons.prems(2) [of x] that by (auto simp: taken_line_def)
  have tl: "taken_line strptime datetime_min protocol l" using Cons.prems(2) [of l] by simp
  then obtain t where t: "field_time strptime (line_fields l) 3 = Some t" by (auto simp: taken_line_def)
  obtain r' where r': "process_line strptime datetime_min protocol l r = (False, r')"
    and s: "store r' = (if case store r (line_key protocol l) of None \<Rightarrow> True
                   | Some v \<Rightarrow> the (stored_time strptime v) < line_time strptime l
                then (store r)(line_key protocol l \<mapsto> line_value l) else store r)"
    and st: "stream r' = stream r @ (if alarming protocol l then [(REDIS_STREAM_PREFIX @ ''_'' @ protocol, l)] else [])"
  proof -
    have "\<And>k v. store r k = Some v \<Longrightarrow> v \<noteq> [] \<and> stored_time strptime v \<noteq> None"
      by (rule newest_stored [OF Cons.prems(1) ft])
    from that [OF process_line_taken [OF tl this]] show thesis by simp
  qed
  have "newest strptime protocol (ls @ [l]) (store r')" by (rule newest_step [OF Cons.prems(1) t ft s])
  then show ?case using Cons.IH [of "ls @ [l]" r'] Cons.prems(2) r' st by simp
qed simp


section \<open>A report in the store\<close>

lemma py_space_simps [simp]:
  "is_digit 10 c \<Longrightarrow> \<not> py_space c" "py_space newline" "\<not> py_space (CHR '','')"
  by (auto simp: is_digit_def digit_val_def py_space_def newline_def Let_def split: if_splits)

lemma py_strip_keeps: "s \<noteq> [] \<Longrightarrow> \<not> py_space (hd s) \<Longrightarrow> \<not> py_space (last s) \<Longrightarrow> py_strip s = s"
proof -
  assume s: "s \<noteq> []" "\<not> py_space (hd s)" "\<not> py_space (last s)"
  have "dropWhile py_space s = s" using s(1,2) by (cases s) auto
  moreover have "dropWhile py_space (rev s) = rev s" using s(1,3) by (cases s rule: rev_cases) auto
  ultimately show ?thesis by (simp add: py_strip_def)
qed

lemma show_nat_facts: "list_all (is_digit 10) (show_nat n)" "show_nat n \<noteq> []"
  using show_base_digits [of 10 n] by (simp_all add: show_nat_def list_all_iff)

lemma py_int_show_nat [simp]: "py_int (show_nat n) = Some (int n)"
proof -
  obtain c cs where c: "show_nat n = c # cs" using show_nat_facts(2) by (cases "show_nat n") auto
  have d: "\<forall>x \<in> set (show_nat n). is_digit 10 x" using show_nat_facts(1) by (simp add: list_all_iff)
  have "split_on (CHR ''_'') (show_nat n) = [show_nat n]"
    using d by (intro split_on_atom) (auto simp: is_digit_def digit_val_def)
  moreover have "read_base 10 (show_nat n) = n" unfolding show_nat_def by (rule read_show_base) simp_all
  ultimately have "py_digits (show_nat n) = Some n" using show_nat_facts [of n] by (simp add: py_digits_def)
  moreover have "py_strip (show_nat n) = show_nat n" using d c by (intro py_strip_keeps) auto
  moreover have "c \<noteq> CHR ''-''" "c \<noteq> CHR ''+''" using d c by (auto simp: is_digit_def digit_val_def)
  ultimately show ?thesis using c by (simp add: py_int_def)
qed

text \<open>A text that neither starts nor ends with white space.\<close>

definition tight :: "string \<Rightarrow> bool" where "tight s \<longleftrightarrow> s \<noteq> [] \<and> \<not> py_space (hd s) \<and> \<not> py_space (last s)"

lemma tight_digits: "s \<noteq> [] \<Longrightarrow> list_all (is_digit 10) s \<Longrightarrow> tight s"
  by (auto simp: tight_def list_all_iff)

lemma tight_strip: "tight s \<Longrightarrow> py_strip s = s"
  by (simp add: tight_def py_strip_keeps)

lemma tight_strip_newline: "tight s \<Longrightarrow> py_strip (s @ [newline]) = s"
proof -
  assume s: "tight s"
  have "dropWhile py_space (s @ [newline]) = s @ [newline]" using s by (cases s) (auto simp: tight_def)
  moreover have "dropWhile py_space (rev s) = rev s" using s by (cases s rule: rev_cases) (auto simp: tight_def)
  ultimately show ?thesis by (simp add: py_strip_def)
qed

lemma hd_join: "a \<noteq> [] \<Longrightarrow> join_with c (a # xs) \<noteq> [] \<and> hd (join_with c (a # xs)) = hd a"
  by (cases xs) auto

lemma last_join: "b \<noteq> [] \<Longrightarrow> last (join_with c (xs @ [b])) = last b"
proof (induction c xs rule: join_with.induct)
  case (3 c x y ys)
  have "join_with c ((y # ys) @ [b]) \<noteq> []" by (cases ys) auto
  then show ?case using 3 by simp
qed auto

lemma tight_join:
  assumes "a \<noteq> []" "\<not> py_space (hd a)" "b \<noteq> []" "\<not> py_space (last b)" "fs = a # xs @ [b]"
  shows "tight (join_with c fs)"
  using hd_join [OF assms(1), of c "xs @ [b]"] last_join [OF assms(3), of c "a # xs"] assms(2,4,5) by (simp add: tight_def)

lemma concat_lines: "xs \<noteq> [] \<Longrightarrow> concat (map (\<lambda>x. x @ [c]) xs) = join_with c xs @ [c]"
  by (induction c xs rule: join_with.induct) auto

lemma collect_report:
  assumes "\<And>a i. newline \<notin> set (line a i)" and "\<And>a i. tight (line a i)" and "order \<noteq> []"
  shows "collect strptime datetime_min protocol (agg_result line order t) r
    = process_collected_message strptime datetime_min (map (\<lambda>a. line a (the (t a))) order) protocol r"
proof -
  let ?ls = "map (\<lambda>a. line a (the (t a))) order"
  have agg: "agg_result line order t = join_with newline ?ls @ [newline]"
    using concat_lines [of ?ls newline] assms(3) by (simp add: agg_result_def comp_def)
  have "tight (join_with newline ?ls)"
  proof -
    obtain a as where a: "order = a # as" using assms(3) by (cases order) auto
    obtain b bs where b: "order = bs @ [b]" using assms(3) by (cases order rule: rev_cases) auto
    have "line a (the (t a)) \<noteq> []" "\<not> py_space (hd (line a (the (t a))))" using assms(2) by (auto simp: tight_def)
    moreover have "join_with newline ?ls = join_with newline (line a (the (t a)) # map (\<lambda>a. line a (the (t a))) as)" by (simp add: a)
    moreover have "line b (the (t b)) \<noteq> []" "\<not> py_space (last (line b (the (t b))))" using assms(2) by (auto simp: tight_def)
    moreover have "join_with newline ?ls = join_with newline (map (\<lambda>a. line a (the (t a))) bs @ [line b (the (t b))])" by (simp add: b)
    ultimately show ?thesis using hd_join [of "line a (the (t a))" newline "map (\<lambda>a. line a (the (t a))) as"]
        last_join [of "line b (the (t b))" newline "map (\<lambda>a. line a (the (t a))) bs"] unfolding tight_def by argo
  qed
  from tight_strip_newline [OF this] have "py_strip (agg_result line order t) = join_with newline ?ls" by (simp only: agg)
  moreover have "split_on newline (join_with newline ?ls) = ?ls" by (rule split_on_join) (use assms(1,3) in auto)
  ultimately show ?thesis by (simp only: collect_def)
qed

lemma last_show_nat: "\<not> py_space (last (show_nat n))"
  using tight_digits [OF show_nat_facts(2,1), of n] by (simp add: tight_def)

lemma rdma_line_fields:
  assumes "plain ip" and "\<And>t. plain (lt t)" and "ip \<noteq> []" and "\<not> py_space (hd ip)"
  shows "tight (rdma_line lt ip d i)"
    and "line_fields (rdma_line lt ip d i) =
      [ip, uint2ip d, timestamp_ns_to_string lt (rri_ts_start i), timestamp_ns_to_string lt (rri_ts_end i),
       show_u32 (rri_n_success i), show_u32 (rri_n_failure i), show_u32 (rri_n_weird i)]
      @ ''client'' # stat_fields (calc_result_stats (rri_client_delays i))
      @ ''network'' # stat_fields (calc_result_stats (rri_network_delays i))
      @ ''server'' # stat_fields (calc_result_stats (rri_server_delays i))"
proof -
  have j: "rdma_line lt ip d i = join_with (CHR '','') (split_on (CHR '','') (rdma_line lt ip d i))" by simp
  show "tight (rdma_line lt ip d i)"
    by (subst j, rule tight_join [of ip "show_nat (unat (percentile_99 (calc_result_stats (rri_server_delays i))))"])
      (use assms(3,4) last_show_nat show_nat_facts(2) in \<open>simp_all add: rdma_line_split [OF assms(1,2)] stat_fields_def\<close>)
  then show "line_fields (rdma_line lt ip d i) =
      [ip, uint2ip d, timestamp_ns_to_string lt (rri_ts_start i), timestamp_ns_to_string lt (rri_ts_end i),
       show_u32 (rri_n_success i), show_u32 (rri_n_failure i), show_u32 (rri_n_weird i)]
      @ ''client'' # stat_fields (calc_result_stats (rri_client_delays i))
      @ ''network'' # stat_fields (calc_result_stats (rri_network_delays i))
      @ ''server'' # stat_fields (calc_result_stats (rri_server_delays i))"
    using rdma_line_split(1) [OF assms(1,2)] by (simp add: line_fields_def tight_strip)
qed

lemma line_parts:
  assumes "tight l" and "take 2 (line_fields l) = [a, b]" and "2 < length (line_fields l)"
  shows "l = a @ '','' @ b @ '','' @ line_value l"
proof -
  obtain c cs where f: "line_fields l = a # b # c # cs"
    using assms(2,3) by (auto simp: numeral_2_eq_2 length_Suc_conv take_Suc Suc_less_eq2 neq_Nil_conv)
  have "l = join_with (CHR '','') (line_fields l)" using tight_strip [OF assms(1)] by (simp add: line_fields_def)
  then have "l = join_with (CHR '','') (a # b # c # cs)" by (simp only: f)
  moreover have "line_value l = join_with (CHR '','') (c # cs)" by (simp add: line_value_def f numeral_2_eq_2)
  ultimately show ?thesis by (simp only: join_with.simps append.simps)
qed

definition pair_key :: "string \<Rightarrow> string \<Rightarrow> u32 \<Rightarrow> string" where
  "pair_key protocol ip a = protocol @ '','' @ ip @ '','' @ uint2ip a"

lemma report_stored:
  assumes line: "\<And>a i. newline \<notin> set (line a i)" "\<And>a i. tight (line a i)"
      "\<And>a i. take 2 (line_fields (line a i)) = [ip, uint2ip a]"
    and ok: "\<And>a i. taken_line strptime datetime_min protocol (line a i)"
    and order: "order \<noteq> []" "distinct order"
    and r: "r = collect strptime datetime_min protocol (agg_result line order t) \<lparr>store = Map.empty, stream = []\<rparr>"
  shows "\<forall>a \<in> set order. store r (pair_key protocol ip a) = Some (line_value (line a (the (t a))))"
    and "stream r = map (\<lambda>a. (REDIS_STREAM_PREFIX @ ''_'' @ protocol, line a (the (t a))))
      (filter (\<lambda>a. alarming protocol (line a (the (t a)))) order)"
proof -
  let ?ls = "map (\<lambda>a. line a (the (t a))) order"
  have k: "line_key protocol (line a i) = pair_key protocol ip a" for a i by (simp add: line_key_def line(3) pair_key_def)
  have C: "newest strptime protocol ?ls (store r)
    \<and> stream r = map (\<lambda>l. (REDIS_STREAM_PREFIX @ ''_'' @ protocol, l)) (filter (alarming protocol) ?ls)"
    using collected_newest [of strptime protocol "[]" "\<lparr>store = Map.empty, stream = []\<rparr>" ?ls datetime_min] ok
    by (auto simp: r collect_report [OF line(1,2) order(1)] newest_def)
  then show "stream r = map (\<lambda>a. (REDIS_STREAM_PREFIX @ ''_'' @ protocol, line a (the (t a))))
      (filter (\<lambda>a. alarming protocol (line a (the (t a)))) order)" by (simp add: filter_map comp_def)
  show "\<forall>a \<in> set order. store r (pair_key protocol ip a) = Some (line_value (line a (the (t a))))"
  proof
    fix a assume a: "a \<in> set order"
    have N: "case store r (pair_key protocol ip a) of None \<Rightarrow> \<forall>l \<in> set ?ls. line_key protocol l \<noteq> pair_key protocol ip a
      | Some v \<Rightarrow> \<exists>l \<in> set ?ls. line_key protocol l = pair_key protocol ip a \<and> line_value l = v
          \<and> (\<forall>l' \<in> set ?ls. line_key protocol l' = pair_key protocol ip a \<longrightarrow> line_time strptime l' \<le> line_time strptime l)"
      using C by (simp only: newest_def)
    have "pair_key protocol ip b = pair_key protocol ip a \<longleftrightarrow> b = a" for b by (simp add: pair_key_def uint2ip_inject)
    then show "store r (pair_key protocol ip a) = Some (line_value (line a (the (t a))))"
      using N a by (auto simp: k split: option.splits)
  qed
qed

lemma report_reaches_store:
  assumes ring: "shdata (rt_ipc_producer s) = Some d" "ring_inv d" "ring_pending d = []"
    and t: "rt_dstip2result s = t" and order: "order \<noteq> []" "distinct order"
    and len: "length (agg_result line order t) < IPC_MESSAGE_SIZE"
    and line: "\<And>a i. newline \<notin> set (line a i) \<and> nul \<notin> set (line a i)" "\<And>a i. tight (line a i)"
      "\<And>a i. take 2 (line_fields (line a i)) = [ip, uint2ip a] \<and> 2 < length (line_fields (line a i))"
    and ok: "\<And>a i. taken_line strptime datetime_min protocol (line a i)"
    and msgs: "msgs = fst (read_messages IPC_BUFFER_SIZE (the (shdata (rt_ipc_producer (send_report line order now s)))))"
    and r: "r = collect strptime datetime_min protocol (hd msgs) \<lparr>store = Map.empty, stream = []\<rparr>"
  shows "length msgs = 1"
    and "\<forall>a \<in> set order. \<exists>v. store r (pair_key protocol ip a) = Some v \<and> line a (the (t a)) = ip @ '','' @ uint2ip a @ '','' @ v"
    and "stream r = map (\<lambda>a. (REDIS_STREAM_PREFIX @ ''_'' @ protocol, line a (the (t a))))
      (filter (\<lambda>a. alarming protocol (line a (the (t a)))) order)"
proof -
  let ?msg = "agg_result line order t"
  have m: "msgs = [?msg]"
    using send_report_read [OF ring(1,2) _ _ order(1)] agg_result_records(1) [of line, OF line(1)] len ring(3)
    by (simp add: msgs t IPC_BUFFER_SIZE_def)
  then show "length msgs = 1" by simp
  have r': "r = collect strptime datetime_min protocol ?msg \<lparr>store = Map.empty, stream = []\<rparr>" by (simp add: r m)
  have n: "newline \<notin> set (line a i)" "take 2 (line_fields (line a i)) = [ip, uint2ip a]" for a i using line(1,3) by blast+
  note S = report_stored [OF n(1) line(2) n(2) ok order r']
  have "line a i = ip @ '','' @ uint2ip a @ '','' @ line_value (line a i)" for a i
    using line_parts [OF line(2) n(2)] line(3) by blast
  then show "\<forall>a \<in> set order. \<exists>v. store r (pair_key protocol ip a) = Some v \<and> line a (the (t a)) = ip @ '','' @ uint2ip a @ '','' @ v"
    using S(1) by blast
  show "stream r = map (\<lambda>a. (REDIS_STREAM_PREFIX @ ''_'' @ protocol, line a (the (t a))))
      (filter (\<lambda>a. alarming protocol (line a (the (t a)))) order)" by (rule S(2))
qed

definition readable_times :: "(string \<Rightarrow> 't::linorder option) \<Rightarrow> 't \<Rightarrow> (int \<Rightarrow> string) \<Rightarrow> bool" where
  "readable_times strptime datetime_min lt \<longleftrightarrow>
     (\<forall>ts. \<exists>t. strptime (take 26 (timestamp_ns_to_string lt ts)) = Some t \<and> datetime_min < t)"

lemma rdma_line_taken:
  assumes ip: "plain ip" "\<And>t. plain (lt t)" "ip \<noteq> []" "\<not> py_space (hd ip)"
    and rd: "readable_times strptime datetime_min lt" and p: "protocol \<in> {''roce'', ''ib''}"
  shows "taken_line strptime datetime_min protocol (rdma_line lt ip a i)"
    and "alarming protocol (rdma_line lt ip a i) \<longleftrightarrow>
      0 < rri_n_failure i \<or> 0 < mean (calc_result_stats (rri_network_delays i))"
proof -
  note F = rdma_line_fields(2) [OF ip]
  have l: "latency_field protocol = Some 14" using p by (auto simp: latency_field_def)
  have f: "field_int (line_fields (rdma_line lt ip a i)) 5 = Some (int (unat (rri_n_failure i)))"
    "field_int (line_fields (rdma_line lt ip a i)) 14 = Some (int (unat (mean (calc_result_stats (rri_network_delays i)))))"
    by (simp_all add: field_int_def F stat_fields_def show_u32_def)
  show "taken_line strptime datetime_min protocol (rdma_line lt ip a i)"
    using rd f l by (simp add: taken_line_def field_time_def F readable_times_def)
  show "alarming protocol (rdma_line lt ip a i) \<longleftrightarrow>
      0 < rri_n_failure i \<or> 0 < mean (calc_result_stats (rri_network_delays i))"
    using f l by (simp add: alarming_def word_less_def)
qed

lemma tcpudp_line_fields:
  assumes "plain ip" and "\<And>t. plain (lt t)" and "ip \<noteq> []" and "\<not> py_space (hd ip)"
  shows "tight (tcpudp_line lt ip d i)"
    and "line_fields (tcpudp_line lt ip d i) =
      [ip, uint2ip d, timestamp_ns_to_string lt (tri_ts_start i), timestamp_ns_to_string lt (tri_ts_end i),
       show_u32 (tri_n_success i), show_u32 (tri_n_failure i), show_u32 (tri_n_weird i), ''network'']
      @ stat_fields (calc_result_stats (tri_network_delays i))"
proof -
  have j: "tcpudp_line lt ip d i = join_with (CHR '','') (split_on (CHR '','') (tcpudp_line lt ip d i))" by simp
  show t: "tight (tcpudp_line lt ip d i)"
    by (subst j, rule tight_join [of ip "show_nat (unat (percentile_99 (calc_result_stats (tri_network_delays i))))"])
      (use assms(3,4) last_show_nat show_nat_facts(2) in \<open>simp_all add: tcpudp_line_split [OF assms(1,2)] stat_fields_def\<close>)
  show "line_fields (tcpudp_line lt ip d i) =
      [ip, uint2ip d, timestamp_ns_to_string lt (tri_ts_start i), timestamp_ns_to_string lt (tri_ts_end i),
       show_u32 (tri_n_success i), show_u32 (tri_n_failure i), show_u32 (tri_n_weird i), ''network'']
      @ stat_fields (calc_result_stats (tri_network_delays i))"
    using t tcpudp_line_split(1) [OF assms(1,2)] by (simp add: line_fields_def tight_strip)
qed

lemma tcpudp_line_taken:
  assumes ip: "plain ip" "\<And>t. plain (lt t)" "ip \<noteq> []" "\<not> py_space (hd ip)"
    and rd: "readable_times strptime datetime_min lt" and p: "protocol \<in> {''tcp'', ''udp''}"
  shows "taken_line strptime datetime_min protocol (tcpudp_line lt ip a i)"
    and "alarming protocol (tcpudp_line lt ip a i) \<longleftrightarrow>
      0 < tri_n_failure i \<or> 0 < mean (calc_result_stats (tri_network_delays i))"
proof -
  note F = tcpudp_line_fields(2) [OF ip]
  have l: "latency_field protocol = Some 8" using p by (auto simp: latency_field_def)
  have f: "field_int (line_fields (tcpudp_line lt ip a i)) 5 = Some (int (unat (tri_n_failure i)))"
    "field_int (line_fields (tcpudp_line lt ip a i)) 8 = Some (int (unat (mean (calc_result_stats (tri_network_delays i)))))"
    by (simp_all add: field_int_def F stat_fields_def show_u32_def)
  show "taken_line strptime datetime_min protocol (tcpudp_line lt ip a i)"
    using rd f l by (simp add: taken_line_def field_time_def F readable_times_def)
  show "alarming protocol (tcpudp_line lt ip a i) \<longleftrightarrow>
      0 < tri_n_failure i \<or> 0 < mean (calc_result_stats (tri_network_delays i))"
    using f l by (simp add: alarming_def word_less_def)
qed

section \<open>Properties of the collector\<close>


text \<open>The same for the lines of the TCP and UDP clients.\<close>

theorem tcpudp_report_stored:
  assumes ring: "shdata (rt_ipc_producer s) = Some d" "ring_inv d" "ring_pending d = []"
    and t: "rt_dstip2result s = t" and order: "order \<noteq> []" "distinct order" "length order \<le> 8004"
    and ip: "plain ip" "length ip \<le> 15" "ip \<noteq> []" "\<not> py_space (hd ip)" "\<And>x. plain (lt x)"
    and p: "readable_times strptime datetime_min lt" "protocol \<in> {''tcp'', ''udp''}"
    and msgs: "msgs = fst (read_messages IPC_BUFFER_SIZE (the (shdata (rt_ipc_producer (send_report (tcpudp_line lt ip) order now s)))))"
    and r: "r = collect strptime datetime_min protocol (hd msgs) \<lparr>store = Map.empty, stream = []\<rparr>"
  shows "length msgs = 1
    \<and> (\<forall>a \<in> set order. \<exists>v. store r (pair_key protocol ip a) = Some v
        \<and> tcpudp_line lt ip a (the (t a)) = ip @ '','' @ uint2ip a @ '','' @ v)
    \<and> stream r = map (\<lambda>a. (REDIS_STREAM_PREFIX @ ''_'' @ protocol, tcpudp_line lt ip a (the (t a))))
        (filter (\<lambda>a. 0 < tri_n_failure (the (t a)) \<or> 0 < mean (calc_result_stats (tri_network_delays (the (t a))))) order)"
proof -
  have "length (agg_result (tcpudp_line lt ip) order t) \<le> length order * (261 + 1)"
    by (rule length_agg_result) (rule length_tcpudp_line [OF ip(2)])
  then have "length (agg_result (tcpudp_line lt ip) order t) < IPC_MESSAGE_SIZE" using order(3) by (simp add: IPC_MESSAGE_SIZE_def)
  note S = report_reaches_store [OF ring t order(1,2) this tcpudp_line_plain(1) [OF ip(1,5)] tcpudp_line_fields(1) [OF ip(1,5,3,4)] _
      tcpudp_line_taken(1) [OF ip(1,5,3,4) p] msgs r, of ip]
  show ?thesis
    using S by (simp add: tcpudp_line_fields(2) [OF ip(1,5,3,4)] tcpudp_line_taken(2) [OF ip(1,5,3,4) p] numeral_2_eq_2)
qed

text \<open>Two results of one pair of hosts, the older one late, read by a clock that counts seconds.\<close>

definition late_lines :: "string list" where
  "late_lines = [''10.0.0.1,10.0.0.2,6,9,3,0,0,network,12'', ''10.0.0.1,10.0.0.2,1,5,3,0,0,network,15'']"

definition second_clock :: "string \<Rightarrow> nat option" where
  "second_clock s = map_option nat (py_int s)"

lemma late_lines_taken: "\<forall>l \<in> set late_lines. taken_line second_clock 0 ''udp'' l"
proof -
  have "list_all (\<lambda>l. case field_time second_clock (line_fields l) 3 of None \<Rightarrow> False | Some t \<Rightarrow> 0 < t) late_lines"
    "list_all (\<lambda>l. field_int (line_fields l) 5 \<noteq> None \<and> field_int (line_fields l) 8 \<noteq> None) late_lines" by code_simp+
  then show ?thesis by (auto simp: taken_line_def list_all_iff latency_field_def split: option.splits)
qed


definition sample_report_thread :: "(rdma_result_msg_t, rdma_result_info_t) result_thread" where
  "sample_report_thread = sample_rdma_thread\<lparr>rt_dstip2result := [7 \<mapsto> rdma_summary [sample_rdma_msg]]\<rparr>"


text \<open>
  A sending that fails costs the rest of the batch: the agent has taken all pending messages from the ring, sends those
  before the first failure and ends its thread, so that the others are neither in the ring nor sent.
\<close>

theorem sender_drops_batch:
  assumes "ring_inv d" and "ring_pending d = sent @ m # rest" and "\<forall>x \<in> set sent. send x \<noteq> None" and "send m = None"
  shows "\<exists>d'. sender_pass send d = ((sent, False), d') \<and> ring_pending d' = []"
proof -
  obtain ms d' where r: "read_messages IPC_BUFFER_SIZE d = (ms, d')" by (cases "read_messages IPC_BUFFER_SIZE d")
  have "ms = sent @ m # rest" "ring_pending d' = []"
    using read_messages_drains [OF assms(1) length_ring_pending r] assms(2) by auto
  moreover have "send_messages send (sent @ m # rest) = (sent, False)"
    using assms(3,4) by (induction sent) (auto simp: Let_def split: option.splits)
  ultimately show ?thesis using r by (simp add: sender_pass_def)
qed

end
