(* ===== verification/Pw_TcpUdp.thy ===== *)
theory Pw_TcpUdp
  imports Pw_TcpUdpTable Pw_Scheduler
begin

text \<open>
  The TCP and UDP programs: sockets and messages of \<^verbatim>\<open>src/src/tcpudp_common.cpp\<close>, the sending and
  receiving threads of \<^verbatim>\<open>udp_client.cpp\<close> and \<^verbatim>\<open>tcp_client.cpp\<close>, and the servers \<^verbatim>\<open>udp_server.cpp\<close> and
  \<^verbatim>\<open>tcp_server.cpp\<close>.  The outcomes of system calls are parameters; a definition has the result code of
  the function, the state it updates, and the datagrams it hands to the network.
\<close>

section \<open>The ping message\<close>

text \<open>
  The members lie at offsets 0, 8 and 16 of a structure of 24 bytes (the array \<^verbatim>\<open>raw\<close> of 16 bytes is
  shorter than the structure).  \<open>pad1\<close> and \<open>pad2\<close> are the bytes between the members, which the
  sender does not set.
\<close>

record tcpudp_pingmsg_t =
  pi_prefix :: u32
  pi_pingid :: u64
  pi_pad :: u32

definition sizeof_pingmsg :: nat where "sizeof_pingmsg = 24"

definition pingmsg_bytes :: "bytes \<Rightarrow> bytes \<Rightarrow> tcpudp_pingmsg_t \<Rightarrow> bytes" where
  "pingmsg_bytes pad1 pad2 m =
     le_encode 4 (unat (pi_prefix m)) @ pad1 @ le_encode 8 (unat (pi_pingid m)) @
     le_encode 4 (unat (pi_pad m)) @ pad2"

definition pingmsg_of :: "bytes \<Rightarrow> tcpudp_pingmsg_t" where
  "pingmsg_of bs =
     \<lparr>pi_prefix = of_nat (le_decode (take 4 bs)),
      pi_pingid = of_nat (le_decode (take 8 (drop 8 bs))),
      pi_pad = of_nat (le_decode (take 4 (drop 16 bs)))\<rparr>"

section \<open>Contexts\<close>

type_synonym sockaddr_in = "bytes \<times> u16"

record udp_context =
  uc_sock :: "int option"
  uc_poll_interval_us :: int
  uc_ipv4 :: string

record tcp_context =
  tc_sock :: "int option"
  tc_ipv4 :: string
  tc_addr :: sockaddr_in
  tc_is_server :: bool

text \<open>The results of the system calls of one \<^verbatim>\<open>make_ctx\<close>.\<close>

record udp_os =
  uo_socket :: int
  uo_getfl :: int
  uo_setfl :: int
  uo_bind :: int

record tcp_os =
  to_socket :: int
  to_reuse :: int
  to_timeo :: int
  to_linger :: int
  to_bind :: int
  to_getsockname :: int
  to_listen :: int

definition udp_make_ctx :: "string option \<Rightarrow> udp_os \<Rightarrow> string \<Rightarrow> u16 \<Rightarrow> udp_context \<Rightarrow> int \<times> udp_context" where
  "udp_make_ctx ini os ipv4 port ctx0 =
     (let ctx1 = ctx0\<lparr>uc_ipv4 := ipv4\<rparr>;
          (r, v) = get_int_param_from_ini ini (uc_poll_interval_us ctx1) ''interval_poll_event_udp_microsec'';
          ctx2 = ctx1\<lparr>uc_poll_interval_us := v\<rparr>
      in if IS_FAILURE r then (PINGWEAVE_FAILURE, ctx2)
         else if uo_socket os < 0 then (PINGWEAVE_FAILURE, ctx2)
         else if uc_poll_interval_us ctx2 > 0 \<and> uo_getfl os = -1 then (PINGWEAVE_FAILURE, ctx2)
         else if uc_poll_interval_us ctx2 > 0 \<and> uo_setfl os = -1 then (PINGWEAVE_FAILURE, ctx2)
         else
           let ctx3 = ctx2\<lparr>uc_sock := Some (uo_socket os)\<rparr> in
           if inet_pton4 (c_str ipv4) = None then (PINGWEAVE_FAILURE, ctx3)
           else if uo_bind os < 0 then (PINGWEAVE_FAILURE, ctx3)
           else (PINGWEAVE_SUCCESS, ctx3))"

definition udp_initialize_contexts ::
    "string option \<Rightarrow> udp_os \<Rightarrow> udp_os \<Rightarrow> string \<Rightarrow> u16 \<Rightarrow> udp_context \<Rightarrow> udp_context \<Rightarrow> int \<times> udp_context \<times> udp_context" where
  "udp_initialize_contexts ini os_tx os_rx ipv4 rx_port ctx_tx ctx_rx =
     (case udp_make_ctx ini os_tx ipv4 0 ctx_tx of (r1, tx) \<Rightarrow>
      if IS_FAILURE r1 then (PINGWEAVE_FAILURE, tx, ctx_rx)
      else
        case udp_make_ctx ini os_rx ipv4 rx_port ctx_rx of (r2, rx) \<Rightarrow>
        if IS_FAILURE r2 then (PINGWEAVE_FAILURE, tx, rx) else (PINGWEAVE_SUCCESS, tx, rx))"

definition tcp_make_ctx :: "tcp_os \<Rightarrow> string \<Rightarrow> u16 \<Rightarrow> tcp_context \<Rightarrow> int \<times> tcp_context" where
  "tcp_make_ctx os ipv4 port ctx0 =
     (let ctx1 = ctx0\<lparr>tc_ipv4 := ipv4\<rparr> in
      if to_socket os < 0 then (PINGWEAVE_FAILURE, ctx1)
      else
        let ctx2 = ctx1\<lparr>tc_sock := Some (to_socket os)\<rparr> in
        if tc_is_server ctx2 \<and> to_reuse os < 0 then (PINGWEAVE_FAILURE, ctx2)
        else if \<not> tc_is_server ctx2 \<and> to_timeo os < 0 then (PINGWEAVE_FAILURE, ctx2)
        else if \<not> tc_is_server ctx2 \<and> to_linger os = -1 then (PINGWEAVE_FAILURE, ctx2)
        else
          case inet_pton4 (c_str ipv4) of
            None \<Rightarrow> (PINGWEAVE_FAILURE, ctx2\<lparr>tc_addr := (replicate 4 0, port)\<rparr>)
          | Some a \<Rightarrow>
              let ctx3 = ctx2\<lparr>tc_addr := (a, port)\<rparr> in
              if to_bind os < 0 then (PINGWEAVE_FAILURE, ctx3)
              else if tc_is_server ctx3 \<and> to_getsockname os = -1 then (PINGWEAVE_FAILURE, ctx3)
              else if tc_is_server ctx3 \<and> to_listen os = -1 then (PINGWEAVE_FAILURE, ctx3)
              else (PINGWEAVE_SUCCESS, ctx3))"

section \<open>UDP messages\<close>

text \<open>\<open>sent\<close> is the result of \<^verbatim>\<open>sendto\<close>; the datagram goes out when it is not negative.\<close>

definition send_udp_message ::
    "bytes \<times> bytes \<Rightarrow> int \<Rightarrow> string \<Rightarrow> u16 \<Rightarrow> u64 \<Rightarrow> int \<times> (sockaddr_in \<times> bytes) list" where
  "send_udp_message pads sent dst_ip dst_port pingid =
     (case inet_pton4 (c_str dst_ip) of
        None \<Rightarrow> (PINGWEAVE_FAILURE, [])
      | Some a \<Rightarrow>
          let msg = pingmsg_bytes (fst pads) (snd pads) \<lparr>pi_prefix = 0, pi_pingid = pingid, pi_pad = 0\<rparr> in
          if sent < 0 then (PINGWEAVE_FAILURE, [])
          else if nat sent \<noteq> sizeof_pingmsg then (PINGWEAVE_FAILURE, [((a, dst_port), take (nat sent) msg)])
          else (PINGWEAVE_SUCCESS, [((a, dst_port), msg)]))"

text \<open>
  One outcome of \<^verbatim>\<open>recvfrom\<close>: a datagram with the address of its sender, of which at most the
  length of the buffer is kept, or an error.
\<close>

datatype recv_outcome = Datagram bytes bytes | E_again | E_other

text \<open>The polling loop over the successive outcomes; \<open>None\<close> when the fuel ends before a datagram or an error.\<close>

fun recv_loop :: "(nat \<Rightarrow> recv_outcome) \<Rightarrow> nat \<Rightarrow> nat \<Rightarrow> recv_outcome option" where
  "recv_loop recvfrom i 0 = None"
| "recv_loop recvfrom i (Suc fuel) =
     (case recvfrom i of
        E_again \<Rightarrow> recv_loop recvfrom (Suc i) fuel
      | r \<Rightarrow> Some r)"

record udp_received =
  ur_pingid :: u64
  ur_sender :: string
  ur_steady_ts :: u64

definition check_udp_message :: "recv_outcome \<Rightarrow> time_point \<Rightarrow> udp_received \<Rightarrow> int \<times> udp_received" where
  "check_udp_message outcome steady_now out0 =
     (let out1 = out0\<lparr>ur_steady_ts := get_current_timestamp_ns steady_now\<rparr> in
      case outcome of
        Datagram dgram from \<Rightarrow>
          let buffer = take sizeof_pingmsg dgram in
          if length buffer \<noteq> sizeof_pingmsg then (PINGWEAVE_FAILURE, out1)
          else
            let ping_msg = pingmsg_of buffer in
            if pi_prefix ping_msg \<noteq> 0 \<or> pi_pad ping_msg \<noteq> 0 then (PINGWEAVE_FAILURE, out1)
            else if pi_pingid ping_msg = 0 then (PINGWEAVE_FAILURE, out1)
            else (PINGWEAVE_SUCCESS, out1\<lparr>ur_pingid := pi_pingid ping_msg, ur_sender := inet_ntop4 from\<rparr>)
      | _ \<Rightarrow> (PINGWEAVE_FAILURE, out1))"

definition receive_udp_message ::
    "udp_context \<Rightarrow> (nat \<Rightarrow> recv_outcome) \<Rightarrow> nat \<Rightarrow> time_point \<Rightarrow> udp_received \<Rightarrow> (int \<times> udp_received) option" where
  "receive_udp_message ctx_rx recvfrom fuel steady_now out0 =
     (if uc_poll_interval_us ctx_rx > 0 then
        (case recv_loop recvfrom 0 fuel of
           None \<Rightarrow> None
         | Some E_other \<Rightarrow> Some (PINGWEAVE_FAILURE, out0)
         | Some r \<Rightarrow> Some (check_udp_message r steady_now out0))
      else Some (check_udp_message (recvfrom 0) steady_now out0))"

section \<open>Loops of the UDP programs\<close>

text \<open>
  One pass of the sending thread: the scheduler, the next identifier, the table, the datagrams.
  \<^verbatim>\<open>ping_uid++\<close> wraps at 32 bits.
\<close>

record udp_tx =
  ut_scheduler :: "string MsgScheduler"
  ut_ping_uid :: u32

record tx_env =
  te_doc :: "node option"
  te_load_now :: time_point
  te_ping_now :: time_point
  te_expire_now :: time_point
  te_steady_now :: time_point
  te_system_now :: time_point
  te_sent :: int
  te_pads :: "bytes \<times> bytes"

definition udp_client_tx_step ::
    "u32 \<Rightarrow> string \<Rightarrow> tx_env \<Rightarrow> udp_tx \<Rightarrow> TcpUdpPinginfoMap \<Rightarrow> udp_tx \<times> TcpUdpPinginfoMap \<times> (sockaddr_in \<times> bytes) list" where
  "udp_client_tx_step uninit ipv4 env t ping_table =
     (case tcpudp_next (te_doc env) (te_load_now env) (te_ping_now env) (ut_scheduler t) of
        ((r, dst, time_sleep_us), sch) \<Rightarrow>
          if IS_SUCCESS r then
            let dst_addr = the dst;
                pingid = make_pingid (ip2uint uninit ipv4) (ut_ping_uid t);
                (_, table1) = TcpUdpPinginfoMap_insert uninit (te_expire_now env) (te_steady_now env)
                                (te_system_now env) pingid pingid dst_addr ping_table;
                (_, out) = send_udp_message (te_pads env) (te_sent env) dst_addr PINGWEAVE_UDP_PORT_SERVER pingid
            in (t\<lparr>ut_scheduler := sch, ut_ping_uid := ut_ping_uid t + 1\<rparr>, table1, out)
          else (t\<lparr>ut_scheduler := sch\<rparr>, ping_table, []))"

text \<open>One pass of the receiving thread on a message.\<close>

definition udp_client_rx_step :: "u32 \<Rightarrow> int \<times> udp_received \<Rightarrow> TcpUdpPinginfoMap \<Rightarrow> TcpUdpPinginfoMap" where
  "udp_client_rx_step uninit got ping_table =
     (if IS_FAILURE (fst got) then ping_table
      else snd (TcpUdpPinginfoMap_update_pong_info uninit (ur_pingid (snd got)) (ur_steady_ts (snd got)) ping_table))"

text \<open>One pass of the server: every accepted message is answered to its sender with the same identifier.\<close>

definition udp_server_step :: "bytes \<times> bytes \<Rightarrow> int \<Rightarrow> int \<times> udp_received \<Rightarrow> (sockaddr_in \<times> bytes) list" where
  "udp_server_step pads sent got =
     (if IS_FAILURE (fst got) then []
      else snd (send_udp_message pads sent (ur_sender (snd got)) PINGWEAVE_UDP_PORT_CLIENT (ur_pingid (snd got))))"

section \<open>TCP\<close>

text \<open>
  A TCP ping is a connection: the thread made for it records the send time, connects, and records
  the end of the handshake.  \<open>connected\<close> and \<open>local\<close> are the results of \<^verbatim>\<open>connect\<close> and \<^verbatim>\<open>getsockname\<close>.
\<close>

definition send_tcp_message ::
    "u32 \<Rightarrow> tcp_os \<Rightarrow> tx_env \<Rightarrow> int \<Rightarrow> time_point \<Rightarrow> int \<Rightarrow> string \<Rightarrow> string \<Rightarrow> u64 \<Rightarrow> TcpUdpPinginfoMap
     \<Rightarrow> int \<times> TcpUdpPinginfoMap" where
  "send_tcp_message uninit os env connected handshake_now local_rc src_ip dst_ip pingid ping_table =
     (case tcp_make_ctx os src_ip 0 \<lparr>tc_sock = None, tc_ipv4 = [], tc_addr = ([], 0), tc_is_server = False\<rparr> of
        (r, ctx_client) \<Rightarrow>
          if IS_FAILURE r then (PINGWEAVE_FAILURE, ping_table)
          else if inet_pton4 (c_str dst_ip) = None then (PINGWEAVE_FAILURE, ping_table)
          else
            let (_, table1) = TcpUdpPinginfoMap_insert uninit (te_expire_now env) (te_steady_now env)
                                (te_system_now env) pingid pingid dst_ip ping_table
            in if connected = -1 then (PINGWEAVE_FAILURE, table1)
               else
                 let (_, table2) = TcpUdpPinginfoMap_update_pong_info uninit pingid
                                     (get_current_timestamp_ns handshake_now) table1
                 in if local_rc = -1 then (PINGWEAVE_FAILURE, table2) else (PINGWEAVE_SUCCESS, table2))"

text \<open>One pass of the TCP sending thread: the arguments of the thread it starts, if any.\<close>

definition tcp_client_tx_step ::
    "u32 \<Rightarrow> string \<Rightarrow> tx_env \<Rightarrow> udp_tx \<Rightarrow> udp_tx \<times> (string \<times> string \<times> u16 \<times> u64) option" where
  "tcp_client_tx_step uninit ipv4 env t =
     (case tcpudp_next (te_doc env) (te_load_now env) (te_ping_now env) (ut_scheduler t) of
        ((r, dst, time_sleep_us), sch) \<Rightarrow>
          if IS_SUCCESS r then
            (t\<lparr>ut_scheduler := sch, ut_ping_uid := ut_ping_uid t + 1\<rparr>,
             Some (ipv4, the dst, PINGWEAVE_TCP_PORT_SERVER, make_pingid (ip2uint uninit ipv4) (ut_ping_uid t)))
          else (t\<lparr>ut_scheduler := sch\<rparr>, None))"

text \<open>The server closes every accepted connection; the descriptors in use are the state.\<close>

definition receive_tcp_message :: "int \<Rightarrow> int set \<Rightarrow> int \<times> int set" where
  "receive_tcp_message sockfd fds =
     (if sockfd < 0 then (PINGWEAVE_FAILURE, fds) else (PINGWEAVE_SUCCESS, fds - {sockfd}))"

definition tcp_server_step :: "int \<Rightarrow> int set \<Rightarrow> int set" where
  "tcp_server_step newSockfd fds =
     (let fds1 = (if newSockfd < 0 then fds else insert newSockfd fds)
      in snd (receive_tcp_message newSockfd fds1))"

section \<open>Messages round trip\<close>

lemma length_pingmsg_bytes [simp]:
  "length (pingmsg_bytes pad1 pad2 m) = 16 + length pad1 + length pad2"
  by (simp add: pingmsg_bytes_def)

lemma pingmsg_of_bytes:
  assumes "length pad1 = 4"
  shows "pingmsg_of (pingmsg_bytes pad1 pad2 m) = m"
  using assms by (simp add: pingmsg_of_def pingmsg_bytes_def)

lemma pingmsg_bytes_of:
  assumes "length bs = 24"
  shows "pingmsg_bytes (take 4 (drop 4 bs)) (drop 20 bs) (pingmsg_of bs) = bs"
proof -
  have w4: "le_encode 4 (unat (of_nat (le_decode xs) :: u32)) = xs" if "length xs = 4" for xs
    using that le_decode_bound [of xs] by (simp add: unat_of_nat take_bit_eq_mod le_encode_decode)
  have w8: "le_encode 8 (unat (of_nat (le_decode xs) :: u64)) = xs" if "length xs = 8" for xs
    using that le_decode_bound [of xs] by (simp add: unat_of_nat take_bit_eq_mod le_encode_decode)
  have "take 4 bs @ take 4 (drop 4 bs) @ take 8 (drop 8 bs) @ take 4 (drop 16 bs) @ drop 20 bs = bs"
    using append_take_drop_id [of 4 bs] append_take_drop_id [of 4 "drop 4 bs"] append_take_drop_id [of 8 "drop 8 bs"]
      append_take_drop_id [of 4 "drop 16 bs"] by (simp add: drop_drop)
  then show ?thesis using assms by (simp add: pingmsg_bytes_def pingmsg_of_def w4 w8)
qed

lemma check_pingmsg:
  assumes "length pad1 = 4" and "length pad2 = 4" and "pid \<noteq> 0" and "length adr = 4"
  shows "check_udp_message
      (Datagram (pingmsg_bytes pad1 pad2 \<lparr>pi_prefix = 0, pi_pingid = pid, pi_pad = 0\<rparr>) adr) now out0
    = (PINGWEAVE_SUCCESS, out0\<lparr>ur_steady_ts := get_current_timestamp_ns now, ur_pingid := pid, ur_sender := inet_ntop4 adr\<rparr>)"
  using assms by (simp add: check_udp_message_def sizeof_pingmsg_def pingmsg_of_bytes Let_def)

section \<open>A ping and its answer at the table\<close>

definition ping_result :: "u32 \<Rightarrow> u64 \<Rightarrow> string \<Rightarrow> time_point \<Rightarrow> time_point \<Rightarrow> time_point \<Rightarrow> tcpudp_result_msg_t" where
  "ping_result uninit pingid dst sys sent_at received_at =
     \<lparr>tr_pingid = pingid, tr_dstip = ip2uint uninit dst, tr_time_ping_send = get_current_timestamp_ns sys,
      tr_network_delay = get_current_timestamp_ns received_at - get_current_timestamp_ns sent_at,
      tr_result = PINGWEAVE_RESULT_SUCCESS\<rparr>"

lemma ping_then_pong:
  assumes inv: "tu_inv t0 s" and t: "t0 \<le> now'" and new: "entries (tu_table s) pid = None"
    and room: "length (brwq_pending (tu_queue s)) + length (keys (tu_table s)) < brwq_room (tu_queue s)"
    and ins: "TcpUdpPinginfoMap_insert uninit now now' sys pid pid dst s = (r1, s1)"
    and upd: "TcpUdpPinginfoMap_update_pong_info uninit pid (get_current_timestamp_ns got) s1 = (r2, s2)"
  shows "r1 = PINGWEAVE_SUCCESS \<and> r2 = PINGWEAVE_SUCCESS \<and> entries (tu_table s2) pid = None \<and> tu_inv now' s2"
    and "brwq_pending (tu_queue s2) = brwq_pending (tu_queue s)
      @ map (\<lambda>k. tu_failure uninit (entry_value (the (entries (tu_table s) k)))) (dead_keys now (tu_table s))
      @ [ping_result uninit pid dst sys now' got]"
proof -
  let ?x = "(uninit, sys, pid, dst)"
  have i: "(case ?x of (uninit, sys, pingid, dstip) \<Rightarrow> \<lambda>now now' key.
      TcpUdpPinginfoMap_insert uninit now now' sys key pingid dstip) now now' pid s = (r1, s1)" by (simp add: ins)
  have inv1: "tu_inv now' s1" using tu_table.insert_invar [OF inv, of ?x pid now' now] t i by simp
  obtain n s0 where x: "TcpUdpPinginfoMap_expireEntries uninit now s = (n, s0)"
    by (cases "TcpUdpPinginfoMap_expireEntries uninit now s")
  note X = tu_expire_spec [OF inv x]
  have "live (threshold_ms (tu_table s)) now (entries (tu_table s) pid) = None" by (simp add: live_def new)
  with tu_table.insert_new [OF inv, of ?x pid now now'] i obtain e where
    r1: "r1 = PINGWEAVE_SUCCESS" and e: "entries (tu_table s1) pid = Some e" and v: "entry_value e =
      \<lparr>ti_pingid = pid, ti_dstip = dst, ti_time_ping_send = get_current_timestamp_ns sys, ti_network_delay = convert_clock_to_ns now'\<rparr>"
    by auto
  have q1: "tu_queue s1 = tu_queue s0"
    using ins by (auto simp: TcpUdpPinginfoMap_insert_def x Let_def split: if_splits)
  have p0: "brwq_pending (tu_queue s0) = brwq_pending (tu_queue s) @
      map (\<lambda>k. tu_failure uninit (entry_value (the (entries (tu_table s) k)))) (dead_keys now (tu_table s))"
    and a0: "tu_accounts s0 = tu_accounts s" using X(5) room by auto
  have "length (brwq_pending (tu_queue s0)) \<le> size (tu_accounts s0)" by (simp add: size_tu_accounts)
  also have "\<dots> < brwq_room (tu_queue s)" using a0 room by (simp add: size_tu_accounts)
  finally have rm: "length (brwq_pending (tu_queue s1)) < brwq_room (tu_queue s1)" using X(4) q1 by simp
  have bq: "brwq_inv (tu_queue s1)" and ti: "table_inv (tu_table s1)" using inv1 by (auto simp: tu_inv_def)
  have s2: "r2 = PINGWEAVE_SUCCESS" "tu_table s2 = snd (table_remove pid (tu_table s1))"
    "tu_queue s2 = offer (tu_success uninit (get_current_timestamp_ns got) (entry_value e)) (tu_queue s1)"
    using upd unfolding update_pong_Some [OF inv1 e] by auto
  have "tu_inv now' s2" using update_pong_inv [OF inv1, of uninit pid "get_current_timestamp_ns got"] upd by simp
  then show "r1 = PINGWEAVE_SUCCESS \<and> r2 = PINGWEAVE_SUCCESS \<and> entries (tu_table s2) pid = None \<and> tu_inv now' s2"
    using r1 s2 by (simp add: table_remove_Some [OF ti e])
  show "brwq_pending (tu_queue s2) = brwq_pending (tu_queue s)
      @ map (\<lambda>k. tu_failure uninit (entry_value (the (entries (tu_table s) k)))) (dead_keys now (tu_table s))
      @ [ping_result uninit pid dst sys now' got]"
    using offer_pending [OF bq rm] s2(3) q1 p0
    by (simp add: tu_success_def v ping_result_def get_current_timestamp_ns_def)
qed

text \<open>A datagram that arrives after \<open>k\<close> empty polls.\<close>

definition arrives :: "nat \<Rightarrow> bytes \<Rightarrow> bytes \<Rightarrow> nat \<Rightarrow> recv_outcome" where
  "arrives k msg adr i = (if i < k then E_again else Datagram msg adr)"

lemma recv_loop_arrives: "i \<le> k \<Longrightarrow> recv_loop (arrives k msg adr) i (Suc (k - i)) = Some (Datagram msg adr)"
proof (induction "k - i" arbitrary: i)
  case (Suc n)
  then have "i < k" and "n = k - Suc i" by auto
  moreover have "Suc (k - Suc i) = k - i" using \<open>i < k\<close> by simp
  ultimately show ?case using Suc.hyps(1) [of "Suc i"] by (simp add: arrives_def)
qed (simp add: arrives_def)

lemma receive_arrives:
  assumes "0 < uc_poll_interval_us ctx \<or> k = 0"
  shows "receive_udp_message ctx (arrives k msg adr) (Suc k) now out0 = Some (check_udp_message (Datagram msg adr) now out0)"
  using recv_loop_arrives [of 0 k msg adr] assms by (auto simp: receive_udp_message_def arrives_def)

section \<open>Properties\<close>

text \<open>
  C26: a UDP ping makes a full round trip.  When the scheduler names a destination, the client records
  the ping and sends a datagram to the server's port; the server, whenever it receives it, answers its sender
  with the same identifier; and the client, on that answer, removes the entry and hands the
  result thread one successful result, whose delay is the distance of the two clock readings.  Empty
  polls before a datagram arrives do not matter.
\<close>

theorem udp_ping_round_trip:
  assumes "tu_inv t0 table" and "t0 \<le> te_steady_now env"
    and "length (brwq_pending (tu_queue table)) + length (keys (tu_table table)) < brwq_room (tu_queue table)"
    and "tcpudp_next (te_doc env) (te_load_now env) (te_ping_now env) (ut_scheduler tx) = ((PINGWEAVE_SUCCESS, Some dst, sl), sch)"
    and "make_pingid (ip2uint uninit ipv4) (ut_ping_uid tx) = pingid"
    and "pingid \<noteq> 0" and "entries (tu_table table) pingid = None"
    and "inet_pton4 (c_str ipv4) = Some src" and "inet_pton4 (c_str dst) = Some to"
    and "te_sent env = int sizeof_pingmsg" and "length (fst (te_pads env)) = 4" and "length (snd (te_pads env)) = 4"
    and "0 < uc_poll_interval_us server_ctx \<or> k1 = 0" and "length p1 = 4" and "length p2 = 4"
    and "0 < uc_poll_interval_us client_ctx \<or> k2 = 0"
  shows "\<exists>tx' table1 msg got reply answer table2.
      udp_client_tx_step uninit ipv4 env tx table = (tx', table1, [((to, PINGWEAVE_UDP_PORT_SERVER), msg)])
    \<and> receive_udp_message server_ctx (arrives k1 msg src) (Suc k1) now1 out1 = Some got
    \<and> udp_server_step (p1, p2) (int sizeof_pingmsg) got = [((src, PINGWEAVE_UDP_PORT_CLIENT), reply)]
    \<and> receive_udp_message client_ctx (arrives k2 reply to) (Suc k2) now2 out2 = Some answer
    \<and> udp_client_rx_step uninit answer table1 = table2
    \<and> entries (tu_table table2) pingid = None
    \<and> last (brwq_pending (tu_queue table2)) = ping_result uninit pingid dst (te_system_now env) (te_steady_now env) now2"
proof -
  let ?m = "\<lparr>pi_prefix = 0, pi_pingid = pingid, pi_pad = 0\<rparr>"
  let ?msg = "pingmsg_bytes (fst (te_pads env)) (snd (te_pads env)) ?m" and ?reply = "pingmsg_bytes p1 p2 ?m"
  obtain r1 table1 where ins: "TcpUdpPinginfoMap_insert uninit (te_expire_now env) (te_steady_now env)
      (te_system_now env) pingid pingid dst table = (r1, table1)" by fastforce
  obtain r2 table2 where upd: "TcpUdpPinginfoMap_update_pong_info uninit pingid (get_current_timestamp_ns now2) table1
      = (r2, table2)" by fastforce
  note P = ping_then_pong [OF assms(1,2,7,3) ins upd]
  have len: "length src = 4" "length to = 4" and src: "inet_ntop4 src = c_str ipv4"
    using assms(8,9) by (auto dest: inet_ntop4_pton4)
  have sender: "inet_pton4 (c_str (inet_ntop4 src)) = Some src"
    using len by (simp add: c_str_no_nul nul_not_in_ntop4 inet_pton4_ntop4)
  have E1: "udp_client_tx_step uninit ipv4 env tx table =
      (tx\<lparr>ut_scheduler := sch, ut_ping_uid := ut_ping_uid tx + 1\<rparr>, table1, [((to, PINGWEAVE_UDP_PORT_SERVER), ?msg)])"
    using assms(4,5,9,10) ins by (simp add: udp_client_tx_step_def send_udp_message_def Let_def)
  note E2 = receive_arrives [OF assms(13), of ?msg src now1 out1,
      unfolded check_pingmsg [OF assms(11,12,6) len(1)]]
  note E3 = receive_arrives [OF assms(16), of ?reply to now2 out2,
      unfolded check_pingmsg [OF assms(14,15,6) len(2)]]
  show ?thesis
    using E1 E2 E3 P upd sender by (simp add: udp_server_step_def send_udp_message_def udp_client_rx_step_def)
qed

definition sample_tx :: udp_tx where
  "sample_tx = \<lparr>ut_scheduler = \<lparr>ipaddr = ''10.0.0.1'', protocol = ''udp'', addr_idx = 0, load_config_interval_sec = 10,
     last_ping_time = 0, last_load_time = 0, inter_ping_interval_us = 1, interval_send_ping_microsec = 1,
     load_yaml_retry_cnt = 0, addressInfo = [''10.0.0.2'']\<rparr>, ut_ping_uid = 5\<rparr>"

definition sample_env :: tx_env where
  "sample_env = \<lparr>te_doc = None, te_load_now = 1000, te_ping_now = 1000, te_expire_now = 2000, te_steady_now = 3000,
     te_system_now = 77, te_sent = 24, te_pads = ([1, 2, 3, 4], [5, 6, 7, 8])\<rparr>"

definition sample_ctx :: udp_context where
  "sample_ctx = \<lparr>uc_sock = Some 3, uc_poll_interval_us = 50, uc_ipv4 = ''10.0.0.2''\<rparr>"

lemma sample_next:
  "\<exists>sl sch. tcpudp_next (te_doc sample_env) (te_load_now sample_env) (te_ping_now sample_env) (ut_scheduler sample_tx)
     = ((PINGWEAVE_SUCCESS, Some ''10.0.0.2'', sl), sch)"
  by (simp add: sample_tx_def sample_env_def tcpudp_next_def load_due_def pick_next_def Let_def duration_cast_def
      ns_per_us_def ns_per_s_def signed_divide_int_def)

lemma sample_addresses:
  "inet_pton4 (c_str ''10.0.0.1'') = Some [10, 0, 0, 1]" "inet_pton4 (c_str ''10.0.0.2'') = Some [10, 0, 0, 2]"
  by code_simp+

theorem udp_ping_round_trip_witness:
  "\<exists>tx' table1 msg got reply answer table2.
      udp_client_tx_step 0 ''10.0.0.1'' sample_env sample_tx (TcpUdpPinginfoMap_new (brwq_new MSG_QUEUE_SIZE) 1000)
        = (tx', table1, [(([10, 0, 0, 2], PINGWEAVE_UDP_PORT_SERVER), msg)])
    \<and> receive_udp_message sample_ctx (arrives 2 msg [10, 0, 0, 1]) 3 4000
        \<lparr>ur_pingid = 0, ur_sender = [], ur_steady_ts = 0\<rparr> = Some got
    \<and> udp_server_step ([0, 0, 0, 0], [0, 0, 0, 0]) (int sizeof_pingmsg) got = [(([10, 0, 0, 1], PINGWEAVE_UDP_PORT_CLIENT), reply)]
    \<and> receive_udp_message sample_ctx (arrives 1 reply [10, 0, 0, 2]) 2 5000
        \<lparr>ur_pingid = 0, ur_sender = [], ur_steady_ts = 0\<rparr> = Some answer
    \<and> udp_client_rx_step 0 answer table1 = table2
    \<and> tr_network_delay (last (brwq_pending (tu_queue table2))) = 2000"
proof -
  let ?table = "TcpUdpPinginfoMap_new (brwq_new MSG_QUEUE_SIZE) 1000"
  let ?out = "\<lparr>ur_pingid = 0, ur_sender = [], ur_steady_ts = 0\<rparr>"
  obtain sl sch where n: "tcpudp_next (te_doc sample_env) (te_load_now sample_env) (te_ping_now sample_env) (ut_scheduler sample_tx)
     = ((PINGWEAVE_SUCCESS, Some ''10.0.0.2'', sl), sch)" using sample_next by blast
  let ?pid = "make_pingid (ip2uint 0 ''10.0.0.1'') (ut_ping_uid sample_tx)"
  have ip: "ip2uint 0 ''10.0.0.1'' \<noteq> 0" by (simp add: ip2uint_def sample_addresses)
  have pid: "?pid \<noteq> 0" using make_pingid_gt_ack [OF ip, of "ut_ping_uid sample_tx"] by auto
  have room: "length (brwq_pending (tu_queue ?table)) + length (keys (tu_table ?table)) < brwq_room (tu_queue ?table)"
    using tu_new_view(2) [of 1000] brwq_new_inv(2) [where 'a = tcpudp_result_msg_t]
    by (simp add: tu_new_view MSG_QUEUE_SIZE_def)
  have e: "0 \<le> te_steady_now sample_env" "te_sent sample_env = int sizeof_pingmsg"
    "length (fst (te_pads sample_env)) = 4" "length (snd (te_pads sample_env)) = 4"
    by (simp_all add: sample_env_def sizeof_pingmsg_def)
  have c: "0 < uc_poll_interval_us sample_ctx \<or> k = 0" for k :: nat by (simp add: sample_ctx_def)
  have z: "length ([0, 0, 0, 0] :: bytes) = 4" by simp
  have en: "entries (tu_table ?table) ?pid = None" by (simp add: tu_new_view)
  have d: "tr_network_delay (ping_result 0 ?pid ''10.0.0.2'' (te_system_now sample_env) (te_steady_now sample_env) 5000) = 2000"
    by (simp add: ping_result_def sample_env_def get_current_timestamp_ns_def convert_clock_to_ns_def duration_cast_def
        signed_divide_int_def)
  have three: "Suc 2 = (3 :: nat)" "Suc 1 = (2 :: nat)" by simp_all
  from udp_ping_round_trip [OF tu_inv_new e(1) room n refl pid en sample_addresses e(2-4) c [of 2] z z c [of 1],
      of 4000 ?out 5000 ?out] d
  show ?thesis unfolding three by metis
qed

text \<open>
  The receiver accepts exactly the messages a sender can make.  A datagram passes the checks if
  and only if it starts with the image of a ping message with a non-zero identifier, whatever the
  bytes between the members and after the message; then that identifier and the sender's address are handed on.
\<close>

theorem udp_accepts_exactly:
  "IS_SUCCESS (fst (check_udp_message (Datagram dgram adr) now out0)) \<longleftrightarrow>
     (\<exists>pingid pad1 pad2 rest. pingid \<noteq> 0 \<and> length pad1 = 4 \<and> length pad2 = 4
        \<and> dgram = pingmsg_bytes pad1 pad2 \<lparr>pi_prefix = 0, pi_pingid = pingid, pi_pad = 0\<rparr> @ rest
        \<and> check_udp_message (Datagram dgram adr) now out0 = (PINGWEAVE_SUCCESS,
            out0\<lparr>ur_pingid := pingid, ur_sender := inet_ntop4 adr, ur_steady_ts := get_current_timestamp_ns now\<rparr>))"
    (is "?L \<longleftrightarrow> ?R")
proof
  assume ?R
  then obtain r where "check_udp_message (Datagram dgram adr) now out0 = (PINGWEAVE_SUCCESS, r)" by blast
  then show ?L by simp
next
  assume ?L
  let ?b = "take 24 dgram" and ?m = "pingmsg_of (take 24 dgram)"
  have ok: "length ?b = 24" "pi_prefix ?m = 0" "pi_pad ?m = 0" "pi_pingid ?m \<noteq> 0"
    and c: "check_udp_message (Datagram dgram adr) now out0 = (PINGWEAVE_SUCCESS,
        out0\<lparr>ur_pingid := pi_pingid ?m, ur_sender := inet_ntop4 adr, ur_steady_ts := get_current_timestamp_ns now\<rparr>)"
    using \<open>?L\<close> by (auto simp: check_udp_message_def sizeof_pingmsg_def Let_def split: if_splits)
  have len: "24 \<le> length dgram" using ok(1) by auto
  have "pingmsg_bytes (take 4 (drop 4 ?b)) (drop 20 ?b) ?m = ?b"
    by (rule pingmsg_bytes_of [OF ok(1)])
  moreover have "?m = \<lparr>pi_prefix = 0, pi_pingid = pi_pingid ?m, pi_pad = 0\<rparr>" using ok(2,3) by (cases ?m) simp
  ultimately have "dgram = pingmsg_bytes (take 4 (drop 4 ?b)) (drop 20 ?b) \<lparr>pi_prefix = 0, pi_pingid = pi_pingid ?m, pi_pad = 0\<rparr> @ drop 24 dgram"
    by (metis append_take_drop_id)
  then show ?R using ok(4) len c
    by (intro exI [of _ "pi_pingid ?m"] exI [of _ "take 4 (drop 4 ?b)"] exI [of _ "drop 20 ?b"] exI [of _ "drop 24 dgram"]) simp
qed

text \<open>
  C27: the outcomes of a TCP ping.  With usable addresses and socket calls, a completed handshake gives
  one successful result with the time from the record to the end of the handshake and leaves no entry,
  even when the check of the local address fails afterwards; a refused connection leaves the entry,
  dated with the send time, for the expiry to report as a failure.
\<close>

theorem tcp_ping_outcome:
  assumes "tu_inv t0 table" and "t0 \<le> te_steady_now env"
    and "length (brwq_pending (tu_queue table)) + length (keys (tu_table table)) < brwq_room (tu_queue table)"
    and "entries (tu_table table) pingid = None"
    and "inet_pton4 (c_str src_ip) \<noteq> None" and "inet_pton4 (c_str dst_ip) \<noteq> None"
    and "0 \<le> to_socket os" and "0 \<le> to_timeo os" and "0 \<le> to_linger os" and "0 \<le> to_bind os"
    and "send_tcp_message uninit os env connected handshake_now local_rc src_ip dst_ip pingid table = (r, table')"
  shows "if connected = -1 then r = PINGWEAVE_FAILURE
           \<and> (\<exists>e. entries (tu_table table') pingid = Some e \<and> timestamp e = te_steady_now env)
         else entries (tu_table table') pingid = None
           \<and> (r = PINGWEAVE_FAILURE \<longleftrightarrow> local_rc = -1)
           \<and> last (brwq_pending (tu_queue table'))
               = ping_result uninit pingid dst_ip (te_system_now env) (te_steady_now env) handshake_now"
proof -
  obtain r1 table1 where ins: "TcpUdpPinginfoMap_insert uninit (te_expire_now env) (te_steady_now env)
      (te_system_now env) pingid pingid dst_ip table = (r1, table1)" by fastforce
  obtain r2 table2 where upd: "TcpUdpPinginfoMap_update_pong_info uninit pingid (get_current_timestamp_ns handshake_now) table1
      = (r2, table2)" by fastforce
  note P = ping_then_pong [OF assms(1,2,4,3) ins upd]
  have m: "\<exists>ctx. tcp_make_ctx os src_ip 0 \<lparr>tc_sock = None, tc_ipv4 = [], tc_addr = ([], 0), tc_is_server = False\<rparr>
      = (PINGWEAVE_SUCCESS, ctx)"
    using assms(5,7-10) by (auto simp: tcp_make_ctx_def Let_def)
  have R: "(r, table') = (if connected = -1 then (PINGWEAVE_FAILURE, table1)
      else if local_rc = -1 then (PINGWEAVE_FAILURE, table2) else (PINGWEAVE_SUCCESS, table2))"
    using m assms(6,11) ins upd by (auto simp: send_tcp_message_def)
  have "live (threshold_ms (tu_table table)) (te_expire_now env) (entries (tu_table table) pingid) = None"
    by (simp add: live_def assms(4))
  then have "\<exists>e. entries (tu_table table1) pingid = Some e \<and> timestamp e = te_steady_now env"
    using tu_table.insert_new [OF assms(1), of "(uninit, te_system_now env, pingid, dst_ip)" pingid
        "te_expire_now env" "te_steady_now env"] ins by auto
  with R P show ?thesis by (auto split: if_splits)
qed

definition sample_tcp_os :: tcp_os where
  "sample_tcp_os = \<lparr>to_socket = 3, to_reuse = 0, to_timeo = 0, to_linger = 0, to_bind = 0, to_getsockname = 0, to_listen = 0\<rparr>"

theorem tcp_ping_outcome_witness:
  "\<exists>r table'. send_tcp_message 0 sample_tcp_os sample_env 0 3500 0 ''10.0.0.1'' ''10.0.0.2'' 9
      (TcpUdpPinginfoMap_new (brwq_new MSG_QUEUE_SIZE) 1000) = (r, table')
    \<and> r \<noteq> PINGWEAVE_FAILURE \<and> tr_network_delay (last (brwq_pending (tu_queue table'))) = 500"
proof -
  let ?table = "TcpUdpPinginfoMap_new (brwq_new MSG_QUEUE_SIZE) 1000"
  obtain r table' where s: "send_tcp_message 0 sample_tcp_os sample_env 0 3500 0 ''10.0.0.1'' ''10.0.0.2'' 9 ?table = (r, table')"
    by fastforce
  have room: "length (brwq_pending (tu_queue ?table)) + length (keys (tu_table ?table)) < brwq_room (tu_queue ?table)"
    using tu_new_view(2) [of 1000] brwq_new_inv(2) [where 'a = tcpudp_result_msg_t]
    by (simp add: tu_new_view MSG_QUEUE_SIZE_def)
  have a: "inet_pton4 (c_str ''10.0.0.1'') \<noteq> None" "inet_pton4 (c_str ''10.0.0.2'') \<noteq> None" by (simp_all add: sample_addresses)
  have t: "0 \<le> te_steady_now sample_env" by (simp add: sample_env_def)
  have en: "entries (tu_table ?table) 9 = None" by (simp add: tu_new_view)
  have "0 \<le> to_socket sample_tcp_os" "0 \<le> to_timeo sample_tcp_os" "0 \<le> to_linger sample_tcp_os" "0 \<le> to_bind sample_tcp_os"
    by (simp_all add: sample_tcp_os_def)
  from tcp_ping_outcome [OF tu_inv_new t room en a this s] s show ?thesis
    by (simp add: ping_result_def sample_env_def get_current_timestamp_ns_def convert_clock_to_ns_def duration_cast_def
        signed_divide_int_def)
qed

fun udp_tx_run :: "u32 \<Rightarrow> string \<Rightarrow> tx_env list \<Rightarrow> udp_tx \<Rightarrow> TcpUdpPinginfoMap \<Rightarrow> (sockaddr_in \<times> bytes) list" where
  "udp_tx_run uninit ipv4 [] t s = []"
| "udp_tx_run uninit ipv4 (env # envs) t s =
     (case udp_client_tx_step uninit ipv4 env t s of (t', s', out) \<Rightarrow> out @ udp_tx_run uninit ipv4 envs t' s')"

definition whole_send :: "tx_env \<Rightarrow> bool" where
  "whole_send env \<longleftrightarrow> length (fst (te_pads env)) = 4 \<and> (0 \<le> te_sent env \<longrightarrow> nat (te_sent env) = sizeof_pingmsg)"

definition id_of :: "sockaddr_in \<times> bytes \<Rightarrow> u64" where
  "id_of d = pi_pingid (pingmsg_of (snd d))"

lemma tx_step_ids:
  assumes "whole_send env" and "udp_client_tx_step uninit ipv4 env t s = (t', s', out)"
  shows "ut_ping_uid t' = ut_ping_uid t + 1 \<and> map id_of out \<in> {[], [make_pingid (ip2uint uninit ipv4) (ut_ping_uid t)]}
    \<or> ut_ping_uid t' = ut_ping_uid t \<and> out = []"
proof -
  obtain r dst sl sch where n: "tcpudp_next (te_doc env) (te_load_now env) (te_ping_now env) (ut_scheduler t) = ((r, dst, sl), sch)"
    by (metis prod.exhaust)
  have "map id_of (snd (send_udp_message (te_pads env) (te_sent env) d p pid)) \<in> {[], [pid]}" for d p pid
    using assms(1)
    by (auto simp: send_udp_message_def whole_send_def id_of_def pingmsg_of_bytes Let_def split: option.split)
  then show ?thesis
    using assms(2) by (auto simp: udp_client_tx_step_def n Let_def split: if_splits prod.splits) (metis snd_conv)+
qed

lemma tx_run_ids:
  assumes "\<forall>env \<in> set envs. whole_send env" and "length envs \<le> 2 ^ 32"
  shows "\<exists>is. map id_of (udp_tx_run uninit ipv4 envs t s)
      = map (\<lambda>i. make_pingid (ip2uint uninit ipv4) (ut_ping_uid t + of_nat i)) is
    \<and> sorted_wrt (<) is \<and> (\<forall>i \<in> set is. i < length envs)"
  using assms
proof (induction envs arbitrary: t s)
  case (Cons env envs)
  obtain t' s' out where st: "udp_client_tx_step uninit ipv4 env t s = (t', s', out)" by (metis prod.exhaust)
  from Cons obtain js where js: "map id_of (udp_tx_run uninit ipv4 envs t' s')
      = map (\<lambda>i. make_pingid (ip2uint uninit ipv4) (ut_ping_uid t' + of_nat i)) js"
    "sorted_wrt (<) js" "\<forall>i \<in> set js. i < length envs" by fastforce
  have up: "map (\<lambda>i. make_pingid h (ut_ping_uid t + 1 + of_nat i)) js = map (\<lambda>i. make_pingid h (ut_ping_uid t + of_nat i)) (map Suc js)"
    for h by (simp add: add.assoc)
  have sj: "sorted_wrt (<) (map Suc js)" using js(2) by (simp add: sorted_wrt_map)
  from tx_step_ids [OF _ st] Cons.prems consider
      "ut_ping_uid t' = ut_ping_uid t + 1" "map id_of out = []"
    | "ut_ping_uid t' = ut_ping_uid t + 1" "map id_of out = [make_pingid (ip2uint uninit ipv4) (ut_ping_uid t)]"
    | "ut_ping_uid t' = ut_ping_uid t" "out = []" by auto
  then show ?case
  proof cases
    case 1
    then show ?thesis using js up sj by (intro exI [of _ "map Suc js"]) (auto simp: st)
  next
    case 2
    then show ?thesis using js up sj by (intro exI [of _ "0 # map Suc js"]) (auto simp: st)
  next
    case 3
    then show ?thesis using js by (intro exI [of _ js]) (auto simp: st)
  qed
qed simp

text \<open>
  Identifiers are not reused.  Over any run of the sending thread with fewer than \<open>2^32\<close> passes, the
  datagrams that go out whole carry pairwise different identifiers, all with the sender's address as their
  upper half.
\<close>

theorem udp_ids_distinct:
  assumes "\<forall>env \<in> set envs. whole_send env" and "length envs \<le> 2 ^ 32"
  shows "distinct (map id_of (udp_tx_run uninit ipv4 envs t s))
    \<and> (\<forall>d \<in> set (udp_tx_run uninit ipv4 envs t s). fst (parse_pingid (id_of d)) = ip2uint uninit ipv4)"
proof -
  obtain "is" where I: "map id_of (udp_tx_run uninit ipv4 envs t s)
      = map (\<lambda>i. make_pingid (ip2uint uninit ipv4) (ut_ping_uid t + of_nat i)) is"
    "sorted_wrt (<) is" "\<forall>i \<in> set is. i < length envs" using tx_run_ids [OF assms] by blast
  have "inj_on (\<lambda>i. make_pingid (ip2uint uninit ipv4) (ut_ping_uid t + of_nat i)) (set is)"
  proof (rule inj_onI)
    fix i j assume ij: "i \<in> set is" "j \<in> set is"
      and "make_pingid (ip2uint uninit ipv4) (ut_ping_uid t + of_nat i) = make_pingid (ip2uint uninit ipv4) (ut_ping_uid t + of_nat j)"
    then have "(of_nat i :: u32) = of_nat j" by simp
    moreover have "i < 2 ^ 32" "j < 2 ^ 32" using I(3) ij assms(2) by auto
    then have "unat (of_nat i :: u32) = i" "unat (of_nat j :: u32) = j" by (simp_all add: unat_of_nat take_bit_eq_mod)
    ultimately show "i = j" by metis
  qed
  moreover have "distinct is" using I(2) by (simp add: strict_sorted_iff)
  ultimately have "distinct (map id_of (udp_tx_run uninit ipv4 envs t s))" by (simp add: I(1) distinct_map)
  moreover have "\<forall>x \<in> set (map id_of (udp_tx_run uninit ipv4 envs t s)). fst (parse_pingid x) = ip2uint uninit ipv4"
    unfolding I(1) by simp
  ultimately show ?thesis by simp
qed

theorem udp_ids_distinct_witness:
  "distinct (map id_of (udp_tx_run 0 ''10.0.0.1'' [sample_env, sample_env\<lparr>te_ping_now := 9000\<rparr>] sample_tx
     (TcpUdpPinginfoMap_new (brwq_new MSG_QUEUE_SIZE) 1000)))"
  using udp_ids_distinct [of "[sample_env, sample_env\<lparr>te_ping_now := 9000\<rparr>]"]
  by (simp add: whole_send_def sample_env_def sizeof_pingmsg_def)

end
