(* ===== verification/Pw_Verbs.thy ===== *)
theory Pw_Verbs
  imports Pw_Format
begin

text \<open>
  The data path of \<^verbatim>\<open>src/src/rdma_common.cpp\<close>: message images, address handles, posting of receives
  and sends, and completions.  The verbs library is not part of the program: the outcome of each
  of its calls is a parameter, a handle is what it was created with, and a queue pair is the lists of the
  requests posted to it.
\<close>

section \<open>Message images\<close>

text \<open>
  \<^verbatim>\<open>rdma_pingmsg_t\<close> has its members at offsets 0, 8, 16, 32 and 40 of 48 bytes, \<^verbatim>\<open>rdma_pongmsg_t\<close> at 0, 8
  and 16 of 24 bytes; the bytes between them are set to zero with \<^verbatim>\<open>= {}\<close>.
\<close>

definition sizeof_rdma_pingmsg :: nat where "sizeof_rdma_pingmsg = 48"
definition sizeof_rdma_pongmsg :: nat where "sizeof_rdma_pongmsg = 24"
definition GRH_SIZE :: nat where "GRH_SIZE = 40"

definition rdma_pingmsg_bytes :: "rdma_pingmsg_t \<Rightarrow> bytes" where
  "rdma_pingmsg_bytes m =
     le_encode 8 (unat (pm_pingid m)) @ le_encode 4 (unat (pm_qpn m)) @ replicate 4 0 @ pm_gid m @
     le_encode 4 (unat (pm_lid m)) @ replicate 4 0 @ le_encode 8 (unat (pm_time m))"

definition rdma_pingmsg_of :: "bytes \<Rightarrow> rdma_pingmsg_t" where
  "rdma_pingmsg_of bs =
     \<lparr>pm_pingid = of_nat (le_decode (take 8 bs)), pm_qpn = of_nat (le_decode (take 4 (drop 8 bs))),
      pm_gid = take 16 (drop 16 bs), pm_lid = of_nat (le_decode (take 4 (drop 32 bs))),
      pm_time = of_nat (le_decode (take 8 (drop 40 bs)))\<rparr>"

definition rdma_pongmsg_bytes :: "rdma_pongmsg_t \<Rightarrow> bytes" where
  "rdma_pongmsg_bytes m =
     le_encode 4 (unat (po_opcode m)) @ replicate 4 0 @ le_encode 8 (unat (po_pingid m)) @
     le_encode 8 (unat (po_server_delay m))"

definition rdma_pongmsg_of :: "bytes \<Rightarrow> rdma_pongmsg_t" where
  "rdma_pongmsg_of bs =
     \<lparr>po_opcode = of_nat (le_decode (take 4 bs)), po_pingid = of_nat (le_decode (take 8 (drop 8 bs))),
      po_server_delay = of_nat (le_decode (take 8 (drop 16 bs)))\<rparr>"

section \<open>Contexts\<close>

record rdma_addr =
  ra_qpn :: u32
  ra_gid :: gid
  ra_lid :: u32

record ibv_ah =
  ah_dlid :: u16
  ah_sl :: nat
  ah_port_num :: int
  ah_is_global :: bool
  ah_hop_limit :: nat
  ah_dgid :: gid
  ah_sgid_index :: int
  ah_traffic_class :: int

text \<open>A posted send; an inline send carries its data, another one refers to its buffer.\<close>

record send_wr =
  sw_wr_id :: u64
  sw_ah :: ibv_ah
  sw_qpn :: u32
  sw_qkey :: u32
  sw_buf :: nat
  sw_length :: nat
  sw_inline :: "bytes option"

record rdma_context =
  rc_buf :: "bytes list"
  rc_gid_index :: int
  rc_active_port :: int
  rc_rnic_hw_ts :: bool
  rc_send_inline :: bool
  rc_traffic_class :: int
  rc_ah_map :: "string \<rightharpoonup> ibv_ah"
  rc_sq :: "send_wr list"
  rc_rq :: "u64 list"

section \<open>Address handles\<close>

definition interface_id :: "gid \<Rightarrow> bytes" where "interface_id g = drop 8 g"

definition make_ah :: "rdma_context \<Rightarrow> rdma_addr \<Rightarrow> ibv_ah" where
  "make_ah ctx rem_dest =
     (if \<exists>b \<in> set (interface_id (ra_gid rem_dest)). b \<noteq> 0 then
        \<lparr>ah_dlid = ucast (ra_lid rem_dest), ah_sl = SERVICE_LEVEL, ah_port_num = rc_active_port ctx,
         ah_is_global = True, ah_hop_limit = 255, ah_dgid = ra_gid rem_dest, ah_sgid_index = rc_gid_index ctx,
         ah_traffic_class = rc_traffic_class ctx\<rparr>
      else
        \<lparr>ah_dlid = ucast (ra_lid rem_dest), ah_sl = SERVICE_LEVEL, ah_port_num = rc_active_port ctx,
         ah_is_global = False, ah_hop_limit = 0, ah_dgid = replicate 16 0, ah_sgid_index = 0, ah_traffic_class = 0\<rparr>)"

text \<open>\<open>ah_ok\<close> is whether \<^verbatim>\<open>ibv_create_ah\<close> gives a handle; \<open>uninit\<close> is the stack buffer of \<^verbatim>\<open>parsed_gid\<close>.\<close>

definition get_or_create_ah :: "string \<Rightarrow> bool \<Rightarrow> rdma_context \<Rightarrow> rdma_addr \<Rightarrow> ibv_ah option \<times> rdma_context" where
  "get_or_create_ah uninit ah_ok ctx rem_dest =
     (let ctx1 = (if card (dom (rc_ah_map ctx)) > MAX_NUM_HOSTS_IN_PINGLIST
                  then ctx\<lparr>rc_ah_map := Map.empty\<rparr> else ctx);
          key = make_destination_key uninit (ra_lid rem_dest) (ra_gid rem_dest)
      in case rc_ah_map ctx1 key of
           Some ah \<Rightarrow> (Some ah, ctx1)
         | None \<Rightarrow>
             if \<not> ah_ok then (None, ctx1)
             else let ah = make_ah ctx1 rem_dest
                  in (Some ah, ctx1\<lparr>rc_ah_map := (rc_ah_map ctx1)(key \<mapsto> ah)\<rparr>))"

section \<open>Posting\<close>

text \<open>\<open>post_ok i\<close> is whether the \<open>i\<close>-th \<^verbatim>\<open>ibv_post_recv\<close> succeeds.\<close>

fun post_recv_loop :: "(nat \<Rightarrow> bool) \<Rightarrow> nat \<Rightarrow> nat \<Rightarrow> nat" where
  "post_recv_loop post_ok i 0 = 0"
| "post_recv_loop post_ok i (Suc n) = (if post_ok i then Suc (post_recv_loop post_ok (Suc i) n) else 0)"

definition post_recv :: "(nat \<Rightarrow> bool) \<Rightarrow> rdma_context \<Rightarrow> u64 \<Rightarrow> nat \<Rightarrow> nat \<times> rdma_context" where
  "post_recv post_ok ctx wr_id n =
     (let cnt = post_recv_loop post_ok 0 n in (cnt, ctx\<lparr>rc_rq := rc_rq ctx @ replicate cnt wr_id\<rparr>))"

definition memcpy_at :: "nat \<Rightarrow> bytes \<Rightarrow> bytes \<Rightarrow> bytes" where
  "memcpy_at off msg mem = take off mem @ msg @ drop (off + length msg) mem"

record verbs_env =
  ve_uninit :: string
  ve_ah_ok :: bool
  ve_post_ok :: bool

definition post_send :: "verbs_env \<Rightarrow> rdma_context \<Rightarrow> rdma_addr \<Rightarrow> bytes \<Rightarrow> nat \<Rightarrow> u64 \<Rightarrow> int \<times> rdma_context" where
  "post_send env ctx rem_dest msg buf_idx wr_id =
     (case get_or_create_ah (ve_uninit env) (ve_ah_ok env) ctx rem_dest of
        (None, ctx1) \<Rightarrow> (PINGWEAVE_FAILURE, ctx1)
      | (Some ah, ctx1) \<Rightarrow>
          let ctx2 = ctx1\<lparr>rc_buf := (rc_buf ctx1)[buf_idx := memcpy_at GRH_SIZE msg (rc_buf ctx1 ! buf_idx)]\<rparr>;
              wr = \<lparr>sw_wr_id = wr_id, sw_ah = ah, sw_qpn = ra_qpn rem_dest, sw_qkey = PINGWEAVE_REMOTE_QKEY,
                    sw_buf = buf_idx, sw_length = length msg,
                    sw_inline = (if rc_send_inline ctx2 then Some msg else None)\<rparr>
          in if ve_post_ok env then (PINGWEAVE_SUCCESS, ctx2\<lparr>rc_sq := rc_sq ctx2 @ [wr]\<rparr>)
             else (PINGWEAVE_FAILURE, ctx2))"

text \<open>The data of a posted send as the adapter would read it now.\<close>

definition wr_data :: "rdma_context \<Rightarrow> send_wr \<Rightarrow> bytes" where
  "wr_data ctx wr =
     (case sw_inline wr of Some d \<Rightarrow> d | None \<Rightarrow> take (sw_length wr) (drop GRH_SIZE (rc_buf ctx ! sw_buf wr)))"

section \<open>Completions\<close>

datatype wc_opcode = IBV_WC_SEND | IBV_WC_RECV | IBV_WC_OTHER

text \<open>
  A completion: whether its status is success, its opcode and request, its hardware timestamp, and the
  steady clock when it is handled.
\<close>

record ibv_wc =
  wc_success :: bool
  wc_op :: wc_opcode
  wc_wr_id :: u64
  wc_completion_ts :: u64
  wc_now :: time_point

text \<open>
  The outcome of a poll: an error of the call, or the completions.  The extended interface reports an
  error and an empty queue alike.
\<close>

datatype poll = Poll_error | Polled "ibv_wc list"

definition wait_for_cq_event :: "int \<Rightarrow> bool \<Rightarrow> int" where
  "wait_for_cq_event get_event_rc same_cq =
     (if get_event_rc \<noteq> 0 then PINGWEAVE_FAILURE
      else if \<not> same_cq then PINGWEAVE_FAILURE
      else PINGWEAVE_SUCCESS)"

text \<open>A loop over completions that an exception ends.\<close>

fun each_wc :: "('w \<Rightarrow> 's \<Rightarrow> 's \<times> exn option) \<Rightarrow> 'w list \<Rightarrow> 's \<Rightarrow> 's \<times> exn option" where
  "each_wc body [] s = (s, None)"
| "each_wc body (w # ws) s =
     (case body w s of (s1, Some e) \<Rightarrow> (s1, Some e) | (s1, None) \<Rightarrow> each_wc body ws s1)"

section \<open>Images round trip\<close>

lemma rdma_pingmsg_of_bytes [simp]:
  "length (pm_gid m) = 16 \<Longrightarrow> rdma_pingmsg_of (rdma_pingmsg_bytes m) = m"
  by (simp add: rdma_pingmsg_of_def rdma_pingmsg_bytes_def)

lemma length_rdma_pingmsg_bytes [simp]:
  "length (pm_gid m) = 16 \<Longrightarrow> length (rdma_pingmsg_bytes m) = 48"
  by (simp add: rdma_pingmsg_bytes_def)

lemma rdma_pongmsg_of_bytes [simp]: "rdma_pongmsg_of (rdma_pongmsg_bytes m) = m"
  by (simp add: rdma_pongmsg_of_def rdma_pongmsg_bytes_def)

lemma length_rdma_pongmsg_bytes [simp]: "length (rdma_pongmsg_bytes m) = 24"
  by (simp add: rdma_pongmsg_bytes_def)

section \<open>The invariant of a context\<close>

definition ctx_inv :: "rdma_context \<Rightarrow> bool" where
  "ctx_inv ctx \<longleftrightarrow> length (rc_buf ctx) = NUM_BUFFER
     \<and> (\<forall>b \<in> set (rc_buf ctx). length b = MESSAGE_SIZE + GRH_SIZE)
     \<and> finite (dom (rc_ah_map ctx)) \<and> card (dom (rc_ah_map ctx)) \<le> MAX_NUM_HOSTS_IN_PINGLIST + 1"

lemma get_ah_inv:
  assumes "ctx_inv ctx" and "get_or_create_ah u ok ctx d = (a, ctx')"
  shows "ctx_inv ctx'" and "rc_buf ctx' = rc_buf ctx" and "rc_sq ctx' = rc_sq ctx" and "rc_rq ctx' = rc_rq ctx"
    and "rc_send_inline ctx' = rc_send_inline ctx"
proof -
  show "rc_buf ctx' = rc_buf ctx" and "rc_sq ctx' = rc_sq ctx" and "rc_rq ctx' = rc_rq ctx"
    and "rc_send_inline ctx' = rc_send_inline ctx"
    using assms(2) by (auto simp: get_or_create_ah_def Let_def split: if_splits option.splits)
  then show "ctx_inv ctx'"
    using assms
    by (auto simp: get_or_create_ah_def ctx_inv_def Let_def MAX_NUM_HOSTS_IN_PINGLIST_def card_insert_if
        split: if_splits option.splits)
qed

lemma memcpy_facts:
  "off + length msg \<le> length mem \<Longrightarrow> length (memcpy_at off msg mem) = length mem"
  "off \<le> length mem \<Longrightarrow> take (length msg) (drop off (memcpy_at off msg mem)) = msg"
  by (simp_all add: memcpy_at_def)

lemma post_send_inv:
  assumes inv: "ctx_inv ctx" and len: "length msg \<le> MESSAGE_SIZE" and i: "i < NUM_BUFFER"
    and p: "post_send env ctx d msg i w = (r, ctx')"
  shows "ctx_inv ctx'" and "rc_rq ctx' = rc_rq ctx"
    and "IS_SUCCESS r \<Longrightarrow> \<exists>wr. rc_sq ctx' = rc_sq ctx @ [wr] \<and> sw_wr_id wr = w \<and> sw_qpn wr = ra_qpn d \<and> wr_data ctx' wr = msg"
    and "IS_FAILURE r \<Longrightarrow> rc_sq ctx' = rc_sq ctx"
proof -
  obtain a ctx1 where g: "get_or_create_ah (ve_uninit env) (ve_ah_ok env) ctx d = (a, ctx1)" by fastforce
  note G = get_ah_inv [OF inv g]
  have b: "i < length (rc_buf ctx1)" and lb: "length (rc_buf ctx1 ! i) = MESSAGE_SIZE + GRH_SIZE"
    using G(1,2) inv i by (auto simp: ctx_inv_def)
  have l: "length (memcpy_at GRH_SIZE msg (rc_buf ctx1 ! i)) = MESSAGE_SIZE + GRH_SIZE"
    using len lb by (simp add: memcpy_facts(1))
  show "ctx_inv ctx'"
    using p G(1) l unfolding post_send_def g
    by (auto simp: ctx_inv_def Let_def dest!: subsetD [OF set_update_subset_insert] split: option.splits if_splits)
  show "rc_rq ctx' = rc_rq ctx" and "IS_FAILURE r \<Longrightarrow> rc_sq ctx' = rc_sq ctx"
    using p G(3,4) unfolding post_send_def g by (auto simp: Let_def split: option.splits if_splits)
  show "\<exists>wr. rc_sq ctx' = rc_sq ctx @ [wr] \<and> sw_wr_id wr = w \<and> sw_qpn wr = ra_qpn d \<and> wr_data ctx' wr = msg"
    if "IS_SUCCESS r"
    using p that G(3) b lb unfolding post_send_def g
    by (auto simp: Let_def wr_data_def memcpy_facts(2) split: option.splits if_splits)
qed

text \<open>The handle stored for a destination, if there is one, leads there.\<close>

definition ah_for :: "string \<Rightarrow> rdma_context \<Rightarrow> rdma_addr \<Rightarrow> bool" where
  "ah_for uninit ctx d \<longleftrightarrow>
     rc_ah_map ctx (make_destination_key uninit (ra_lid d) (ra_gid d)) \<in> {None, Some (make_ah ctx d)}"

definition dest_key :: "string \<Rightarrow> rdma_addr \<Rightarrow> string" where
  "dest_key uninit d = make_destination_key uninit (ra_lid d) (ra_gid d)"

definition posted :: "rdma_context \<Rightarrow> rdma_addr \<Rightarrow> bytes \<Rightarrow> nat \<Rightarrow> u64 \<Rightarrow> send_wr" where
  "posted ctx d msg i w =
     \<lparr>sw_wr_id = w, sw_ah = make_ah ctx d, sw_qpn = ra_qpn d, sw_qkey = PINGWEAVE_REMOTE_QKEY,
      sw_buf = i, sw_length = length msg, sw_inline = (if rc_send_inline ctx then Some msg else None)\<rparr>"

definition same_port :: "rdma_context \<Rightarrow> rdma_context \<Rightarrow> bool" where
  "same_port c c' \<longleftrightarrow> rc_gid_index c' = rc_gid_index c \<and> rc_active_port c' = rc_active_port c
     \<and> rc_traffic_class c' = rc_traffic_class c \<and> rc_send_inline c' = rc_send_inline c
     \<and> rc_rnic_hw_ts c' = rc_rnic_hw_ts c"

lemma same_port_make:
  "same_port c c' \<Longrightarrow> make_ah c' d = make_ah c d" "same_port c c' \<Longrightarrow> posted c' d msg i w = posted c d msg i w"
  by (auto simp: same_port_def make_ah_def posted_def)

lemma post_send_ok:
  assumes inv: "ctx_inv ctx" and len: "length msg \<le> MESSAGE_SIZE" and i: "i < NUM_BUFFER"
    and env: "ve_ah_ok env" "ve_post_ok env" and ah: "ah_for (ve_uninit env) ctx d"
  shows "\<exists>ctx'. post_send env ctx d msg i w = (PINGWEAVE_SUCCESS, ctx') \<and> ctx_inv ctx' \<and> same_port ctx ctx'
    \<and> rc_sq ctx' = rc_sq ctx @ [posted ctx d msg i w] \<and> rc_rq ctx' = rc_rq ctx
    \<and> rc_buf ctx' = (rc_buf ctx)[i := memcpy_at GRH_SIZE msg (rc_buf ctx ! i)]
    \<and> wr_data ctx' (posted ctx d msg i w) = msg \<and> ah_for (ve_uninit env) ctx' d
    \<and> (\<forall>d'. ah_for (ve_uninit env) ctx d' \<and> dest_key (ve_uninit env) d' \<noteq> dest_key (ve_uninit env) d
          \<longrightarrow> ah_for (ve_uninit env) ctx' d')"
proof -
  let ?key = "make_destination_key (ve_uninit env) (ra_lid d) (ra_gid d)"
  obtain a ctx1 where g: "get_or_create_ah (ve_uninit env) (ve_ah_ok env) ctx d = (a, ctx1)" by fastforce
  have a: "a = Some (make_ah ctx d)" "same_port ctx ctx1" "rc_ah_map ctx1 ?key = Some (make_ah ctx d)"
    using g env(1) ah
    by (auto simp: get_or_create_ah_def ah_for_def same_port_def make_ah_def Let_def split: if_splits option.splits)
  have other: "rc_ah_map ctx1 k \<in> {None, rc_ah_map ctx k}" if "k \<noteq> ?key" for k
    using g that by (auto simp: get_or_create_ah_def Let_def split: if_splits option.splits)
  note G = get_ah_inv [OF inv g]
  obtain r ctx' where p: "post_send env ctx d msg i w = (r, ctx')" by fastforce
  have r: "r = PINGWEAVE_SUCCESS" and c: "ctx' = ctx1\<lparr>rc_buf := (rc_buf ctx1)[i := memcpy_at GRH_SIZE msg (rc_buf ctx1 ! i)],
      rc_sq := rc_sq ctx1 @ [posted ctx d msg i w]\<rparr>"
    using p env(2) a(2) by (auto simp: post_send_def g a(1) Let_def posted_def same_port_def)
  have b: "i < length (rc_buf ctx)" and lb: "length (rc_buf ctx ! i) = MESSAGE_SIZE + GRH_SIZE"
    using inv i by (auto simp: ctx_inv_def)
  have "wr_data ctx' (posted ctx d msg i w) = msg"
    using b lb G(2) by (simp add: c wr_data_def posted_def memcpy_facts(2))
  moreover have sp: "same_port ctx ctx'" using a(2) by (simp add: c same_port_def)
  have mp: "rc_ah_map ctx' = rc_ah_map ctx1" by (simp add: c)
  have "ah_for (ve_uninit env) ctx' d" using a(3) by (simp add: ah_for_def mp same_port_make(1) [OF sp])
  moreover have "ah_for (ve_uninit env) ctx' d'"
    if "ah_for (ve_uninit env) ctx d'" "dest_key (ve_uninit env) d' \<noteq> dest_key (ve_uninit env) d" for d'
    using that other [of "dest_key (ve_uninit env) d'"]
    by (auto simp: ah_for_def dest_key_def mp same_port_make(1) [OF sp])
  ultimately show ?thesis using sp post_send_inv(1) [OF inv len i p] p r G by (simp add: c)
qed

end
