(* ===== verification/Pw_RdmaServer.thy ===== *)
theory Pw_RdmaServer
  imports Pw_Verbs Pw_MsgTable Pw_Common
begin

text \<open>
  The RDMA server, \<^verbatim>\<open>src/src/rdma_server.cpp\<close>.  Three threads share its state: the receiving thread turns
  completions of receives into messages of the internal queue; the sending thread takes a message,
  stores it and answers with a PONG; the completion thread, on the completion of a PONG, sends an ACK with the
  time the server needed and removes the message.
\<close>

section \<open>The receiving thread\<close>

text \<open>
  One completion.  The message lies behind the GRH of the buffer the request names; its time
  is the hardware timestamp, or the steady clock without one.  \<open>repost\<close> is whether posting the next receive succeeds.
\<close>

definition completion_time :: "bool \<Rightarrow> ibv_wc \<Rightarrow> u64" where
  "completion_time rnic_hw_ts wc = (if rnic_hw_ts then wc_completion_ts wc else get_current_timestamp_ns (wc_now wc))"

definition received :: "nat \<Rightarrow> rdma_context \<Rightarrow> u64 \<Rightarrow> bytes" where
  "received n ctx wr_id = take n (drop GRH_SIZE (rc_buf ctx ! unat wr_id))"

definition server_rx_wc ::
    "(u64 \<Rightarrow> bool) \<Rightarrow> ibv_wc \<Rightarrow> rdma_context \<times> RdmaServerQueue \<Rightarrow> (rdma_context \<times> RdmaServerQueue) \<times> exn option" where
  "server_rx_wc repost wc s =
     (let (ctx_rx, server_queue) = s in
      if \<not> wc_success wc then (s, None)
      else if wc_op wc = IBV_WC_RECV then
        let ping_msg = (rdma_pingmsg_of (received sizeof_rdma_pingmsg ctx_rx (wc_wr_id wc)))
                         \<lparr>pm_time := completion_time (rc_rnic_hw_ts ctx_rx) wc\<rparr>;
            (_, ctx1) = post_recv (\<lambda>_. repost (wc_wr_id wc)) ctx_rx (wc_wr_id wc) 1
        in ((ctx1, offer ping_msg server_queue), None)
      else (s, Some (Runtime_error ''rx cqe - Unexpected opcode in RX thread'')))"

text \<open>
  The handler: with hardware timestamps an error and an empty queue are the same.  After the loop the
  events are acknowledged and the notification is requested again, with result \<open>notify_rc\<close>.
\<close>

definition server_process_rx_cqe ::
    "(u64 \<Rightarrow> bool) \<Rightarrow> poll \<Rightarrow> int \<Rightarrow> rdma_context \<times> RdmaServerQueue \<Rightarrow> (rdma_context \<times> RdmaServerQueue) \<times> exn option" where
  "server_process_rx_cqe repost polled notify_rc s =
     (case (if rc_rnic_hw_ts (fst s) \<and> polled = Poll_error then Polled [] else polled) of
        Poll_error \<Rightarrow> (s, Some (Runtime_error ''rx cqe - Failed to poll CQ''))
      | Polled [] \<Rightarrow> (s, Some (Runtime_error ''rx cqe - Failed during CQ polling''))
      | Polled wcs \<Rightarrow>
          (case each_wc (server_rx_wc repost) wcs s of
             (s1, Some e) \<Rightarrow> (s1, Some e)
           | (s1, None) \<Rightarrow>
               if notify_rc \<noteq> 0 then (s1, Some (Runtime_error ''rx cqe - Failed to post cqe request notification.''))
               else (s1, None)))"

section \<open>The sending thread\<close>

definition client_addr :: "rdma_pingmsg_t \<Rightarrow> rdma_addr" where
  "client_addr m = \<lparr>ra_qpn = pm_qpn m, ra_gid = pm_gid m, ra_lid = pm_lid m\<rparr>"

definition buf_of :: "u64 \<Rightarrow> rdma_context \<Rightarrow> nat" where
  "buf_of pingid ctx = unat pingid mod length (rc_buf ctx)"

record rdma_server_tx =
  st_ping_msg :: rdma_pingmsg_t
  st_ctx :: rdma_context
  st_queue :: RdmaServerQueue
  st_table :: PingMsgMap

definition rdma_server_tx_step ::
    "verbs_env \<Rightarrow> time_point \<Rightarrow> time_point \<Rightarrow> rdma_server_tx \<Rightarrow> rdma_server_tx \<times> exn option" where
  "rdma_server_tx_step env now now' s =
     (case brwq_wait_dequeue_timed (st_queue s) of
        (None, q) \<Rightarrow> (s\<lparr>st_queue := q\<rparr>, None)
      | (Some r, q) \<Rightarrow>
          let ping_msg = (case r of Some m \<Rightarrow> m | None \<Rightarrow> st_ping_msg s);
              (_, table1) = PingMsgMap_insert now now' (pm_pingid ping_msg) ping_msg (st_table s);
              pong_msg = \<lparr>po_opcode = PINGWEAVE_OPCODE_PONG, po_pingid = pm_pingid ping_msg, po_server_delay = 0\<rparr>;
              (rc, ctx1) = post_send env (st_ctx s) (client_addr ping_msg) (rdma_pongmsg_bytes pong_msg)
                             (buf_of (po_pingid pong_msg) (st_ctx s)) (po_pingid pong_msg);
              s1 = s\<lparr>st_ping_msg := ping_msg, st_queue := q, st_table := table1, st_ctx := ctx1\<rparr>
          in if IS_FAILURE rc then (s1, Some (Runtime_error ''tx thread - SEND PONG post failed'')) else (s1, None))"

section \<open>The completion thread\<close>

definition server_process_pong_cqe ::
    "verbs_env \<Rightarrow> u64 \<Rightarrow> u64 \<Rightarrow> rdma_context \<times> PingMsgMap \<Rightarrow> int \<times> rdma_context \<times> PingMsgMap" where
  "server_process_pong_cqe env wr_id cqe_time s =
     (let (ctx_tx, ping_table) = s;
          remove = (\<lambda>ctx. (PINGWEAVE_SUCCESS, ctx, snd (PingMsgMap_remove wr_id ping_table)))
      in case snd (PingMsgMap_get wr_id ping_table) of
           None \<Rightarrow> remove ctx_tx
         | Some ping_msg \<Rightarrow>
             let pong_msg = \<lparr>po_opcode = PINGWEAVE_OPCODE_ACK, po_pingid = wr_id,
                   po_server_delay = calc_time_delta_with_modulo (pm_time ping_msg) cqe_time PINGWEAVE_TIME_CALC_MODULO\<rparr>;
                 (rc, ctx1) = post_send env ctx_tx (client_addr ping_msg) (rdma_pongmsg_bytes pong_msg)
                                (buf_of wr_id ctx_tx) PINGWEAVE_WRID_PONG_ACK
             in if IS_FAILURE rc then (PINGWEAVE_FAILURE, ctx1, ping_table) else remove ctx1)"

definition server_tx_wc ::
    "verbs_env \<Rightarrow> ibv_wc \<Rightarrow> rdma_context \<times> PingMsgMap \<Rightarrow> (rdma_context \<times> PingMsgMap) \<times> exn option" where
  "server_tx_wc env wc s =
     (if \<not> wc_success wc then (s, None)
      else if wc_op wc = IBV_WC_SEND then
        (if wc_wr_id wc = PINGWEAVE_WRID_PONG_ACK then (s, None)
         else
           let (rc, ctx1, table1) =
                 server_process_pong_cqe env (wc_wr_id wc) (completion_time (rc_rnic_hw_ts (fst s)) wc) s
           in if IS_FAILURE rc then ((ctx1, table1), Some (Runtime_error ''tx cqe - Failed to process PONG CQE''))
              else ((ctx1, table1), None))
      else (s, Some (Runtime_error ''tx cqe - Unexpected opcode'')))"

definition server_process_tx_cqe ::
    "verbs_env \<Rightarrow> poll \<Rightarrow> int \<Rightarrow> rdma_context \<times> PingMsgMap \<Rightarrow> (rdma_context \<times> PingMsgMap) \<times> exn option" where
  "server_process_tx_cqe env polled notify_rc s =
     (case (if rc_rnic_hw_ts (fst s) \<and> polled = Poll_error then Polled [] else polled) of
        Poll_error \<Rightarrow> (s, Some (Runtime_error ''tx cqe - Failed to poll CQ''))
      | Polled [] \<Rightarrow> (s, Some (Runtime_error ''tx cqe - Failed during CQ polling''))
      | Polled wcs \<Rightarrow>
          (case each_wc (server_tx_wc env) wcs s of
             (s1, Some e) \<Rightarrow> (s1, Some e)
           | (s1, None) \<Rightarrow>
               if notify_rc \<noteq> 0 then (s1, Some (Runtime_error ''tx cqe - Failed to post cqe request notification.''))
               else (s1, None)))"

section \<open>Starting the receiving thread\<close>

text \<open>One receive request is posted for each buffer, then the notification is requested.\<close>

fun post_all :: "(nat \<Rightarrow> bool) \<Rightarrow> nat \<Rightarrow> nat \<Rightarrow> rdma_context \<Rightarrow> rdma_context \<times> bool" where
  "post_all ok i 0 ctx = (ctx, True)"
| "post_all ok i (Suc n) ctx =
     (let (cnt, ctx1) = post_recv (\<lambda>_. ok i) ctx (of_nat i) RX_DEPTH
      in if cnt \<noteq> RX_DEPTH then (ctx1, False) else post_all ok (Suc i) n ctx1)"

definition rdma_server_rx_start :: "(nat \<Rightarrow> bool) \<Rightarrow> int \<Rightarrow> rdma_context \<Rightarrow> rdma_context \<times> exn option" where
  "rdma_server_rx_start ok notify_rc ctx_rx =
     (let (ctx1, good) = post_all ok 0 (length (rc_buf ctx_rx)) ctx_rx
      in if \<not> good then (ctx1, Some (Runtime_error ''rx thread - Failed to post RECV WR when initialization.''))
         else if notify_rc \<noteq> 0 then (ctx1, Some (Runtime_error ''rx thread -  Couldn't register CQE notification''))
         else (ctx1, None))"

section \<open>What each thread does with one ping\<close>

definition pong_of :: "u64 \<Rightarrow> bytes" where
  "pong_of pingid = rdma_pongmsg_bytes \<lparr>po_opcode = PINGWEAVE_OPCODE_PONG, po_pingid = pingid, po_server_delay = 0\<rparr>"

definition ack_of :: "u64 \<Rightarrow> u64 \<Rightarrow> bytes" where
  "ack_of pingid delay = rdma_pongmsg_bytes \<lparr>po_opcode = PINGWEAVE_OPCODE_ACK, po_pingid = pingid, po_server_delay = delay\<rparr>"

lemma length_answers [simp]: "length (pong_of p) = 24" "length (ack_of p d) = 24"
  by (simp_all add: pong_of_def ack_of_def)

lemma buf_of_lt: "ctx_inv ctx \<Longrightarrow> buf_of p ctx < NUM_BUFFER"
  by (simp add: buf_of_def ctx_inv_def NUM_BUFFER_def)

lemma buf_of_same: "ctx_inv ctx \<Longrightarrow> ctx_inv ctx' \<Longrightarrow> buf_of p ctx' = buf_of p ctx"
  by (simp add: buf_of_def ctx_inv_def)

lemma server_rx_one:
  assumes buf: "rc_buf ctx ! unat (wc_wr_id wc) = grh @ rdma_pingmsg_bytes m @ rest"
    and len: "length grh = GRH_SIZE" "length (pm_gid m) = 16" and wc: "wc_success wc" "wc_op wc = IBV_WC_RECV"
  shows "server_rx_wc repost wc (ctx, q) = ((snd (post_recv (\<lambda>_. repost (wc_wr_id wc)) ctx (wc_wr_id wc) 1),
    offer (m\<lparr>pm_time := completion_time (rc_rnic_hw_ts ctx) wc\<rparr>) q), None)"
proof -
  have "rdma_pingmsg_of (received sizeof_rdma_pingmsg ctx (wc_wr_id wc)) = m"
    using len by (simp add: received_def buf sizeof_rdma_pingmsg_def)
  then show ?thesis using wc by (simp add: server_rx_wc_def case_prod_beta)
qed

lemma server_tx_one:
  assumes inv: "ctx_inv (st_ctx s)" and q: "brwq_inv (st_queue s)" "brwq_pending (st_queue s) = m # ms"
    and env: "ve_ah_ok env" "ve_post_ok env" "ah_for (ve_uninit env) (st_ctx s) (client_addr m)"
    and t: "msg_table_inv t0 (st_table s)" "t0 \<le> now'" "entries (st_table s) (pm_pingid m) = None"
  defines "pong \<equiv> posted (st_ctx s) (client_addr m) (pong_of (pm_pingid m)) (buf_of (pm_pingid m) (st_ctx s)) (pm_pingid m)"
  shows "\<exists>s'. rdma_server_tx_step env now now' s = (s', None)
    \<and> ctx_inv (st_ctx s') \<and> same_port (st_ctx s) (st_ctx s') \<and> ah_for (ve_uninit env) (st_ctx s') (client_addr m)
    \<and> (\<forall>d'. ah_for (ve_uninit env) (st_ctx s) d' \<and> dest_key (ve_uninit env) d' \<noteq> dest_key (ve_uninit env) (client_addr m)
          \<longrightarrow> ah_for (ve_uninit env) (st_ctx s') d')
    \<and> rc_sq (st_ctx s') = rc_sq (st_ctx s) @ [pong] \<and> wr_data (st_ctx s') pong = pong_of (pm_pingid m)
    \<and> rc_buf (st_ctx s') = (rc_buf (st_ctx s))[sw_buf pong := memcpy_at GRH_SIZE (pong_of (pm_pingid m)) (rc_buf (st_ctx s) ! sw_buf pong)]
    \<and> brwq_inv (st_queue s') \<and> brwq_pending (st_queue s') = ms
    \<and> msg_table_inv now' (st_table s') \<and> PingMsgMap_get (pm_pingid m) (st_table s') = (PINGWEAVE_SUCCESS, Some m)"
proof -
  obtain r q' where d: "brwq_wait_dequeue_timed (st_queue s) = (r, q')" by fastforce
  have Q: "r = Some (Some m)" "brwq_pending q' = ms" "brwq_inv q'" using brwq_dequeue_spec [OF q(1) d] q(2) by auto
  obtain rc table1 where i: "PingMsgMap_insert now now' (pm_pingid m) m (st_table s) = (rc, table1)" by fastforce
  have inv1: "msg_table_inv now' table1" using msg_table.insert_invar [OF t(1) TrueI t(2)] i by (metis snd_conv)
  have "live (threshold_ms (st_table s)) now (entries (st_table s) (pm_pingid m)) = None" by (simp add: live_def t(3))
  then have e: "\<exists>e. entries table1 (pm_pingid m) = Some e \<and> entry_value e = m"
    using msg_table.insert_new [OF t(1) TrueI, of now "pm_pingid m" now' m] i by auto
  have len: "length (pong_of (pm_pingid m)) \<le> MESSAGE_SIZE" by (simp add: MESSAGE_SIZE_def)
  have sb: "sw_buf pong = buf_of (pm_pingid m) (st_ctx s)" by (simp add: pong_def posted_def)
  obtain ctx' where P: "post_send env (st_ctx s) (client_addr m) (pong_of (pm_pingid m)) (buf_of (pm_pingid m) (st_ctx s)) (pm_pingid m)
      = (PINGWEAVE_SUCCESS, ctx')" "ctx_inv ctx'" "same_port (st_ctx s) ctx'" "rc_sq ctx' = rc_sq (st_ctx s) @ [pong]"
      "wr_data ctx' pong = pong_of (pm_pingid m)" "ah_for (ve_uninit env) ctx' (client_addr m)"
      "\<forall>d'. ah_for (ve_uninit env) (st_ctx s) d' \<and> dest_key (ve_uninit env) d' \<noteq> dest_key (ve_uninit env) (client_addr m)
          \<longrightarrow> ah_for (ve_uninit env) ctx' d'"
      "rc_buf ctx' = (rc_buf (st_ctx s))[sw_buf pong := memcpy_at GRH_SIZE (pong_of (pm_pingid m)) (rc_buf (st_ctx s) ! sw_buf pong)]"
    using post_send_ok [OF inv len buf_of_lt [OF inv, of "pm_pingid m"] env, of "pm_pingid m", folded pong_def]
    unfolding sb by blast
  have "rdma_server_tx_step env now now' s = (s\<lparr>st_ping_msg := m, st_queue := q', st_table := table1, st_ctx := ctx'\<rparr>, None)"
    using P(1) by (simp add: rdma_server_tx_step_def d Q(1) i pong_of_def)
  then show ?thesis using P Q inv1 e by (auto simp: PingMsgMap_get_def table_get_def)
qed

lemma server_cqe_one:
  assumes inv: "ctx_inv ctx" and env: "ve_ah_ok env" "ve_post_ok env" "ah_for (ve_uninit env) ctx (client_addr m)"
    and t: "PingMsgMap_get pid table = (PINGWEAVE_SUCCESS, Some m)"
    and wc: "wc_success wc" "wc_op wc = IBV_WC_SEND" "wc_wr_id wc = pid" "pid \<noteq> PINGWEAVE_WRID_PONG_ACK"
  defines "msg \<equiv> ack_of pid (calc_time_delta_with_modulo (pm_time m) (completion_time (rc_rnic_hw_ts ctx) wc) PINGWEAVE_TIME_CALC_MODULO)"
  defines "ack \<equiv> posted ctx (client_addr m) msg (buf_of pid ctx) PINGWEAVE_WRID_PONG_ACK"
  shows "\<exists>ctx'. server_tx_wc env wc (ctx, table) = ((ctx', snd (PingMsgMap_remove pid table)), None)
    \<and> ctx_inv ctx' \<and> rc_sq ctx' = rc_sq ctx @ [ack] \<and> wr_data ctx' ack = msg"
proof -
  have len: "length msg \<le> MESSAGE_SIZE" by (simp add: msg_def MESSAGE_SIZE_def)
  obtain ctx' where P: "post_send env ctx (client_addr m) msg (buf_of pid ctx) PINGWEAVE_WRID_PONG_ACK = (PINGWEAVE_SUCCESS, ctx')"
      "ctx_inv ctx'" "rc_sq ctx' = rc_sq ctx @ [ack]" "wr_data ctx' ack = msg"
    using post_send_ok [OF inv len buf_of_lt [OF inv] env] unfolding ack_def by blast
  have "server_process_pong_cqe env pid (completion_time (rc_rnic_hw_ts ctx) wc) (ctx, table)
      = (PINGWEAVE_SUCCESS, ctx', snd (PingMsgMap_remove pid table))"
    using P(1) t by (simp add: server_process_pong_cqe_def msg_def ack_of_def)
  then show ?thesis using P wc by (simp add: server_tx_wc_def)
qed

section \<open>Properties of the server\<close>

lemma server_answers:
  assumes "rc_buf ctx_rx ! unat (wc_wr_id wc1) = grh @ rdma_pingmsg_bytes m @ rest" and "length grh = GRH_SIZE"
    and "length (pm_gid m) = 16" and "wc_success wc1" and "wc_op wc1 = IBV_WC_RECV"
    and "brwq_inv q" and "brwq_pending q = []" and "0 < brwq_room q"
    and "ctx_inv ctx_tx" and "ve_ah_ok env" and "ve_post_ok env" and "ah_for (ve_uninit env) ctx_tx (client_addr m)"
    and "msg_table_inv t0 table" and "t0 \<le> now'" and "entries table (pm_pingid m) = None"
    and "pm_pingid m \<noteq> PINGWEAVE_WRID_PONG_ACK"
    and "wc_success wc2" and "wc_op wc2 = IBV_WC_SEND" and "wc_wr_id wc2 = pm_pingid m"
    and "wc_op wc3 = IBV_WC_SEND" and "wc_wr_id wc3 = PINGWEAVE_WRID_PONG_ACK"
    and "pong_of (pm_pingid m) = pong"
    and "ack_of (pm_pingid m) (calc_time_delta_with_modulo (completion_time (rc_rnic_hw_ts ctx_rx) wc1)
           (completion_time (rc_rnic_hw_ts ctx_tx) wc2) PINGWEAVE_TIME_CALC_MODULO) = ack"
    and "posted ctx_tx (client_addr m) pong (buf_of (pm_pingid m) ctx_tx) (pm_pingid m) = wr1"
    and "posted ctx_tx (client_addr m) ack (buf_of (pm_pingid m) ctx_tx) PINGWEAVE_WRID_PONG_ACK = wr2"
  shows "\<exists>ctx_rx' q1 s2 ctx3 table3.
      server_process_rx_cqe repost (Polled [wc1]) 0 (ctx_rx, q) = ((ctx_rx', q1), None)
    \<and> rdma_server_tx_step env now now' \<lparr>st_ping_msg = u, st_ctx = ctx_tx, st_queue = q1, st_table = table\<rparr> = (s2, None)
    \<and> rc_sq (st_ctx s2) = rc_sq ctx_tx @ [wr1] \<and> wr_data (st_ctx s2) wr1 = pong
    \<and> server_process_tx_cqe env (Polled [wc2]) 0 (st_ctx s2, st_table s2) = ((ctx3, table3), None)
    \<and> rc_sq ctx3 = rc_sq ctx_tx @ [wr1, wr2] \<and> wr_data ctx3 wr2 = ack
    \<and> entries table3 (pm_pingid m) = None
    \<and> server_process_tx_cqe env (Polled [wc3]) 0 (ctx3, table3) = ((ctx3, table3), None)
    \<and> rc_sq (fst (fst (server_process_tx_cqe env (Polled [wc2]) 0 (ctx3, table3)))) = rc_sq ctx3"
proof -
  define m' where "m' = m\<lparr>pm_time := completion_time (rc_rnic_hw_ts ctx_rx) wc1\<rparr>"
  have m': "pm_pingid m' = pm_pingid m" "client_addr m' = client_addr m"
    "pm_time m' = completion_time (rc_rnic_hw_ts ctx_rx) wc1" by (simp_all add: m'_def client_addr_def)
  define q1 where "q1 = offer m' q"
  define ctx_rx' where "ctx_rx' = snd (post_recv (\<lambda>_. repost (wc_wr_id wc1)) ctx_rx (wc_wr_id wc1) 1)"
  have q1: "brwq_inv q1" "brwq_pending q1 = [m']" using offer_pending [OF assms(6)] assms(6-8) by (simp_all add: q1_def)
  have R: "server_process_rx_cqe repost (Polled [wc1]) 0 (ctx_rx, q) = ((ctx_rx', q1), None)"
    using server_rx_one [OF assms(1-5), of repost q]
    by (simp add: server_process_rx_cqe_def q1_def m'_def ctx_rx'_def)
  let ?s = "\<lparr>st_ping_msg = u, st_ctx = ctx_tx, st_queue = q1, st_table = table\<rparr>"
  obtain s2 where S: "rdma_server_tx_step env now now' ?s = (s2, None)" "ctx_inv (st_ctx s2)" "same_port ctx_tx (st_ctx s2)"
      "ah_for (ve_uninit env) (st_ctx s2) (client_addr m')" "rc_sq (st_ctx s2) = rc_sq ctx_tx @ [wr1]"
      "wr_data (st_ctx s2) wr1 = pong" "msg_table_inv now' (st_table s2)"
      "PingMsgMap_get (pm_pingid m) (st_table s2) = (PINGWEAVE_SUCCESS, Some m')"
    using server_tx_one [of ?s m' "[]" env t0 now' now] assms(9-15,22,24) q1 m' by auto
  have hw: "rc_rnic_hw_ts (st_ctx s2) = rc_rnic_hw_ts ctx_tx" using S(3) by (simp add: same_port_def)
  have wr2: "posted (st_ctx s2) (client_addr m') ack (buf_of (pm_pingid m) (st_ctx s2)) PINGWEAVE_WRID_PONG_ACK = wr2"
    using assms(25) m'(2) same_port_make(2) [OF S(3)] buf_of_same [OF assms(9) S(2)] by simp
  obtain ctx3 where C: "server_tx_wc env wc2 (st_ctx s2, st_table s2)
      = ((ctx3, snd (PingMsgMap_remove (pm_pingid m) (st_table s2))), None)"
      "rc_sq ctx3 = rc_sq (st_ctx s2) @ [wr2]" "wr_data ctx3 wr2 = ack"
    using server_cqe_one [OF S(2) assms(10,11) S(4,8) assms(17-19,16)] wr2 assms(23) hw m' by auto
  let ?t3 = "snd (PingMsgMap_remove (pm_pingid m) (st_table s2))"
  have "table_find (pm_pingid m) ?t3 = None" by (simp add: PingMsgMap_remove_def table_find_remove)
  then have gone: "entries ?t3 (pm_pingid m) = None" by (simp add: table_find_def)
  have again: "server_tx_wc env wc2 (ctx3, ?t3) = ((ctx3, snd (PingMsgMap_remove (pm_pingid m) ?t3)), None)"
    using assms(16-19) gone by (simp add: server_tx_wc_def server_process_pong_cqe_def PingMsgMap_get_def table_get_def)
  have ackc: "server_tx_wc env wc3 (ctx3, ?t3) = ((ctx3, ?t3), None)" using assms(20,21) by (simp add: server_tx_wc_def)
  show ?thesis using R S C gone again ackc
    by (intro exI [of _ ctx_rx'] exI [of _ q1] exI [of _ s2] exI [of _ ctx3] exI [of _ ?t3])
      (simp add: server_process_tx_cqe_def)
qed

text \<open>
  The server answers a ping with one PONG and then one ACK.  A ping that lies in a receive buffer
  when its completion is polled is handed to the sending thread; that thread stores it and posts a PONG with its
  identifier to the queue pair, GID and LID the ping names; on the completion of the PONG one ACK is posted
  there with the time between the two completions modulo \<open>2^32\<close>, and the stored message is gone.  The completion of the ACK,
  or a second one of the PONG, posts nothing.
\<close>

theorem server_answers_ping:
  assumes "rc_buf ctx_rx ! unat (wc_wr_id wc1) = grh @ rdma_pingmsg_bytes m @ rest" and "length grh = GRH_SIZE"
    and "length (pm_gid m) = 16" and "wc_success wc1" and "wc_op wc1 = IBV_WC_RECV"
    and "brwq_inv q" and "brwq_pending q = []" and "0 < brwq_room q"
    and "ctx_inv ctx_tx" and "ve_ah_ok env" and "ve_post_ok env" and "ah_for (ve_uninit env) ctx_tx (client_addr m)"
    and "msg_table_inv t0 table" and "t0 \<le> now'" and "entries table (pm_pingid m) = None"
    and "pm_pingid m \<noteq> PINGWEAVE_WRID_PONG_ACK"
    and "wc_success wc2" and "wc_op wc2 = IBV_WC_SEND" and "wc_wr_id wc2 = pm_pingid m"
    and "wc_op wc3 = IBV_WC_SEND" and "wc_wr_id wc3 = PINGWEAVE_WRID_PONG_ACK"
    and "pong_of (pm_pingid m) = pong"
    and "ack_of (pm_pingid m) (calc_time_delta_with_modulo (completion_time (rc_rnic_hw_ts ctx_rx) wc1)
           (completion_time (rc_rnic_hw_ts ctx_tx) wc2) PINGWEAVE_TIME_CALC_MODULO) = ack"
    and "posted ctx_tx (client_addr m) pong (buf_of (pm_pingid m) ctx_tx) (pm_pingid m) = wr1"
    and "posted ctx_tx (client_addr m) ack (buf_of (pm_pingid m) ctx_tx) PINGWEAVE_WRID_PONG_ACK = wr2"
  shows "\<exists>ctx_rx' q1 s2 ctx3 table3.
      server_process_rx_cqe repost (Polled [wc1]) 0 (ctx_rx, q) = ((ctx_rx', q1), None)
    \<and> rdma_server_tx_step env now now' \<lparr>st_ping_msg = u, st_ctx = ctx_tx, st_queue = q1, st_table = table\<rparr> = (s2, None)
    \<and> rc_sq (st_ctx s2) = rc_sq ctx_tx @ [wr1] \<and> wr_data (st_ctx s2) wr1 = pong
    \<and> server_process_tx_cqe env (Polled [wc2]) 0 (st_ctx s2, st_table s2) = ((ctx3, table3), None)
    \<and> rc_sq ctx3 = rc_sq ctx_tx @ [wr1, wr2] \<and> wr_data ctx3 wr2 = ack
    \<and> entries table3 (pm_pingid m) = None
    \<and> server_process_tx_cqe env (Polled [wc3]) 0 (ctx3, table3) = ((ctx3, table3), None)
    \<and> rc_sq (fst (fst (server_process_tx_cqe env (Polled [wc2]) 0 (ctx3, table3)))) = rc_sq ctx3"
  by (rule server_answers [OF assms])

definition sample_server_ctx :: rdma_context where
  "sample_server_ctx = \<lparr>rc_buf = replicate NUM_BUFFER (replicate (MESSAGE_SIZE + GRH_SIZE) 0), rc_gid_index = 3, rc_active_port = 1,
     rc_rnic_hw_ts = True, rc_send_inline = False, rc_traffic_class = 106, rc_ah_map = Map.empty, rc_sq = [], rc_rq = []\<rparr>"

definition sample_verbs :: verbs_env where
  "sample_verbs = \<lparr>ve_uninit = [], ve_ah_ok = True, ve_post_ok = True\<rparr>"

definition sample_wc :: "wc_opcode \<Rightarrow> u64 \<Rightarrow> u64 \<Rightarrow> ibv_wc" where
  "sample_wc op w ts = \<lparr>wc_success = True, wc_op = op, wc_wr_id = w, wc_completion_ts = ts, wc_now = 0\<rparr>"

lemma sample_server_ctx_inv: "ctx_inv sample_server_ctx" "ah_for u sample_server_ctx d"
  by (simp_all add: ctx_inv_def sample_server_ctx_def ah_for_def)

lemma PingMsgMap_new_facts: "msg_table_inv t0 (PingMsgMap_new th)" "entries (PingMsgMap_new th) = Map.empty"
  by (simp_all add: msg_table_inv_def PingMsgMap_new_def table_new_def table_inv_def table_ordered_def keys_def stamps_def)

theorem server_answers_ping_witness:
  "\<exists>ctx_rx' q1 s2 ctx3 table3.
      server_process_rx_cqe (\<lambda>_. True) (Polled [sample_wc IBV_WC_RECV 0 4294967290]) 0
        (sample_server_ctx\<lparr>rc_buf := [replicate GRH_SIZE 0 @ rdma_pingmsg_bytes sample_msg @ []]\<rparr>, brwq_new MSG_QUEUE_SIZE)
        = ((ctx_rx', q1), None)
    \<and> rdma_server_tx_step sample_verbs 5 6
        \<lparr>st_ping_msg = sample_msg, st_ctx = sample_server_ctx, st_queue = q1, st_table = PingMsgMap_new 1000\<rparr> = (s2, None)
    \<and> server_process_tx_cqe sample_verbs (Polled [sample_wc IBV_WC_SEND 7 4294967396]) 0 (st_ctx s2, st_table s2)
        = ((ctx3, table3), None)
    \<and> map (wr_data ctx3) (drop 1 (rc_sq ctx3)) = [ack_of 7 106]"
proof -
  let ?rx = "sample_server_ctx\<lparr>rc_buf := [replicate GRH_SIZE 0 @ rdma_pingmsg_bytes sample_msg @ []]\<rparr>"
  let ?w1 = "sample_wc IBV_WC_RECV 0 4294967290" and ?w2 = "sample_wc IBV_WC_SEND 7 4294967396"
    and ?w3 = "sample_wc IBV_WC_SEND PINGWEAVE_WRID_PONG_ACK 0"
  have f: "rc_buf ?rx ! unat (wc_wr_id ?w1) = replicate GRH_SIZE 0 @ rdma_pingmsg_bytes sample_msg @ []"
    "length (replicate GRH_SIZE (0 :: u8)) = GRH_SIZE" "length (pm_gid sample_msg) = 16"
    "wc_success ?w1" "wc_op ?w1 = IBV_WC_RECV" "ve_ah_ok sample_verbs" "ve_post_ok sample_verbs" "(0 :: int) \<le> 6"
    "entries (PingMsgMap_new 1000) (pm_pingid sample_msg) = None" "pm_pingid sample_msg \<noteq> PINGWEAVE_WRID_PONG_ACK"
    "wc_success ?w2" "wc_op ?w2 = IBV_WC_SEND" "wc_wr_id ?w2 = pm_pingid sample_msg"
    "wc_op ?w3 = IBV_WC_SEND" "wc_wr_id ?w3 = PINGWEAVE_WRID_PONG_ACK"
    by (simp_all add: sample_wc_def sample_msg_def sample_verbs_def PingMsgMap_new_facts PINGWEAVE_WRID_PONG_ACK_def NUM_BUFFER_def)
  have q: "brwq_inv (brwq_new MSG_QUEUE_SIZE :: RdmaServerQueue)" "brwq_pending (brwq_new MSG_QUEUE_SIZE :: RdmaServerQueue) = []"
    "0 < brwq_room (brwq_new MSG_QUEUE_SIZE :: RdmaServerQueue)"
    using brwq_new_inv [where 'a = rdma_pingmsg_t] by (simp_all add: MSG_QUEUE_SIZE_def)
  have d: "calc_time_delta_with_modulo (completion_time (rc_rnic_hw_ts ?rx) ?w1) (completion_time (rc_rnic_hw_ts sample_server_ctx) ?w2)
      PINGWEAVE_TIME_CALC_MODULO = 106"
    by (simp add: completion_time_def sample_server_ctx_def sample_wc_def calc_time_delta_with_modulo_def PINGWEAVE_TIME_CALC_MODULO_def)
  have p: "pm_pingid sample_msg = 7" "rc_sq sample_server_ctx = []" by (simp_all add: sample_msg_def sample_server_ctx_def)
  from server_answers_ping [OF f(1-5) q sample_server_ctx_inv(1) f(6,7) sample_server_ctx_inv(2) PingMsgMap_new_facts(1) f(8-15) refl refl refl refl,
      unfolded d, of "\<lambda>_. True" 5 sample_msg]
  show ?thesis unfolding p by fastforce
qed

text \<open>
  Two pings share a send buffer.  A PONG is built in the buffer with the index of its identifier modulo the
  number of buffers, and the sending thread does not wait for the completion of an earlier one.  When two waiting pings
  of different clients agree in the low byte of their counters and sends are not inline, the second PONG
  overwrites the data of the first while its request is still posted: the adapter may send the
  first client the identifier of the second ping.
\<close>

theorem pong_buffer_shared:
  assumes "ctx_inv ctx" and "\<not> rc_send_inline ctx" and "brwq_inv q" and "brwq_pending q = [m1, m2]"
    and "unat (pm_pingid m1) mod NUM_BUFFER = unat (pm_pingid m2) mod NUM_BUFFER" and "pm_pingid m1 \<noteq> pm_pingid m2"
    and "ve_ah_ok env" and "ve_post_ok env" and "rc_ah_map ctx = Map.empty"
    and "dest_key (ve_uninit env) (client_addr m1) \<noteq> dest_key (ve_uninit env) (client_addr m2)"
    and "msg_table_inv t0 table" and "t0 \<le> now1" and "now1 \<le> now2" and "entries table = Map.empty"
  shows "\<exists>s1 s2. rdma_server_tx_step env now0 now1 \<lparr>st_ping_msg = u, st_ctx = ctx, st_queue = q, st_table = table\<rparr> = (s1, None)
    \<and> rdma_server_tx_step env now2 now2 s1 = (s2, None)
    \<and> map (wr_data (st_ctx s1)) (drop (length (rc_sq ctx)) (rc_sq (st_ctx s1))) = [pong_of (pm_pingid m1)]
    \<and> map (wr_data (st_ctx s2)) (drop (length (rc_sq ctx)) (rc_sq (st_ctx s2))) = [pong_of (pm_pingid m2), pong_of (pm_pingid m2)]"
proof -
  let ?s = "\<lparr>st_ping_msg = u, st_ctx = ctx, st_queue = q, st_table = table\<rparr>"
  let ?i = "buf_of (pm_pingid m1) ctx"
  let ?p1 = "posted ctx (client_addr m1) (pong_of (pm_pingid m1)) ?i (pm_pingid m1)"
  have ah: "ah_for (ve_uninit env) ctx (client_addr m1)" by (simp add: ah_for_def assms(9))
  obtain s1 where S1: "rdma_server_tx_step env now0 now1 ?s = (s1, None)" "ctx_inv (st_ctx s1)" "same_port ctx (st_ctx s1)"
      "ah_for (ve_uninit env) (st_ctx s1) (client_addr m1)" "rc_sq (st_ctx s1) = rc_sq ctx @ [?p1]"
      "wr_data (st_ctx s1) ?p1 = pong_of (pm_pingid m1)" "brwq_inv (st_queue s1)" "brwq_pending (st_queue s1) = [m2]"
      "msg_table_inv now1 (st_table s1)"
      "\<forall>d'. ah_for (ve_uninit env) ctx d' \<and> dest_key (ve_uninit env) d' \<noteq> dest_key (ve_uninit env) (client_addr m1)
          \<longrightarrow> ah_for (ve_uninit env) (st_ctx s1) d'"
    using server_tx_one [of ?s m1 "[m2]" env t0 now1 now0] assms(1,3,4,7,8,11,12,14) ah by auto
  have ah2: "ah_for (ve_uninit env) (st_ctx s1) (client_addr m2)"
    using S1(10) assms(10) by (simp add: ah_for_def assms(9))
  have e1: "entries (st_table s1) (pm_pingid m2) = None"
  proof -
    have "entries (snd (PingMsgMap_insert now0 now1 (pm_pingid m1) m1 table)) (pm_pingid m2) = None"
      using msg_table.insert_other [OF assms(11) TrueI, of "pm_pingid m2" "pm_pingid m1" now0 now1 m1] assms(6,14)
      by (simp add: live_def)
    moreover have "st_table s1 = snd (PingMsgMap_insert now0 now1 (pm_pingid m1) m1 table)"
    proof -
      obtain r q' where d: "brwq_wait_dequeue_timed q = (r, q')" by fastforce
      then have "r = Some (Some m1)" using brwq_dequeue_spec [OF assms(3) d] assms(4) by auto
      then show ?thesis using S1(1) d by (auto simp: rdma_server_tx_step_def Let_def split: prod.splits if_splits)
    qed
    ultimately show ?thesis by simp
  qed
  have i2: "buf_of (pm_pingid m2) (st_ctx s1) = ?i"
    using S1(2) assms(1,5) by (simp add: buf_of_def ctx_inv_def)
  let ?p2 = "posted (st_ctx s1) (client_addr m2) (pong_of (pm_pingid m2)) ?i (pm_pingid m2)"
  obtain s2 where S2: "rdma_server_tx_step env now2 now2 s1 = (s2, None)" "rc_sq (st_ctx s2) = rc_sq (st_ctx s1) @ [?p2]"
      "wr_data (st_ctx s2) ?p2 = pong_of (pm_pingid m2)"
    using server_tx_one [OF S1(2,7,8) assms(7,8) ah2 S1(9) assms(13) e1, of now2] i2 by auto
  have "sw_inline ?p1 = None" "sw_inline ?p2 = None" "sw_buf ?p1 = sw_buf ?p2" "sw_length ?p1 = sw_length ?p2"
    using assms(2) S1(3) by (simp_all add: posted_def same_port_def)
  then have "wr_data (st_ctx s2) ?p1 = pong_of (pm_pingid m2)" using S2(3) by (simp add: wr_data_def)
  then show ?thesis using S1 S2 by auto
qed

theorem pong_buffer_shared_witness:
  "\<exists>q s1 s2. brwq_pending q = [sample_msg, sample_msg\<lparr>pm_pingid := 263, pm_lid := 9\<rparr>]
    \<and> rdma_server_tx_step sample_verbs 1 2
        \<lparr>st_ping_msg = sample_msg, st_ctx = sample_server_ctx, st_queue = q, st_table = PingMsgMap_new 1000\<rparr> = (s1, None)
    \<and> rdma_server_tx_step sample_verbs 3 3 s1 = (s2, None)
    \<and> map (wr_data (st_ctx s1)) (rc_sq (st_ctx s1)) = [pong_of 7]
    \<and> map (wr_data (st_ctx s2)) (rc_sq (st_ctx s2)) = [pong_of 263, pong_of 263]"
proof -
  let ?m2 = "sample_msg\<lparr>pm_pingid := 263, pm_lid := 9\<rparr>"
  let ?q = "offer ?m2 (offer sample_msg (brwq_new MSG_QUEUE_SIZE))"
  have n: "brwq_inv (brwq_new MSG_QUEUE_SIZE :: RdmaServerQueue)" "brwq_pending (brwq_new MSG_QUEUE_SIZE :: RdmaServerQueue) = []"
    "1 < brwq_room (brwq_new MSG_QUEUE_SIZE :: RdmaServerQueue)"
    using brwq_new_inv [where 'a = rdma_pingmsg_t] by (simp_all add: MSG_QUEUE_SIZE_def)
  have q: "brwq_inv ?q" "brwq_pending ?q = [sample_msg, ?m2]" using n by (simp_all add: offer_pending)
  have f: "\<not> rc_send_inline sample_server_ctx" "unat (pm_pingid sample_msg) mod NUM_BUFFER = unat (pm_pingid ?m2) mod NUM_BUFFER"
    "pm_pingid sample_msg \<noteq> pm_pingid ?m2" "ve_ah_ok sample_verbs" "ve_post_ok sample_verbs" "rc_ah_map sample_server_ctx = Map.empty"
    "(0 :: int) \<le> 2" "(2 :: int) \<le> 3" "rc_sq sample_server_ctx = []"
    by (simp_all add: sample_server_ctx_def sample_msg_def sample_verbs_def NUM_BUFFER_def)
  have k: "dest_key (ve_uninit sample_verbs) (client_addr sample_msg) \<noteq> dest_key (ve_uninit sample_verbs) (client_addr ?m2)"
    by (simp add: dest_key_def make_destination_key_def client_addr_def sample_msg_def show_nat_def digit_char_def show_base.simps)
  have pid: "pm_pingid sample_msg = 7" "pm_pingid ?m2 = 263" by (simp_all add: sample_msg_def)
  obtain s1 s2 where T: "rdma_server_tx_step sample_verbs 1 2
        \<lparr>st_ping_msg = sample_msg, st_ctx = sample_server_ctx, st_queue = ?q, st_table = PingMsgMap_new 1000\<rparr> = (s1, None)"
      "rdma_server_tx_step sample_verbs 3 3 s1 = (s2, None)"
      "map (wr_data (st_ctx s1)) (rc_sq (st_ctx s1)) = [pong_of 7]"
      "map (wr_data (st_ctx s2)) (rc_sq (st_ctx s2)) = [pong_of 263, pong_of 263]"
    using pong_buffer_shared [OF sample_server_ctx_inv(1) f(1) q f(2-6) k PingMsgMap_new_facts(1) [of 0 1000] f(7,8) PingMsgMap_new_facts(2),
        of 1 sample_msg, unfolded pid f(9) list.size drop_0] by (elim exE conjE) (rule that)
  show ?thesis by (intro exI conjI) (rule q(2) T)+
qed

end
