(* ===== verification/Pw_RdmaClient.thy ===== *)
theory Pw_RdmaClient
  imports Pw_Verbs Pw_RdmaServer Pw_RdmaTable Pw_Scheduler
begin

text \<open>
  The RDMA client, \<^verbatim>\<open>src/src/rdma_client.cpp\<close>.  The scheduling thread records a ping in the table and posts
  it; the thread of send completions records when it left; the receiving thread records the PONG and
  the ACK.  The table hands a result to the result thread when it has all three.
\<close>

section \<open>The receiving thread\<close>

definition handle_received_message ::
    "u32 \<Rightarrow> rdma_pongmsg_t \<Rightarrow> u64 \<Rightarrow> u64 \<Rightarrow> RdmaPinginfoMap \<Rightarrow> RdmaPinginfoMap" where
  "handle_received_message uninit pong_msg recv_time cqe_time ping_table =
     (if po_opcode pong_msg = PINGWEAVE_OPCODE_PONG then
        snd (RdmaPinginfoMap_update_pong_info uninit (po_pingid pong_msg) recv_time cqe_time ping_table)
      else if po_opcode pong_msg = PINGWEAVE_OPCODE_ACK then
        snd (RdmaPinginfoMap_update_ack_info uninit (po_pingid pong_msg) (po_server_delay pong_msg) ping_table)
      else ping_table)"

text \<open>
  One completion.  With hardware timestamps the steady clock is read as well; without, one
  reading of the steady clock serves as both times.
\<close>

definition client_rx_wc ::
    "u32 \<Rightarrow> (u64 \<Rightarrow> bool) \<Rightarrow> ibv_wc \<Rightarrow> rdma_context \<times> RdmaPinginfoMap \<Rightarrow> (rdma_context \<times> RdmaPinginfoMap) \<times> exn option" where
  "client_rx_wc uninit repost wc s =
     (let (ctx_rx, ping_table) = s in
      if \<not> wc_success wc then (s, None)
      else if wc_op wc = IBV_WC_RECV then
        let pong_msg = rdma_pongmsg_of (received sizeof_rdma_pongmsg ctx_rx (wc_wr_id wc));
            (_, ctx1) = post_recv (\<lambda>_. repost (wc_wr_id wc)) ctx_rx (wc_wr_id wc) 1;
            recv_time = get_current_timestamp_ns (wc_now wc);
            cqe_time = completion_time (rc_rnic_hw_ts ctx_rx) wc
        in ((ctx1, handle_received_message uninit pong_msg recv_time cqe_time ping_table), None)
      else
        (s, Some (Runtime_error (if rc_rnic_hw_ts ctx_rx then ''rx cqe - Unexpected opcode'' else ''rx cqe - RX WR failure''))))"

definition client_process_rx_cqe ::
    "u32 \<Rightarrow> (u64 \<Rightarrow> bool) \<Rightarrow> poll \<Rightarrow> int \<Rightarrow> rdma_context \<times> RdmaPinginfoMap \<Rightarrow> (rdma_context \<times> RdmaPinginfoMap) \<times> exn option" where
  "client_process_rx_cqe uninit repost polled notify_rc s =
     (case (if rc_rnic_hw_ts (fst s) \<and> polled = Poll_error then Polled [] else polled) of
        Poll_error \<Rightarrow> (s, Some (Runtime_error ''rx cqe - Failed to poll CQ''))
      | Polled [] \<Rightarrow> (s, Some (Runtime_error ''rx cqe - Failed during CQ polling''))
      | Polled wcs \<Rightarrow>
          (case each_wc (client_rx_wc uninit repost) wcs s of
             (s1, Some e) \<Rightarrow> (s1, Some e)
           | (s1, None) \<Rightarrow>
               if notify_rc \<noteq> 0 then (s1, Some (Runtime_error ''rx cqe - Failed to post cqe request notification.''))
               else (s1, None)))"

text \<open>Starting the thread: \<^verbatim>\<open>throw;\<close> without an exception ends the process (\<open>None\<close>).\<close>

definition rdma_client_rx_start :: "(nat \<Rightarrow> bool) \<Rightarrow> int \<Rightarrow> rdma_context \<Rightarrow> rdma_context option" where
  "rdma_client_rx_start ok notify_rc ctx_rx =
     (let (ctx1, good) = post_all ok 0 (length (rc_buf ctx_rx)) ctx_rx
      in if \<not> good then None else if notify_rc \<noteq> 0 then None else Some ctx1)"

section \<open>The thread of send completions\<close>

text \<open>Without hardware timestamps the completion is only logged: the scheduling thread has recorded the time.\<close>

definition client_tx_wc ::
    "u32 \<Rightarrow> bool \<Rightarrow> ibv_wc \<Rightarrow> RdmaPinginfoMap \<Rightarrow> RdmaPinginfoMap \<times> exn option" where
  "client_tx_wc uninit rnic_hw_ts wc ping_table =
     (if \<not> wc_success wc then (ping_table, None)
      else if wc_op wc = IBV_WC_SEND then
        (if rnic_hw_ts
         then (snd (RdmaPinginfoMap_update_ping_cqe_time uninit (wc_wr_id wc) (wc_completion_ts wc) ping_table), None)
         else (ping_table, None))
      else (ping_table, Some (Runtime_error ''tx cqe - TX WR failure'')))"

text \<open>
  The handler.  The flag is whether the notification was requested again: on an empty poll the handler
  returns before that.
\<close>

definition client_process_tx_cqe ::
    "u32 \<Rightarrow> bool \<Rightarrow> poll \<Rightarrow> int \<Rightarrow> RdmaPinginfoMap \<Rightarrow> RdmaPinginfoMap \<times> bool \<times> exn option" where
  "client_process_tx_cqe uninit rnic_hw_ts polled notify_rc ping_table =
     (case (if rnic_hw_ts \<and> polled = Poll_error then Polled [] else polled) of
        Poll_error \<Rightarrow> (ping_table, False, Some (Runtime_error ''tx cqe - Failed to poll CQ''))
      | Polled [] \<Rightarrow> (ping_table, False, None)
      | Polled wcs \<Rightarrow>
          (case each_wc (client_tx_wc uninit rnic_hw_ts) wcs ping_table of
             (s1, Some e) \<Rightarrow> (s1, False, Some e)
           | (s1, None) \<Rightarrow>
               if notify_rc \<noteq> 0
               then (s1, False, Some (Runtime_error ''tx cqe - Failed to post cqe request notification.''))
               else (s1, True, None)))"

section \<open>The scheduling thread\<close>

record rdma_tx =
  rt_scheduler :: "rdma_address MsgScheduler"
  rt_ping_uid :: u32

record rdma_tx_env =
  re_doc :: "node option"
  re_store :: "node option"
  re_load_now :: time_point
  re_ping_now :: time_point
  re_expire_now :: time_point
  re_steady_now :: time_point
  re_system_now :: time_point
  re_posted_now :: time_point
  re_v32 :: u32
  re_msg_time :: u64
  re_verbs :: verbs_env

text \<open>What the thread is given: the own address and where the server's answers are to go.\<close>

record rdma_client_id =
  ci_ipv4 :: string
  ci_rx_gid :: gid
  ci_rx_lid :: u32
  ci_rx_qpn :: u32

text \<open>
  One pass.  \<open>None\<close> stands for a read past the end of a GID text and for the failing assertion on
  the identifier.  \<^verbatim>\<open>msg = {}\<close> does not reach the member \<^verbatim>\<open>time\<close>, whose content is \<open>re_msg_time\<close>.
\<close>

definition rdma_client_tx_step ::
    "u32 \<Rightarrow> rdma_client_id \<Rightarrow> rdma_tx_env \<Rightarrow> rdma_tx \<Rightarrow> rdma_context \<Rightarrow> RdmaPinginfoMap
     \<Rightarrow> (rdma_tx \<times> rdma_context \<times> RdmaPinginfoMap) option" where
  "rdma_client_tx_step uninit me env t ctx_tx ping_table =
     (case rdma_next (re_doc env) (re_store env) (re_load_now env) (re_ping_now env) (rt_scheduler t) of
        None \<Rightarrow> None
      | Some ((r, dst, time_sleep_us), sch) \<Rightarrow>
          if IS_SUCCESS r then
            (case the dst of (dst_ip, dst_gid_str, dst_lid, dst_qpn) \<Rightarrow>
             case wire_gid_to_gid (re_v32 env) dst_gid_str of
               None \<Rightarrow> None
             | Some g \<Rightarrow>
                 let dst_addr = \<lparr>ra_qpn = dst_qpn, ra_gid = g, ra_lid = dst_lid\<rparr>;
                     pingid = make_pingid (ip2uint uninit (ci_ipv4 me)) (rt_ping_uid t);
                     msg = \<lparr>pm_pingid = pingid, pm_qpn = ci_rx_qpn me, pm_gid = ci_rx_gid me,
                            pm_lid = ci_rx_lid me, pm_time = re_msg_time env\<rparr>;
                     (_, table1) = RdmaPinginfoMap_insert uninit (re_expire_now env) (re_steady_now env)
                                     (re_system_now env) pingid msg dst_ip ping_table;
                     t1 = t\<lparr>rt_scheduler := sch, rt_ping_uid := rt_ping_uid t + 1\<rparr>
                 in if \<not> pingid > PINGWEAVE_WRID_PONG_ACK then None
                    else
                      let (rc, ctx1) = post_send (re_verbs env) ctx_tx dst_addr (rdma_pingmsg_bytes msg)
                                         (buf_of pingid ctx_tx) pingid
                      in if IS_FAILURE rc then Some (t1, ctx1, table1)
                         else if \<not> rc_rnic_hw_ts ctx_tx then
                           Some (t1, ctx1, snd (RdmaPinginfoMap_update_ping_cqe_time uninit pingid
                                                  (get_current_timestamp_ns (re_posted_now env)) table1))
                         else Some (t1, ctx1, table1))
          else Some (t\<lparr>rt_scheduler := sch\<rparr>, ctx_tx, ping_table))"

section \<open>The handlers in terms of the table's events\<close>

lemma update_is_event:
  "RdmaPinginfoMap_update_ping_cqe_time uninit key x s = rd_handle uninit key (CQE x) s"
  "RdmaPinginfoMap_update_pong_info uninit key rt ct s = rd_handle uninit key (PONG rt ct) s"
  "RdmaPinginfoMap_update_ack_info uninit key sd s = rd_handle uninit key (ACK sd) s"
  by simp_all

lemma client_rx_one:
  assumes "rc_buf ctx ! unat (wc_wr_id wc) = grh @ rdma_pongmsg_bytes m @ rest" and "length grh = GRH_SIZE"
    and "wc_success wc" and "wc_op wc = IBV_WC_RECV"
  shows "\<exists>ctx'. client_rx_wc uninit repost wc (ctx, table) =
    ((ctx', handle_received_message uninit m (get_current_timestamp_ns (wc_now wc)) (completion_time (rc_rnic_hw_ts ctx) wc) table), None)"
proof -
  have "rdma_pongmsg_of (received sizeof_rdma_pongmsg ctx (wc_wr_id wc)) = m"
    using assms(2) by (simp add: received_def assms(1) sizeof_rdma_pongmsg_def)
  then show ?thesis using assms(3,4) by (simp add: client_rx_wc_def case_prod_beta)
qed

lemma handle_pong_ack:
  "handle_received_message uninit \<lparr>po_opcode = PINGWEAVE_OPCODE_PONG, po_pingid = pid, po_server_delay = sd\<rparr> rt ct s
     = snd (rd_handle uninit pid (PONG rt ct) s)"
  "handle_received_message uninit \<lparr>po_opcode = PINGWEAVE_OPCODE_ACK, po_pingid = pid, po_server_delay = sd\<rparr> rt ct s
     = snd (rd_handle uninit pid (ACK sd) s)"
  by (simp_all add: handle_received_message_def PINGWEAVE_OPCODE_PONG_def PINGWEAVE_OPCODE_ACK_def)

section \<open>Runs of the completion threads\<close>

text \<open>The adapter writes the GRH and the message of an arriving datagram to the start of the buffer of a posted receive.\<close>

definition adapter_write :: "u64 \<Rightarrow> bytes \<Rightarrow> rdma_context \<Rightarrow> rdma_context" where
  "adapter_write w d ctx = ctx\<lparr>rc_buf := (rc_buf ctx)[unat w := memcpy_at 0 d (rc_buf ctx ! unat w)]\<rparr>"

datatype client_event = Sent ibv_wc | Arrives bytes bytes ibv_wc

fun client_event_step :: "u32 \<Rightarrow> client_event \<Rightarrow> rdma_context \<times> RdmaPinginfoMap \<Rightarrow> rdma_context \<times> RdmaPinginfoMap" where
  "client_event_step uninit (Sent wc) (ctx, table) =
     (ctx, fst (client_process_tx_cqe uninit True (Polled [wc]) 0 table))"
| "client_event_step uninit (Arrives grh msg wc) (ctx, table) =
     fst (client_process_rx_cqe uninit (\<lambda>_. True) (Polled [wc]) 0 (adapter_write (wc_wr_id wc) (grh @ msg) ctx, table))"

fun client_events :: "u32 \<Rightarrow> client_event list \<Rightarrow> rdma_context \<times> RdmaPinginfoMap \<Rightarrow> rdma_context \<times> RdmaPinginfoMap" where
  "client_events uninit [] s = s"
| "client_events uninit (e # es) s = client_events uninit es (client_event_step uninit e s)"

lemma adapter_write_read:
  assumes "ctx_inv ctx" and "unat w < NUM_BUFFER"
  shows "\<exists>rest. rc_buf (adapter_write w d ctx) ! unat w = d @ rest"
  using assms by (simp add: adapter_write_def memcpy_at_def ctx_inv_def)

lemma adapter_write_inv:
  assumes "ctx_inv ctx" and "unat w < NUM_BUFFER" and "length d \<le> MESSAGE_SIZE + GRH_SIZE"
  shows "ctx_inv (adapter_write w d ctx)"
proof -
  have "length (rc_buf ctx ! unat w) = MESSAGE_SIZE + GRH_SIZE" using assms(1,2) by (simp add: ctx_inv_def)
  then have "length (memcpy_at 0 d (rc_buf ctx ! unat w)) = MESSAGE_SIZE + GRH_SIZE"
    using assms(3) by (simp add: memcpy_facts(1))
  then show ?thesis
    using assms(1) by (auto simp: ctx_inv_def adapter_write_def dest!: subsetD [OF set_update_subset_insert])
qed

lemma adapter_write_hw [simp]: "rc_rnic_hw_ts (adapter_write w d ctx) = rc_rnic_hw_ts ctx"
  by (simp add: adapter_write_def)

text \<open>An event of the threads is an event of the table.\<close>

fun table_event :: "client_event \<Rightarrow> (u64 \<times> rd_event) option" where
  "table_event (Sent wc) = Some (wc_wr_id wc, CQE (wc_completion_ts wc))"
| "table_event (Arrives grh msg wc) =
     (let m = rdma_pongmsg_of msg in
      if po_opcode m = PINGWEAVE_OPCODE_PONG
      then Some (po_pingid m, PONG (get_current_timestamp_ns (wc_now wc)) (wc_completion_ts wc))
      else if po_opcode m = PINGWEAVE_OPCODE_ACK then Some (po_pingid m, ACK (po_server_delay m)) else None)"

fun event_ok :: "client_event \<Rightarrow> bool" where
  "event_ok (Sent wc) \<longleftrightarrow> wc_success wc \<and> wc_op wc = IBV_WC_SEND"
| "event_ok (Arrives grh msg wc) \<longleftrightarrow> wc_success wc \<and> wc_op wc = IBV_WC_RECV \<and> unat (wc_wr_id wc) < NUM_BUFFER
     \<and> length grh = GRH_SIZE \<and> (\<exists>m. msg = rdma_pongmsg_bytes m)"

lemma client_event_step_eq:
  assumes "ctx_inv ctx" and "rc_rnic_hw_ts ctx" and "event_ok e"
  shows "\<exists>ctx'. client_event_step uninit e (ctx, table) =
      (ctx', case table_event e of None \<Rightarrow> table | Some (key, ev) \<Rightarrow> snd (rd_handle uninit key ev table))
    \<and> ctx_inv ctx' \<and> rc_rnic_hw_ts ctx'"
proof (cases e)
  case (Sent wc)
  then show ?thesis using assms by (simp add: client_process_tx_cqe_def client_tx_wc_def)
next
  case (Arrives grh msg wc)
  with assms(3) obtain m where wc: "wc_success wc" "wc_op wc = IBV_WC_RECV" "unat (wc_wr_id wc) < NUM_BUFFER"
    and grh: "length grh = GRH_SIZE" and m: "msg = rdma_pongmsg_bytes m" by auto
  let ?ctx = "adapter_write (wc_wr_id wc) (grh @ msg) ctx"
  have inv: "ctx_inv ?ctx" using adapter_write_inv [OF assms(1) wc(3)] grh m by (simp add: MESSAGE_SIZE_def)
  obtain rest where b: "rc_buf ?ctx ! unat (wc_wr_id wc) = grh @ rdma_pongmsg_bytes m @ rest"
    using adapter_write_read [OF assms(1) wc(3), of "grh @ msg"] m by auto
  have parse: "rdma_pongmsg_of (received sizeof_rdma_pongmsg ?ctx (wc_wr_id wc)) = m"
    using grh by (simp add: received_def b sizeof_rdma_pongmsg_def)
  let ?ctx' = "snd (post_recv (\<lambda>_. True) ?ctx (wc_wr_id wc) 1)"
  have "client_event_step uninit e (ctx, table) = (?ctx', handle_received_message uninit m
      (get_current_timestamp_ns (wc_now wc)) (wc_completion_ts wc) table)"
    using wc(1,2) parse assms(2)
    by (simp add: Arrives client_process_rx_cqe_def client_rx_wc_def completion_time_def case_prod_beta)
  moreover have "ctx_inv ?ctx'" "rc_rnic_hw_ts ?ctx'" using inv assms(2) by (simp_all add: post_recv_def ctx_inv_def Let_def)
  ultimately show ?thesis by (simp add: Arrives m handle_received_message_def Let_def)
qed

lemma client_events_eq:
  assumes "ctx_inv ctx" and "rc_rnic_hw_ts ctx" and "\<forall>e \<in> set es. event_ok e"
    and "map table_event es = map (\<lambda>ev. Some (key, ev)) evs"
  shows "snd (client_events uninit es (ctx, table)) = rd_handle_all uninit key evs table"
  using assms
proof (induction es arbitrary: ctx table evs)
  case (Cons e es)
  then obtain ev evs' where evs: "evs = ev # evs'" "table_event e = Some (key, ev)"
    "map table_event es = map (\<lambda>ev. Some (key, ev)) evs'" by auto
  obtain ctx' where "client_event_step uninit e (ctx, table) = (ctx', snd (rd_handle uninit key ev table))"
    "ctx_inv ctx'" "rc_rnic_hw_ts ctx'"
    using client_event_step_eq [OF Cons.prems(1,2), of e uninit table] Cons.prems(3) evs(2) by auto
  then show ?case using Cons.IH [of ctx' evs'] Cons.prems(3) evs by simp
qed simp

section \<open>Sending a ping\<close>

definition ping_of :: "u32 \<Rightarrow> rdma_client_id \<Rightarrow> u32 \<Rightarrow> u64 \<Rightarrow> rdma_pingmsg_t" where
  "ping_of uninit me uid tm =
     \<lparr>pm_pingid = make_pingid (ip2uint uninit (ci_ipv4 me)) uid, pm_qpn = ci_rx_qpn me, pm_gid = ci_rx_gid me,
      pm_lid = ci_rx_lid me, pm_time = tm\<rparr>"

text \<open>What the scheduler offers, read as an address of the adapter.\<close>

definition next_ping :: "rdma_tx_env \<Rightarrow> rdma_tx \<Rightarrow> (string \<times> rdma_addr) option" where
  "next_ping env t =
     (case rdma_next (re_doc env) (re_store env) (re_load_now env) (re_ping_now env) (rt_scheduler t) of
        Some ((r, Some (dst_ip, gs, dst_lid, dst_qpn), _), _) \<Rightarrow>
          if IS_SUCCESS r
          then map_option (\<lambda>g. (dst_ip, \<lparr>ra_qpn = dst_qpn, ra_gid = g, ra_lid = dst_lid\<rparr>)) (wire_gid_to_gid (re_v32 env) gs)
          else None
      | _ \<Rightarrow> None)"

text \<open>The state in which a ping can be posted and recorded.\<close>

definition can_ping :: "u32 \<Rightarrow> rdma_client_id \<Rightarrow> rdma_tx_env \<Rightarrow> rdma_tx \<Rightarrow> rdma_context \<Rightarrow> rdma_addr \<Rightarrow> RdmaPinginfoMap \<Rightarrow> bool" where
  "can_ping uninit me env t ctx_tx d table \<longleftrightarrow>
     ip2uint uninit (ci_ipv4 me) \<noteq> 0 \<and> length (ci_rx_gid me) = 16
     \<and> ctx_inv ctx_tx \<and> rc_rnic_hw_ts ctx_tx
     \<and> ve_ah_ok (re_verbs env) \<and> ve_post_ok (re_verbs env) \<and> ah_for (ve_uninit (re_verbs env)) ctx_tx d
     \<and> (\<exists>t0 \<le> re_steady_now env. rd_inv t0 table)
     \<and> entries (rd_table table) (make_pingid (ip2uint uninit (ci_ipv4 me)) (rt_ping_uid t)) = None
     \<and> length (brwq_pending (rd_queue table)) + length (keys (rd_table table)) < brwq_room (rd_queue table)"

lemma client_posts:
  assumes dst: "next_ping env t = Some (dst_ip, d)" and can: "can_ping uninit me env t ctx_tx d table"
  defines "m \<equiv> ping_of uninit me (rt_ping_uid t) (re_msg_time env)"
  shows "\<exists>t1 ctx1 table1 wr e. rdma_client_tx_step uninit me env t ctx_tx table = Some (t1, ctx1, table1)
    \<and> rt_ping_uid t1 = rt_ping_uid t + 1
    \<and> rc_sq ctx1 = rc_sq ctx_tx @ [wr] \<and> wr_data ctx1 wr = rdma_pingmsg_bytes m
    \<and> wr = posted ctx_tx d (rdma_pingmsg_bytes m) (buf_of (pm_pingid m) ctx_tx) (pm_pingid m)
    \<and> rd_inv (re_steady_now env) table1
    \<and> length (brwq_pending (rd_queue table1)) < brwq_room (rd_queue table1)
    \<and> entries (rd_table table1) (pm_pingid m) = Some e
    \<and> entry_value e = rd_entry m dst_ip (re_system_now env) (re_steady_now env)"
proof -
  let ?ip = "ip2uint uninit (ci_ipv4 me)"
  have mid: "pm_pingid m = make_pingid ?ip (rt_ping_uid t)" and lg: "length (pm_gid m) = 16"
    using can by (simp_all add: m_def ping_of_def can_ping_def)
  have C: "?ip \<noteq> 0" "ctx_inv ctx_tx" "rc_rnic_hw_ts ctx_tx" "ve_ah_ok (re_verbs env)" "ve_post_ok (re_verbs env)"
    "ah_for (ve_uninit (re_verbs env)) ctx_tx d" "entries (rd_table table) (pm_pingid m) = None"
    "length (brwq_pending (rd_queue table)) + length (keys (rd_table table)) < brwq_room (rd_queue table)"
    using can by (simp_all add: can_ping_def mid)
  obtain t0 where inv: "rd_inv t0 table" "t0 \<le> re_steady_now env" using can by (auto simp: can_ping_def)
  obtain r gs g us sch where N: "rdma_next (re_doc env) (re_store env) (re_load_now env) (re_ping_now env) (rt_scheduler t)
      = Some ((r, Some (dst_ip, gs, ra_lid d, ra_qpn d), us), sch)" "IS_SUCCESS r" "wire_gid_to_gid (re_v32 env) gs = Some g"
      "d = \<lparr>ra_qpn = ra_qpn d, ra_gid = g, ra_lid = ra_lid d\<rparr>"
    using dst by (auto simp: next_ping_def split: option.splits prod.splits if_splits)
  let ?x = "(uninit, re_system_now env, m, dst_ip)"
  obtain rc table1 where i: "RdmaPinginfoMap_insert uninit (re_expire_now env) (re_steady_now env) (re_system_now env) (pm_pingid m) m dst_ip table
      = (rc, table1)" by fastforce
  have "live (threshold_ms (rd_table table)) (re_expire_now env) (entries (rd_table table) (pm_pingid m)) = None"
    by (simp add: live_def C(7))
  then obtain e where e: "entries (rd_table table1) (pm_pingid m) = Some e"
      "entry_value e = rd_entry m dst_ip (re_system_now env) (re_steady_now env)"
    using rd_table.insert_new [OF inv(1), of ?x "pm_pingid m" "re_expire_now env" "re_steady_now env"] i by auto
  have inv1: "rd_inv (re_steady_now env) table1"
    using rd_table.insert_invar [OF inv(1), of ?x "pm_pingid m" "re_steady_now env" "re_expire_now env"] inv(2) i by simp
  note room = rd_insert_room [OF inv(1) C(8) i]
  have gt: "pm_pingid m > PINGWEAVE_WRID_PONG_ACK" unfolding mid by (rule make_pingid_gt_ack [OF C(1)])
  have len: "length (rdma_pingmsg_bytes m) \<le> MESSAGE_SIZE" using lg by (simp add: MESSAGE_SIZE_def)
  let ?wr = "posted ctx_tx d (rdma_pingmsg_bytes m) (buf_of (pm_pingid m) ctx_tx) (pm_pingid m)"
  obtain ctx1 where P: "post_send (re_verbs env) ctx_tx d (rdma_pingmsg_bytes m) (buf_of (pm_pingid m) ctx_tx) (pm_pingid m)
      = (PINGWEAVE_SUCCESS, ctx1)" "rc_sq ctx1 = rc_sq ctx_tx @ [?wr]" "wr_data ctx1 ?wr = rdma_pingmsg_bytes m"
    using post_send_ok [OF C(2) len buf_of_lt [OF C(2)] C(4-6), of "pm_pingid m" "pm_pingid m"] by blast
  have "rdma_client_tx_step uninit me env t ctx_tx table
      = Some (t\<lparr>rt_scheduler := sch, rt_ping_uid := rt_ping_uid t + 1\<rparr>, ctx1, table1)"
    using N(2,3) gt i P(1) C(3) unfolding mid
    by (simp add: rdma_client_tx_step_def N(1) N(4) [symmetric] m_def ping_of_def)
  then show ?thesis using P(2,3) e inv1 room by auto
qed

end
