(* ===== verification/Pw_RdmaSetup.thy ===== *)
theory Pw_RdmaSetup
  imports Pw_Verbs Pw_Ini Pw_Common
begin

text \<open>
  Setting up an RDMA context, \<^verbatim>\<open>src/src/rdma_common.cpp\<close>: finding the device, the port and the GID, acquiring
  channel, protection domain, buffers, completion queue and queue pair with the ladder of labels that releases
  them on a failure, and the file that announces the queue pair.  What the operating system and the verbs library answer
  is a record of parameters.
\<close>

section \<open>What the context holds\<close>

text \<open>Resources for which the release has not been called.\<close>

datatype resource = Device | Channel | Pd | Memory nat | Region nat | Cq | Qp

record Buffer =
  b_addr :: bool
  b_data :: bytes
  b_mr :: bool

record port_attr =
  pa_active :: bool
  pa_lid :: u16
  pa_gid_tbl_len :: int

datatype qp_state = QPS_RESET | QPS_INIT | QPS_RTR | QPS_RTS

record rdma_setup =
  su_context :: "string option"
  su_qp_num :: u32
  su_qp_state :: qp_state
  su_buf :: "Buffer list"
  su_gid_index :: int
  su_ipv4 :: string
  su_iface :: string
  su_portinfo :: port_attr
  su_rnic_hw_ts :: bool
  su_send_inline :: bool
  su_active_port :: int
  su_is_rx :: bool
  su_completion_timestamp_mask :: u64
  su_gid :: gid
  su_wired_gid :: string
  su_parsed_gid :: string
  su_protocol :: string
  su_traffic_class :: int
  su_held :: "resource set"

text \<open>An interface of \<^verbatim>\<open>getifaddrs\<close>: its address may be missing, of another family, or not printable.\<close>

datatype if_addr = No_address | Other_family | Inet "string option"

record setup_env =
  se_ifaddrs :: "(string \<times> if_addr) list option"
  se_infiniband :: "string \<Rightarrow> string list option"
  se_devices :: "string list option"
  se_open :: "string \<Rightarrow> bool"
  se_query_device_ex :: "u64 option"
  se_query_device :: "nat option"
  se_query_port :: "int \<Rightarrow> port_attr option"
  se_gid_port :: "port_attr option"
  se_query_gid :: "int \<Rightarrow> int \<Rightarrow> gid option"
  se_channel :: bool
  se_pd :: bool
  se_memalign :: "nat \<Rightarrow> bool"
  se_reg_mr :: "nat \<Rightarrow> bool"
  se_cq :: bool
  se_qp :: "u32 option"
  se_max_inline :: nat
  se_modify_init :: int
  se_modify_rtr :: int
  se_modify_rts :: int
  se_own_gid :: "gid option"
  se_ini :: "string option"
  se_uninit :: string

section \<open>The device\<close>

text \<open>
  The directory of an interface.  The first entry that is not hidden decides: when it names no device, the
  directory is closed inside the loop and read again, which is undefined (\<open>None\<close>).
\<close>

definition get_context_by_ifname :: "setup_env \<Rightarrow> string \<Rightarrow> rdma_setup \<Rightarrow> (int \<times> rdma_setup) option" where
  "get_context_by_ifname env ifname ctx =
     (case se_infiniband env ifname of
        None \<Rightarrow> Some (1, ctx)
      | Some entries \<Rightarrow>
          (case se_devices env of
             None \<Rightarrow> Some (1, ctx)
           | Some device_list \<Rightarrow>
               (case filter (\<lambda>d. take 1 d \<noteq> ''.'') entries of
                  [] \<Rightarrow> Some (1, ctx)
                | rdma_device_name # _ \<Rightarrow>
                    if rdma_device_name \<in> set device_list
                    then Some (0, if se_open env rdma_device_name
                                  then ctx\<lparr>su_context := Some rdma_device_name, su_held := insert Device (su_held ctx)\<rparr>
                                  else ctx\<lparr>su_context := None\<rparr>)
                    else None)))"

fun find_interface :: "setup_env \<Rightarrow> (string \<times> if_addr) list \<Rightarrow> rdma_setup \<Rightarrow> (int option \<times> rdma_setup) option" where
  "find_interface env [] ctx = Some (None, ctx)"
| "find_interface env ((name, No_address) # ifs) ctx = find_interface env ifs ctx"
| "find_interface env ((name, Other_family) # ifs) ctx = find_interface env ifs ctx"
| "find_interface env ((name, Inet None) # ifs) ctx = Some (Some PINGWEAVE_FAILURE, ctx)"
| "find_interface env ((name, Inet (Some host)) # ifs) ctx =
     (let ctx1 = ctx\<lparr>su_iface := name\<rparr> in
      if host = su_ipv4 ctx then
        (case get_context_by_ifname env name ctx1 of
           None \<Rightarrow> None
         | Some (rc, ctx2) \<Rightarrow> if rc \<noteq> 0 then Some (Some PINGWEAVE_FAILURE, ctx2) else Some (None, ctx2))
      else find_interface env ifs ctx1)"

definition get_context_by_ip :: "setup_env \<Rightarrow> rdma_setup \<Rightarrow> (int \<times> rdma_setup) option" where
  "get_context_by_ip env ctx =
     (case se_ifaddrs env of
        None \<Rightarrow> Some (PINGWEAVE_FAILURE, ctx)
      | Some ifs \<Rightarrow>
          (case find_interface env ifs ctx of
             None \<Rightarrow> None
           | Some (Some rc, ctx1) \<Rightarrow> Some (rc, ctx1)
           | Some (None, ctx1) \<Rightarrow>
               if su_context ctx1 = None then Some (PINGWEAVE_FAILURE, ctx1) else Some (PINGWEAVE_SUCCESS, ctx1)))"

section \<open>The port and the GID\<close>

fun find_port :: "setup_env \<Rightarrow> int \<Rightarrow> nat \<Rightarrow> rdma_setup \<Rightarrow> int \<times> rdma_setup" where
  "find_port env port 0 ctx = (-1, ctx)"
| "find_port env port (Suc n) ctx =
     (case se_query_port env port of
        None \<Rightarrow> find_port env (port + 1) n ctx
      | Some a \<Rightarrow>
          let ctx1 = ctx\<lparr>su_portinfo := a\<rparr> in
          if pa_active a then (port, ctx1) else find_port env (port + 1) n ctx1)"

definition find_active_port :: "setup_env \<Rightarrow> rdma_setup \<Rightarrow> int \<times> rdma_setup" where
  "find_active_port env ctx =
     (case se_query_device env of
        None \<Rightarrow> (-1, ctx)
      | Some phys_port_cnt \<Rightarrow> find_port env 1 phys_port_cnt ctx)"

definition gid_text :: "setup_env \<Rightarrow> int \<Rightarrow> nat \<Rightarrow> string option" where
  "gid_text env port i = map_option (parsed_gid (se_uninit env)) (se_query_gid env port (int i))"

text \<open>The loop from the last index down; the pair is the last valid index and the preferred one.\<close>

fun gid_scan :: "(nat \<Rightarrow> string option) \<Rightarrow> nat \<Rightarrow> int \<times> int \<Rightarrow> int \<times> int" where
  "gid_scan text 0 s = s"
| "gid_scan text (Suc i) (gid_index, preferred_gid_index) =
     gid_scan text i
       (case text i of
          None \<Rightarrow> (gid_index, preferred_gid_index)
        | Some gid_str \<Rightarrow>
            if gid_str \<noteq> '''' \<and> gid_str \<noteq> ''::'' then
              let preferred1 = (if take 7 gid_str = ''::ffff:'' \<and> preferred_gid_index = -1 then int i
                                else preferred_gid_index)
              in if gid_str = ''fe80::'' then (gid_index, preferred1)
                 else (if gid_index = -1 then int i else gid_index, preferred1)
            else (gid_index, preferred_gid_index))"

definition get_gid_table_index :: "setup_env \<Rightarrow> rdma_setup \<Rightarrow> int" where
  "get_gid_table_index env ctx =
     (case se_gid_port env of
        None \<Rightarrow> -1
      | Some port_attr \<Rightarrow>
          if pa_gid_tbl_len port_attr \<le> 0 then -1
          else
            let (gid_index, preferred_gid_index) =
                  gid_scan (gid_text env (su_active_port ctx)) (nat (pa_gid_tbl_len port_attr)) (-1, -1)
            in if preferred_gid_index \<noteq> -1 then preferred_gid_index else gid_index)"

definition get_traffic_class :: "setup_env \<Rightarrow> rdma_setup \<Rightarrow> (exn + int) \<times> rdma_setup" where
  "get_traffic_class env ctx =
     (let load = (\<lambda>key. let (rc, v) = get_int_param_from_ini (se_ini env) (su_traffic_class ctx) key in
                    if IS_FAILURE rc then (Inr PINGWEAVE_FAILURE, ctx\<lparr>su_traffic_class := 0\<rparr>)
                    else (Inr PINGWEAVE_SUCCESS, ctx\<lparr>su_traffic_class := v\<rparr>))
      in if su_protocol ctx = ''ib'' then load ''traffic_class_ib''
         else if su_protocol ctx = ''roce'' then load ''traffic_class_roce''
         else (Inl (Runtime_error ''Invalid protocol type - must be either ib or roce''), ctx))"

section \<open>Buffers\<close>

definition null_buffer :: Buffer where
  "null_buffer = \<lparr>b_addr = False, b_data = [], b_mr = False\<rparr>"

text \<open>A region that cannot be registered gives its memory back; the pointer keeps its value.\<close>

definition allocate_and_register_buffer :: "setup_env \<Rightarrow> nat \<Rightarrow> nat \<Rightarrow> rdma_setup \<Rightarrow> int \<times> rdma_setup" where
  "allocate_and_register_buffer env i sz ctx =
     (if \<not> se_memalign env i then (PINGWEAVE_FAILURE, ctx)
      else
        let buffer = (su_buf ctx ! i)\<lparr>b_addr := True, b_data := replicate sz 0\<rparr> in
        if \<not> se_reg_mr env i
        then (PINGWEAVE_FAILURE, ctx\<lparr>su_buf := (su_buf ctx)[i := buffer\<lparr>b_mr := False\<rparr>]\<rparr>)
        else (PINGWEAVE_SUCCESS, ctx\<lparr>su_buf := (su_buf ctx)[i := buffer\<lparr>b_mr := True\<rparr>],
                                      su_held := su_held ctx \<union> {Memory i, Region i}\<rparr>))"

fun alloc_buffers :: "setup_env \<Rightarrow> nat \<Rightarrow> nat \<Rightarrow> rdma_setup \<Rightarrow> int \<times> rdma_setup" where
  "alloc_buffers env i 0 ctx = (PINGWEAVE_SUCCESS, ctx)"
| "alloc_buffers env i (Suc n) ctx =
     (let (rc, ctx1) = allocate_and_register_buffer env i (MESSAGE_SIZE + GRH_SIZE) ctx
      in if IS_FAILURE rc then (PINGWEAVE_FAILURE, ctx1) else alloc_buffers env (Suc i) n ctx1)"

section \<open>The ladder of releases\<close>

text \<open>Each label releases one resource and falls through to the next.\<close>

definition clean_device :: "rdma_setup \<Rightarrow> rdma_setup" where
  "clean_device ctx = ctx\<lparr>su_held := su_held ctx - {Device}\<rparr>"

definition clean_comp_channel :: "rdma_setup \<Rightarrow> rdma_setup" where
  "clean_comp_channel ctx = clean_device (ctx\<lparr>su_held := su_held ctx - {Channel}\<rparr>)"

definition clean_pd :: "rdma_setup \<Rightarrow> rdma_setup" where
  "clean_pd ctx = clean_comp_channel (ctx\<lparr>su_held := su_held ctx - {Pd}\<rparr>)"

definition clean_mr :: "rdma_setup \<Rightarrow> rdma_setup" where
  "clean_mr ctx = clean_pd (ctx\<lparr>su_held := su_held ctx
     - set (map Region (filter (\<lambda>i. b_mr (su_buf ctx ! i)) [0..<length (su_buf ctx)]))
     - set (map Memory (filter (\<lambda>i. b_addr (su_buf ctx ! i)) [0..<length (su_buf ctx)]))\<rparr>)"

definition clean_cq :: "rdma_setup \<Rightarrow> rdma_setup" where
  "clean_cq ctx = clean_mr (ctx\<lparr>su_held := su_held ctx - {Cq}\<rparr>)"

definition clean_qp :: "rdma_setup \<Rightarrow> rdma_setup" where
  "clean_qp ctx = clean_cq (ctx\<lparr>su_held := su_held ctx - {Qp}\<rparr>)"

definition acquire :: "resource \<Rightarrow> rdma_setup \<Rightarrow> rdma_setup" where
  "acquire r ctx = ctx\<lparr>su_held := insert r (su_held ctx)\<rparr>"

section \<open>Initialising, connecting and announcing a context\<close>

definition reset_ctx :: "setup_env \<Rightarrow> rdma_setup \<Rightarrow> rdma_setup" where
  "reset_ctx env ctx =
     (let ctx1 = ctx\<lparr>su_rnic_hw_ts := False, su_send_inline := False,
                     su_buf := take NUM_BUFFER (su_buf ctx) @ replicate (NUM_BUFFER - length (su_buf ctx)) null_buffer\<rparr>
      in case se_query_device_ex env of
           None \<Rightarrow> ctx1
         | Some ts_mask \<Rightarrow>
             if ts_mask = 0 then ctx1\<lparr>su_completion_timestamp_mask := - 1\<rparr>
             else ctx1\<lparr>su_rnic_hw_ts := True, su_completion_timestamp_mask := ts_mask\<rparr>)"

text \<open>The queue pair: its number, whether it takes a message inline, and its state.\<close>

definition init_qp :: "setup_env \<Rightarrow> rdma_setup \<Rightarrow> int \<times> rdma_setup" where
  "init_qp env ctx =
     (case se_qp env of
        None \<Rightarrow> (PINGWEAVE_FAILURE, clean_cq ctx)
      | Some n \<Rightarrow>
          let ctx1 = (acquire Qp ctx)\<lparr>su_qp_num := n, su_qp_state := QPS_RESET,
                su_send_inline := (su_send_inline ctx \<or> se_max_inline env \<ge> MESSAGE_SIZE + GRH_SIZE)\<rparr>
          in if se_modify_init env \<noteq> 0 then (PINGWEAVE_FAILURE, clean_qp ctx1)
             else (PINGWEAVE_SUCCESS, ctx1\<lparr>su_qp_state := QPS_INIT\<rparr>))"

definition init_ctx :: "setup_env \<Rightarrow> rdma_setup \<Rightarrow> int \<times> rdma_setup" where
  "init_ctx env ctx =
     (let (active_port, ctx1) = find_active_port env (reset_ctx env ctx) in
      if active_port < 0 then (PINGWEAVE_FAILURE, clean_device ctx1)
      else
        let ctx2 = ctx1\<lparr>su_active_port := active_port\<rparr>;
            gid_index = get_gid_table_index env ctx2
        in if gid_index < 0 then (PINGWEAVE_FAILURE, clean_device ctx2)
           else
             let ctx3 = ctx2\<lparr>su_gid_index := gid_index\<rparr> in
             if \<not> se_channel env then (PINGWEAVE_FAILURE, clean_device ctx3)
             else if \<not> se_pd env then (PINGWEAVE_FAILURE, clean_comp_channel (acquire Channel ctx3))
             else
               let (rc, ctx4) = alloc_buffers env 0 (length (su_buf ctx3)) (acquire Pd (acquire Channel ctx3)) in
               if IS_FAILURE rc then (PINGWEAVE_FAILURE, clean_pd ctx4)
               else if \<not> se_cq env then (PINGWEAVE_FAILURE, clean_mr ctx4)
               else init_qp env (acquire Cq ctx4))"

definition prepare_ctx :: "setup_env \<Rightarrow> rdma_setup \<Rightarrow> int \<times> rdma_setup" where
  "prepare_ctx env ctx =
     (if se_modify_rtr env \<noteq> 0 then (PINGWEAVE_FAILURE, ctx)
      else if se_modify_rts env \<noteq> 0 then (PINGWEAVE_FAILURE, ctx\<lparr>su_qp_state := QPS_RTR\<rparr>)
      else (PINGWEAVE_SUCCESS, ctx\<lparr>su_qp_state := QPS_RTS\<rparr>))"

text \<open>\<open>None\<close> is the undefined read of a closed directory; an exception is a value on the left.\<close>

definition make_ctx :: "setup_env \<Rightarrow> string \<Rightarrow> string \<Rightarrow> bool \<Rightarrow> rdma_setup \<Rightarrow> ((exn + int) \<times> rdma_setup) option" where
  "make_ctx env ipv4 protocol is_rx ctx =
     (case get_context_by_ip env (ctx\<lparr>su_ipv4 := ipv4, su_is_rx := is_rx, su_protocol := protocol\<rparr>) of
        None \<Rightarrow> None
      | Some (rc1, ctx1) \<Rightarrow>
          if IS_FAILURE rc1 then Some (Inr PINGWEAVE_FAILURE, ctx1)
          else
            let (rc2, ctx2) = init_ctx env ctx1 in
            if IS_FAILURE rc2 then Some (Inr PINGWEAVE_FAILURE, ctx2)
            else
              let (rc3, ctx3) = prepare_ctx env ctx2 in
              if IS_FAILURE rc3 then Some (Inr PINGWEAVE_FAILURE, ctx3)
              else
                (case se_own_gid env of
                   None \<Rightarrow> Some (Inr PINGWEAVE_FAILURE, ctx3)
                 | Some g \<Rightarrow>
                     let ctx4 = ctx3\<lparr>su_gid := g, su_wired_gid := gid_to_wire_gid g,
                                     su_parsed_gid := parsed_gid (su_parsed_gid ctx3) g\<rparr>
                     in case get_traffic_class env ctx4 of
                          (Inl e, ctx5) \<Rightarrow> Some (Inl e, ctx5)
                        | (Inr _, ctx5) \<Rightarrow> Some (Inr PINGWEAVE_SUCCESS, ctx5)))"

text \<open>A failure of the receiving side is reported as \<^verbatim>\<open>true\<close>, the integer 1.\<close>

definition initialize_contexts ::
    "setup_env \<Rightarrow> setup_env \<Rightarrow> string \<Rightarrow> string \<Rightarrow> rdma_setup \<times> rdma_setup
     \<Rightarrow> ((exn + int) \<times> rdma_setup \<times> rdma_setup) option" where
  "initialize_contexts env_tx env_rx ipv4 protocol ctxs =
     (case make_ctx env_tx ipv4 protocol False (fst ctxs) of
        None \<Rightarrow> None
      | Some (Inl e, ctx_tx) \<Rightarrow> Some (Inl e, ctx_tx, snd ctxs)
      | Some (Inr rc, ctx_tx) \<Rightarrow>
          if IS_FAILURE rc then Some (Inr PINGWEAVE_FAILURE, ctx_tx, snd ctxs)
          else
            (case make_ctx env_rx ipv4 protocol True (snd ctxs) of
               None \<Rightarrow> None
             | Some (Inl e, ctx_rx) \<Rightarrow> Some (Inl e, ctx_tx, ctx_rx)
             | Some (Inr rc, ctx_rx) \<Rightarrow>
                 if IS_FAILURE rc then Some (Inr 1, ctx_tx, ctx_rx)
                 else Some (Inr PINGWEAVE_SUCCESS, ctx_tx, ctx_rx)))"

text \<open>
  The announcement: its content if the file is written.  The parameters are the results of \<^verbatim>\<open>stat\<close> and \<^verbatim>\<open>mkdir\<close>, and
  whether the file opens and takes the lines; \<open>None\<close> is the use of a queue pair that does not exist.
\<close>

definition device_lines :: "string \<Rightarrow> rdma_setup \<Rightarrow> string" where
  "device_lines now ctx =
     su_wired_gid ctx @ [CHR 0x0A] @ show_nat (unat (pa_lid (su_portinfo ctx))) @ [CHR 0x0A] @
     show_nat (unat (su_qp_num ctx)) @ [CHR 0x0A] @ now"

definition save_device_info :: "int \<Rightarrow> int \<Rightarrow> bool \<Rightarrow> bool \<Rightarrow> string \<Rightarrow> rdma_setup \<Rightarrow> (int \<times> string option) option" where
  "save_device_info stat_rc mkdir_rc opens written now ctx =
     (if stat_rc = -1 \<and> mkdir_rc \<noteq> 0 then Some (PINGWEAVE_FAILURE, None)
      else if \<not> opens then Some (PINGWEAVE_FAILURE, None)
      else if Qp \<notin> su_held ctx then None
      else if \<not> written then Some (PINGWEAVE_FAILURE, None)
      else Some (PINGWEAVE_SUCCESS, Some (device_lines now ctx)))"

section \<open>The context as the data path sees it\<close>

definition ctx_of :: "rdma_setup \<Rightarrow> rdma_context" where
  "ctx_of c = \<lparr>rc_buf = map b_data (su_buf c), rc_gid_index = su_gid_index c, rc_active_port = su_active_port c,
     rc_rnic_hw_ts = su_rnic_hw_ts c, rc_send_inline = su_send_inline c, rc_traffic_class = su_traffic_class c,
     rc_ah_map = Map.empty, rc_sq = [], rc_rq = []\<rparr>"

section \<open>The choice of the GID\<close>

text \<open>The greatest index below a bound with a property, or -1.\<close>

definition greatest :: "(nat \<Rightarrow> bool) \<Rightarrow> nat \<Rightarrow> int" where
  "greatest P n = (if \<exists>i < n. P i then int (Max {i. i < n \<and> P i}) else - 1)"

lemma greatest_0 [simp]: "greatest P 0 = - 1" by (simp add: greatest_def)

lemma greatest_Suc: "greatest P (Suc n) = (if P n then int n else greatest P n)"
proof (cases "P n")
  case True
  then have "Max {i. i < Suc n \<and> P i} = n" by (intro Max_eqI) auto
  then show ?thesis using True by (auto simp: greatest_def)
next
  case False
  then have "{i. i < Suc n \<and> P i} = {i. i < n \<and> P i}" "(\<exists>i < Suc n. P i) = (\<exists>i < n. P i)"
    using less_Suc_eq by auto
  then show ?thesis using False by (simp add: greatest_def)
qed

definition preferred_text :: "string option \<Rightarrow> bool" where
  "preferred_text t \<longleftrightarrow> (\<exists>x. t = Some (''::ffff:'' @ x))"

definition valid_text :: "string option \<Rightarrow> bool" where
  "valid_text t \<longleftrightarrow> t \<notin> {None, Some '''', Some ''::'', Some ''fe80::''}"

lemma preferred_take: "preferred_text (Some t) \<longleftrightarrow> take 7 t = ''::ffff:''"
proof
  assume "take 7 t = ''::ffff:''"
  then have "t = ''::ffff:'' @ drop 7 t" by (metis append_take_drop_id)
  then show "preferred_text (Some t)" by (auto simp: preferred_text_def)
qed (auto simp: preferred_text_def)

lemma gid_scan_eq:
  "gid_scan txts n (g, p) =
     (if g \<noteq> - 1 then g else greatest (\<lambda>i. valid_text (txts i)) n,
      if p \<noteq> - 1 then p else greatest (\<lambda>i. preferred_text (txts i)) n)"
proof (induction n arbitrary: g p)
  case (Suc n)
  show ?case
  proof (cases "txts n")
    case None
    then show ?thesis by (simp add: Suc greatest_Suc valid_text_def preferred_text_def)
  next
    case (Some t)
    have "\<not> preferred_text (Some '''')" "\<not> preferred_text (Some ''::'')" by (simp_all add: preferred_take)
    then show ?thesis
      by (cases "t = ''fe80::''") (auto simp: Some Suc greatest_Suc valid_text_def preferred_take)
  qed
qed simp

text \<open>
  C29: the GID the context uses.  If the port's attributes can be read, \<^verbatim>\<open>get_gid_table_index\<close> computes in one pass over the
  table from its end what the following selection says: the greatest index whose GID is an IPv4 address, else the
  greatest one whose GID is none of the empty forms, else -1.
\<close>

theorem gid_choice:
  assumes "se_gid_port env = Some a"
  shows "get_gid_table_index env ctx =
    (let texts = gid_text env (su_active_port ctx); n = nat (pa_gid_tbl_len a) in
     if \<exists>i < n. preferred_text (texts i) then int (Max {i. i < n \<and> preferred_text (texts i)})
     else if \<exists>i < n. valid_text (texts i) then int (Max {i. i < n \<and> valid_text (texts i)})
     else - 1)"
proof -
  let ?t = "gid_text env (su_active_port ctx)" and ?n = "nat (pa_gid_tbl_len a)"
  have "get_gid_table_index env ctx =
      (if greatest (\<lambda>i. preferred_text (?t i)) ?n \<noteq> - 1 then greatest (\<lambda>i. preferred_text (?t i)) ?n
       else greatest (\<lambda>i. valid_text (?t i)) ?n)"
    by (cases "pa_gid_tbl_len a \<le> 0") (simp_all add: get_gid_table_index_def assms gid_scan_eq)
  moreover have "greatest P n \<noteq> - 1 \<longleftrightarrow> (\<exists>i < n. P i)" for P n by (simp add: greatest_def)
  ultimately have "get_gid_table_index env ctx =
      (if \<exists>i < ?n. preferred_text (?t i) then greatest (\<lambda>i. preferred_text (?t i)) ?n else greatest (\<lambda>i. valid_text (?t i)) ?n)"
    by simp
  then show ?thesis
    unfolding Let_def by (cases "\<exists>i < ?n. preferred_text (?t i)") (simp_all only: greatest_def if_True if_False simp_thms)
qed

section \<open>What a context holds after its initialisation\<close>

definition buffer_ok :: "setup_env \<Rightarrow> nat \<Rightarrow> bool" where
  "buffer_ok env i \<longleftrightarrow> se_memalign env i \<and> se_reg_mr env i"

definition held_buffers :: "nat \<Rightarrow> resource set" where
  "held_buffers n = Memory ` {..<n} \<union> Region ` {..<n}"

definition buffer_made :: "Buffer \<Rightarrow> bool" where
  "buffer_made b \<longleftrightarrow> b_addr b \<and> b_mr b \<and> length (b_data b) = MESSAGE_SIZE + GRH_SIZE"

lemma held_buffers_Suc: "held_buffers (Suc n) = held_buffers n \<union> {Memory n, Region n}"
  by (auto simp: held_buffers_def lessThan_Suc)

text \<open>The loop that allocates: all buffers, or those before the first that fails.\<close>

lemma alloc_buffers_spec:
  assumes "alloc_buffers env i n ctx = (rc, ctx')" and "length (su_buf ctx) = i + n"
    and "su_held ctx = H \<union> held_buffers i" and "\<forall>b \<in> set (take i (su_buf ctx)). buffer_made b"
    and "\<forall>j < i. buffer_ok env j"
  shows "(rc = PINGWEAVE_SUCCESS \<and> su_held ctx' = H \<union> held_buffers (i + n) \<and> (\<forall>b \<in> set (su_buf ctx'). buffer_made b)
      \<or> rc = PINGWEAVE_FAILURE \<and> (\<exists>k < i + n. \<not> buffer_ok env k \<and> (\<forall>j < k. buffer_ok env j) \<and> su_held ctx' = H \<union> held_buffers k))
    \<and> length (su_buf ctx') = length (su_buf ctx) \<and> su_active_port ctx' = su_active_port ctx \<and> su_gid_index ctx' = su_gid_index ctx"
  using assms
proof (induction n arbitrary: i ctx)
  case 0
  then show ?case by auto
next
  case (Suc n)
  obtain rc1 ctx1 where a: "allocate_and_register_buffer env i (MESSAGE_SIZE + GRH_SIZE) ctx = (rc1, ctx1)" by fastforce
  have il: "i < length (su_buf ctx)" using Suc.prems(2) by simp
  show ?case
  proof (cases "buffer_ok env i")
    case True
    let ?b = "(su_buf ctx ! i)\<lparr>b_addr := True, b_data := replicate (MESSAGE_SIZE + GRH_SIZE) 0, b_mr := True\<rparr>"
    have a1: "rc1 = PINGWEAVE_SUCCESS" "ctx1 = ctx\<lparr>su_buf := (su_buf ctx)[i := ?b], su_held := su_held ctx \<union> {Memory i, Region i}\<rparr>"
      using a True by (auto simp: allocate_and_register_buffer_def buffer_ok_def)
    have "alloc_buffers env (Suc i) n ctx1 = (rc, ctx')" using Suc.prems(1) a a1(1) by simp
    moreover have "\<forall>b \<in> set (take (Suc i) (su_buf ctx1)). buffer_made b"
      using Suc.prems(4) il by (simp add: a1(2) take_Suc_conv_app_nth buffer_made_def)
    moreover have "su_held ctx1 = H \<union> held_buffers (Suc i)" using Suc.prems(3) by (auto simp: a1(2) held_buffers_Suc)
    moreover have "\<forall>j < Suc i. buffer_ok env j" using Suc.prems(5) True less_Suc_eq by auto
    ultimately show ?thesis using Suc.IH [of "Suc i" ctx1] Suc.prems(2) by (auto simp: a1(2))
  next
    case False
    then have a1: "rc1 = PINGWEAVE_FAILURE" "su_held ctx1 = su_held ctx" "length (su_buf ctx1) = length (su_buf ctx)"
      "su_active_port ctx1 = su_active_port ctx" "su_gid_index ctx1 = su_gid_index ctx"
      using a by (auto simp: allocate_and_register_buffer_def buffer_ok_def Let_def split: if_splits)
    then have "rc = PINGWEAVE_FAILURE" "ctx' = ctx1" using Suc.prems(1) a by auto
    then show ?thesis using False Suc.prems(3,5) a1 by (auto intro: exI [of _ i])
  qed
qed

text \<open>The values an initialisation keeps or sets, apart from buffers and resources.\<close>

lemma find_port_spec:
  assumes "find_port env port n ctx = (p, ctx')"
  shows "(p = - 1 \<or> port \<le> p \<and> (\<exists>a. se_query_port env p = Some a \<and> pa_active a \<and> su_portinfo ctx' = a))
    \<and> su_held ctx' = su_held ctx \<and> su_buf ctx' = su_buf ctx"
  using assms
proof (induction n arbitrary: port ctx)
  case (Suc n)
  show ?case
  proof (cases "se_query_port env port")
    case None
    then show ?thesis using Suc.IH [of "port + 1" ctx] Suc.prems by auto
  next
    case (Some a)
    then show ?thesis using Suc.IH [of "port + 1" "ctx\<lparr>su_portinfo := a\<rparr>"] Suc.prems by (auto simp: Let_def split: if_splits)
  qed
qed simp

lemma find_active_port_spec:
  assumes "find_active_port env ctx = (p, ctx')"
  shows "(p = - 1 \<or> 1 \<le> p \<and> pa_active (su_portinfo ctx'))" and "su_held ctx' = su_held ctx" and "su_buf ctx' = su_buf ctx"
  using assms find_port_spec [of env 1 _ ctx p ctx'] by (auto simp: find_active_port_def split: option.splits)

lemma reset_ctx_spec [simp]:
  "su_held (reset_ctx env ctx) = su_held ctx" "length (su_buf (reset_ctx env ctx)) = NUM_BUFFER"
  by (auto simp: reset_ctx_def Let_def split: option.split)

lemmas cleans = clean_qp_def clean_cq_def clean_mr_def clean_pd_def clean_comp_channel_def clean_device_def acquire_def

lemma clean_mr_all:
  assumes "\<forall>b \<in> set (su_buf ctx). buffer_made b" and "length (su_buf ctx) = NUM_BUFFER"
    and "su_held ctx \<subseteq> {Device, Channel, Pd} \<union> held_buffers NUM_BUFFER"
  shows "su_held (clean_mr ctx) = {}"
proof -
  have "b_mr (su_buf ctx ! i)" "b_addr (su_buf ctx ! i)" if "i < NUM_BUFFER" for i
    using assms(1,2) that by (auto simp: buffer_made_def)
  then show ?thesis using assms(2,3) by (auto simp: cleans held_buffers_def)
qed

definition all_resources :: "resource set" where
  "all_resources = {Device, Channel, Pd, Cq, Qp} \<union> held_buffers NUM_BUFFER"

lemma init_ctx_spec:
  assumes h: "su_held ctx = {Device}" and r: "init_ctx env ctx = (rc, ctx')"
  shows "rc = PINGWEAVE_SUCCESS \<and> su_held ctx' = all_resources \<and> length (su_buf ctx') = NUM_BUFFER
      \<and> (\<forall>b \<in> set (su_buf ctx'). buffer_made b) \<and> 1 \<le> su_active_port ctx' \<and> 0 \<le> su_gid_index ctx' \<and> su_qp_state ctx' = QPS_INIT
    \<or> rc = PINGWEAVE_FAILURE \<and> su_held ctx' = {}
    \<or> rc = PINGWEAVE_FAILURE \<and> (\<exists>k < NUM_BUFFER. \<not> buffer_ok env k \<and> (\<forall>j < k. buffer_ok env j) \<and> su_held ctx' = held_buffers k)"
proof -
  obtain port ctx1 where f: "find_active_port env (reset_ctx env ctx) = (port, ctx1)" by fastforce
  note F = find_active_port_spec [OF f]
  let ?c2 = "ctx1\<lparr>su_active_port := port\<rparr>"
  let ?g = "get_gid_table_index env ?c2"
  let ?c3 = "?c2\<lparr>su_gid_index := ?g\<rparr>"
  obtain rc4 ctx4 where a: "alloc_buffers env 0 NUM_BUFFER (acquire Pd (acquire Channel ?c3)) = (rc4, ctx4)" by fastforce
  have b: "length (su_buf ?c3) = NUM_BUFFER" and h3: "su_held ?c3 = {Device}" using F h by simp_all
  have A: "(rc4 = PINGWEAVE_SUCCESS \<and> su_held ctx4 = {Device, Channel, Pd} \<union> held_buffers NUM_BUFFER \<and> (\<forall>b \<in> set (su_buf ctx4). buffer_made b)
      \<or> rc4 = PINGWEAVE_FAILURE \<and> (\<exists>k < NUM_BUFFER. \<not> buffer_ok env k \<and> (\<forall>j < k. buffer_ok env j)
          \<and> su_held ctx4 = {Device, Channel, Pd} \<union> held_buffers k))
    \<and> length (su_buf ctx4) = NUM_BUFFER \<and> su_active_port ctx4 = port \<and> su_gid_index ctx4 = ?g"
    using alloc_buffers_spec [OF a, of "{Device, Channel, Pd}"] b h3 by (auto simp: acquire_def held_buffers_def)
  consider "port < 0 \<or> ?g < 0 \<or> \<not> se_channel env \<or> \<not> se_pd env" | "0 \<le> port" "0 \<le> ?g" "se_channel env" "se_pd env" by linarith
  then show ?thesis
  proof cases
    case 1
    then show ?thesis using r h3 by (auto simp: init_ctx_def f Let_def cleans split: if_splits)
  next
    case 2
    have port: "1 \<le> port" using F(1) 2(1) by auto
    have r4: "(if IS_FAILURE rc4 then (PINGWEAVE_FAILURE, clean_pd ctx4) else if \<not> se_cq env then (PINGWEAVE_FAILURE, clean_mr ctx4)
        else init_qp env (acquire Cq ctx4)) = (rc, ctx')"
      using r 2 a b by (simp add: init_ctx_def f Let_def)
    show ?thesis
    proof (cases "rc4 = PINGWEAVE_SUCCESS")
      case False
      then obtain k where "k < NUM_BUFFER" "\<not> buffer_ok env k" "\<forall>j < k. buffer_ok env j" "su_held ctx4 = {Device, Channel, Pd} \<union> held_buffers k"
        "rc4 = PINGWEAVE_FAILURE" using A by auto
      moreover from this have "su_held (clean_pd ctx4) = held_buffers k" by (auto simp: cleans held_buffers_def)
      ultimately show ?thesis using r4 by auto
    next
      case True
      then have A4: "su_held ctx4 = {Device, Channel, Pd} \<union> held_buffers NUM_BUFFER" "\<forall>b \<in> set (su_buf ctx4). buffer_made b" using A by auto
      have mr: "su_held (clean_mr (ctx4\<lparr>su_held := H\<rparr>)) = {}" if "H \<subseteq> {Device, Channel, Pd} \<union> held_buffers NUM_BUFFER" for H
        by (rule clean_mr_all) (use A A4 that in simp_all)
      have m0: "su_held (clean_mr ctx4) = {}" by (rule clean_mr_all) (use A A4 in simp_all)
      show ?thesis
      proof (cases "se_cq env \<and> (\<exists>n. se_qp env = Some n) \<and> se_modify_init env = 0")
        case True
        then obtain n where "se_qp env = Some n" by blast
        then show ?thesis using True r4 A A4 \<open>rc4 = PINGWEAVE_SUCCESS\<close> port 2(2)
          by (auto simp: init_qp_def Let_def acquire_def all_resources_def)
      next
        case False
        have q: "su_held (clean_cq (acquire Cq ctx4)) = {}" "su_held (clean_qp ((acquire Qp (acquire Cq ctx4))\<lparr>su_qp_num := n,
            su_qp_state := QPS_RESET, su_send_inline := i\<rparr>)) = {}" for n i
          using mr [of "su_held ctx4"] A4 A by (auto simp: cleans held_buffers_def buffer_made_def)
        have "rc = PINGWEAVE_FAILURE \<and> su_held ctx' = {}"
          using False r4 m0 q \<open>rc4 = PINGWEAVE_SUCCESS\<close> by (auto simp: init_qp_def Let_def acquire_def split: if_splits option.splits)
        then show ?thesis by blast
      qed
    qed
  qed
qed


section \<open>A context that is ready\<close>

lemma find_interface_held:
  "find_interface env ifs ctx = Some (r, ctx') \<Longrightarrow> su_held ctx = {} \<Longrightarrow> su_context ctx = None
    \<Longrightarrow> (if su_context ctx' = None then su_held ctx' = {} else su_held ctx' = {Device}) \<and> su_protocol ctx' = su_protocol ctx"
proof (induction env ifs ctx arbitrary: r ctx' rule: find_interface.induct)
  case (5 env name host ifs ctx)
  then show ?case by (auto simp: Let_def get_context_by_ifname_def split: if_splits option.splits list.splits)
qed auto

lemma get_context_by_ip_held:
  assumes "get_context_by_ip env ctx = Some (rc, ctx')" and "su_held ctx = {}" and "su_context ctx = None"
  shows "IS_SUCCESS rc \<Longrightarrow> su_held ctx' = {Device} \<and> su_context ctx' \<noteq> None" and "rc \<in> {PINGWEAVE_SUCCESS, PINGWEAVE_FAILURE}"
proof -
  have "rc \<in> {PINGWEAVE_SUCCESS, PINGWEAVE_FAILURE} \<and> (IS_SUCCESS rc \<longrightarrow> su_held ctx' = {Device} \<and> su_context ctx' \<noteq> None)"
  proof (cases "se_ifaddrs env")
    case None
    then show ?thesis using assms(1) by (simp add: get_context_by_ip_def)
  next
    case (Some ifs)
    then obtain r ctx1 where f: "find_interface env ifs ctx = Some (r, ctx1)"
      using assms(1) by (auto simp: get_context_by_ip_def split: option.splits)
    have r: "r \<in> {None, Some PINGWEAVE_FAILURE}" using f
      by (induction env ifs ctx rule: find_interface.induct) (auto simp: Let_def split: if_splits option.splits)
    have e: "(rc, ctx') = (case r of Some c \<Rightarrow> (c, ctx1)
        | None \<Rightarrow> if su_context ctx1 = None then (PINGWEAVE_FAILURE, ctx1) else (PINGWEAVE_SUCCESS, ctx1))"
      using assms(1) by (cases r) (simp_all add: get_context_by_ip_def Some f split: if_splits)
    show ?thesis
    proof (cases r)
      case None
      then show ?thesis using e find_interface_held [OF f assms(2,3)] by (cases "su_context ctx1 = None") simp_all
    next
      case (Some c)
      then show ?thesis using e r by simp
    qed
  qed
  then show "IS_SUCCESS rc \<Longrightarrow> su_held ctx' = {Device} \<and> su_context ctx' \<noteq> None" and "rc \<in> {PINGWEAVE_SUCCESS, PINGWEAVE_FAILURE}" by auto
qed

lemma get_traffic_class_keeps:
  assumes "get_traffic_class env ctx = (Inr rc, ctx')"
  shows "(\<exists>v. ctx' = ctx\<lparr>su_traffic_class := v\<rparr>) \<and> su_protocol ctx \<in> {''ib'', ''roce''}"
  using assms by (auto simp: get_traffic_class_def Let_def split: if_splits prod.splits)

lemma make_ctx_spec:
  assumes "su_held ctx = {}" and "su_context ctx = None"
    and "make_ctx env ipv4 protocol is_rx ctx = Some (Inr rc, ctx')" and "IS_SUCCESS rc"
  shows "su_held ctx' = all_resources \<and> ctx_inv (ctx_of ctx') \<and> su_qp_state ctx' = QPS_RTS
    \<and> 1 \<le> su_active_port ctx' \<and> 0 \<le> su_gid_index ctx'
    \<and> se_own_gid env = Some (su_gid ctx') \<and> su_wired_gid ctx' = gid_to_wire_gid (su_gid ctx') \<and> length (su_wired_gid ctx') = 32
    \<and> su_protocol ctx' \<in> {''ib'', ''roce''}"
proof -
  let ?c0 = "ctx\<lparr>su_ipv4 := ipv4, su_is_rx := is_rx, su_protocol := protocol\<rparr>"
  obtain rc1 ctx1 where g: "get_context_by_ip env ?c0 = Some (rc1, ctx1)" using assms(3) by (auto simp: make_ctx_def split: option.splits)
  obtain rc2 ctx2 where i: "init_ctx env ctx1 = (rc2, ctx2)" by fastforce
  have s1: "\<not> IS_FAILURE rc1" "\<not> IS_FAILURE rc2" using assms(3,4) by (auto simp: make_ctx_def g i split: if_splits)
  have "rc1 \<in> {PINGWEAVE_SUCCESS, PINGWEAVE_FAILURE}" using get_context_by_ip_held(2) [OF g] assms(1,2) by simp
  then have h: "su_held ctx1 = {Device}" using get_context_by_ip_held(1) [OF g] assms(1,2) s1(1) by auto
  have I: "su_held ctx2 = all_resources" "length (su_buf ctx2) = NUM_BUFFER" "\<forall>b \<in> set (su_buf ctx2). buffer_made b"
    "1 \<le> su_active_port ctx2" "0 \<le> su_gid_index ctx2" using init_ctx_spec [OF h i] s1(2) by auto
  obtain gd where gd: "se_own_gid env = Some gd" and m: "se_modify_rtr env = 0" "se_modify_rts env = 0"
    using assms(3,4) s1 by (auto simp: make_ctx_def g i prepare_ctx_def split: if_splits option.splits)
  let ?c4 = "ctx2\<lparr>su_qp_state := QPS_RTS, su_gid := gd, su_wired_gid := gid_to_wire_gid gd, su_parsed_gid := parsed_gid (su_parsed_gid ctx2) gd\<rparr>"
  obtain t where t: "get_traffic_class env ?c4 = (Inr t, ctx')"
    using assms(3) s1 by (auto simp: make_ctx_def g i prepare_ctx_def gd m split: sum.splits prod.splits)
  note T = get_traffic_class_keeps [OF t]
  then obtain tc where c: "ctx' = ?c4\<lparr>su_traffic_class := tc\<rparr>" by blast
  have "ctx_inv (ctx_of ctx')" using I(2,3) by (simp add: c ctx_inv_def ctx_of_def buffer_made_def)
  moreover have "su_protocol ctx' \<in> {''ib'', ''roce''}" using T by (simp add: c)
  ultimately show ?thesis using I gd length_gid_to_wire_gid by (simp add: c)
qed


text \<open>
  A failure on the receiving side is reported as a success.  When the sending context is made and the receiving one is
  not, the function returns \<^verbatim>\<open>true\<close>, which the callers compare with the code of a failure, 0, and take for a success.
\<close>

theorem rx_failure_taken_for_success:
  assumes "make_ctx env_tx ipv4 protocol False ctx_tx = Some (Inr PINGWEAVE_SUCCESS, tx')"
    and "make_ctx env_rx ipv4 protocol True ctx_rx = Some (Inr PINGWEAVE_FAILURE, rx')"
  shows "\<exists>rc. initialize_contexts env_tx env_rx ipv4 protocol (ctx_tx, ctx_rx) = Some (Inr rc, tx', rx') \<and> IS_SUCCESS rc \<and> \<not> IS_FAILURE rc"
  using assms by (simp add: initialize_contexts_def IS_SUCCESS_def IS_FAILURE_def PINGWEAVE_SUCCESS_def PINGWEAVE_FAILURE_def)

section \<open>A machine on which the set-up succeeds\<close>

lemma alloc_buffers_succeeds:
  "\<forall>j. i \<le> j \<and> j < i + n \<longrightarrow> buffer_ok env j \<Longrightarrow> fst (alloc_buffers env i n ctx) = PINGWEAVE_SUCCESS"
proof (induction n arbitrary: i ctx)
  case (Suc n)
  have "fst (allocate_and_register_buffer env i (MESSAGE_SIZE + GRH_SIZE) ctx) = PINGWEAVE_SUCCESS"
    using Suc.prems by (simp add: allocate_and_register_buffer_def buffer_ok_def)
  then show ?case using Suc by (simp add: case_prod_beta)
qed simp

lemma init_ctx_succeeds:
  assumes "find_active_port env (reset_ctx env ctx) = (port, ctx1)" and "0 \<le> port"
    and "0 \<le> get_gid_table_index env (ctx1\<lparr>su_active_port := port\<rparr>)"
    and "se_channel env" and "se_pd env" and "\<forall>i. buffer_ok env i" and "se_cq env" and "se_qp env = Some n" and "se_modify_init env = 0"
  shows "fst (init_ctx env ctx) = PINGWEAVE_SUCCESS"
  using assms alloc_buffers_succeeds [of 0 _ env]
  by (simp add: init_ctx_def Let_def case_prod_beta init_qp_def)

definition sample_gid :: "nat \<Rightarrow> gid" where
  "sample_gid i = (if i = 2 then [0, 0, 0, 0, 0, 0, 0, 0, 0, 0, 255, 255, 10, 0, 0, 1]
     else [254, 128, 0, 0, 0, 0, 0, 0, 0, 0, 0, 0, 0, 0, 0, if i = 0 then 0 else 3])"

definition sample_setup :: setup_env where
  "sample_setup = \<lparr>se_ifaddrs = Some [(''lo'', Other_family), (''eth0'', Inet (Some ''10.0.0.1''))],
     se_infiniband = (\<lambda>_. Some [''.'', ''..'', ''mlx5_0'']), se_devices = Some [''mlx5_0''], se_open = (\<lambda>_. True),
     se_query_device_ex = Some 4095, se_query_device = Some 1,
     se_query_port = (\<lambda>_. Some \<lparr>pa_active = True, pa_lid = 7, pa_gid_tbl_len = 4\<rparr>),
     se_gid_port = Some \<lparr>pa_active = True, pa_lid = 7, pa_gid_tbl_len = 4\<rparr>,
     se_query_gid = (\<lambda>_ i. Some (sample_gid (nat i))), se_channel = True, se_pd = True,
     se_memalign = (\<lambda>_. True), se_reg_mr = (\<lambda>_. True), se_cq = True, se_qp = Some 10, se_max_inline = 0,
     se_modify_init = 0, se_modify_rtr = 0, se_modify_rts = 0, se_own_gid = Some (sample_gid 2), se_ini = None, se_uninit = []\<rparr>"

definition fresh_setup :: rdma_setup where
  "fresh_setup = \<lparr>su_context = None, su_qp_num = 0, su_qp_state = QPS_RESET, su_buf = [], su_gid_index = 0, su_ipv4 = [], su_iface = [],
     su_portinfo = \<lparr>pa_active = False, pa_lid = 0, pa_gid_tbl_len = 0\<rparr>, su_rnic_hw_ts = False, su_send_inline = False,
     su_active_port = 0, su_is_rx = False, su_completion_timestamp_mask = 0, su_gid = replicate 16 0, su_wired_gid = [],
     su_parsed_gid = [], su_protocol = [], su_traffic_class = 0, su_held = {}\<rparr>"

lemma sample_ntop:
  "inet_ntop6 [0, 0, 0, 0, 0, 0, 0, 0, 0, 0, 255, 255, 10, 0, 0, 1] = ''::ffff:10.0.0.1''"
  "inet_ntop6 [254, 128, 0, 0, 0, 0, 0, 0, 0, 0, 0, 0, 0, 0, 0, 3] = ''fe80::3''"
  "inet_ntop6 [254, 128, 0, 0, 0, 0, 0, 0, 0, 0, 0, 0, 0, 0, 0, 0] = ''fe80::''"
  by (simp add: inet_ntop6_def groups16_def upt_rec Let_def better_run_def show_base.simps inet_ntop4_def show_nat_def
      digit_char_def; code_simp)+

lemma sample_text:
  "gid_text sample_setup 1 i = Some (if i = 2 then ''::ffff:10.0.0.1'' else if i = 0 then ''fe80::'' else ''fe80::3'')"
  by (simp add: gid_text_def sample_setup_def sample_gid_def parsed_gid_def sample_ntop)

theorem gid_choice_witness: "get_gid_table_index sample_setup (fresh_setup\<lparr>su_active_port := 1\<rparr>) = 2"
proof -
  let ?t = "gid_text sample_setup 1"
  have p: "preferred_text (?t i) \<longleftrightarrow> i = 2" for i
    by (simp add: sample_text preferred_take)
  have s: "{i. i < 4 \<and> preferred_text (?t i)} = {2}" using p by auto
  have e: "\<exists>i < 4. preferred_text (?t i)" using p [of 2] by (intro exI [of _ 2]) simp
  have g: "se_gid_port sample_setup = Some \<lparr>pa_active = True, pa_lid = 7, pa_gid_tbl_len = 4\<rparr>" by (simp add: sample_setup_def)
  have n: "nat 4 = 4" and a: "su_active_port (fresh_setup\<lparr>su_active_port := 1\<rparr>) = 1" by simp_all
  show ?thesis
    unfolding gid_choice [OF g, of "fresh_setup\<lparr>su_active_port := 1\<rparr>"] a port_attr.select_convs n Let_def s if_P [OF e] by simp
qed

lemma sample_gid_index: "su_active_port c = 1 \<Longrightarrow> get_gid_table_index sample_setup c = 2"
proof -
  assume "su_active_port c = 1"
  moreover have "gid_scan (gid_text sample_setup 1) 4 (- 1, - 1) = (3, 2)"
    by (simp add: sample_text eval_nat_numeral)
  ultimately show ?thesis by (simp add: get_gid_table_index_def) (simp add: sample_setup_def)
qed

lemma sample_init:
  assumes "su_held c = {Device}"
  shows "\<exists>c'. init_ctx sample_setup c = (PINGWEAVE_SUCCESS, c')"
proof -
  have f: "find_active_port sample_setup (reset_ctx sample_setup c)
      = (1, (reset_ctx sample_setup c)\<lparr>su_portinfo := \<lparr>pa_active = True, pa_lid = 7, pa_gid_tbl_len = 4\<rparr>\<rparr>)"
    by (simp add: find_active_port_def sample_setup_def)
  have "fst (init_ctx sample_setup c) = PINGWEAVE_SUCCESS"
    by (rule init_ctx_succeeds [OF f, of 10]) (simp_all add: sample_gid_index, simp_all add: sample_setup_def buffer_ok_def)
  then show ?thesis by (metis prod.collapse)
qed


lemma find_port_keeps:
  "su_protocol (snd (find_port env port n c)) = su_protocol c \<and> su_rnic_hw_ts (snd (find_port env port n c)) = su_rnic_hw_ts c"
  by (induction n arbitrary: port c) (auto simp: Let_def split: option.split)

lemma alloc_buffers_keeps:
  "su_protocol (snd (alloc_buffers env i n c)) = su_protocol c \<and> su_rnic_hw_ts (snd (alloc_buffers env i n c)) = su_rnic_hw_ts c"
  by (induction n arbitrary: i c) (auto simp: allocate_and_register_buffer_def Let_def)

lemma init_ctx_keeps:
  "su_protocol (snd (init_ctx env c)) = su_protocol c"
  "su_rnic_hw_ts (snd (init_ctx env c)) = su_rnic_hw_ts (reset_ctx env c)"
proof -
  obtain port c1 where f: "find_active_port env (reset_ctx env c) = (port, c1)" by fastforce
  have "su_protocol c1 = su_protocol (reset_ctx env c) \<and> su_rnic_hw_ts c1 = su_rnic_hw_ts (reset_ctx env c)"
    using f find_port_keeps [of env 1 _ "reset_ctx env c"]
    by (auto simp: find_active_port_def split: option.splits) (metis snd_conv)+
  then have p: "su_protocol c1 = su_protocol c" "su_rnic_hw_ts c1 = su_rnic_hw_ts (reset_ctx env c)"
    by (simp_all add: reset_ctx_def Let_def split: option.splits)
  let ?c3 = "c1\<lparr>su_active_port := port, su_gid_index := get_gid_table_index env (c1\<lparr>su_active_port := port\<rparr>)\<rparr>"
  obtain rc c4 where a: "alloc_buffers env 0 (length (su_buf c1)) (acquire Pd (acquire Channel ?c3)) = (rc, c4)" by fastforce
  have "su_protocol c4 = su_protocol (acquire Pd (acquire Channel ?c3)) \<and> su_rnic_hw_ts c4 = su_rnic_hw_ts (acquire Pd (acquire Channel ?c3))"
    using alloc_buffers_keeps [of env 0 "length (su_buf c1)" "acquire Pd (acquire Channel ?c3)"] unfolding a by simp
  then have "su_protocol c4 = su_protocol c" "su_rnic_hw_ts c4 = su_rnic_hw_ts (reset_ctx env c)" using p by (simp_all add: acquire_def)
  then show "su_protocol (snd (init_ctx env c)) = su_protocol c"
    "su_rnic_hw_ts (snd (init_ctx env c)) = su_rnic_hw_ts (reset_ctx env c)"
    using p a by (simp_all add: init_ctx_def f Let_def init_qp_def cleans split: option.split)
qed

lemma sample_make: "\<exists>c'. make_ctx sample_setup ''10.0.0.1'' ''roce'' rx fresh_setup = Some (Inr PINGWEAVE_SUCCESS, c') \<and> su_rnic_hw_ts c'"
proof -
  let ?c0 = "fresh_setup\<lparr>su_ipv4 := ''10.0.0.1'', su_is_rx := rx, su_protocol := ''roce''\<rparr>"
  let ?c1 = "?c0\<lparr>su_iface := ''eth0'', su_context := Some ''mlx5_0'', su_held := {Device}\<rparr>"
  have g: "get_context_by_ip sample_setup ?c0 = Some (PINGWEAVE_SUCCESS, ?c1)"
    by (simp add: get_context_by_ip_def sample_setup_def get_context_by_ifname_def fresh_setup_def)
  obtain c2 where i: "init_ctx sample_setup ?c1 = (PINGWEAVE_SUCCESS, c2)" using sample_init [of ?c1] by auto
  have m: "se_modify_rtr sample_setup = 0" "se_modify_rts sample_setup = 0" "se_own_gid sample_setup = Some (sample_gid 2)"
    "se_ini sample_setup = None" by (simp_all add: sample_setup_def)
  have p: "su_protocol c2 = ''roce''" using init_ctx_keeps(1) [of sample_setup ?c1] i by simp
  have "su_rnic_hw_ts c2" using init_ctx_keeps(2) [of sample_setup ?c1] i by (simp add: reset_ctx_def sample_setup_def)
  then show ?thesis
    by (simp add: make_ctx_def g i prepare_ctx_def m get_traffic_class_def p Let_def split: prod.split)
qed


theorem rx_failure_taken_for_success_witness:
  "\<exists>rc tx' rx'. initialize_contexts sample_setup (sample_setup\<lparr>se_ifaddrs := None\<rparr>) ''10.0.0.1'' ''roce'' (fresh_setup, fresh_setup)
     = Some (Inr rc, tx', rx') \<and> IS_SUCCESS rc \<and> su_context rx' = None"
proof -
  let ?rx = "fresh_setup\<lparr>su_ipv4 := ''10.0.0.1'', su_is_rx := True, su_protocol := ''roce''\<rparr>"
  obtain tx' where t: "make_ctx sample_setup ''10.0.0.1'' ''roce'' False fresh_setup = Some (Inr PINGWEAVE_SUCCESS, tx')"
    using sample_make by blast
  have r: "make_ctx (sample_setup\<lparr>se_ifaddrs := None\<rparr>) ''10.0.0.1'' ''roce'' True fresh_setup = Some (Inr PINGWEAVE_FAILURE, ?rx)"
    by (simp add: make_ctx_def get_context_by_ip_def)
  have "su_context ?rx = None" by (simp add: fresh_setup_def)
  with rx_failure_taken_for_success [OF t r] show ?thesis by blast
qed

end
