(* ===== verification/Pw_Http.thy ===== *)
theory Pw_Http
  imports Pw_Ini Pw_Address
begin

text \<open>
  Messages to the controller over HTTP, \<^verbatim>\<open>send_message_to_http_server\<close> and \<^verbatim>\<open>message_to_http_server\<close> of
  \<^verbatim>\<open>src/src/common.cpp\<close>.  The results of the socket calls are parameters; the outcome is the return code, what the kernel
  took for which peer, and the sockets that were not closed.
\<close>

section \<open>The sender\<close>

record http_os =
  ho_socket :: int
  ho_timeo :: int
  ho_connect :: int
  ho_sent :: int

definition crlf :: string where "crlf = [CHR 0x0D, CHR 0x0A]"

definition http_request :: "string \<Rightarrow> int \<Rightarrow> string \<Rightarrow> string \<Rightarrow> string" where
  "http_request server_ip server_port message req_api =
     ''POST '' @ req_api @ '' HTTP/1.1'' @ crlf @
     ''Host: '' @ server_ip @ '':'' @ show_int server_port @ crlf @
     ''Content-Type: text/plain'' @ crlf @
     ''Content-Length: '' @ show_nat (length message) @ crlf @ crlf @ message"

type_synonym http_outcome = "int \<times> ((bytes \<times> u16) \<times> string) option \<times> int list"

definition send_message_to_http_server :: "http_os \<Rightarrow> string \<Rightarrow> int \<Rightarrow> string \<Rightarrow> string \<Rightarrow> http_outcome" where
  "send_message_to_http_server os server_ip server_port message req_api =
     (let sock = ho_socket os in
      if sock < 0 then (PINGWEAVE_FAILURE, None, [])
      else
        let open_sockets = [sock]; closed = remove1 sock open_sockets in
        if ho_timeo os < 0 then (PINGWEAVE_FAILURE, None, closed)
        else
          (case inet_pton4 (c_str server_ip) of
             None \<Rightarrow> (PINGWEAVE_FAILURE, None, closed)
           | Some adr \<Rightarrow>
               if ho_connect os < 0 then (PINGWEAVE_FAILURE, None, closed)
               else
                 let request = http_request server_ip server_port message req_api;
                     bytes_sent = ho_sent os
                 in if bytes_sent < 0 then (PINGWEAVE_FAILURE, None, closed)
                    else (PINGWEAVE_SUCCESS, Some ((adr, of_int server_port), take (nat bytes_sent) request), closed)))"

definition message_to_http_server :: "string option \<Rightarrow> http_os \<Rightarrow> string \<times> int \<Rightarrow> string \<Rightarrow> string \<Rightarrow> http_outcome" where
  "message_to_http_server ini os uninit message req_api =
     (if message = [] then (PINGWEAVE_FAILURE, None, [])
      else
        let (r, controller_host, controller_port) = get_controller_info_from_ini ini (fst uninit) (snd uninit) in
        if IS_FAILURE r then (PINGWEAVE_FAILURE, None, [])
        else
          let (rc, sent, open_sockets) = send_message_to_http_server os controller_host controller_port message req_api
          in if IS_FAILURE rc then (PINGWEAVE_FAILURE, sent, open_sockets)
             else (PINGWEAVE_SUCCESS, sent, open_sockets))"

section \<open>A reader of requests\<close>

text \<open>A line up to the first CR LF; the header lines up to the empty one; a body of the announced length.\<close>

fun read_line :: "string \<Rightarrow> (string \<times> string) option" where
  "read_line (a # b # s) =
     (if a = CHR 0x0D \<and> b = CHR 0x0A then Some ([], s) else map_option (\<lambda>(l, r). (a # l, r)) (read_line (b # s)))"
| "read_line _ = None"

lemma read_line_length: "read_line s = Some (l, r) \<Longrightarrow> length r < length s"
  by (induction s arbitrary: l rule: read_line.induct) (fastforce split: if_splits)+

function read_headers :: "string \<Rightarrow> (string list \<times> string) option" where
  "read_headers s =
     (case read_line s of
        None \<Rightarrow> None
      | Some (l, r) \<Rightarrow>
          if l = [] then Some ([], r) else map_option (\<lambda>(hs, b). (l # hs, b)) (read_headers r))"
  by pat_completeness auto
termination by (relation "measure length") (auto dest: read_line_length)

declare read_headers.simps [simp del]

definition read_request :: "string \<Rightarrow> (string \<times> string list \<times> string) option" where
  "read_request s =
     (case read_line s of
        None \<Rightarrow> None
      | Some (request, r) \<Rightarrow>
          (case read_headers r of
             None \<Rightarrow> None
           | Some (hs, body) \<Rightarrow>
               (case find (\<lambda>h. take 16 h = ''Content-Length: '') hs of
                  None \<Rightarrow> None
                | Some h \<Rightarrow>
                    let n = read_base 10 (drop 16 h)
                    in if length body < n then None else Some (request, hs, take n body))))"

lemma read_line_crlf: "CHR 0x0D \<notin> set l \<Longrightarrow> read_line (l @ crlf @ s) = Some (l, s)"
proof (induction l)
  case (Cons a l)
  then obtain b t where bt: "l @ crlf @ s = b # t" by (cases l) (auto simp: crlf_def)
  show ?case using Cons bt by auto
qed (simp add: crlf_def)

lemma read_headers_line:
  "CHR 0x0D \<notin> set l \<Longrightarrow> l \<noteq> [] \<Longrightarrow> read_headers (l @ crlf @ s) = map_option (\<lambda>(hs, b). (l # hs, b)) (read_headers s)"
  by (subst read_headers.simps) (simp add: read_line_crlf)

lemma read_headers_end: "read_headers (crlf @ s) = Some ([], s)"
  using read_line_crlf [of "[]" s] by (subst read_headers.simps) simp

lemma show_plain: "CHR 0x0D \<notin> set (show_nat n)" "CHR 0x0D \<notin> set (show_int i)"
  using show_nat_no_sep [of "CHR 0x0D"] by (auto simp: show_int_def is_digit_def digit_val_def)

lemma read_http_request:
  assumes "CHR 0x0D \<notin> set req_api" and "CHR 0x0D \<notin> set server_ip"
  shows "read_request (http_request server_ip server_port message req_api) =
    Some (''POST '' @ req_api @ '' HTTP/1.1'',
      [''Host: '' @ server_ip @ '':'' @ show_int server_port, ''Content-Type: text/plain'', ''Content-Length: '' @ show_nat (length message)],
      message)"
proof -
  let ?l1 = "''POST '' @ req_api @ '' HTTP/1.1''" and ?l2 = "''Host: '' @ server_ip @ '':'' @ show_int server_port"
    and ?l3 = "''Content-Type: text/plain''" and ?l4 = "''Content-Length: '' @ show_nat (length message)"
  have r: "http_request server_ip server_port message req_api = ?l1 @ crlf @ ?l2 @ crlf @ ?l3 @ crlf @ ?l4 @ crlf @ crlf @ message"
    by (simp add: http_request_def)
  have p: "CHR 0x0D \<notin> set ?l1" "CHR 0x0D \<notin> set ?l2" "CHR 0x0D \<notin> set ?l3" "CHR 0x0D \<notin> set ?l4"
    using assms show_plain by auto
  have h: "read_headers (?l2 @ crlf @ ?l3 @ crlf @ ?l4 @ crlf @ crlf @ message) = Some ([?l2, ?l3, ?l4], message)"
    using read_headers_line [OF p(2)] read_headers_line [OF p(3)] read_headers_line [OF p(4)] by (simp add: read_headers_end)
  have n: "read_base 10 (show_nat (length message)) = length message" by (simp add: show_nat_def)
  show ?thesis unfolding r read_request_def read_line_crlf [OF p(1)] option.case prod.case h by (simp add: n)
qed

section \<open>What reaches the controller\<close>

text \<open>
  C33: messages to the controller arrive whole.  When the socket calls succeed and the kernel takes the request whole, a
  reader of HTTP at the configured host and port gets the interface that was asked for and exactly the message, also one
  with empty lines.  On every path, also of an error, no socket stays open, and an empty message is not sent.
\<close>

theorem http_message_delivered:
  assumes "message_to_http_server ini os uninit message req_api = (rc, sent, left)"
    and "get_controller_info_from_ini ini (fst uninit) (snd uninit) = (PINGWEAVE_SUCCESS, host, port)"
    and "CHR 0x0D \<notin> set req_api" and "CHR 0x0D \<notin> set host"
  shows "left = [] \<and> (IS_SUCCESS rc \<longleftrightarrow> message \<noteq> [] \<and> 0 \<le> ho_socket os \<and> 0 \<le> ho_timeo os \<and> inet_pton4 (c_str host) \<noteq> None
        \<and> 0 \<le> ho_connect os \<and> 0 \<le> ho_sent os)
    \<and> (IS_SUCCESS rc \<and> ho_sent os = int (length (http_request host port message req_api)) \<longrightarrow>
        (\<exists>adr bs hs. inet_pton4 (c_str host) = Some adr \<and> sent = Some ((adr, of_int port), bs)
           \<and> read_request bs = Some (''POST '' @ req_api @ '' HTTP/1.1'', hs, message)))"
proof (cases "inet_pton4 (c_str host)")
  case None
  then show ?thesis
    using assms(1,2) by (auto simp: message_to_http_server_def send_message_to_http_server_def Let_def split: if_splits)
next
  case (Some adr)
  then show ?thesis
    using assms(1,2) read_http_request [OF assms(3,4), of port message]
    by (auto simp: message_to_http_server_def send_message_to_http_server_def Let_def split: if_splits)
qed

definition sample_http :: http_os where
  "sample_http = \<lparr>ho_socket = 5, ho_timeo = 0, ho_connect = 0, ho_sent = 94\<rparr>"

definition sample_ini :: string where
  "sample_ini = ''[controller]'' @ [CHR 0x0A] @ ''host = 10.0.0.9'' @ [CHR 0x0A] @ ''collect_port_http = 8080'' @ [CHR 0x0A]"

lemma sample_controller:
  "get_controller_info_from_ini (Some sample_ini) [] 0 = (PINGWEAVE_SUCCESS, ''10.0.0.9'', 8080)"
  "inet_pton4 (c_str ''10.0.0.9'') = Some [10, 0, 0, 9]"
  by code_simp+

theorem http_message_delivered_witness:
  "\<exists>bs hs. message_to_http_server (Some sample_ini) sample_http ([], 0) ''down'' ''/alarm''
       = (PINGWEAVE_SUCCESS, Some (([10, 0, 0, 9], 8080), bs), [])
     \<and> read_request bs = Some (''POST /alarm HTTP/1.1'', hs, ''down'')"
proof -
  obtain rc sent left where m: "message_to_http_server (Some sample_ini) sample_http ([], 0) ''down'' ''/alarm'' = (rc, sent, left)"
    by (cases "message_to_http_server (Some sample_ini) sample_http ([], 0) ''down'' ''/alarm''")
  have c: "get_controller_info_from_ini (Some sample_ini) (fst ([], 0)) (snd ([], 0)) = (PINGWEAVE_SUCCESS, ''10.0.0.9'', 8080)"
    using sample_controller by simp
  have l: "ho_sent sample_http = int (length (http_request ''10.0.0.9'' 8080 ''down'' ''/alarm''))"
    by (simp add: sample_http_def http_request_def crlf_def show_int_def show_nat_def show_base.simps)
  have p: "CHR 0x0D \<notin> set ''/alarm''" "CHR 0x0D \<notin> set ''10.0.0.9''" by simp_all
  have os: "0 \<le> ho_socket sample_http" "0 \<le> ho_timeo sample_http" "0 \<le> ho_connect sample_http" "0 \<le> ho_sent sample_http"
    by (simp_all add: sample_http_def)
  note T = http_message_delivered [OF m c p]
  have "IS_SUCCESS rc" using T os sample_controller(2) by simp
  then show ?thesis using T l m sample_controller(2) by (auto simp: IS_SUCCESS_def)
qed

end
