(* ===== verification/Pw_Process.thy ===== *)
theory Pw_Process
  imports Pw_Http Pw_RdmaSetup Pw_TcpUdp Pw_RdmaClient
begin

text \<open>
  The processes: how the six programs read their arguments, set themselves up and, for those with threads, watch them.
  The files are \<^verbatim>\<open>udp_server.cpp\<close>, \<^verbatim>\<open>tcp_server.cpp\<close>, \<^verbatim>\<open>udp_client.cpp\<close>, \<^verbatim>\<open>tcp_client.cpp\<close>, \<^verbatim>\<open>rdma_server.cpp\<close>
  and \<^verbatim>\<open>rdma_client.cpp\<close>.  Creating the loggers is left out; that their levels are configured is not.
\<close>

section \<open>Set-up\<close>

definition missing_param :: "string \<Rightarrow> exn" where
  "missing_param key = Runtime_error (''Failed to get a param '' @ [CHR 0x27] @ key @ [CHR 0x27])"

definition require_log :: "string option \<Rightarrow> string \<Rightarrow> exn option" where
  "require_log ini key = (if IS_FAILURE (fst (get_log_config_from_ini ini Info key)) then Some (missing_param key) else None)"

fun require_logs :: "string option \<Rightarrow> string list \<Rightarrow> exn option" where
  "require_logs ini [] = None"
| "require_logs ini (key # ks) = (case require_log ini key of Some e \<Rightarrow> Some e | None \<Rightarrow> require_logs ini ks)"

definition udp_server_setup :: "string option \<Rightarrow> udp_os \<Rightarrow> string \<Rightarrow> udp_context \<Rightarrow> exn + udp_context" where
  "udp_server_setup ini os ipv4 ctx0 =
     (case require_log ini ''logger_cpp_process_udp_server'' of
        Some e \<Rightarrow> Inl e
      | None \<Rightarrow>
          let (r, ctx) = udp_make_ctx ini os ipv4 PINGWEAVE_UDP_PORT_SERVER ctx0
          in if IS_FAILURE r then Inl (Runtime_error ''Failed to create UDP context at server'') else Inr ctx)"

definition tcp_server_setup :: "string option \<Rightarrow> tcp_os \<Rightarrow> string \<Rightarrow> tcp_context \<Rightarrow> exn + tcp_context" where
  "tcp_server_setup ini os ipv4 ctx0 =
     (case require_log ini ''logger_cpp_process_tcp_server'' of
        Some e \<Rightarrow> Inl e
      | None \<Rightarrow>
          let (r, ctx) = tcp_make_ctx os ipv4 PINGWEAVE_TCP_PORT_SERVER (ctx0\<lparr>tc_is_server := True\<rparr>)
          in if IS_FAILURE r then Inl (Runtime_error ''Failed to create TCP context at server'') else Inr ctx)"

definition udp_client_setup ::
    "string option \<Rightarrow> udp_os \<Rightarrow> udp_os \<Rightarrow> string \<Rightarrow> udp_context \<Rightarrow> udp_context
     \<Rightarrow> exn + TcpUdpPinginfoMap \<times> udp_context \<times> udp_context" where
  "udp_client_setup ini os_tx os_rx ipv4 ctx_tx ctx_rx =
     (case require_logs ini [''logger_cpp_process_udp_client'', ''logger_cpp_process_udp_result'',
             ''logger_cpp_process_udp_ping_table''] of
        Some e \<Rightarrow> Inl e
      | None \<Rightarrow>
          let client_queue = brwq_new MSG_QUEUE_SIZE;
              ping_table = TcpUdpPinginfoMap_new client_queue PINGWEAVE_TABLE_EXPIRY_TIME_UDP_MS;
              (r, tx, rx) = udp_initialize_contexts ini os_tx os_rx ipv4 PINGWEAVE_UDP_PORT_CLIENT ctx_tx ctx_rx
          in if IS_FAILURE r then Inl (Runtime_error ''Failed to initialize UDP contexts.'') else Inr (ping_table, tx, rx))"

definition tcp_client_setup :: "string option \<Rightarrow> exn + TcpUdpPinginfoMap" where
  "tcp_client_setup ini =
     (case require_logs ini [''logger_cpp_process_tcp_client'', ''logger_cpp_process_tcp_result'',
             ''logger_cpp_process_tcp_ping_table''] of
        Some e \<Rightarrow> Inl e
      | None \<Rightarrow> Inr (TcpUdpPinginfoMap_new (brwq_new MSG_QUEUE_SIZE) PINGWEAVE_TABLE_EXPIRY_TIME_TCP_MS))"

text \<open>The announcement of the server: the four answers of the file system and the printed time.\<close>

record save_env =
  sv_stat :: int
  sv_mkdir :: int
  sv_opens :: bool
  sv_written :: bool
  sv_now :: string

definition rdma_server_setup ::
    "string option \<Rightarrow> setup_env \<Rightarrow> setup_env \<Rightarrow> save_env \<Rightarrow> string \<Rightarrow> string \<Rightarrow> rdma_setup \<times> rdma_setup
     \<Rightarrow> (exn + RdmaServerQueue \<times> PingMsgMap \<times> (rdma_setup \<times> rdma_setup) \<times> string) option" where
  "rdma_server_setup ini env_tx env_rx sv ipv4 proto ctxs =
     (case require_log ini ''logger_cpp_process_rdma_server'' of
        Some e \<Rightarrow> Some (Inl e)
      | None \<Rightarrow>
          (case initialize_contexts env_tx env_rx ipv4 proto ctxs of
             None \<Rightarrow> None
           | Some (Inl e, _) \<Rightarrow> Some (Inl e)
           | Some (Inr r, tx, rx) \<Rightarrow>
               if IS_FAILURE r then Some (Inl (Runtime_error ''server main - Failed to initialize RDMA contexts.''))
               else
                 (case save_device_info (sv_stat sv) (sv_mkdir sv) (sv_opens sv) (sv_written sv) (sv_now sv) rx of
                    None \<Rightarrow> None
                  | Some (r2, saved) \<Rightarrow>
                      if IS_FAILURE r2 then Some (Inl (Runtime_error ''server main - save_device_info failed.''))
                      else Some (Inr (brwq_new MSG_QUEUE_SIZE, PingMsgMap_new PINGWEAVE_TABLE_EXPIRY_TIME_RDMA_MS, (tx, rx), the saved)))))"

definition rdma_client_setup ::
    "string option \<Rightarrow> setup_env \<Rightarrow> setup_env \<Rightarrow> string \<Rightarrow> string \<Rightarrow> rdma_setup \<times> rdma_setup
     \<Rightarrow> (exn + RdmaPinginfoMap \<times> (rdma_setup \<times> rdma_setup) \<times> rdma_client_id) option" where
  "rdma_client_setup ini env_tx env_rx ipv4 proto ctxs =
     (case require_logs ini [''logger_cpp_process_rdma_client'', ''logger_cpp_process_rdma_result'',
             ''logger_cpp_process_rdma_ping_table''] of
        Some e \<Rightarrow> Some (Inl e)
      | None \<Rightarrow>
          (case initialize_contexts env_tx env_rx ipv4 proto ctxs of
             None \<Rightarrow> None
           | Some (Inl e, _) \<Rightarrow> Some (Inl e)
           | Some (Inr r, tx, rx) \<Rightarrow>
               if IS_FAILURE r then Some (Inl (Runtime_error ''Client main - Failed to initialize RDMA contexts.''))
               else if Qp \<notin> su_held rx then None
               else Some (Inr (RdmaPinginfoMap_new (brwq_new MSG_QUEUE_SIZE) PINGWEAVE_TABLE_EXPIRY_TIME_RDMA_MS, (tx, rx),
                      \<lparr>ci_ipv4 = ipv4, ci_rx_gid = su_gid rx, ci_rx_lid = ucast (pa_lid (su_portinfo rx)),
                       ci_rx_qpn = su_qp_num rx\<rparr>))))"

section \<open>Arguments\<close>

text \<open>
  \<^verbatim>\<open>main\<close> without the name of the program; \<open>run\<close> is the program, which returns only with an exception (\<open>Some\<close>), and
  \<open>None\<close> as a result is that it keeps running.
\<close>

definition main_ip :: "(string \<Rightarrow> exn option) \<Rightarrow> string list \<Rightarrow> int option" where
  "main_ip run args =
     (case args of
        [ipv4] \<Rightarrow>
          if ipv4 = ''-h'' \<or> ipv4 = ''--help'' then Some 0
          else (case run ipv4 of None \<Rightarrow> None | Some e \<Rightarrow> Some 1)
      | _ \<Rightarrow> Some 1)"

definition main_rdma :: "(string \<Rightarrow> string \<Rightarrow> exn option) \<Rightarrow> string list \<Rightarrow> int option" where
  "main_rdma run args =
     (case args of
        [ipv4, proto] \<Rightarrow>
          if proto \<noteq> ''roce'' \<and> proto \<noteq> ''ib'' then Some 1
          else (case run ipv4 proto of None \<Rightarrow> None | Some e \<Rightarrow> Some 1)
      | [a] \<Rightarrow> if a = ''-h'' \<or> a = ''--help'' then Some 0 else Some 1
      | _ \<Rightarrow> Some 1)"

section \<open>Watching the threads\<close>

text \<open>
  A thread starts by setting its flag, loops, and on an exception clears the flag and throws the exception on; an exception that
  leaves the function of a thread ends the process (\<^verbatim>\<open>std::terminate\<close>).  The main thread wakes up once a second and looks
  at the flags in a fixed order.  A flag that is cleared makes it send an alarm, join the thread, which blocks until the function of the
  thread has returned, send a second message, set the flag and start the thread anew.
\<close>

datatype thread_pc = T_entry | T_loop | T_throw | T_returned

datatype super_pc = S_check nat | S_join nat | S_restart nat

record process =
  pr_pc :: "nat \<Rightarrow> thread_pc"
  pr_alive :: "nat \<Rightarrow> bool"
  pr_super :: super_pc
  pr_messages :: "string list"
  pr_terminated :: bool

definition term_msg :: "string \<Rightarrow> string" where "term_msg name = ''Unexpected termination: '' @ name"
definition restart_msg :: "string \<Rightarrow> string" where "restart_msg name = ''Restarted: '' @ name"

definition process_start :: process where
  "process_start = \<lparr>pr_pc = (\<lambda>_. T_entry), pr_alive = (\<lambda>_. True), pr_super = S_check 0, pr_messages = [], pr_terminated = False\<rparr>"

text \<open>The threads of the four programs, in the order of the checks.\<close>

definition udp_client_threads :: "string list" where
  "udp_client_threads = [''udp_client_tx_thread'', ''udp_client_rx_thread'', ''udp_client_result_thread'']"
definition tcp_client_threads :: "string list" where
  "tcp_client_threads = [''tcp_client_tx_thread'', ''tcp_client_result_thread'']"
definition rdma_server_threads :: "string list" where
  "rdma_server_threads = [''rdma_server_rx_thread'', ''rdma_server_tx_cqe_thread'', ''rdma_server_tx_thread'']"
definition rdma_client_threads :: "string list" where
  "rdma_client_threads = [''rdma_client_result_thread'', ''rdma_client_rx_thread'', ''rdma_client_tx_sched_thread'',
     ''rdma_client_tx_cqe_thread'']"

inductive process_step :: "string list \<Rightarrow> process \<Rightarrow> process \<Rightarrow> bool" for names :: "string list" where
  enter: "\<not> pr_terminated s \<Longrightarrow> i < length names \<Longrightarrow> pr_pc s i = T_entry \<Longrightarrow>
    process_step names s (s\<lparr>pr_pc := (pr_pc s)(i := T_loop), pr_alive := (pr_alive s)(i := True)\<rparr>)"
| iterate: "\<not> pr_terminated s \<Longrightarrow> i < length names \<Longrightarrow> pr_pc s i = T_loop \<Longrightarrow> process_step names s s"
| raise_exn: "\<not> pr_terminated s \<Longrightarrow> i < length names \<Longrightarrow> pr_pc s i = T_loop \<Longrightarrow>
    process_step names s (s\<lparr>pr_pc := (pr_pc s)(i := T_throw), pr_alive := (pr_alive s)(i := False)\<rparr>)"
| leave: "\<not> pr_terminated s \<Longrightarrow> i < length names \<Longrightarrow> pr_pc s i = T_throw \<Longrightarrow>
    process_step names s (s\<lparr>pr_terminated := True\<rparr>)"
| sleep: "\<not> pr_terminated s \<Longrightarrow> pr_super s = S_check (length names) \<Longrightarrow> process_step names s (s\<lparr>pr_super := S_check 0\<rparr>)"
| check_alive: "\<not> pr_terminated s \<Longrightarrow> pr_super s = S_check i \<Longrightarrow> i < length names \<Longrightarrow> pr_alive s i \<Longrightarrow>
    process_step names s (s\<lparr>pr_super := S_check (Suc i)\<rparr>)"
| check_dead: "\<not> pr_terminated s \<Longrightarrow> pr_super s = S_check i \<Longrightarrow> i < length names \<Longrightarrow> \<not> pr_alive s i \<Longrightarrow>
    process_step names s (s\<lparr>pr_super := S_join i, pr_messages := pr_messages s @ [term_msg (names ! i)]\<rparr>)"
| join: "\<not> pr_terminated s \<Longrightarrow> pr_super s = S_join i \<Longrightarrow> pr_pc s i = T_returned \<Longrightarrow>
    process_step names s (s\<lparr>pr_super := S_restart i, pr_messages := pr_messages s @ [restart_msg (names ! i)]\<rparr>)"
| restart: "\<not> pr_terminated s \<Longrightarrow> pr_super s = S_restart i \<Longrightarrow>
    process_step names s (s\<lparr>pr_super := S_check (Suc i), pr_alive := (pr_alive s)(i := True), pr_pc := (pr_pc s)(i := T_entry)\<rparr>)"

text \<open>The loops of the four programs.\<close>

definition udp_client_step :: "process \<Rightarrow> process \<Rightarrow> bool" where "udp_client_step = process_step udp_client_threads"
definition tcp_client_step :: "process \<Rightarrow> process \<Rightarrow> bool" where "tcp_client_step = process_step tcp_client_threads"
definition rdma_server_step :: "process \<Rightarrow> process \<Rightarrow> bool" where "rdma_server_step = process_step rdma_server_threads"
definition rdma_client_step :: "process \<Rightarrow> process \<Rightarrow> bool" where "rdma_client_step = process_step rdma_client_threads"

inductive process_reaches :: "string list \<Rightarrow> process \<Rightarrow> process \<Rightarrow> bool" for names :: "string list" where
  here: "process_reaches names s s"
| further: "process_reaches names s s' \<Longrightarrow> process_step names s' s'' \<Longrightarrow> process_reaches names s s''"

definition process_inv :: "string list \<Rightarrow> process \<Rightarrow> bool" where
  "process_inv names s \<longleftrightarrow> (\<forall>i. pr_pc s i \<noteq> T_returned \<and> (pr_alive s i \<longleftrightarrow> pr_pc s i \<noteq> T_throw))
     \<and> (\<forall>i. pr_super s \<noteq> S_restart i) \<and> set (pr_messages s) \<subseteq> term_msg ` set names
     \<and> (\<forall>i. pr_super s = S_join i \<longrightarrow> pr_pc s i = T_throw)"

lemma process_step_inv: "process_step names s s' \<Longrightarrow> process_inv names s \<Longrightarrow> process_inv names s'"
  by (induction rule: process_step.induct) (auto simp: process_inv_def)

lemma process_reaches_inv: "process_reaches names s s' \<Longrightarrow> process_inv names s \<Longrightarrow> process_inv names s'"
  by (induction rule: process_reaches.induct) (auto intro: process_step_inv)

lemma process_start_inv: "process_inv names process_start"
  by (simp add: process_inv_def process_start_def)

text \<open>A thread that has thrown stays there; the main thread stays in its join.\<close>

lemma thrown_stays:
  assumes "process_reaches names s s'" and "process_inv names s" and "pr_pc s i = T_throw"
  shows "pr_pc s' i = T_throw"
  using assms
proof (induction rule: process_reaches.induct)
  case (further s s' s'')
  then have "process_inv names s'" "pr_pc s' i = T_throw" by (auto intro: process_reaches_inv)
  with further.hyps(2) show ?case by (induction rule: process_step.induct) (auto simp: process_inv_def)
qed

text \<open>
  C31: no thread is ever restarted.  Whatever the interleaving, no message but alarms of unexpected terminations is sent and
  the supervisor never passes a join; once a thread has thrown, its exception can end the process at any moment, its flag stays cleared,
  and every continuation leaves it dead until the process is terminated.
\<close>

theorem no_thread_restarted:
  assumes "process_reaches names process_start s"
  shows "set (pr_messages s) \<subseteq> term_msg ` set names \<and> (\<forall>i. pr_super s \<noteq> S_restart i)
    \<and> (\<forall>i s'. i < length names \<longrightarrow> pr_pc s i = T_throw \<longrightarrow> process_reaches names s s' \<longrightarrow>
         \<not> pr_alive s' i \<and> pr_pc s' i = T_throw
         \<and> (pr_terminated s' \<or> process_step names s' (s'\<lparr>pr_terminated := True\<rparr>)))"
proof -
  have inv: "process_inv names s" by (rule process_reaches_inv [OF assms process_start_inv])
  have "\<not> pr_alive s' i \<and> pr_pc s' i = T_throw \<and> (pr_terminated s' \<or> process_step names s' (s'\<lparr>pr_terminated := True\<rparr>))"
    if "i < length names" "pr_pc s i = T_throw" "process_reaches names s s'" for i s'
    using thrown_stays [OF that(3) inv that(2)] process_reaches_inv [OF that(3) inv] that(1) process_step.leave [of s' i names]
    by (auto simp: process_inv_def)
  then show ?thesis using inv by (auto simp: process_inv_def)
qed

definition sample_process :: process where
  "sample_process = process_start\<lparr>pr_pc := (pr_pc process_start)(1 := T_throw), pr_alive := (pr_alive process_start)(1 := False)\<rparr>"

lemma sample_process_reached: "process_reaches udp_client_threads process_start sample_process"
proof -
  let ?s1 = "process_start\<lparr>pr_pc := (pr_pc process_start)(1 := T_loop), pr_alive := (pr_alive process_start)(1 := True)\<rparr>"
  have "process_step udp_client_threads process_start ?s1"
    by (rule process_step.enter) (simp_all add: process_start_def udp_client_threads_def)
  moreover have "process_step udp_client_threads ?s1
      (?s1\<lparr>pr_pc := (pr_pc ?s1)(1 := T_throw), pr_alive := (pr_alive ?s1)(1 := False)\<rparr>)"
    by (rule process_step.raise_exn) (simp_all add: process_start_def udp_client_threads_def)
  moreover have "?s1\<lparr>pr_pc := (pr_pc ?s1)(1 := T_throw), pr_alive := (pr_alive ?s1)(1 := False)\<rparr> = sample_process"
    by (simp add: sample_process_def)
  ultimately show ?thesis by (metis process_reaches.intros)
qed

theorem no_thread_restarted_witness:
  "process_reaches udp_client_threads process_start sample_process
   \<and> \<not> pr_alive sample_process 1 \<and> process_step udp_client_threads sample_process (sample_process\<lparr>pr_terminated := True\<rparr>)"
proof -
  have "1 < length udp_client_threads" "pr_pc sample_process 1 = T_throw" "\<not> pr_terminated sample_process"
    by (simp_all add: udp_client_threads_def sample_process_def process_start_def)
  then show ?thesis
    using no_thread_restarted [OF sample_process_reached] sample_process_reached process_reaches.here [of udp_client_threads sample_process]
    by blast
qed

section \<open>The RDMA client starts ready\<close>

lemma make_ctx_codes: "make_ctx env ipv4 proto is_rx ctx = Some (Inr rc, ctx') \<Longrightarrow> rc \<in> {PINGWEAVE_SUCCESS, PINGWEAVE_FAILURE}"
  by (auto simp: make_ctx_def Let_def split: option.splits sum.splits prod.splits if_splits)

text \<open>
  C32: the set-up of the RDMA client ends in a state from which it can ping.  When both contexts are made, from contexts that
  held nothing, the new table satisfies its invariant with an empty queue, both contexts satisfy that of the data path, the address for
  the answers is the GID, LID and queue pair of the receiving context, and the first ping to any destination can be posted
  and recorded, if the own address is not zero, the adapter has timestamps and it accepts the request.
\<close>

theorem rdma_client_starts_ready:
  assumes "su_held (fst ctxs) = {}" and "su_context (fst ctxs) = None" and "su_held (snd ctxs) = {}" and "su_context (snd ctxs) = None"
    and "make_ctx env_rx ipv4 proto True (snd ctxs) = Some (Inr PINGWEAVE_SUCCESS, rx')"
    and "se_own_gid env_rx = Some g" and "length g = 16"
    and "rdma_client_setup ini env_tx env_rx ipv4 proto ctxs = Some (Inr (table, (tx, rx), me))"
    and "ip2uint uninit ipv4 \<noteq> 0" and "su_rnic_hw_ts tx" and "ve_ah_ok (re_verbs env)" and "ve_post_ok (re_verbs env)"
  shows "can_ping uninit me env t (ctx_of tx) d table \<and> ctx_inv (ctx_of rx)
    \<and> me = \<lparr>ci_ipv4 = ipv4, ci_rx_gid = g, ci_rx_lid = ucast (pa_lid (su_portinfo rx)), ci_rx_qpn = su_qp_num rx\<rparr>"
proof -
  obtain tx1 where T: "make_ctx env_tx ipv4 proto False (fst ctxs) = Some (Inr PINGWEAVE_SUCCESS, tx1)"
    and e: "tx = tx1" "rx = rx'" "table = RdmaPinginfoMap_new (brwq_new MSG_QUEUE_SIZE) PINGWEAVE_TABLE_EXPIRY_TIME_RDMA_MS"
      "me = \<lparr>ci_ipv4 = ipv4, ci_rx_gid = su_gid rx, ci_rx_lid = ucast (pa_lid (su_portinfo rx)), ci_rx_qpn = su_qp_num rx\<rparr>"
  proof (cases "make_ctx env_tx ipv4 proto False (fst ctxs)")
    case None
    then show thesis using assms(8) by (simp add: rdma_client_setup_def initialize_contexts_def split: option.splits)
  next
    case (Some a)
    obtain res tx1 where a: "a = (res, tx1)" by (cases a)
    have c: "res = Inr rc \<Longrightarrow> rc \<in> {PINGWEAVE_SUCCESS, PINGWEAVE_FAILURE}" for rc using make_ctx_codes Some a by blast
    show thesis
      using that [of tx1] c assms(5,8) Some a
      by (cases res) (auto simp: rdma_client_setup_def initialize_contexts_def split: option.splits if_splits)
  qed
  have X: "ctx_inv (ctx_of tx)" using make_ctx_spec [OF assms(1,2) T] e by simp
  have R: "ctx_inv (ctx_of rx)" "su_gid rx = g" using make_ctx_spec [OF assms(3-5)] e assms(6) by auto
  have ah: "ah_for u (ctx_of tx) d" for u by (simp add: ah_for_def ctx_of_def)
  have room: "length (brwq_pending (rd_queue table)) + length (keys (rd_table table)) < brwq_room (rd_queue table)"
    using rd_new_view(2) brwq_new_inv(2) [where 'a = rdma_result_msg_t] by (simp add: e(3) rd_new_view MSG_QUEUE_SIZE_def)
  have inv: "\<exists>t0 \<le> re_steady_now env. rd_inv t0 table" using rd_inv_new e(3) by blast
  have "can_ping uninit me env t (ctx_of tx) d table"
    unfolding can_ping_def using assms(7,9-12) X R(2) ah room inv by (simp add: e(3,4) rd_new_view) (simp add: ctx_of_def)
  then show ?thesis using R e(4) by simp
qed

definition log_ini :: string where
  "log_ini = ''[logging]'' @ [CHR 0x0A] @ ''logger_cpp_process_rdma_client = info'' @ [CHR 0x0A] @
     ''logger_cpp_process_rdma_result = info'' @ [CHR 0x0A] @ ''logger_cpp_process_rdma_ping_table = warn'' @ [CHR 0x0A]"

theorem rdma_client_starts_ready_witness:
  "\<exists>table tx rx me. rdma_client_setup (Some log_ini) sample_setup sample_setup ''10.0.0.1'' ''roce'' (fresh_setup, fresh_setup)
       = Some (Inr (table, (tx, rx), me))
     \<and> can_ping 0 me \<lparr>re_doc = None, re_store = None, re_load_now = 0, re_ping_now = 0, re_expire_now = 0, re_steady_now = 0,
         re_system_now = 0, re_posted_now = 0, re_v32 = 0, re_msg_time = 0, re_verbs = sample_verbs\<rparr>
         \<lparr>rt_scheduler = sample_rdma_sched, rt_ping_uid = 0\<rparr> (ctx_of tx) \<lparr>ra_qpn = 11, ra_gid = replicate 16 0, ra_lid = 3\<rparr> table"
proof -
  obtain tx where t: "make_ctx sample_setup ''10.0.0.1'' ''roce'' False fresh_setup = Some (Inr PINGWEAVE_SUCCESS, tx)" "su_rnic_hw_ts tx"
    using sample_make by blast
  obtain rx where r: "make_ctx sample_setup ''10.0.0.1'' ''roce'' True fresh_setup = Some (Inr PINGWEAVE_SUCCESS, rx)"
    using sample_make by blast
  have f: "su_held (fst (fresh_setup, fresh_setup)) = {}" "su_context (fst (fresh_setup, fresh_setup)) = None"
    "su_held (snd (fresh_setup, fresh_setup)) = {}" "su_context (snd (fresh_setup, fresh_setup)) = None"
    by (simp_all add: fresh_setup_def)
  have q: "Qp \<in> su_held rx" using make_ctx_spec [OF f(3,4), of sample_setup "''10.0.0.1''" "''roce''" True] r by (simp add: all_resources_def)
  have "require_logs (Some log_ini) [''logger_cpp_process_rdma_client'', ''logger_cpp_process_rdma_result'',
      ''logger_cpp_process_rdma_ping_table''] = None" by code_simp
  then obtain table me where s: "rdma_client_setup (Some log_ini) sample_setup sample_setup ''10.0.0.1'' ''roce'' (fresh_setup, fresh_setup)
       = Some (Inr (table, (tx, rx), me))"
    using t(1) r q by (simp add: rdma_client_setup_def initialize_contexts_def)
  have r': "make_ctx sample_setup ''10.0.0.1'' ''roce'' True (snd (fresh_setup, fresh_setup)) = Some (Inr PINGWEAVE_SUCCESS, rx)" using r by simp
  have g: "se_own_gid sample_setup = Some (sample_gid 2)" "length (sample_gid 2) = 16" by (simp_all add: sample_setup_def sample_gid_def)
  have ip: "ip2uint 0 ''10.0.0.1'' \<noteq> 0" by (simp add: ip2uint_def sample_addresses)
  have v: "ve_ah_ok sample_verbs" "ve_post_ok sample_verbs" by (simp_all add: sample_verbs_def)
  show ?thesis
    using rdma_client_starts_ready [OF f r' g s ip t(2), of "\<lparr>re_doc = None, re_store = None, re_load_now = 0, re_ping_now = 0, re_expire_now = 0,
        re_steady_now = 0, re_system_now = 0, re_posted_now = 0, re_v32 = 0, re_msg_time = 0, re_verbs = sample_verbs\<rparr>"] s v by auto
qed

section \<open>Exit codes, and a receiving context that was not made\<close>

lemma main_exit_codes:
  "main_ip run args = Some 0 \<longleftrightarrow> args \<in> {[''-h''], [''--help'']}"
  "main_rdma run2 args = Some 0 \<longleftrightarrow> args \<in> {[''-h''], [''--help'']}"
  "main_ip run args = Some c \<Longrightarrow> c \<in> {0, 1}" "main_rdma run2 args = Some c \<Longrightarrow> c \<in> {0, 1}"
  by (auto simp: main_ip_def main_rdma_def split: list.splits option.splits if_splits)

text \<open>
  Since the failure is taken for a success, both RDMA programs go on to read the queue pair of the context that was not made.
\<close>

lemma rx_failure_undefined:
  assumes "make_ctx env_tx ipv4 proto False (fst ctxs) = Some (Inr PINGWEAVE_SUCCESS, tx)"
    and "make_ctx env_rx ipv4 proto True (snd ctxs) = Some (Inr PINGWEAVE_FAILURE, rx)" and "Qp \<notin> su_held rx"
  shows "require_logs ini [''logger_cpp_process_rdma_client'', ''logger_cpp_process_rdma_result'',
      ''logger_cpp_process_rdma_ping_table''] = None \<Longrightarrow> rdma_client_setup ini env_tx env_rx ipv4 proto ctxs = None"
    and "require_log ini ''logger_cpp_process_rdma_server'' = None \<Longrightarrow> sv_stat sv \<noteq> - 1 \<Longrightarrow> sv_opens sv \<Longrightarrow>
      rdma_server_setup ini env_tx env_rx sv ipv4 proto ctxs = None"
  using assms by (simp_all add: rdma_client_setup_def rdma_server_setup_def initialize_contexts_def save_device_info_def
      IS_FAILURE_def PINGWEAVE_FAILURE_def PINGWEAVE_SUCCESS_def del: require_logs.simps)

section \<open>The programs as a whole\<close>

definition stops :: "exn + 'a \<Rightarrow> exn option" where
  "stops r = (case r of Inl e \<Rightarrow> Some e | Inr _ \<Rightarrow> None)"

definition udp_server_main :: "string option \<Rightarrow> udp_os \<Rightarrow> udp_context \<Rightarrow> string list \<Rightarrow> int option" where
  "udp_server_main ini os ctx0 = main_ip (\<lambda>ipv4. stops (udp_server_setup ini os ipv4 ctx0))"

definition tcp_server_main :: "string option \<Rightarrow> tcp_os \<Rightarrow> tcp_context \<Rightarrow> string list \<Rightarrow> int option" where
  "tcp_server_main ini os ctx0 = main_ip (\<lambda>ipv4. stops (tcp_server_setup ini os ipv4 ctx0))"

definition udp_client_main :: "string option \<Rightarrow> udp_os \<Rightarrow> udp_os \<Rightarrow> udp_context \<Rightarrow> udp_context \<Rightarrow> string list \<Rightarrow> int option" where
  "udp_client_main ini os_tx os_rx ctx_tx ctx_rx =
     main_ip (\<lambda>ipv4. stops (udp_client_setup ini os_tx os_rx ipv4 ctx_tx ctx_rx))"

definition tcp_client_main :: "string option \<Rightarrow> string list \<Rightarrow> int option" where
  "tcp_client_main ini = main_ip (\<lambda>_. stops (tcp_client_setup ini))"

text \<open>For the RDMA programs the outer \<open>None\<close> is undefined behaviour of the set-up.\<close>

definition main_rdma_of :: "(string \<Rightarrow> string \<Rightarrow> (exn + 'a) option) \<Rightarrow> string list \<Rightarrow> int option option" where
  "main_rdma_of setup args =
     (case args of
        [ipv4, proto] \<Rightarrow>
          if proto \<noteq> ''roce'' \<and> proto \<noteq> ''ib'' then Some (Some 1)
          else map_option (\<lambda>r. main_rdma (\<lambda>_ _. stops r) args) (setup ipv4 proto)
      | _ \<Rightarrow> Some (main_rdma (\<lambda>_ _. None) args))"

definition rdma_server_main ::
    "string option \<Rightarrow> setup_env \<Rightarrow> setup_env \<Rightarrow> save_env \<Rightarrow> rdma_setup \<times> rdma_setup \<Rightarrow> string list \<Rightarrow> int option option" where
  "rdma_server_main ini env_tx env_rx sv ctxs =
     main_rdma_of (\<lambda>ipv4 proto. rdma_server_setup ini env_tx env_rx sv ipv4 proto ctxs)"

definition rdma_client_main ::
    "string option \<Rightarrow> setup_env \<Rightarrow> setup_env \<Rightarrow> rdma_setup \<times> rdma_setup \<Rightarrow> string list \<Rightarrow> int option option" where
  "rdma_client_main ini env_tx env_rx ctxs =
     main_rdma_of (\<lambda>ipv4 proto. rdma_client_setup ini env_tx env_rx ipv4 proto ctxs)"

text \<open>The loop bodies of the threads that wait for completions.\<close>

definition cq_body :: "string \<Rightarrow> int \<Rightarrow> bool \<Rightarrow> ('s \<Rightarrow> 's \<times> exn option) \<Rightarrow> 's \<Rightarrow> 's \<times> exn option" where
  "cq_body what get_event_rc same_cq handler s =
     (if IS_FAILURE (wait_for_cq_event get_event_rc same_cq) then (s, Some (Runtime_error what)) else handler s)"

definition rdma_server_rx_body where
  "rdma_server_rx_body get_event_rc same_cq repost polled notify_rc =
     cq_body ''rx thread -  Failed during CQ event waiting'' get_event_rc same_cq (server_process_rx_cqe repost polled notify_rc)"

definition rdma_server_tx_cqe_body where
  "rdma_server_tx_cqe_body get_event_rc same_cq env polled notify_rc =
     cq_body ''tx thread -  Failed during CQ event waiting'' get_event_rc same_cq (server_process_tx_cqe env polled notify_rc)"

definition rdma_client_rx_body where
  "rdma_client_rx_body get_event_rc same_cq uninit repost polled notify_rc =
     cq_body ''rx thread - Failed during CQ event waiting'' get_event_rc same_cq (client_process_rx_cqe uninit repost polled notify_rc)"

definition rdma_client_tx_cqe_body where
  "rdma_client_tx_cqe_body get_event_rc same_cq uninit hw polled notify_rc =
     cq_body ''tx cqe - Failed during CQ event waiting'' get_event_rc same_cq
       (\<lambda>table. case client_process_tx_cqe uninit hw polled notify_rc table of (table1, _, e) \<Rightarrow> (table1, e))"

text \<open>Where a thread is after passes of its body: in its loop or thrown out of it, never returned.\<close>

fun thread_run :: "('e \<Rightarrow> 's \<Rightarrow> 's \<times> exn option) \<Rightarrow> 'e list \<Rightarrow> 's \<Rightarrow> 's \<times> thread_pc" where
  "thread_run body [] s = (s, T_loop)"
| "thread_run body (e # es) s =
     (case body e s of (s1, Some _) \<Rightarrow> (s1, T_throw) | (s1, None) \<Rightarrow> thread_run body es s1)"

lemma thread_run_pc: "snd (thread_run body es s) \<in> {T_loop, T_throw}"
  by (induction es arbitrary: s) (auto split: prod.split option.split)

lemma thread_run_throws:
  "snd (thread_run body es s) = T_throw \<longleftrightarrow> (\<exists>es1 e es2 s1. es = es1 @ e # es2 \<and> thread_run body es1 s = (s1, T_loop)
     \<and> snd (body e s1) \<noteq> None)"
proof (induction es arbitrary: s)
  case (Cons e es)
  show ?case
  proof (cases "body e s")
    case (Pair s1 x)
    show ?thesis
    proof (cases x)
      case (Some ex)
      then show ?thesis using Pair by (auto intro!: exI [of _ "[]"])
    next
      case None
      have "(\<exists>es1 a es2 s2. e # es = es1 @ a # es2 \<and> thread_run body es1 s = (s2, T_loop) \<and> snd (body a s2) \<noteq> None)
          \<longleftrightarrow> (\<exists>es1 a es2 s2. es = es1 @ a # es2 \<and> thread_run body es1 s1 = (s2, T_loop) \<and> snd (body a s2) \<noteq> None)"
        (is "?L \<longleftrightarrow> ?R")
      proof
        assume ?L
        then obtain es1 a es2 s2 where "e # es = es1 @ a # es2" "thread_run body es1 s = (s2, T_loop)" "snd (body a s2) \<noteq> None" by blast
        then show ?R using Pair None by (cases es1) auto
      next
        assume ?R
        then obtain es1 a es2 s2 where "es = es1 @ a # es2" "thread_run body es1 s1 = (s2, T_loop)" "snd (body a s2) \<noteq> None" by blast
        then show ?L using Pair None by (intro exI [of _ "e # es1"]) auto
      qed
      then show ?thesis using Cons.IH [of s1] Pair None by simp
    qed
  qed
qed simp

end
