(* ===== verification/Spec2Isabelle.thy ===== *)
theory Spec2Isabelle
  imports Pw_Common Pw_Address Pw_Ini Pw_QueueBlocking Pw_MsgTable Pw_TcpUdpTable Pw_RdmaTable Pw_Ipc
    Pw_PinglistFile Pw_Collector Pw_TcpUdp Pw_RdmaServer Pw_RdmaClient Pw_RdmaSetup Pw_Http Pw_Process
begin

text \<open>
  A verification development for the measuring programs of pingweave: \<^verbatim>\<open>udp_client\<close>, \<^verbatim>\<open>udp_server\<close>,
  \<^verbatim>\<open>tcp_client\<close>, \<^verbatim>\<open>tcp_server\<close>, \<^verbatim>\<open>rdma_client\<close> and \<^verbatim>\<open>rdma_server\<close> (C++, under \<^verbatim>\<open>src/src\<close>).

  \<^bold>\<open>The programs.\<close>  A client asks its scheduler for the next destination of the ping list, records a ping with a fresh
  identifier in its table and sends it.  A UDP server echoes the identifier; a TCP server only accepts the connection; an
  RDMA server answers a PING with a PONG and, when the completion of the PONG is polled, with an ACK that carries the time it
  needed.  The table of the client turns the answers, or their absence, into results on a lock-free queue; a result
  thread collects them per destination and hands a report to the agent, a Python process, through a ring in shared memory.  The main
  thread watches the others and reports their end to the controller over HTTP.

  \<^bold>\<open>The theories and the code.\<close>
  \<^item> \<open>Pw_Prelude\<close>: shared lemmas on lists, words, decimal text and byte images; the return codes and sizes of \<^verbatim>\<open>macro.hpp\<close>.
  \<^item> \<open>Pw_Common\<close>, \<open>Pw_Address\<close>, \<open>Pw_Http\<close>: \<^verbatim>\<open>common.cpp\<close> (identifiers, clocks, statistics; IPv4 text and, from
    \<^verbatim>\<open>rdma_common.cpp\<close>, GIDs; messages to the controller).
  \<^item> \<open>Pw_Ini\<close>: \<^verbatim>\<open>ini.hpp\<close> and the accessors of \<^verbatim>\<open>common.cpp\<close>.
  \<^item> \<open>Pw_Fifo\<close>, \<open>Pw_Queue\<close>, \<open>Pw_QueueConc\<close>, \<open>Pw_Semaphore\<close>, \<open>Pw_QueueBlocking\<close>: the contract of a bounded queue as a locale,
    \<^verbatim>\<open>readerwriterqueue.h\<close> that implements it, its enqueue and dequeue again as accesses to shared memory in every interleaving of the
    two threads, its semaphore (\<^verbatim>\<open>atomicops.h\<close>) with every interleaving of a waiter and a signaller, and both together.
  \<^item> \<open>Pw_Table\<close>, \<open>Pw_TableQueue\<close>, \<open>Pw_MsgTable\<close>, \<open>Pw_TcpUdpTable\<close>, \<open>Pw_RdmaTable\<close>: the hash map with a list of ages that three classes share, its
    contract as the locale \<open>expiring_table\<close>, and \<^verbatim>\<open>rdma_ping_msg.hpp\<close>, \<^verbatim>\<open>tcpudp_ping_info.hpp\<close>, \<^verbatim>\<open>rdma_ping_info.hpp\<close>.
  \<^item> \<open>Pw_Format\<close>: the structures of \<^verbatim>\<open>format.hpp\<close> that the tables report.  \<open>Pw_Ipc\<close>: \<^verbatim>\<open>ipc_producer.hpp\<close> and the reader of
    \<^verbatim>\<open>ipc_consumer.py\<close>.
  \<^item> \<open>Pw_Encoding\<close>, \<open>Pw_YamlScalar\<close>, \<open>Pw_YamlText\<close>, \<open>Pw_YamlLexer\<close>, \<open>Pw_YamlTokens\<close>: the vendored YAML reader
    (\<^verbatim>\<open>node.hpp\<close>) up to its tokens: the encodings of a file, the typing of scalars, quoting and escapes, the lexical analyser, and
    what the analyser does.
  \<^item> \<open>Pw_YamlParser\<close>, \<open>Pw_YamlDocuments\<close>, \<open>Pw_YamlBlocks\<close>, \<open>Pw_YamlReadBack\<close>: the parser of the same file
    (\<^verbatim>\<open>tag_resolver\<close>, \<^verbatim>\<open>basic_deserializer\<close>), whose pointers into the tree are addresses in a store; its termination; its passes over
    a document in block style; and that such a document is read back.
  \<^item> \<open>Pw_Yaml\<close>, \<open>Pw_Scheduler\<close>: the accessors of a parsed document and the three classes of \<^verbatim>\<open>scheduler.hpp\<close>,
    \<^verbatim>\<open>tcpudp_scheduler.hpp\<close>, \<^verbatim>\<open>rdma_scheduler.hpp\<close>.  \<open>Pw_PinglistFile\<close>: the reader and the TCP/UDP scheduler together, from the bytes of a
    ping list file to the addresses.
  \<^item> \<open>Pw_Result\<close>: the result threads of the three clients and the lines of a report, with the locale \<open>result_window\<close>.
  \<^item> \<open>Pw_Collector\<close>: what becomes of a report: the sending thread of \<^verbatim>\<open>agent_sender.py\<close> and the store of the controller
    (\<^verbatim>\<open>process_collected_message\<close> of \<^verbatim>\<open>common.py\<close>), over a parser of dates that is a parameter.
  \<^item> \<open>Pw_TcpUdp\<close>: \<^verbatim>\<open>tcpudp_common.cpp\<close> and the loop bodies of the UDP and TCP programs.
  \<^item> \<open>Pw_Verbs\<close>, \<open>Pw_RdmaSetup\<close>: \<^verbatim>\<open>rdma_common.cpp\<close> (message images, address handles, posting; set-up of a context).
  \<^item> \<open>Pw_RdmaServer\<close>, \<open>Pw_RdmaClient\<close>: the handlers and loop bodies of \<^verbatim>\<open>rdma_server.cpp\<close> and \<^verbatim>\<open>rdma_client.cpp\<close>.
  \<^item> \<open>Pw_Process\<close>: set-up, arguments and thread supervision of the six programs.
  \<^item> This theory: a ping over RDMA through all of these.

  State is passed explicitly: a C++ class is a record, a method a function to the return code and the new state.  Return codes are the
  integers of the source, exceptions values of \<open>exn\<close>, undefined behaviour \<open>None\<close>.  Machine integers are words; times are integers in
  nanoseconds.  What the system answers (socket and verbs calls, clocks, files, the contents of uninitialised memory) is a
  parameter of the definition that asks, so that every theorem holds for all answers, or names those it needs.

  \<^bold>\<open>What is shown.\<close>  For each table, that every ping is accounted for: no result is made twice, one that does not complete is
  reported as a failure, and expiry removes exactly the old entries.  For RDMA, that the three events of a ping may come in
  any order and the delays are exact across a wrap of the clocks; end to end, that a ping answered by the server
  yields one result with the delays both adapters measured.  For the queue, the semaphore and the ring, that they are
  first-in first-out, accept what they promise, wake their reader and drop only what they count; the queue also under
  every interleaving of the accesses of its threads, where it is wait-free and no element is left behind with a sleeping reader.  For the schedulers, that loading gives
  the addresses the lists ask for and that these are served in turn at the configured pace.  For the result threads, that the windows partition the
  results and that what a line says ends in the store of the controller, which keeps the newest result whatever the order of arrival.  For the set-up, that a context that is made is well formed, which
  GID it uses, and what is released when a step fails.  Round trips relate printing and parsing of addresses, GIDs,
  configuration files, HTTP requests and YAML texts in their encodings and quotings.  For the YAML reader, that its scanner
  types scalars by a grammar, that decimal integers are exact, that its analyser ends and reports exact positions, that its parser ends
  on every text, and that nested blocks of plain words with comments are read as the tree they say.  Some theorems record
  defects: a handle key shared by two GIDs, a send buffer shared by two pings, a failed context that is taken for a good one, threads that
  are never restarted, and malformed YAML documents that make the parser read past its stack.

  \<^bold>\<open>Loops and fuel.\<close>  Loops over data are structural recursion or have a termination proof.  Waiting for the consumer of the ring
  is bounded by its time limit, and the spinning of the semaphore by the constant of the code.  Endless loops of threads are modelled by
  their body, and by runs over lists of what each pass meets.  The loops of the YAML parser, which grow and shrink a stack, take fuel:
  twice the number of characters of the text, and two.  This is enough for every text, by the theorem on the end of the parser.

  \<^bold>\<open>Not modelled.\<close>  The Python processes of the agent and the controller, other than the reader of the ring, the sending of reports and their
  storing, are I/O around the measurements.  \<^verbatim>\<open>spdlog\<close> and \<^verbatim>\<open>fmt\<close> are third-party code for log lines, which are left out.  Of \<^verbatim>\<open>fkyaml\<close>, anchors and aliases,
  the tags that nodes keep, the lines in its messages and its serializer, which the programs do not use, are not modelled; the RDMA scheduler and the loading of an
  address store take a parsed document as a parameter, and \<open>Pw_PinglistFile\<close> joins the parser and the TCP/UDP scheduler.  The memory model of the processor is not modelled: queue and semaphore interleave sequentially consistent
  accesses, the other theories use the operations of the queue as atomic, and the mutexes of the tables make their methods atomic.
\<close>

section \<open>A ping over RDMA, end to end\<close>

text \<open>The server has no other ping waiting and does not know this one.\<close>

definition can_answer :: "verbs_env \<Rightarrow> time_point \<Rightarrow> rdma_pingmsg_t \<Rightarrow> RdmaServerQueue \<Rightarrow> rdma_context \<Rightarrow> PingMsgMap \<Rightarrow> bool" where
  "can_answer env now m q ctx_tx table \<longleftrightarrow>
     brwq_inv q \<and> brwq_pending q = [] \<and> 0 < brwq_room q
     \<and> ctx_inv ctx_tx \<and> rc_rnic_hw_ts ctx_tx
     \<and> ve_ah_ok env \<and> ve_post_ok env \<and> ah_for (ve_uninit env) ctx_tx (client_addr m)
     \<and> (\<exists>t0 \<le> now. msg_table_inv t0 table) \<and> entries table (pm_pingid m) = None"

definition good_wc :: "wc_opcode \<Rightarrow> ibv_wc \<Rightarrow> bool" where
  "good_wc op wc \<longleftrightarrow> wc_success wc \<and> wc_op wc = op \<and> (op = IBV_WC_RECV \<longrightarrow> unat (wc_wr_id wc) < NUM_BUFFER)"

text \<open>
  The true times of a ping: on the steady clock of the client it is recorded at \<open>t_send\<close> and its PONG handled at
  \<open>t_recv\<close>; on the adapter of the client it leaves at \<open>h_send\<close> and the PONG arrives at \<open>h_recv\<close>; on the
  adapter of the server it arrives at \<open>g_recv\<close> and the PONG leaves at \<open>g_send\<close>.
\<close>

record ping_times =
  t_send :: nat
  t_recv :: nat
  h_send :: nat
  h_recv :: nat
  g_recv :: nat
  g_send :: nat

definition plausible :: "ping_times \<Rightarrow> bool" where
  "plausible T \<longleftrightarrow> t_send T \<le> t_recv T \<and> t_recv T - t_send T < 2 ^ 32
     \<and> h_send T \<le> h_recv T \<and> h_recv T - h_send T \<le> t_recv T - t_send T
     \<and> g_recv T \<le> g_send T \<and> g_send T - g_recv T < h_recv T - h_send T
     \<and> h_send T mod 2 ^ 64 \<noteq> 0 \<and> h_recv T mod 2 ^ 64 \<noteq> 0"

definition times_read :: "ping_times \<Rightarrow> rdma_tx_env \<Rightarrow> ibv_wc \<Rightarrow> ibv_wc \<Rightarrow> ibv_wc \<Rightarrow> ibv_wc \<Rightarrow> bool" where
  "times_read T env sent pong_in ping_in pong_out \<longleftrightarrow>
     convert_clock_to_ns (re_steady_now env) = of_nat (t_send T)
     \<and> get_current_timestamp_ns (wc_now pong_in) = of_nat (t_recv T)
     \<and> wc_completion_ts sent = of_nat (h_send T) \<and> wc_completion_ts pong_in = of_nat (h_recv T)
     \<and> wc_completion_ts ping_in = of_nat (g_recv T) \<and> wc_completion_ts pong_out = of_nat (g_send T)"

definition result_is :: "u64 \<Rightarrow> u32 \<Rightarrow> ping_times \<Rightarrow> rdma_result_msg_t \<Rightarrow> bool" where
  "result_is pingid ip T r \<longleftrightarrow> rr_pingid r = pingid \<and> rr_dstip r = ip \<and> rr_result r = PINGWEAVE_RESULT_SUCCESS
     \<and> unat (rr_server_delay r) = g_send T - g_recv T
     \<and> unat (rr_network_delay r) = (h_recv T - h_send T) - (g_send T - g_recv T)
     \<and> unat (rr_client_delay r) = (t_recv T - t_send T) - (h_recv T - h_send T)"

lemma nonzero_of_nat: "x mod 2 ^ 64 \<noteq> 0 \<Longrightarrow> (of_nat x :: u64) \<noteq> 0"
  by (simp add: word_eq_iff_unsigned unsigned_of_nat take_bit_eq_mod unat_eq_0 [symmetric] unat_of_nat del: unat_eq_0)

lemma server_delay_exact:
  assumes "plausible T"
  shows "unat (calc_time_delta_with_modulo (of_nat (g_recv T)) (of_nat (g_send T)) PINGWEAVE_TIME_CALC_MODULO)
    = g_send T - g_recv T"
  using assms by (intro delta_modulo_exact unat_of_nat_mod) (auto simp: plausible_def)

text \<open>What the client makes of the three events.\<close>

lemma client_completes:
  assumes inv: "rd_inv t0 table" and e: "entries (rd_table table) (pm_pingid m) = Some e" "entry_value e = rd_entry m dst_ip sys steady"
    and room: "length (brwq_pending (rd_queue table)) < brwq_room (rd_queue table)"
    and ctx: "ctx_inv ctx_rx" "rc_rnic_hw_ts ctx_rx"
    and wc: "good_wc IBV_WC_SEND c1" "wc_wr_id c1 = pm_pingid m" "good_wc IBV_WC_RECV c2" "good_wc IBV_WC_RECV c3"
    and grh: "length grh2 = GRH_SIZE" "length grh3 = GRH_SIZE"
    and T: "plausible T" "convert_clock_to_ns steady = of_nat (t_send T)" "get_current_timestamp_ns (wc_now c2) = of_nat (t_recv T)"
      "wc_completion_ts c1 = of_nat (h_send T)" "wc_completion_ts c2 = of_nat (h_recv T)" "unat sd = g_send T - g_recv T"
    and es: "mset es = {#Sent c1, Arrives grh2 (pong_of (pm_pingid m)) c2, Arrives grh3 (ack_of (pm_pingid m) sd) c3#}"
  shows "\<exists>r. brwq_pending (rd_queue (snd (client_events uninit es (ctx_rx, table)))) = brwq_pending (rd_queue table) @ [r]
    \<and> result_is (pm_pingid m) (ip2uint uninit dst_ip) T r
    \<and> entries (rd_table (snd (client_events uninit es (ctx_rx, table)))) (pm_pingid m) = None"
proof -
  let ?pid = "pm_pingid m"
  let ?ev = "\<lambda>e. snd (the (table_event e))"
  let ?x = "of_nat (h_send T) :: u64" and ?rt = "of_nat (t_recv T) :: u64" and ?ct = "of_nat (h_recv T) :: u64"
  have te: "table_event (Sent c1) = Some (?pid, CQE ?x)" "table_event (Arrives grh2 (pong_of ?pid) c2) = Some (?pid, PONG ?rt ?ct)"
    "table_event (Arrives grh3 (ack_of ?pid sd) c3) = Some (?pid, ACK sd)"
    using wc T by (simp_all add: pong_of_def ack_of_def PINGWEAVE_OPCODE_PONG_def PINGWEAVE_OPCODE_ACK_def)
  have set: "set es = {Sent c1, Arrives grh2 (pong_of ?pid) c2, Arrives grh3 (ack_of ?pid sd) c3}"
    using arg_cong [OF es, of set_mset] by simp
  have ok: "\<forall>e \<in> set es. event_ok e"
    unfolding set using wc grh by (auto simp: good_wc_def pong_of_def ack_of_def)
  have evs: "map table_event es = map (\<lambda>ev. Some (?pid, ev)) (map ?ev es)"
    using te by (auto simp: set simp del: table_event.simps)
  have ms: "mset (map ?ev es) = {#CQE ?x, PONG ?rt ?ct, ACK sd#}"
    using te by (simp add: es mset_map [symmetric] del: table_event.simps)
  have z: "?x \<noteq> 0" "?ct \<noteq> 0" using T(1) nonzero_of_nat by (auto simp: plausible_def)
  have fr: "fresh_entry (entry_value e)" by (simp add: e(2) fresh_entry_def rd_entry_def)
  let ?p = "completed ?x ?rt ?ct sd (entry_value e)"
  let ?r = "rd_result uninit ?p (verdict ?p)"
  have run: "snd (client_events uninit es (ctx_rx, table)) =
      \<lparr>rd_table = snd (table_remove ?pid (rd_table table)), rd_queue = offer ?r (rd_queue table)\<rparr>"
    using events_any_order [OF inv e(1) fr z ms, of uninit] unfolding client_events_eq [OF ctx ok evs] by (simp add: Let_def)
  have D: "rr_result ?r = PINGWEAVE_RESULT_SUCCESS" "unat (rr_network_delay ?r) = h_recv T - h_send T - unat sd"
      "unat (rr_client_delay ?r) = (t_recv T - t_send T) - (h_recv T - h_send T)"
    using delays_exact [of "entry_value e" "t_send T" "t_recv T" "h_send T" "h_recv T" sd ?p ?r uninit] T
    by (simp_all add: plausible_def e(2) rd_entry_def)
  have "result_is ?pid (ip2uint uninit dst_ip) T ?r"
    unfolding result_is_def D using T(6) by (simp add: rd_result_def completed_def e(2) rd_entry_def)
  moreover have "brwq_pending (offer ?r (rd_queue table)) = brwq_pending (rd_queue table) @ [?r]"
    using inv room by (intro offer_pending) (simp_all add: rd_inv_def)
  moreover have "entries (snd (table_remove ?pid (rd_table table))) ?pid = None"
    using table_find_remove [of ?pid ?pid "rd_table table"] by (simp add: table_find_def)
  ultimately show ?thesis unfolding run by simp
qed

text \<open>
  C1: a ping over RDMA, end to end.  The scheduling thread of the client posts and records a ping; the data it
  posted arrives at the server, whose three threads post a PONG and an ACK; the completion of the
  ping, the PONG and the ACK reach the client in any order.  Then the result queue of the client has exactly one more
  result, a success for this ping and its destination, with the server's delay as its adapter saw it, the network's
  as the rest of the round trip between the adapters, and the client's as the rest of the round trip in
  software; the ping is no longer in the table of the client, nor in that of the server.
\<close>

theorem rdma_ping_round_trip:
  assumes "next_ping env t = Some (dst_ip, d)" and "can_ping uninit me env t ctx_tx d table"
    and "ping_of uninit me (rt_ping_uid t) (re_msg_time env) = m"
    and "can_answer senv now' m q sctx_tx srv" and "ctx_inv sctx_rx" and "rc_rnic_hw_ts sctx_rx"
    and "ctx_inv ctx_rx" and "rc_rnic_hw_ts ctx_rx"
    and "good_wc IBV_WC_RECV ping_in" and "good_wc IBV_WC_SEND pong_out" and "wc_wr_id pong_out = pm_pingid m"
    and "good_wc IBV_WC_SEND sent" and "wc_wr_id sent = pm_pingid m"
    and "good_wc IBV_WC_RECV pong_in" and "good_wc IBV_WC_RECV ack_in"
    and "length grh1 = GRH_SIZE" and "length grh2 = GRH_SIZE" and "length grh3 = GRH_SIZE"
    and "plausible T" and "times_read T env sent pong_in ping_in pong_out"
  shows "\<exists>t1 ctx1 table1 wr sctx_rx' q1 s2 wr1 ctx3 srv3 wr2.
      rdma_client_tx_step uninit me env t ctx_tx table = Some (t1, ctx1, table1) \<and> rc_sq ctx1 = rc_sq ctx_tx @ [wr]
    \<and> server_process_rx_cqe repost (Polled [ping_in]) 0
        (adapter_write (wc_wr_id ping_in) (grh1 @ wr_data ctx1 wr) sctx_rx, q) = ((sctx_rx', q1), None)
    \<and> rdma_server_tx_step senv now now' \<lparr>st_ping_msg = u, st_ctx = sctx_tx, st_queue = q1, st_table = srv\<rparr> = (s2, None)
    \<and> rc_sq (st_ctx s2) = rc_sq sctx_tx @ [wr1]
    \<and> server_process_tx_cqe senv (Polled [pong_out]) 0 (st_ctx s2, st_table s2) = ((ctx3, srv3), None)
    \<and> rc_sq ctx3 = rc_sq sctx_tx @ [wr1, wr2] \<and> entries srv3 (pm_pingid m) = None
    \<and> (\<forall>es. mset es = {#Sent sent, Arrives grh2 (wr_data (st_ctx s2) wr1) pong_in, Arrives grh3 (wr_data ctx3 wr2) ack_in#} \<longrightarrow>
        (\<exists>r. brwq_pending (rd_queue (snd (client_events uninit es (ctx_rx, table1)))) = brwq_pending (rd_queue table1) @ [r]
           \<and> result_is (pm_pingid m) (ip2uint uninit dst_ip) T r
           \<and> entries (rd_table (snd (client_events uninit es (ctx_rx, table1)))) (pm_pingid m) = None))"
proof -
  note m = assms(3)
  obtain t1 ctx1 table1 wr e where P: "rdma_client_tx_step uninit me env t ctx_tx table = Some (t1, ctx1, table1)"
      "rc_sq ctx1 = rc_sq ctx_tx @ [wr]" "wr_data ctx1 wr = rdma_pingmsg_bytes m" "rd_inv (re_steady_now env) table1"
      "length (brwq_pending (rd_queue table1)) < brwq_room (rd_queue table1)" "entries (rd_table table1) (pm_pingid m) = Some e"
      "entry_value e = rd_entry m dst_ip (re_system_now env) (re_steady_now env)"
    using client_posts [OF assms(1,2)] unfolding m by blast
  have gid: "length (pm_gid m) = 16" and ip: "ip2uint uninit (ci_ipv4 me) \<noteq> 0"
    using assms(2) by (auto simp: m [symmetric] ping_of_def can_ping_def)
  have nz: "pm_pingid m \<noteq> PINGWEAVE_WRID_PONG_ACK"
    using make_pingid_gt_ack [OF ip, of "rt_ping_uid t"] by (auto simp: m [symmetric] ping_of_def)
  obtain s0 where A: "brwq_inv q" "brwq_pending q = []" "0 < brwq_room q" "ctx_inv sctx_tx" "ve_ah_ok senv" "ve_post_ok senv"
      "ah_for (ve_uninit senv) sctx_tx (client_addr m)" "msg_table_inv s0 srv" "s0 \<le> now'" "entries srv (pm_pingid m) = None"
      and hw: "rc_rnic_hw_ts sctx_tx" using assms(4) by (auto simp: can_answer_def)
  have W: "wc_success ping_in" "wc_op ping_in = IBV_WC_RECV" "unat (wc_wr_id ping_in) < NUM_BUFFER" "wc_success pong_out" "wc_op pong_out = IBV_WC_SEND"
    using assms(9,10) by (auto simp: good_wc_def)
  let ?rx = "adapter_write (wc_wr_id ping_in) (grh1 @ wr_data ctx1 wr) sctx_rx"
  obtain rest where b: "rc_buf ?rx ! unat (wc_wr_id ping_in) = grh1 @ rdma_pingmsg_bytes m @ rest"
    using adapter_write_read [OF assms(5) W(3), of "grh1 @ wr_data ctx1 wr"] P(3) by auto
  define sd where "sd = calc_time_delta_with_modulo (of_nat (g_recv T)) (of_nat (g_send T)) PINGWEAVE_TIME_CALC_MODULO"
  have sd: "calc_time_delta_with_modulo (completion_time (rc_rnic_hw_ts ?rx) ping_in) (completion_time (rc_rnic_hw_ts sctx_tx) pong_out)
      PINGWEAVE_TIME_CALC_MODULO = sd"
    using assms(6,20) hw by (simp add: completion_time_def sd_def times_read_def)
  let ?ack = "sample_wc IBV_WC_SEND PINGWEAVE_WRID_PONG_ACK 0"
  have K: "wc_op ?ack = IBV_WC_SEND" "wc_wr_id ?ack = PINGWEAVE_WRID_PONG_ACK" by (simp_all add: sample_wc_def)
  let ?wr1 = "posted sctx_tx (client_addr m) (pong_of (pm_pingid m)) (buf_of (pm_pingid m) sctx_tx) (pm_pingid m)"
  let ?wr2 = "posted sctx_tx (client_addr m) (ack_of (pm_pingid m) sd) (buf_of (pm_pingid m) sctx_tx) PINGWEAVE_WRID_PONG_ACK"
  obtain sctx_rx' q1 s2 ctx3 srv3 where S: "server_process_rx_cqe repost (Polled [ping_in]) 0 (?rx, q) = ((sctx_rx', q1), None)"
      "rdma_server_tx_step senv now now' \<lparr>st_ping_msg = u, st_ctx = sctx_tx, st_queue = q1, st_table = srv\<rparr> = (s2, None)"
      "rc_sq (st_ctx s2) = rc_sq sctx_tx @ [?wr1]" "wr_data (st_ctx s2) ?wr1 = pong_of (pm_pingid m)"
      "server_process_tx_cqe senv (Polled [pong_out]) 0 (st_ctx s2, st_table s2) = ((ctx3, srv3), None)"
      "rc_sq ctx3 = rc_sq sctx_tx @ [?wr1, ?wr2]" "wr_data ctx3 ?wr2 = ack_of (pm_pingid m) sd" "entries srv3 (pm_pingid m) = None"
    using server_answers [OF b assms(16) gid W(1,2) A nz W(4,5) assms(11) K refl refl refl refl, unfolded sd, of repost now u]
    by (elim exE conjE) (rule that)
  have tr: "convert_clock_to_ns (re_steady_now env) = of_nat (t_send T)" "get_current_timestamp_ns (wc_now pong_in) = of_nat (t_recv T)"
    "wc_completion_ts sent = of_nat (h_send T)" "wc_completion_ts pong_in = of_nat (h_recv T)"
    using assms(20) by (simp_all add: times_read_def)
  note fin = client_completes [OF P(4,6,7,5) assms(7,8,12-15,17,18,19) tr server_delay_exact [OF assms(19), folded sd_def]]
  show ?thesis
    by (intro exI [of _ t1] exI [of _ ctx1] exI [of _ table1] exI [of _ wr] exI [of _ sctx_rx'] exI [of _ q1] exI [of _ s2]
        exI [of _ ?wr1] exI [of _ ctx3] exI [of _ srv3] exI [of _ ?wr2] conjI allI impI P(1,2) S(1-3,5,6,8))
      (simp only: S(4,7), rule fin)
qed

definition sample_rdma_tx :: rdma_tx where
  "sample_rdma_tx = \<lparr>rt_scheduler = sample_rdma_sched\<lparr>inter_ping_interval_us := 1,
     addressInfo := [(''10.0.0.2'', replicate 32 (CHR ''0''), 3, 11)]\<rparr>, rt_ping_uid = 5\<rparr>"

definition sample_rdma_env :: rdma_tx_env where
  "sample_rdma_env = \<lparr>re_doc = None, re_store = None, re_load_now = 1000, re_ping_now = 1000, re_expire_now = 2000,
     re_steady_now = 3000, re_system_now = 77, re_posted_now = 3500, re_v32 = 0, re_msg_time = 0, re_verbs = sample_verbs\<rparr>"

definition sample_me :: rdma_client_id where
  "sample_me = \<lparr>ci_ipv4 = ''10.0.0.1'', ci_rx_gid = replicate 16 0, ci_rx_lid = 2, ci_rx_qpn = 10\<rparr>"

definition sample_times :: ping_times where
  "sample_times = \<lparr>t_send = 3000, t_recv = 9000, h_send = 500, h_recv = 4500, g_recv = 4294967290, g_send = 4294967396\<rparr>"

abbreviation "sample_rd_new \<equiv> RdmaPinginfoMap_new (brwq_new MSG_QUEUE_SIZE) 1000"
abbreviation "sample_dst \<equiv> \<lparr>ra_qpn = 11, ra_gid = replicate 16 0, ra_lid = 3\<rparr>"
abbreviation "sample_pid \<equiv> make_pingid (ip2uint 0 ''10.0.0.1'') 5"
abbreviation "sample_rm \<equiv> ping_of 0 sample_me (rt_ping_uid sample_rdma_tx) (re_msg_time sample_rdma_env)"

lemma sample_next_ping: "next_ping sample_rdma_env sample_rdma_tx = Some (''10.0.0.2'', sample_dst)"
proof -
  have "wire_gid_to_gid 0 (replicate 32 (CHR ''0'')) = Some (replicate 16 0)" by code_simp
  then show ?thesis
    by (simp add: next_ping_def sample_rdma_env_def sample_rdma_tx_def sample_rdma_sched_def rdma_next_def load_due_def
        pick_next_def Let_def duration_cast_def ns_per_us_def ns_per_s_def signed_divide_int_def)
qed

lemma sample_can_ping: "can_ping 0 sample_me sample_rdma_env sample_rdma_tx sample_server_ctx sample_dst sample_rd_new"
proof -
  have room: "length (brwq_pending (rd_queue sample_rd_new)) + length (keys (rd_table sample_rd_new)) < brwq_room (rd_queue sample_rd_new)"
    using rd_new_view(2) [of 1000] brwq_new_inv(2) [where 'a = rdma_result_msg_t] by (simp add: rd_new_view MSG_QUEUE_SIZE_def)
  have "ip2uint 0 (ci_ipv4 sample_me) \<noteq> 0" by (simp add: sample_me_def ip2uint_def sample_addresses)
  then show ?thesis
    using room rd_inv_new [of 0 1000] sample_server_ctx_inv
    by (auto simp: can_ping_def sample_me_def sample_rdma_env_def sample_verbs_def rd_new_view sample_server_ctx_def intro: exI [of _ 0])
qed

lemma sample_can_answer: "can_answer sample_verbs 6 sample_rm (brwq_new MSG_QUEUE_SIZE) sample_server_ctx (PingMsgMap_new 1000)"
  using brwq_new_inv [where 'a = rdma_pingmsg_t] PingMsgMap_new_facts(1) [of 0 1000] PingMsgMap_new_facts(2) [of 1000] sample_server_ctx_inv
  by (auto simp: can_answer_def sample_verbs_def MSG_QUEUE_SIZE_def sample_server_ctx_def intro: exI [of _ 0])

theorem rdma_ping_round_trip_witness:
  "\<exists>t1 ctx1 table1 wr s2 wr1 ctx3 srv3 wr2 q1 r.
      rdma_client_tx_step 0 sample_me sample_rdma_env sample_rdma_tx sample_server_ctx sample_rd_new = Some (t1, ctx1, table1)
    \<and> rc_sq ctx1 = [wr]
    \<and> rdma_server_tx_step sample_verbs 5 6 \<lparr>st_ping_msg = sample_msg, st_ctx = sample_server_ctx, st_queue = q1, st_table = PingMsgMap_new 1000\<rparr>
        = (s2, None)
    \<and> server_process_tx_cqe sample_verbs (Polled [sample_wc IBV_WC_SEND sample_pid 4294967396]) 0 (st_ctx s2, st_table s2)
        = ((ctx3, srv3), None) \<and> rc_sq ctx3 = [wr1, wr2]
    \<and> last (brwq_pending (rd_queue (snd (client_events 0
          [Arrives (replicate GRH_SIZE 0) (wr_data ctx3 wr2) (sample_wc IBV_WC_RECV 2 4600),
           Arrives (replicate GRH_SIZE 0) (wr_data (st_ctx s2) wr1) ((sample_wc IBV_WC_RECV 1 4500)\<lparr>wc_now := 9000\<rparr>),
           Sent (sample_wc IBV_WC_SEND sample_pid 500)] (sample_server_ctx, table1))))) = r
    \<and> rr_result r = PINGWEAVE_RESULT_SUCCESS
    \<and> unat (rr_network_delay r) = 3894 \<and> unat (rr_server_delay r) = 106 \<and> unat (rr_client_delay r) = 2000"
proof -
  let ?ping_in = "sample_wc IBV_WC_RECV 0 4294967290" and ?pong_out = "sample_wc IBV_WC_SEND sample_pid 4294967396"
    and ?sent = "sample_wc IBV_WC_SEND sample_pid 500" and ?pong_in = "(sample_wc IBV_WC_RECV 1 4500)\<lparr>wc_now := 9000\<rparr>"
    and ?ack_in = "sample_wc IBV_WC_RECV 2 4600" and ?grh = "replicate GRH_SIZE 0 :: bytes"
  have pid: "pm_pingid sample_rm = sample_pid" by (simp add: ping_of_def sample_me_def sample_rdma_tx_def)
  have hw: "rc_rnic_hw_ts sample_server_ctx" "rc_sq sample_server_ctx = []" by (simp_all add: sample_server_ctx_def)
  have w: "good_wc IBV_WC_RECV ?ping_in" "good_wc IBV_WC_SEND ?pong_out" "good_wc IBV_WC_SEND ?sent"
    "good_wc IBV_WC_RECV ?pong_in" "good_wc IBV_WC_RECV ?ack_in"
    "wc_wr_id ?pong_out = pm_pingid sample_rm" "wc_wr_id ?sent = pm_pingid sample_rm"
    unfolding pid by (simp_all add: good_wc_def sample_wc_def NUM_BUFFER_def)
  have g: "length ?grh = GRH_SIZE" by simp
  have p: "plausible sample_times" by (simp add: plausible_def sample_times_def)
  have tr: "times_read sample_times sample_rdma_env ?sent ?pong_in ?ping_in ?pong_out"
    by (simp add: times_read_def sample_times_def sample_rdma_env_def sample_wc_def get_current_timestamp_ns_def
        convert_clock_to_ns_def duration_cast_def signed_divide_int_def)
  note inv = sample_server_ctx_inv(1)
  obtain t1 ctx1 table1 wr sctx_rx' q1 s2 wr1 ctx3 srv3 wr2 where
      P: "rdma_client_tx_step 0 sample_me sample_rdma_env sample_rdma_tx sample_server_ctx sample_rd_new = Some (t1, ctx1, table1)"
        "rc_sq ctx1 = rc_sq sample_server_ctx @ [wr]"
      and S: "rdma_server_tx_step sample_verbs 5 6
          \<lparr>st_ping_msg = sample_msg, st_ctx = sample_server_ctx, st_queue = q1, st_table = PingMsgMap_new 1000\<rparr> = (s2, None)"
        "server_process_tx_cqe sample_verbs (Polled [?pong_out]) 0 (st_ctx s2, st_table s2) = ((ctx3, srv3), None)"
        "rc_sq ctx3 = rc_sq sample_server_ctx @ [wr1, wr2]"
      and E: "\<forall>es. mset es = {#Sent ?sent, Arrives ?grh (wr_data (st_ctx s2) wr1) ?pong_in, Arrives ?grh (wr_data ctx3 wr2) ?ack_in#} \<longrightarrow>
        (\<exists>r. brwq_pending (rd_queue (snd (client_events 0 es (sample_server_ctx, table1)))) = brwq_pending (rd_queue table1) @ [r]
           \<and> result_is (pm_pingid sample_rm) (ip2uint 0 ''10.0.0.2'') sample_times r
           \<and> entries (rd_table (snd (client_events 0 es (sample_server_ctx, table1)))) (pm_pingid sample_rm) = None)"
    using rdma_ping_round_trip [OF sample_next_ping sample_can_ping refl sample_can_answer inv hw(1) inv hw(1) w(1,2,6,3,7,4,5) g g g p tr,
        of "\<lambda>_. True" 5 sample_msg] by (elim exE conjE) (rule that)
  let ?es = "[Arrives ?grh (wr_data ctx3 wr2) ?ack_in, Arrives ?grh (wr_data (st_ctx s2) wr1) ?pong_in, Sent ?sent]"
  have "mset ?es = {#Sent ?sent, Arrives ?grh (wr_data (st_ctx s2) wr1) ?pong_in, Arrives ?grh (wr_data ctx3 wr2) ?ack_in#}"
    by (simp add: add_mset_commute)
  with E obtain r where r: "brwq_pending (rd_queue (snd (client_events 0 ?es (sample_server_ctx, table1)))) = brwq_pending (rd_queue table1) @ [r]"
      "result_is (pm_pingid sample_rm) (ip2uint 0 ''10.0.0.2'') sample_times r" by blast
  have R: "rr_result r = PINGWEAVE_RESULT_SUCCESS" "unat (rr_network_delay r) = 3894" "unat (rr_server_delay r) = 106"
    "unat (rr_client_delay r) = 2000" using r(2) by (simp_all add: result_is_def sample_times_def)
  have l: "last (brwq_pending (rd_queue (snd (client_events 0 ?es (sample_server_ctx, table1))))) = r" by (simp only: r(1)) simp
  show ?thesis using P S R l hw(2)
    by (intro exI [of _ t1] exI [of _ ctx1] exI [of _ table1] exI [of _ wr] exI [of _ s2] exI [of _ wr1] exI [of _ ctx3] exI [of _ srv3]
        exI [of _ wr2] exI [of _ q1] exI [of _ r] conjI) (simp_all del: client_events.simps)
qed

end
